(* ===== verification/Prelude.thy ===== *)
theory Prelude
  imports Main "HOL-Library.Word"
begin

text \<open>
  Vocabulary shared by every component: machine integers, I/O errors, the outcome of a call
  (value, \<open>Err\<close>, panic, non-termination), sequencing of calls that thread a state, and the
  lemmas on byte lists that the buffer proofs share.

  Conventions. \<open>usize\<close> is 64 bits wide. Lengths and slab keys are \<open>nat\<close>: they count
  bytes or slots that exist in memory and never reach \<open>2 ^ 64\<close>; numbers that are counters or
  bit patterns (tokens, sequence numbers, the connection counter) are words. \<open>BytesMut\<close>,
  \<open>Bytes\<close> and slices are byte lists.
\<close>

named_theorems keeps_intros \<open>introduction rules for invariants of stateful programs\<close>
named_theorems byte_simps \<open>equations on byte lists and lists of chunks\<close>

type_synonym byte = "8 word"
type_synonym bytes = "byte list"
type_synonym u8 = "8 word"
type_synonym u32 = "32 word"
type_synonym i64 = "64 word"
type_synonym usize = "64 word"

subsection \<open>Errors and outcomes\<close>

text \<open>
  The kinds of \<open>std::io::ErrorKind\<close> that the code names, and one constructor for all those it
  treats alike. A message is kept because two components build errors with fixed messages.
\<close>

datatype error_kind =
    WouldBlock
  | Interrupted
  | WriteZero
  | InvalidInput
  | InvalidData
  | AddrNotAvailable
  | OtherKind
  | OsKind nat

datatype io_error = IoError (err_kind: error_kind) (err_msg: string)

text \<open>
  \<open>Panic\<close> is a Rust panic (the release profile aborts on it); \<open>Diverge\<close> is a loop that
  never returns.
\<close>

datatype 'a outcome = Ok 'a | Err io_error | Panic | Diverge

type_synonym ('a, 's) prog = "'s \<Rightarrow> 'a outcome \<times> 's"

definition ret :: "'a \<Rightarrow> ('a, 's) prog" where
  "ret x s = (Ok x, s)"

definition raise :: "io_error \<Rightarrow> ('a, 's) prog" where
  "raise e s = (Err e, s)"

text \<open>The \<open>?\<close> operator: go on with the value, or leave with what happened.\<close>

definition bind_io :: "('a, 's) prog \<Rightarrow> ('a \<Rightarrow> ('b, 's) prog) \<Rightarrow> ('b, 's) prog" where
  "bind_io m f s =
     (case m s of
        (Ok x, s') \<Rightarrow> f x s'
      | (Err e, s') \<Rightarrow> (Err e, s')
      | (Panic, s') \<Rightarrow> (Panic, s')
      | (Diverge, s') \<Rightarrow> (Diverge, s'))"

text \<open>\<open>let _ = m;\<close>: an error is dropped, a panic or divergence is not.\<close>

definition discard_result :: "('a, 's) prog \<Rightarrow> (unit, 's) prog" where
  "discard_result m s =
     (case m s of
        (Ok x, s') \<Rightarrow> (Ok (), s')
      | (Err e, s') \<Rightarrow> (Ok (), s')
      | (Panic, s') \<Rightarrow> (Panic, s')
      | (Diverge, s') \<Rightarrow> (Diverge, s'))"

definition is_ok :: "'a outcome \<Rightarrow> bool" where
  "is_ok r = (case r of Ok _ \<Rightarrow> True | _ \<Rightarrow> False)"

text \<open>
  A program keeps an invariant when it ends in it, and panics only in states of \<open>X\<close>; mostly there are none.
\<close>

definition keeps_but :: "('s \<Rightarrow> bool) \<Rightarrow> ('s \<Rightarrow> bool) \<Rightarrow> ('a, 's) prog \<Rightarrow> bool" where
  "keeps_but X I m \<longleftrightarrow> (\<forall>s. I s \<longrightarrow> (fst (m s) = Panic \<longrightarrow> X (snd (m s))) \<and> I (snd (m s)))"

abbreviation keeps :: "('s \<Rightarrow> bool) \<Rightarrow> ('a, 's) prog \<Rightarrow> bool" where
  "keeps \<equiv> keeps_but (\<lambda>_. False)"

text \<open>
  The general form: from \<open>P\<close> there is no panic, a value leaves \<open>Q\<close>, and an error (or a loop
  that does not return) leaves \<open>E\<close>.
\<close>

definition triple :: "('s \<Rightarrow> bool) \<Rightarrow> ('a, 's) prog \<Rightarrow> ('a \<Rightarrow> 's \<Rightarrow> bool) \<Rightarrow> ('s \<Rightarrow> bool) \<Rightarrow> bool" where
  "triple P m Q E \<longleftrightarrow>
     (\<forall>s. P s \<longrightarrow>
        (case m s of (Ok x, s') \<Rightarrow> Q x s' | (Panic, s') \<Rightarrow> False | (Err e, s') \<Rightarrow> E s' | (Diverge, s') \<Rightarrow> E s'))"

text \<open>\<open>split_to\<close> and \<open>advance\<close> of the buffers panic past the end: \<open>None\<close>.\<close>

definition split_to :: "nat \<Rightarrow> bytes \<Rightarrow> (bytes \<times> bytes) option" where
  "split_to n b = (if n \<le> length b then Some (take n b, drop n b) else None)"

definition advance :: "nat \<Rightarrow> bytes \<Rightarrow> bytes option" where
  "advance n b = (if n \<le> length b then Some (drop n b) else None)"

text \<open>The optional buffer read as bytes, the optional queue read as a list of chunks.\<close>

definition opt_list :: "'a list option \<Rightarrow> 'a list" where
  "opt_list x = (case x of None \<Rightarrow> [] | Some xs \<Rightarrow> xs)"

subsection \<open>Lemmas\<close>

lemma is_ok_simps [simp]:
  "is_ok (Ok x)" "\<not> is_ok (Err e)" "\<not> is_ok Panic" "\<not> is_ok Diverge"
  by (simp_all add: is_ok_def)

lemma opt_list_simps [simp]: "opt_list None = []" "opt_list (Some xs) = xs"
  by (simp_all add: opt_list_def)

lemma opt_list_cleared [simp]: "opt_list (map_option (\<lambda>_. []) x) = []"
  by (cases x) simp_all

lemma bind_io_ret [simp]: "bind_io (ret x) f s = f x s"
  by (simp add: bind_io_def ret_def)

lemma bind_io_Ok: "m s = (Ok x, s') \<Longrightarrow> bind_io m f s = f x s'"
  by (simp add: bind_io_def)

lemma bind_io_Err: "m s = (Err e, s') \<Longrightarrow> bind_io m f s = (Err e, s')"
  by (simp add: bind_io_def)

lemma bind_io_OkE:
  assumes "bind_io m f s = (Ok y, s')"
  obtains x s1 where "m s = (Ok x, s1)" "f x s1 = (Ok y, s')"
  using assms by (auto simp: bind_io_def split: prod.splits outcome.splits)

lemma keeps_def: "keeps I m \<longleftrightarrow> (\<forall>s. I s \<longrightarrow> fst (m s) \<noteq> Panic \<and> I (snd (m s)))"
  by (simp add: keeps_but_def)

lemma keepsI:
  assumes "\<And>s. I s \<Longrightarrow> fst (m s) \<noteq> Panic" and "\<And>s. I s \<Longrightarrow> I (snd (m s))"
  shows "keeps I m"
  using assms by (auto simp: keeps_def)

lemma keepsD:
  assumes "keeps I m" and "I s"
  shows "fst (m s) \<noteq> Panic" and "I (snd (m s))"
  using assms by (auto simp: keeps_def)

lemma keeps_butI:
  assumes "\<And>s. I s \<Longrightarrow> fst (m s) = Panic \<Longrightarrow> X (snd (m s))" and "\<And>s. I s \<Longrightarrow> I (snd (m s))"
  shows "keeps_but X I m"
  using assms by (auto simp: keeps_but_def)

lemma keeps_butD:
  assumes "keeps_but X I m" and "I s"
  shows "fst (m s) = Panic \<Longrightarrow> X (snd (m s))" and "I (snd (m s))"
  using assms by (auto simp: keeps_but_def)

lemma keeps_but_mono: "keeps_but X I m \<Longrightarrow> (\<And>s. X s \<Longrightarrow> Y s) \<Longrightarrow> keeps_but Y I m"
  by (auto simp: keeps_but_def)

lemma keeps_but: "keeps I m \<Longrightarrow> keeps_but X I m"
  by (auto simp: keeps_but_def)

lemma keeps_ret [keeps_intros]: "keeps_but X I (ret x)"
  by (simp add: keeps_but_def ret_def)

lemma keeps_raise [keeps_intros]: "keeps_but X I (raise e)"
  by (simp add: keeps_but_def raise_def)

lemma tripleI:
  assumes "\<And>s r s'. P s \<Longrightarrow> m s = (r, s') \<Longrightarrow>
    (case r of Ok x \<Rightarrow> Q x s' | Panic \<Rightarrow> False | Err e \<Rightarrow> E s' | Diverge \<Rightarrow> E s')"
  shows "triple P m Q E"
  unfolding triple_def
proof (intro allI impI)
  fix s assume "P s"
  obtain r s' where ms: "m s = (r, s')" by (cases "m s")
  from assms [OF \<open>P s\<close> ms] ms
  show "case m s of (Ok x, s') \<Rightarrow> Q x s' | (Panic, s') \<Rightarrow> False | (Err e, s') \<Rightarrow> E s' | (Diverge, s') \<Rightarrow> E s'"
    by (cases r) simp_all
qed

lemma tripleD:
  assumes "triple P m Q E" and "P s" and "m s = (r, s')"
  shows "case r of Ok x \<Rightarrow> Q x s' | Panic \<Rightarrow> False | Err e \<Rightarrow> E s' | Diverge \<Rightarrow> E s'"
proof -
  note assms(1) [unfolded triple_def, rule_format, OF assms(2)]
  with assms(3) show ?thesis by (cases r) simp_all
qed

lemma keeps_triple: "keeps I m \<longleftrightarrow> triple I m (\<lambda>_. I) I"
proof
  assume k: "keeps I m"
  show "triple I m (\<lambda>_. I) I"
  proof (rule tripleI)
    fix s r s' assume "I s" "m s = (r, s')"
    with keepsD [OF k \<open>I s\<close>] show "case r of Ok x \<Rightarrow> I s' | Panic \<Rightarrow> False | Err e \<Rightarrow> I s' | Diverge \<Rightarrow> I s'"
      by (cases r) simp_all
  qed
next
  assume t: "triple I m (\<lambda>_. I) I"
  have "fst (m s) \<noteq> Panic \<and> I (snd (m s))" if "I s" for s
  proof (cases "m s")
    case (Pair r s')
    with tripleD [OF t that Pair] show ?thesis by (cases r) simp_all
  qed
  then show "keeps I m" by (simp add: keeps_def)
qed

lemma triple_bind:
  assumes m: "triple P m R E" and f: "\<And>x. triple (R x) (f x) Q E"
  shows "triple P (bind_io m f) Q E"
proof (rule tripleI)
  fix s r s' assume s: "P s" and b: "bind_io m f s = (r, s')"
  obtain r1 s1 where ms: "m s = (r1, s1)" by (cases "m s")
  from tripleD [OF m s ms] b ms show "case r of Ok x \<Rightarrow> Q x s' | Panic \<Rightarrow> False | Err e \<Rightarrow> E s' | Diverge \<Rightarrow> E s'"
    by (cases r1) (auto simp: bind_io_def dest: tripleD [OF f])
qed

lemma triple_discard:
  assumes m: "triple P m (\<lambda>_. Q) Q" and E: "\<And>s. Q s \<Longrightarrow> E s"
  shows "triple P (discard_result m) (\<lambda>_. Q) E"
proof (rule tripleI)
  fix s r s' assume s: "P s" and b: "discard_result m s = (r, s')"
  obtain r1 s1 where ms: "m s = (r1, s1)" by (cases "m s")
  from tripleD [OF m s ms] b ms E show "case r of Ok x \<Rightarrow> Q s' | Panic \<Rightarrow> False | Err e \<Rightarrow> E s' | Diverge \<Rightarrow> E s'"
    by (cases r1) (auto simp: discard_result_def)
qed

lemma triple_conseq:
  assumes m: "triple P' m Q' E'" and "\<And>s. P s \<Longrightarrow> P' s" and "\<And>x s. Q' x s \<Longrightarrow> Q x s" and "\<And>s. E' s \<Longrightarrow> E s"
  shows "triple P m Q E"
proof (rule tripleI)
  fix s r s' assume "P s" and ms: "m s = (r, s')"
  with assms(2) have "P' s" by simp
  from tripleD [OF m this ms] assms(3,4) show "case r of Ok x \<Rightarrow> Q x s' | Panic \<Rightarrow> False | Err e \<Rightarrow> E s' | Diverge \<Rightarrow> E s'"
    by (cases r) simp_all
qed

lemma keeps_bind_io [keeps_intros]:
  assumes m: "keeps_but X I m" and f: "\<And>x. keeps_but X I (f x)"
  shows "keeps_but X I (bind_io m f)"
  unfolding keeps_but_def
proof (intro allI impI)
  fix s assume s: "I s"
  obtain r s1 where ms: "m s = (r, s1)" by fastforce
  from keeps_butD [OF m s] ms have "r = Panic \<Longrightarrow> X s1" "I s1" by simp_all
  with ms keeps_butD [OF f] show "(fst (bind_io m f s) = Panic \<longrightarrow> X (snd (bind_io m f s))) \<and> I (snd (bind_io m f s))"
    by (cases r) (auto simp: bind_io_def)
qed

lemma keeps_discard_result [keeps_intros]:
  assumes m: "keeps_but X I m"
  shows "keeps_but X I (discard_result m)"
  unfolding keeps_but_def
proof (intro allI impI)
  fix s assume s: "I s"
  obtain r s1 where ms: "m s = (r, s1)" by fastforce
  from keeps_butD [OF m s] ms show "(fst (discard_result m s) = Panic \<longrightarrow> X (snd (discard_result m s))) \<and> I (snd (discard_result m s))"
    by (cases r) (auto simp: discard_result_def)
qed

lemma keeps_if [keeps_intros]: "(b \<Longrightarrow> keeps_but X I m) \<Longrightarrow> (\<not> b \<Longrightarrow> keeps_but X I m') \<Longrightarrow> keeps_but X I (if b then m else m')"
  by simp

lemma split_to_le [byte_simps]: "n \<le> length b \<Longrightarrow> split_to n b = Some (take n b, drop n b)"
  by (simp add: split_to_def)

lemma advance_le [byte_simps]: "n \<le> length b \<Longrightarrow> advance n b = Some (drop n b)"
  by (simp add: advance_def)

lemma take_append_split [byte_simps]:
  "n \<le> length xs \<Longrightarrow> take n (xs @ ys) = take n xs"
  "length xs \<le> n \<Longrightarrow> take n (xs @ ys) = xs @ take (n - length xs) ys"
  by simp_all

lemma drop_append_split [byte_simps]:
  "n \<le> length xs \<Longrightarrow> drop n (xs @ ys) = drop n xs @ ys"
  "length xs \<le> n \<Longrightarrow> drop n (xs @ ys) = drop (n - length xs) ys"
  by simp_all

lemma concat_replicate_Nil [simp]: "concat (replicate n []) = []"
  by (induction n) simp_all

end
