(* ===== verification/Gfd.thy ===== *)
theory Gfd
  imports Prelude
begin

unbundle bit_operations_syntax

text \<open>
  Model of \<open>src/gfd.rs\<close>: the global descriptor that names a connection across threads. It
  packs the loop number (8 bits) and the slab index (24 bits) into one word and carries a
  sequence number drawn from the process-wide counter \<open>MONO_SEQ\<close>, which is the state of
  \<open>Gfd_new\<close>.
\<close>

subsection \<open>Definitions\<close>

record gfd =
  g_seq :: u32
  g_index_info :: u32
  g_fd :: i64

text \<open>
  \<open>dbg\<close> says whether debug assertions are compiled in. \<open>fetch_add\<close> is atomic and wraps.
\<close>

definition Gfd_new :: "bool \<Rightarrow> i64 \<Rightarrow> u8 \<Rightarrow> usize \<Rightarrow> (gfd, u32) prog" where
  "Gfd_new dbg fd loop_id token mono_seq =
     (if dbg \<and> \<not> token < push_bit 24 1 then (Panic, mono_seq)
      else
        (Ok \<lparr>g_seq = mono_seq,
              g_index_info = push_bit 24 (ucast loop_id) OR (ucast token AND 0xFFFFFF),
              g_fd = fd\<rparr>,
         mono_seq + 1))"

definition event_loop_index :: "gfd \<Rightarrow> nat" where
  "event_loop_index g = unat (drop_bit 24 (g_index_info g))"

definition slab_index :: "gfd \<Rightarrow> nat" where
  "slab_index g = unat (g_index_info g AND 0xFFFFFF)"

definition validate :: "gfd \<Rightarrow> bool" where
  "validate g \<longleftrightarrow> 0 \<le> sint (g_fd g) \<and> 0 < g_seq g"

text \<open>The descriptors handed out by a run of calls, in the order of their \<open>fetch_add\<close>.\<close>

fun issue :: "(i64 \<times> u8 \<times> usize) list \<Rightarrow> u32 \<Rightarrow> gfd list" where
  "issue [] s = []"
| "issue ((fd, l, t) # reqs) s =
     (case Gfd_new False fd l t s of
        (Ok g, s') \<Rightarrow> g # issue reqs s'
      | (_, s') \<Rightarrow> issue reqs s')"

subsection \<open>Packing\<close>

lemma mask_24: "(0xFFFFFF :: 32 word) = mask 24"
  by (simp add: mask_eq_exp_minus_1)

lemma index_info_high: "drop_bit 24 (push_bit 24 (ucast (l :: u8)) OR (x AND 0xFFFFFF)) = (ucast l :: u32)"
  unfolding mask_24 by (rule bit_word_eqI) (auto simp: bit_simps dest: bit_imp_le_length)

lemma index_info_low: "(push_bit 24 (ucast (l :: u8)) OR (x AND 0xFFFFFF)) AND 0xFFFFFF = (x AND 0xFFFFFF :: u32)"
  unfolding mask_24 by (rule bit_word_eqI) (auto simp: bit_simps)

lemma unat_mask_24: "unat ((ucast (t :: usize) :: u32) AND 0xFFFFFF) = unat t mod 2 ^ 24"
proof -
  have "(ucast t :: u32) AND 0xFFFFFF = take_bit 24 (ucast t)"
    unfolding mask_24 by (simp add: take_bit_eq_mask)
  moreover have "unat (take_bit 24 (ucast t :: u32)) = take_bit 24 (unat t)"
    by (simp add: unsigned_take_bit_eq unsigned_ucast_eq)
  ultimately show ?thesis by (simp add: take_bit_eq_mod)
qed

lemma unat_ucast_u8 [simp]: "unat (ucast (l :: u8) :: u32) = unat l"
proof -
  have "unat l < 2 ^ 8" using unsigned_less [of l] by simp
  then show ?thesis by (simp add: unsigned_ucast_eq take_bit_eq_mod)
qed

lemma Gfd_new_fields:
  assumes "Gfd_new dbg fd l t s = (Ok g, s')"
  shows "event_loop_index g = unat l" and "slab_index g = unat t mod 2 ^ 24"
    and "g_fd g = fd" and "g_seq g = s" and "s' = s + 1"
proof -
  from assms have g: "g_index_info g = push_bit 24 (ucast l) OR (ucast t AND 0xFFFFFF)"
    and rest: "g_fd g = fd" "g_seq g = s" "s' = s + 1"
    by (auto simp: Gfd_new_def split: if_splits)
  show "event_loop_index g = unat l"
    unfolding event_loop_index_def g index_info_high by (rule unat_ucast_u8)
  show "slab_index g = unat t mod 2 ^ 24"
    unfolding slab_index_def g index_info_low by (rule unat_mask_24)
  show "g_fd g = fd" and "g_seq g = s" and "s' = s + 1" using rest .
qed

lemma token_mask: "t < push_bit 24 (1 :: usize) \<longleftrightarrow> unat t < 2 ^ 24"
  by (simp add: word_less_nat_alt)

text \<open>A descriptor is its four parts.\<close>

lemma index_info_eqI:
  assumes "drop_bit 24 x = drop_bit 24 (y :: u32)" and "x AND 0xFFFFFF = y AND 0xFFFFFF"
  shows "x = y"
proof -
  have "take_bit 24 x = take_bit 24 y" using assms(2) unfolding mask_24 take_bit_eq_mask .
  then have "push_bit 24 (drop_bit 24 x) + take_bit 24 x = push_bit 24 (drop_bit 24 y) + take_bit 24 y"
    by (simp only: assms(1))
  then show ?thesis by (simp only: bits_ident)
qed

lemma gfd_eqI:
  assumes "event_loop_index g = event_loop_index g'" and "slab_index g = slab_index g'" and "g_fd g = g_fd g'" and "g_seq g = g_seq g'"
  shows "g = g'"
proof -
  have "g_index_info g = g_index_info g'"
    using assms(1,2) unfolding event_loop_index_def slab_index_def by (rule index_info_eqI [OF unsigned_word_eqI unsigned_word_eqI])
  with assms(3,4) show ?thesis by (intro gfd.equality) simp_all
qed

subsection \<open>Sequence numbers\<close>

lemma length_issue [simp]: "length (issue reqs s) = length reqs"
  by (induction reqs s rule: issue.induct) (simp_all add: Gfd_new_def)

lemma issue_seqs: "map g_seq (issue reqs s) = map (\<lambda>i. s + of_nat i) [0..<length reqs]"
proof (induction reqs s rule: issue.induct)
  case (1 s)
  then show ?case by simp
next
  case (2 fd l t reqs s)
  have "[0..<Suc (length reqs)] = 0 # map Suc [0..<length reqs]"
    by (simp add: upt_conv_Cons map_Suc_upt del: upt_Suc)
  with 2 show ?case
    by (simp add: Gfd_new_def add.assoc)
qed

lemma of_nat_inj_u32: "i < 2 ^ 32 \<Longrightarrow> j < 2 ^ 32 \<Longrightarrow> (of_nat i :: u32) = of_nat j \<Longrightarrow> i = j"
  by (drule arg_cong [where f = unat]) (simp add: unat_of_nat)

subsection \<open>Properties\<close>

text \<open>
  C36: packing is faithful. A descriptor is built unless debug assertions are on and the slab index is
  \<open>2 ^ 24\<close> or more: exactly then the call panics, before the counter moves. The descriptor gives back the
  socket, the loop, the counter's value as its sequence number, and the slab index modulo \<open>2 ^ 24\<close> (so
  whole below that); the counter moves on by one and wraps. Nothing else tells descriptors apart.
\<close>

theorem gfd_packing:
  "if dbg \<and> 2 ^ 24 \<le> unat t then Gfd_new dbg fd l t s = (Panic, s)
   else \<exists>g. Gfd_new dbg fd l t s = (Ok g, s + 1) \<and> event_loop_index g = unat l \<and> slab_index g = unat t mod 2 ^ 24
     \<and> g_fd g = fd \<and> g_seq g = s
     \<and> (\<forall>g'. event_loop_index g' = unat l \<and> slab_index g' = unat t mod 2 ^ 24 \<and> g_fd g' = fd \<and> g_seq g' = s \<longrightarrow> g' = g)"
proof (cases "dbg \<and> 2 ^ 24 \<le> unat t")
  case True
  then show ?thesis unfolding Gfd_new_def token_mask by auto
next
  case False
  then obtain g where g: "Gfd_new dbg fd l t s = (Ok g, s + 1)" unfolding Gfd_new_def token_mask by auto
  note f = Gfd_new_fields [OF g]
  have "g' = g" if "event_loop_index g' = unat l \<and> slab_index g' = unat t mod 2 ^ 24 \<and> g_fd g' = fd \<and> g_seq g' = s" for g'
    using that f by (intro gfd_eqI) (simp_all only:)
  with g f show ?thesis unfolding if_not_P [OF False] by blast
qed

lemma gfd_packing_witness:
  "Gfd_new True 100 5 (2 ^ 24) 7 = (Panic, 7)
    \<and> (\<exists>g. Gfd_new True 100 5 12345 0xFFFFFFFF = (Ok g, 0) \<and> event_loop_index g = 5 \<and> slab_index g = 12345)"
proof -
  have "unat (2 ^ 24 :: usize) = 2 ^ 24" "unat (12345 :: usize) = 12345" "unat (5 :: u8) = 5" by simp_all
  note n = this
  have "(12345 :: nat) mod 2 ^ 24 = 12345" "\<not> (2 :: nat) ^ 24 \<le> 12345" "(0xFFFFFFFF :: u32) + 1 = 0" by simp_all
  note m = this
  from gfd_packing [where dbg = True and t = "2 ^ 24" and fd = 100 and l = 5 and s = 7]
  have "Gfd_new True 100 5 (2 ^ 24) 7 = (Panic, 7)" by (simp only: n order_refl if_True simp_thms)
  moreover from gfd_packing [where dbg = True and t = 12345 and fd = 100 and l = 5 and s = "0xFFFFFFFF"]
  have "\<exists>g. Gfd_new True 100 5 12345 0xFFFFFFFF = (Ok g, 0) \<and> event_loop_index g = 5 \<and> slab_index g = 12345"
    unfolding n by (simp only: m simp_thms if_False) blast
  ultimately show ?thesis by blast
qed

text \<open>
  C37: sequence numbers tell descriptors apart. Among any \<open>2 ^ 32\<close> consecutive calls, whatever
  their arguments and wherever the counter starts, no two descriptors are equal.
\<close>

theorem gfd_distinct:
  assumes "length reqs \<le> 2 ^ 32"
  shows "distinct (issue reqs s)"
proof -
  have "inj_on (\<lambda>i. s + (of_nat i :: u32)) {..<length reqs}"
    using assms by (auto simp: inj_on_def intro: of_nat_inj_u32)
  then have "distinct (map g_seq (issue reqs s))"
    by (simp add: issue_seqs distinct_map atLeast0LessThan)
  then show ?thesis by (simp add: distinct_map)
qed

lemma gfd_distinct_witness:
  "distinct (issue [(7, 1, 3), (7, 1, 3)] 0xFFFFFFFF)"
  by (rule gfd_distinct) simp

text \<open>
  \<open>validate\<close> refuses the first descriptor of the process. \<open>MONO_SEQ\<close> starts at 0 and
  \<open>validate\<close> wants a positive sequence number, so the first of every \<open>2 ^ 32\<close> descriptors is
  reported invalid although it is in use; every other descriptor of a socket is valid.
\<close>

theorem validate_issued:
  assumes "Gfd_new dbg fd l t s = (Ok g, s')" and "0 \<le> sint fd"
  shows "validate g \<longleftrightarrow> s \<noteq> 0"
  using Gfd_new_fields[OF assms(1)] assms(2) by (auto simp: validate_def word_gt_0)

lemma validate_issued_witness:
  "\<not> validate \<lparr>g_seq = 0, g_index_info = 0x5003039, g_fd = 100\<rparr>"
  using validate_issued [of False 100 5 12345 0 "\<lparr>g_seq = 0, g_index_info = 0x5003039, g_fd = 100\<rparr>" 1]
  by (simp add: Gfd_new_def)

end
