(* ===== verification/SocketAddr.thy ===== *)
theory SocketAddr
  imports Prelude
begin

text \<open>
  Model of \<open>src/socket_addr.rs\<close>: the addresses of listeners and peers. \<open>std::net::SocketAddr\<close>
  is its fields (the eight 16-bit groups of an IPv6 address are a list of length 8); a
  \<open>PathBuf\<close> is the string of its bytes.
\<close>

datatype socket_addr =
    SocketAddrV4 "u8 list" "16 word"
  | SocketAddrV6 "16 word list" "16 word" u32 u32

datatype protocol = ProtoTcp | ProtoUnix

datatype network_address = TcpAddr socket_addr | UnixAddr string

fun protocol_of :: "network_address \<Rightarrow> protocol" where
  "protocol_of (TcpAddr _) = ProtoTcp"
| "protocol_of (UnixAddr _) = ProtoUnix"

end
