(* ===== verification/Socket.thy ===== *)
theory Socket
  imports SocketAddr
begin

text \<open>
  Model of \<open>src/socket.rs\<close> and the interface to what lies outside the repository.

  The kernel, mio and the standard library's sockets are the world \<open>'w\<close>, an opaque state, and
  a record \<open>'w os\<close> of the operations the code calls on it. A stream or a listener is named by
  a number; what has been sent on it, what is registered and what the next call answers is in the
  world. Every definition that performs I/O takes the record as an argument, so a theorem holds
  for every kernel that meets the hypotheses it states.
\<close>

subsection \<open>The outside world\<close>

type_synonym stream = nat

datatype socket = Tcp stream | Unix stream

datatype raw_source =
    TcpStreamSource stream
  | UnixStreamSource stream
  | TcpListenerSource nat
  | UnixListenerSource nat

datatype interest = Readable | ReadableWritable

text \<open>
  What \<open>socket2::Socket\<close> is asked to do while a listener is set up, in the words of that crate.
\<close>

datatype s2_domain = DomainIpv4 | DomainIpv6 | DomainUnix

datatype s2_request =
    SetReuseAddress
  | SetReusePort
  | SetRecvBufferSize usize
  | SetSendBufferSize usize
  | BindDevice string
  | BindAddr network_address
  | Listen "32 word"
  | SetNonblocking
  | SetTcpNodelay
  | SetKeepalive
  | SetTcpKeepalive nat nat u32

text \<open>
  Reading answers the bytes placed in a buffer of the given length. \<open>drop_stream\<close> is the
  destructor of a stream (the descriptor is closed). \<open>waker_wake\<close> is \<open>mio::Waker::wake\<close> of the
  poller with the given number. Accepting answers the new stream and the peer's address (for a
  Unix peer its path name, if it has one). \<open>vacant_key\<close> is the slot the slab crate picks for an insertion,
  given which slots are occupied. \<open>reserve_capacity len additional\<close> is the capacity after
  \<open>BytesMut::reserve\<close>.
\<close>

record 'w os =
  tcp_read :: "'w \<Rightarrow> stream \<Rightarrow> nat \<Rightarrow> (io_error + bytes) \<times> 'w"
  unix_read :: "'w \<Rightarrow> stream \<Rightarrow> nat \<Rightarrow> (io_error + bytes) \<times> 'w"
  tcp_write :: "'w \<Rightarrow> stream \<Rightarrow> bytes \<Rightarrow> (io_error + nat) \<times> 'w"
  unix_write :: "'w \<Rightarrow> stream \<Rightarrow> bytes \<Rightarrow> (io_error + nat) \<times> 'w"
  tcp_write_vectored :: "'w \<Rightarrow> stream \<Rightarrow> bytes list \<Rightarrow> (io_error + nat) \<times> 'w"
  unix_write_vectored :: "'w \<Rightarrow> stream \<Rightarrow> bytes list \<Rightarrow> (io_error + nat) \<times> 'w"
  tcp_flush :: "'w \<Rightarrow> stream \<Rightarrow> (io_error + unit) \<times> 'w"
  unix_flush :: "'w \<Rightarrow> stream \<Rightarrow> (io_error + unit) \<times> 'w"
  tcp_set_nodelay :: "'w \<Rightarrow> stream \<Rightarrow> bool \<Rightarrow> (io_error + unit) \<times> 'w"
  tcp_raw_fd :: "'w \<Rightarrow> stream \<Rightarrow> u32"
  unix_raw_fd :: "'w \<Rightarrow> stream \<Rightarrow> u32"
  registry_register :: "'w \<Rightarrow> raw_source \<Rightarrow> usize \<Rightarrow> interest \<Rightarrow> (io_error + unit) \<times> 'w"
  registry_reregister :: "'w \<Rightarrow> raw_source \<Rightarrow> usize \<Rightarrow> interest \<Rightarrow> (io_error + unit) \<times> 'w"
  registry_deregister :: "'w \<Rightarrow> raw_source \<Rightarrow> (io_error + unit) \<times> 'w"
  drop_stream :: "'w \<Rightarrow> socket \<Rightarrow> 'w"
  waker_wake :: "'w \<Rightarrow> nat \<Rightarrow> (io_error + unit) \<times> 'w"
  tcp_accept :: "'w \<Rightarrow> nat \<Rightarrow> (io_error + (stream \<times> socket_addr)) \<times> 'w"
  unix_accept :: "'w \<Rightarrow> nat \<Rightarrow> (io_error + (stream \<times> string option)) \<times> 'w"
  tcp_listener_addr :: "'w \<Rightarrow> nat \<Rightarrow> io_error + socket_addr"
  unix_listener_addr :: "'w \<Rightarrow> nat \<Rightarrow> io_error + string option"
  s2_socket :: "'w \<Rightarrow> s2_domain \<Rightarrow> (io_error + nat) \<times> 'w"
  s2_call :: "'w \<Rightarrow> nat \<Rightarrow> s2_request \<Rightarrow> (io_error + unit) \<times> 'w"
  path_exists :: "'w \<Rightarrow> string \<Rightarrow> bool"
  remove_file :: "'w \<Rightarrow> string \<Rightarrow> (io_error + unit) \<times> 'w"
  read_to_string :: "'w \<Rightarrow> string \<Rightarrow> string option"
  vacant_key :: "'w \<Rightarrow> bool list \<Rightarrow> nat"
  reserve_capacity :: "nat \<Rightarrow> nat \<Rightarrow> nat"

subsection \<open>The socket wrapper\<close>

text \<open>\<open>as_raw_fd() as i64\<close>: a 32-bit descriptor, sign-extended.\<close>

definition socket_fd :: "'w os \<Rightarrow> 'w \<Rightarrow> socket \<Rightarrow> i64" where
  "socket_fd os w sk = (case sk of Tcp s \<Rightarrow> scast (tcp_raw_fd os w s) | Unix s \<Rightarrow> scast (unix_raw_fd os w s))"

definition set_nodelay :: "'w os \<Rightarrow> 'w \<Rightarrow> socket \<Rightarrow> bool \<Rightarrow> (io_error + unit) \<times> 'w" where
  "set_nodelay os w sk nodelay =
     (case sk of Tcp s \<Rightarrow> tcp_set_nodelay os w s nodelay | Unix _ \<Rightarrow> (Inr (), w))"

definition source_of :: "socket \<Rightarrow> raw_source" where
  "source_of sk = (case sk of Tcp s \<Rightarrow> TcpStreamSource s | Unix s \<Rightarrow> UnixStreamSource s)"

definition socket_register :: "'w os \<Rightarrow> 'w \<Rightarrow> socket \<Rightarrow> usize \<Rightarrow> interest \<Rightarrow> (io_error + unit) \<times> 'w" where
  "socket_register os w sk token interests =
     (case sk of
        Tcp s \<Rightarrow> registry_register os w (TcpStreamSource s) token interests
      | Unix s \<Rightarrow> registry_register os w (UnixStreamSource s) token interests)"

definition socket_reregister :: "'w os \<Rightarrow> 'w \<Rightarrow> socket \<Rightarrow> usize \<Rightarrow> interest \<Rightarrow> (io_error + unit) \<times> 'w" where
  "socket_reregister os w sk token interests =
     (case sk of
        Tcp s \<Rightarrow> registry_reregister os w (TcpStreamSource s) token interests
      | Unix s \<Rightarrow> registry_reregister os w (UnixStreamSource s) token interests)"

definition socket_deregister :: "'w os \<Rightarrow> 'w \<Rightarrow> socket \<Rightarrow> (io_error + unit) \<times> 'w" where
  "socket_deregister os w sk =
     (case sk of
        Tcp s \<Rightarrow> registry_deregister os w (TcpStreamSource s)
      | Unix s \<Rightarrow> registry_deregister os w (UnixStreamSource s))"

definition socket_read :: "'w os \<Rightarrow> 'w \<Rightarrow> socket \<Rightarrow> nat \<Rightarrow> (io_error + bytes) \<times> 'w" where
  "socket_read os w sk len =
     (case sk of Tcp s \<Rightarrow> tcp_read os w s len | Unix s \<Rightarrow> unix_read os w s len)"

definition socket_write :: "'w os \<Rightarrow> 'w \<Rightarrow> socket \<Rightarrow> bytes \<Rightarrow> (io_error + nat) \<times> 'w" where
  "socket_write os w sk buf =
     (case sk of Tcp s \<Rightarrow> tcp_write os w s buf | Unix s \<Rightarrow> unix_write os w s buf)"

definition socket_flush :: "'w os \<Rightarrow> 'w \<Rightarrow> socket \<Rightarrow> (io_error + unit) \<times> 'w" where
  "socket_flush os w sk =
     (case sk of Tcp s \<Rightarrow> tcp_flush os w s | Unix s \<Rightarrow> unix_flush os w s)"

definition socket_write_vectored :: "'w os \<Rightarrow> 'w \<Rightarrow> socket \<Rightarrow> bytes list \<Rightarrow> (io_error + nat) \<times> 'w" where
  "socket_write_vectored os w sk bufs =
     (case sk of Tcp s \<Rightarrow> tcp_write_vectored os w s bufs | Unix s \<Rightarrow> unix_write_vectored os w s bufs)"

subsection \<open>What the code relies on\<close>

text \<open>
  The documented contract of \<open>Read\<close> and \<open>Write\<close>, stated with \<open>wire w sk\<close>, the bytes the kernel
  has accepted on socket \<open>sk\<close> so far: a write that answers \<open>n\<close> has accepted the first \<open>n\<close>
  bytes it was given, on that socket only; a write that fails, a flush and a read accept
  nothing; a read fills at most the buffer.
\<close>

definition write_contract :: "('w \<Rightarrow> socket \<Rightarrow> bytes) \<Rightarrow> 'w \<Rightarrow> socket \<Rightarrow> bytes \<Rightarrow> (io_error + nat) \<times> 'w \<Rightarrow> bool" where
  "write_contract wire w sk buf r =
     (case r of
        (Inr n, w') \<Rightarrow> n \<le> length buf \<and> wire w' = (wire w)(sk := wire w sk @ take n buf)
      | (Inl e, w') \<Rightarrow> wire w' = wire w)"

definition transport_ok :: "'w os \<Rightarrow> ('w \<Rightarrow> socket \<Rightarrow> bytes) \<Rightarrow> bool" where
  "transport_ok os wire \<longleftrightarrow>
     (\<forall>w s buf. write_contract wire w (Tcp s) buf (tcp_write os w s buf)
              \<and> write_contract wire w (Unix s) buf (unix_write os w s buf)) \<and>
     (\<forall>w s bufs. write_contract wire w (Tcp s) (concat bufs) (tcp_write_vectored os w s bufs)
               \<and> write_contract wire w (Unix s) (concat bufs) (unix_write_vectored os w s bufs)) \<and>
     (\<forall>w s. wire (snd (tcp_flush os w s)) = wire w \<and> wire (snd (unix_flush os w s)) = wire w)"

definition read_ok :: "'w os \<Rightarrow> bool" where
  "read_ok os \<longleftrightarrow>
     (\<forall>w s len data w'. tcp_read os w s len = (Inr data, w') \<longrightarrow> length data \<le> len) \<and>
     (\<forall>w s len data w'. unix_read os w s len = (Inr data, w') \<longrightarrow> length data \<le> len)"

text \<open>
  The slab crate never hands out an occupied slot, and (it matters where debug assertions are compiled
  in, \<open>dbg\<close>) the slot with number \<open>2 ^ 24\<close> or more only when that many are occupied; \<open>reserve\<close> makes the
  room it was asked for.
\<close>

definition vacant_ok :: "bool \<Rightarrow> 'w os \<Rightarrow> bool" where
  "vacant_ok dbg os \<longleftrightarrow>
     (\<forall>w occ. \<not> (vacant_key os w occ < length occ \<and> occ ! vacant_key os w occ)
        \<and> (dbg \<longrightarrow> 2 ^ 24 \<le> vacant_key os w occ \<longrightarrow> 2 ^ 24 \<le> length (filter (\<lambda>b. b) occ)))"

definition reserve_ok :: "'w os \<Rightarrow> bool" where
  "reserve_ok os \<longleftrightarrow> (\<forall>len additional. len + additional \<le> reserve_capacity os len additional)"

lemma transport_write:
  "transport_ok os wire \<Longrightarrow> write_contract wire w sk buf (socket_write os w sk buf)"
  by (cases sk) (simp_all add: transport_ok_def socket_write_def)

lemma transport_write_vectored:
  "transport_ok os wire \<Longrightarrow> write_contract wire w sk (concat bufs) (socket_write_vectored os w sk bufs)"
  by (cases sk) (simp_all add: transport_ok_def socket_write_vectored_def)

lemma transport_flush: "transport_ok os wire \<Longrightarrow> wire (snd (socket_flush os w sk)) = wire w"
  by (cases sk) (simp_all add: transport_ok_def socket_flush_def)

lemma read_length: "read_ok os \<Longrightarrow> socket_read os w sk len = (Inr data, w') \<Longrightarrow> length data \<le> len"
  unfolding read_ok_def socket_read_def by (cases sk) (simp_all, blast+)

end
