(* ===== verification/Poller.thy ===== *)
theory Poller
  imports Socket
begin

text \<open>
  Model of \<open>src/poller.rs\<close>: the token space shared by connections, listeners and the waker, the
  interest operations of the poller, and the coalescing waker.
\<close>

subsection \<open>Tokens\<close>

definition WAKE_TOKEN :: usize where
  "WAKE_TOKEN = - 1"

definition LISTENER_TOKEN_START :: usize where
  "LISTENER_TOKEN_START = - 1 - 1024"

definition listener_token :: "bool \<Rightarrow> usize \<Rightarrow> usize outcome" where
  "listener_token dbg index =
     (if dbg \<and> 2 ^ 64 \<le> unat LISTENER_TOKEN_START + unat index then Panic
      else Ok (LISTENER_TOKEN_START + index))"

definition is_listener_token :: "usize \<Rightarrow> usize option" where
  "is_listener_token token =
     (if LISTENER_TOKEN_START \<le> token \<and> token < - 1 then Some (token - LISTENER_TOKEN_START)
      else None)"

subsection \<open>The poller\<close>

text \<open>
  \<open>Poller\<close> is generic in the event source: the argument \<open>reg\<close> is the \<open>register\<close> (or
  \<open>reregister\<close>, \<open>deregister\<close>) method of the source's type.
\<close>

definition poller_register ::
  "('w \<Rightarrow> 's \<Rightarrow> usize \<Rightarrow> interest \<Rightarrow> (io_error + unit) \<times> 'w) \<Rightarrow> 'w \<Rightarrow> 's \<Rightarrow> usize \<Rightarrow> (io_error + unit) \<times> 'w" where
  "poller_register reg w source token = reg w source token Readable"

definition enable_write ::
  "('w \<Rightarrow> 's \<Rightarrow> usize \<Rightarrow> interest \<Rightarrow> (io_error + unit) \<times> 'w) \<Rightarrow> 'w \<Rightarrow> 's \<Rightarrow> usize \<Rightarrow> (io_error + unit) \<times> 'w" where
  "enable_write rereg w source token = rereg w source token ReadableWritable"

definition disable_write ::
  "('w \<Rightarrow> 's \<Rightarrow> usize \<Rightarrow> interest \<Rightarrow> (io_error + unit) \<times> 'w) \<Rightarrow> 'w \<Rightarrow> 's \<Rightarrow> usize \<Rightarrow> (io_error + unit) \<times> 'w" where
  "disable_write rereg w source token = rereg w source token Readable"

definition poller_deregister ::
  "('w \<Rightarrow> 's \<Rightarrow> (io_error + unit) \<times> 'w) \<Rightarrow> 'w \<Rightarrow> 's \<Rightarrow> (io_error + unit) \<times> 'w" where
  "poller_deregister dereg w source = dereg w source"

subsection \<open>The waker\<close>

record waker =
  waker_id :: nat
  awoken :: bool

text \<open>\<open>swap(true)\<close> happens whether or not the flag was set; only a clear flag reaches the kernel.\<close>

definition wake :: "'w os \<Rightarrow> (unit, waker \<times> 'w) prog" where
  "wake os = (\<lambda>(wk, w).
     let wk' = wk\<lparr>awoken := True\<rparr> in
     if \<not> awoken wk then
       (case waker_wake os w (waker_id wk) of
          (Inl e, w') \<Rightarrow> (Err e, (wk', w'))
        | (Inr _, w') \<Rightarrow> (Ok (), (wk', w')))
     else (Ok (), (wk', w)))"

definition reset_waker :: "waker \<Rightarrow> waker" where
  "reset_waker wk = wk\<lparr>awoken := False\<rparr>"

subsection \<open>Lemmas\<close>

lemma unat_START: "unat LISTENER_TOKEN_START = 2 ^ 64 - 1025"
  by (simp add: LISTENER_TOKEN_START_def)

lemma START_add:
  assumes "unat i < 1025"
  shows "unat (LISTENER_TOKEN_START + i) = 2 ^ 64 - 1025 + unat i"
  using assms by (simp add: unat_word_ariths unat_START)

lemma wake_state:
  "fst (snd (wake os (wk, w))) = wk\<lparr>awoken := True\<rparr>"
  by (simp add: wake_def Let_def split: prod.splits sum.splits)

lemma wake_outcome: "fst (wake os s) \<noteq> Panic" "fst (wake os s) \<noteq> Diverge"
  by (simp_all add: wake_def Let_def split: prod.splits sum.splits)

text \<open>
  C38: the three kinds of token never meet. For up to 1024 listeners, a listener's token is
  recognised as that listener, is not the waker's token and is not the token of a slab key
  below the listener range.
\<close>

theorem listener_tokens:
  assumes "unat idx < 1024"
  shows "\<exists>t. listener_token dbg idx = Ok t \<and> is_listener_token t = Some idx \<and> t \<noteq> WAKE_TOKEN
    \<and> is_listener_token WAKE_TOKEN = None
    \<and> (\<forall>key. key < LISTENER_TOKEN_START \<longrightarrow> is_listener_token key = None \<and> key \<noteq> t \<and> key \<noteq> WAKE_TOKEN)"
proof -
  let ?t = "LISTENER_TOKEN_START + idx"
  from assms have t: "unat ?t = 2 ^ 64 - 1025 + unat idx" by (simp add: START_add)
  have max: "unat (- 1 :: usize) = 2 ^ 64 - 1" by (simp add: unsigned_minus_1_eq_mask mask_eq_exp_minus_1)
  have "listener_token dbg idx = Ok ?t"
    using assms by (simp add: listener_token_def unat_START)
  moreover have "LISTENER_TOKEN_START \<le> ?t" and "?t < - 1"
    using assms t max by (simp_all add: word_le_nat_alt word_less_nat_alt unat_START)
  moreover from this have "is_listener_token ?t = Some idx"
    by (simp add: is_listener_token_def)
  moreover have "LISTENER_TOKEN_START < - 1"
    by (simp add: LISTENER_TOKEN_START_def)
  ultimately show ?thesis
    by (intro exI[of _ ?t]) (auto simp: is_listener_token_def WAKE_TOKEN_def)
qed

lemma listener_tokens_witness:
  "\<exists>t. listener_token True 3 = Ok t \<and> is_listener_token t = Some 3 \<and> t \<noteq> WAKE_TOKEN
    \<and> is_listener_token WAKE_TOKEN = None
    \<and> (\<forall>key. key < LISTENER_TOKEN_START \<longrightarrow> is_listener_token key = None \<and> key \<noteq> t \<and> key \<noteq> WAKE_TOKEN)"
  using listener_tokens [of 3 True] by simp

text \<open>
  The 1025th listener takes the waker's token: \<open>listener_token 1024\<close> is \<open>WAKE_TOKEN\<close>, so its
  readiness events would be read as wake-ups.
\<close>

theorem listener_token_clash: "listener_token dbg 1024 = Ok WAKE_TOKEN \<and> is_listener_token WAKE_TOKEN = None"
  by (simp add: listener_token_def is_listener_token_def LISTENER_TOKEN_START_def WAKE_TOKEN_def)

end
