(* ===== verification/Command.thy ===== *)
theory Command
  imports Gfd Poller SocketAddr
begin

text \<open>
  Model of \<open>src/command.rs\<close> and of \<open>EventLoopHandle\<close> in \<open>src/event_loop.rs\<close>: the commands a
  loop accepts from other threads, their priority, and the pair of unbounded channels they
  travel through. A channel is the list of the commands in it, oldest first; \<open>h_connected\<close> says
  whether the receiving loop still exists. The handle is shared by \<open>Arc\<close>: there is one
  \<open>loop_handle\<close> state per loop.
\<close>

subsection \<open>Commands\<close>

datatype command =
    CmdNone
  | AsyncWrite gfd bytes
  | Register socket network_address network_address
  | Close nat
  | Wake
  | Read nat
  | Write nat
  | Shutdown

datatype prioity = High | Low

text \<open>The derived order follows the order of the variants.\<close>

instantiation prioity :: linorder
begin

definition less_eq_prioity :: "prioity \<Rightarrow> prioity \<Rightarrow> bool" where
  "less_eq_prioity p q \<longleftrightarrow> p = High \<or> q = Low"

definition less_prioity :: "prioity \<Rightarrow> prioity \<Rightarrow> bool" where
  "less_prioity p q \<longleftrightarrow> p = High \<and> q = Low"

instance
proof
  fix x y z :: prioity
  show "(x < y) = (x \<le> y \<and> \<not> y \<le> x)"
    by (cases x; cases y) (simp_all add: less_eq_prioity_def less_prioity_def)
  show "x \<le> x" by (cases x) (simp_all add: less_eq_prioity_def)
  show "x \<le> y \<Longrightarrow> y \<le> z \<Longrightarrow> x \<le> z"
    by (cases x; cases y; cases z) (simp_all add: less_eq_prioity_def)
  show "x \<le> y \<Longrightarrow> y \<le> x \<Longrightarrow> x = y"
    by (cases x; cases y) (simp_all add: less_eq_prioity_def)
  show "x \<le> y \<or> y \<le> x"
    by (cases x; cases y) (simp_all add: less_eq_prioity_def)
qed

end

fun priority :: "command \<Rightarrow> prioity" where
  "priority CmdNone = Low"
| "priority (AsyncWrite _ _) = High"
| "priority Wake = Low"
| "priority (Register _ _ _) = Low"
| "priority (Close _) = Low"
| "priority (Read _) = High"
| "priority (Write _) = High"
| "priority Shutdown = High"

subsection \<open>The handle of an event loop\<close>

definition MAX_POLL_EVENT_CAP :: nat where
  "MAX_POLL_EVENT_CAP = 1024"

record loop_handle =
  h_idx :: nat
  h_urgent :: "command list"
  h_common :: "command list"
  h_connected :: bool
  h_waker :: waker
  h_conn_count :: usize

definition connection_count :: "loop_handle \<Rightarrow> usize" where
  "connection_count h = h_conn_count h"

text \<open>\<open>Sender::send\<close> on an unbounded channel: it fails only when the receiver is gone.\<close>

definition send_urgent :: "command \<Rightarrow> loop_handle \<Rightarrow> bool \<times> loop_handle" where
  "send_urgent c h = (if h_connected h then (True, h\<lparr>h_urgent := h_urgent h @ [c]\<rparr>) else (False, h))"

definition send_common :: "command \<Rightarrow> loop_handle \<Rightarrow> bool \<times> loop_handle" where
  "send_common c h = (if h_connected h then (True, h\<lparr>h_common := h_common h @ [c]\<rparr>) else (False, h))"

definition enqueue :: "prioity \<Rightarrow> command \<Rightarrow> loop_handle \<Rightarrow> bool \<times> loop_handle" where
  "enqueue prio cmd h =
     (if High < prio \<and> MAX_POLL_EVENT_CAP \<le> length (h_urgent h)
      then send_common cmd h else send_urgent cmd h)"

definition wake_handle :: "'w os \<Rightarrow> (unit, loop_handle \<times> 'w) prog" where
  "wake_handle os = (\<lambda>(h, w).
     case wake os (h_waker h, w) of (r, (wk, w')) \<Rightarrow> (r, (h\<lparr>h_waker := wk\<rparr>, w')))"

definition trigger :: "'w os \<Rightarrow> prioity \<Rightarrow> command \<Rightarrow> (bool, loop_handle \<times> 'w) prog" where
  "trigger os prio cmd = (\<lambda>(h, w).
     case enqueue prio cmd h of
       (False, h') \<Rightarrow> (Ok False, (h', w))
     | (True, h') \<Rightarrow>
         (case wake_handle os (h', w) of
            (Ok _, s) \<Rightarrow> (Ok True, s)
          | (Err _, s) \<Rightarrow> (Ok False, s)
          | (Panic, s) \<Rightarrow> (Panic, s)
          | (Diverge, s) \<Rightarrow> (Diverge, s)))"

definition handle_shutdown :: "'w os \<Rightarrow> (unit, loop_handle \<times> 'w) prog" where
  "handle_shutdown os = discard_result (trigger os (priority Shutdown) Shutdown)"

text \<open>
  \<open>try_recv\<close> on the urgent channel, then on the common one (\<open>process_command\<close>). The loop holds a
  sender of its own channels, so they are never disconnected on this side.
\<close>

fun next_command :: "loop_handle \<Rightarrow> command option \<times> loop_handle" where
  "next_command h =
     (case h_urgent h of
        c # cs \<Rightarrow> (Some c, h\<lparr>h_urgent := cs\<rparr>)
      | [] \<Rightarrow> (case h_common h of
          c # cs \<Rightarrow> (Some c, h\<lparr>h_common := cs\<rparr>)
        | [] \<Rightarrow> (None, h)))"

declare next_command.simps [simp del]

text \<open>The commands in the channels, in the order in which \<open>next_command\<close> takes them.\<close>

definition pending :: "loop_handle \<Rightarrow> command list" where
  "pending h = h_urgent h @ h_common h"

fun drain :: "('h \<Rightarrow> 'c option \<times> 'h) \<Rightarrow> nat \<Rightarrow> 'h \<Rightarrow> 'c list \<times> 'h" where
  "drain get 0 h = ([], h)"
| "drain get (Suc n) h =
     (case get h of
        (None, h') \<Rightarrow> ([], h')
      | (Some c, h') \<Rightarrow> (case drain get n h' of (cs, h'') \<Rightarrow> (c # cs, h'')))"

text \<open>
  What the rest of the program may assume of a handle it was given: other parties only add
  commands and set the wake flag.
\<close>

definition handle_ext :: "loop_handle \<Rightarrow> loop_handle \<Rightarrow> bool" where
  "handle_ext h h' \<longleftrightarrow>
     h_idx h' = h_idx h \<and> h_connected h' = h_connected h \<and> h_conn_count h' = h_conn_count h
     \<and> waker_id (h_waker h') = waker_id (h_waker h) \<and> (awoken (h_waker h) \<longrightarrow> awoken (h_waker h'))
     \<and> (\<exists>us cs. h_urgent h' = h_urgent h @ us \<and> h_common h' = h_common h @ cs)"

subsection \<open>The mailbox contract\<close>

text \<open>
  What a loop needs of the channels it is fed by: taking a command takes the first pending one,
  and an accepted command becomes pending without disturbing the others.
\<close>

locale mailbox =
  fixes get :: "'h \<Rightarrow> 'c option \<times> 'h"
    and put :: "prioity \<Rightarrow> 'c \<Rightarrow> 'h \<Rightarrow> bool \<times> 'h"
    and contents :: "'h \<Rightarrow> 'c list"
    and open_for :: "'h \<Rightarrow> bool"
  assumes get_empty: "contents h = [] \<Longrightarrow> get h = (None, h)"
    and get_first: "contents h = c # cs \<Longrightarrow> \<exists>h'. get h = (Some c, h') \<and> contents h' = cs"
    and put_open: "open_for h \<Longrightarrow> \<exists>h' xs ys. put p c h = (True, h') \<and> contents h = xs @ ys
        \<and> contents h' = xs @ c # ys"
    and put_closed: "\<not> open_for h \<Longrightarrow> put p c h = (False, h)"
begin

lemma drain_takes: "\<exists>h'. drain get n h = (take n (contents h), h') \<and> contents h' = drop n (contents h)"
proof (induction n arbitrary: h)
  case 0
  then show ?case by simp
next
  case (Suc n)
  show ?case
  proof (cases "contents h")
    case Nil
    then show ?thesis by (simp add: get_empty)
  next
    case (Cons c cs)
    then obtain h' where h': "get h = (Some c, h')" "contents h' = cs"
      using get_first by blast
    with Suc.IH [of h'] Cons show ?thesis by auto
  qed
qed

lemma put_then_drain:
  assumes "open_for h"
  shows "\<exists>h' h''. put p c h = (True, h') \<and> length (contents h') = Suc (length (contents h))
    \<and> drain get (length (contents h')) h' = (contents h', h'') \<and> c \<in> set (contents h')
    \<and> set (contents h) \<subseteq> set (contents h') \<and> contents h'' = []"
proof -
  from put_open [OF assms] obtain h' xs ys where
    "put p c h = (True, h')" "contents h = xs @ ys" "contents h' = xs @ c # ys" by blast
  moreover obtain h'' where "drain get (length (contents h')) h' = (contents h', h'')" "contents h'' = []"
    using drain_takes [of "length (contents h')" h'] by auto
  ultimately show ?thesis by auto
qed

end

lemma enqueue_open:
  assumes "h_connected h"
  shows "\<exists>h' xs ys. enqueue p c h = (True, h') \<and> pending h = xs @ ys \<and> pending h' = xs @ c # ys"
proof (cases "High < p \<and> MAX_POLL_EVENT_CAP \<le> length (h_urgent h)")
  case True
  with assms show ?thesis
    by (intro exI [of _ "h\<lparr>h_common := h_common h @ [c]\<rparr>"] exI [of _ "pending h"] exI [of _ "[]"])
       (simp add: enqueue_def send_common_def pending_def)
next
  case False
  with assms show ?thesis
    by (intro exI [of _ "h\<lparr>h_urgent := h_urgent h @ [c]\<rparr>"] exI [of _ "h_urgent h"] exI [of _ "h_common h"])
       (auto simp add: enqueue_def send_urgent_def pending_def)
qed

interpretation channels: mailbox next_command enqueue pending h_connected
proof
  fix h :: loop_handle and c cs p
  show "pending h = [] \<Longrightarrow> next_command h = (None, h)"
    by (simp add: pending_def next_command.simps)
  show "pending h = c # cs \<Longrightarrow> \<exists>h'. next_command h = (Some c, h') \<and> pending h' = cs"
    by (cases "h_urgent h") (auto simp: pending_def next_command.simps)
  show "h_connected h \<Longrightarrow> \<exists>h' xs ys. enqueue p c h = (True, h') \<and> pending h = xs @ ys \<and> pending h' = xs @ c # ys"
    by (rule enqueue_open)
  show "\<not> h_connected h \<Longrightarrow> enqueue p c h = (False, h)"
    by (simp add: enqueue_def send_urgent_def send_common_def)
qed

subsection \<open>Lemmas\<close>

lemma handle_ext_refl [simp]: "handle_ext h h"
  by (simp add: handle_ext_def)

lemma handle_ext_trans: "handle_ext h h' \<Longrightarrow> handle_ext h' h'' \<Longrightarrow> handle_ext h h''"
  unfolding handle_ext_def by (elim conjE exE) auto

lemma enqueue_ext: "enqueue p c h = (b, h') \<Longrightarrow> handle_ext h h'"
  by (auto simp: enqueue_def send_urgent_def send_common_def handle_ext_def split: if_splits)

lemma wake_handle_state: "fst (snd (wake_handle os (h, w))) = h\<lparr>h_waker := (h_waker h)\<lparr>awoken := True\<rparr>\<rparr>"
  using wake_state [of os "h_waker h" w]
  by (cases "wake os (h_waker h, w)") (auto simp: wake_handle_def)

lemma wake_handle_fst: "fst (wake_handle os (h, w)) = fst (wake os (h_waker h, w))"
  by (cases "wake os (h_waker h, w)") (auto simp: wake_handle_def)

lemma wake_handle_outcome: "fst (wake_handle os s) \<noteq> Panic" "fst (wake_handle os s) \<noteq> Diverge"
  by (cases s; simp add: wake_handle_fst wake_outcome)+

lemma wake_handle_ext: "handle_ext h (fst (snd (wake_handle os (h, w))))"
  by (simp add: wake_handle_state handle_ext_def)

lemma trigger_cases:
  obtains h' where "enqueue p c h = (False, h')" "trigger os p c (h, w) = (Ok False, (h', w))"
  | h' w' b where "enqueue p c h = (True, h')"
      "trigger os p c (h, w) = (Ok b, (h'\<lparr>h_waker := (h_waker h')\<lparr>awoken := True\<rparr>\<rparr>, w'))"
      "b \<longleftrightarrow> is_ok (fst (wake_handle os (h', w)))"
proof (cases "enqueue p c h")
  case (Pair sent h')
  obtain r h'' w' where wh: "wake_handle os (h', w) = (r, (h'', w'))"
    by (cases "wake_handle os (h', w)") auto
  with wake_handle_state [of os h' w] have h'': "h'' = h'\<lparr>h_waker := (h_waker h')\<lparr>awoken := True\<rparr>\<rparr>" by simp
  from wake_handle_outcome [of os "(h', w)"] wh have "r \<noteq> Panic" "r \<noteq> Diverge" by simp_all
  show ?thesis
  proof (cases sent)
    case False
    with Pair show ?thesis by (intro that(1) [of h']) (simp_all add: trigger_def)
  next
    case True
    with Pair wh h'' \<open>r \<noteq> Panic\<close> \<open>r \<noteq> Diverge\<close> show ?thesis
      by (intro that(2) [of h' "is_ok r" w']) (cases r; simp add: trigger_def)+
  qed
qed

lemma trigger_ext: "handle_ext h (fst (snd (trigger os p c (h, w))))"
proof (rule trigger_cases [of p c h os w])
  fix h' assume "enqueue p c h = (False, h')" "trigger os p c (h, w) = (Ok False, (h', w))"
  then show ?thesis by (simp add: enqueue_ext)
next
  fix h' w' b
  assume e: "enqueue p c h = (True, h')"
    and t: "trigger os p c (h, w) = (Ok b, (h'\<lparr>h_waker := (h_waker h')\<lparr>awoken := True\<rparr>\<rparr>, w'))"
  have "handle_ext h' (h'\<lparr>h_waker := (h_waker h')\<lparr>awoken := True\<rparr>\<rparr>)" by (simp add: handle_ext_def)
  with e t show ?thesis by (auto intro: handle_ext_trans enqueue_ext)
qed

lemma trigger_outcome: "\<exists>b. fst (trigger os p c (h, w)) = Ok b"
  by (rule trigger_cases [of p c h os w]) auto

subsection \<open>Properties\<close>

text \<open>
  A command is routed by priority and never dropped while the loop lives. \<open>trigger\<close> puts it
  at the end of the urgent channel, or of the common one exactly when it has low priority and
  1024 commands are already urgent; the wake flag is set; the answer is \<open>true\<close> unless the kernel
  refused the wake-up. When the loop is gone nothing changes and the answer is \<open>false\<close>.
\<close>

theorem trigger_delivers:
  "\<exists>b h' w'. trigger os (priority cmd) cmd (h, w) = (Ok b, (h', w')) \<and>
     (if h_connected h then
        awoken (h_waker h') \<and> (awoken (h_waker h) \<longrightarrow> b)
        \<and> (if priority cmd = Low \<and> 1024 \<le> length (h_urgent h)
            then h_common h' = h_common h @ [cmd] \<and> h_urgent h' = h_urgent h
            else h_urgent h' = h_urgent h @ [cmd] \<and> h_common h' = h_common h)
      else b = False \<and> h' = h \<and> w' = w)"
proof (rule trigger_cases [of "priority cmd" cmd h os w])
  fix h' assume "enqueue (priority cmd) cmd h = (False, h')"
    "trigger os (priority cmd) cmd (h, w) = (Ok False, (h', w))"
  then show ?thesis
    by (auto simp: enqueue_def send_urgent_def send_common_def split: if_splits)
next
  fix h' w' b
  assume e: "enqueue (priority cmd) cmd h = (True, h')"
    and t: "trigger os (priority cmd) cmd (h, w) = (Ok b, (h'\<lparr>h_waker := (h_waker h')\<lparr>awoken := True\<rparr>\<rparr>, w'))"
    and b: "b \<longleftrightarrow> is_ok (fst (wake_handle os (h', w)))"
  from e have conn: "h_connected h" by (auto simp: enqueue_def send_urgent_def send_common_def split: if_splits)
  have low: "High < priority cmd \<longleftrightarrow> priority cmd = Low" by (simp add: less_prioity_def)
  from e conn low have "(if priority cmd = Low \<and> 1024 \<le> length (h_urgent h)
      then h_common h' = h_common h @ [cmd] \<and> h_urgent h' = h_urgent h
      else h_urgent h' = h_urgent h @ [cmd] \<and> h_common h' = h_common h) \<and> h_waker h' = h_waker h"
    by (auto simp: enqueue_def send_urgent_def send_common_def MAX_POLL_EVENT_CAP_def split: if_splits)
  moreover from this have "awoken (h_waker h) \<longrightarrow> b"
    by (simp add: b wake_handle_def wake_def Let_def)
  ultimately show ?thesis using conn t by simp
qed

definition sample_handle :: loop_handle where
  "sample_handle = \<lparr>h_idx = 0, h_urgent = [Wake], h_common = [CmdNone], h_connected = True,
     h_waker = \<lparr>waker_id = 0, awoken = False\<rparr>, h_conn_count = 0\<rparr>"

lemma trigger_delivers_witness:
  "\<forall>(os :: nat os) w. \<exists>b h' w'. trigger os High Shutdown (sample_handle\<lparr>h_waker := \<lparr>waker_id = 0, awoken = True\<rparr>\<rparr>, w) = (Ok b, (h', w'))
    \<and> b \<and> h_urgent h' = [Wake, Shutdown] \<and> h_common h' = [CmdNone]"
proof (intro allI)
  fix os :: "nat os" and w
  show "\<exists>b h' w'. trigger os High Shutdown (sample_handle\<lparr>h_waker := \<lparr>waker_id = 0, awoken = True\<rparr>\<rparr>, w) = (Ok b, (h', w'))
      \<and> b \<and> h_urgent h' = [Wake, Shutdown] \<and> h_common h' = [CmdNone]"
    using trigger_delivers [where os = os and cmd = Shutdown and w = w
        and h = "sample_handle\<lparr>h_waker := \<lparr>waker_id = 0, awoken = True\<rparr>\<rparr>"]
    by (auto simp: sample_handle_def)
qed

text \<open>
  C21: an accepted command is received, and an urgent one overtakes the common ones. On a live loop \<open>enqueue\<close>
  accepts every command; it takes its place behind the urgent commands and before the common ones,
  unless it has low priority and 1024 commands are already urgent: then it comes last. Taking as many
  commands as are pending returns all of them, in that order, and leaves both channels empty.
\<close>

theorem accepted_command_received:
  assumes "h_connected h"
  shows "\<exists>h' h''. enqueue p cmd h = (True, h') \<and> length (pending h') = Suc (length (pending h))
    \<and> (if p = High \<or> length (h_urgent h) < 1024
        then h_urgent h' = h_urgent h @ [cmd] \<and> h_common h' = h_common h
        else h_urgent h' = h_urgent h \<and> h_common h' = h_common h @ [cmd])
    \<and> drain next_command (length (pending h')) h' =
        (if p = High \<or> length (h_urgent h) < 1024 then h_urgent h @ cmd # h_common h else h_urgent h @ h_common h @ [cmd], h'')
    \<and> h_urgent h'' = [] \<and> h_common h'' = []"
proof -
  from channels.put_then_drain [OF assms, of p cmd] obtain h' h'' where
    put: "enqueue p cmd h = (True, h')" "length (pending h') = Suc (length (pending h))"
    and drain: "drain next_command (length (pending h')) h' = (pending h', h'')" "pending h'' = []" by blast
  have "if p = High \<or> length (h_urgent h) < 1024
      then h_urgent h' = h_urgent h @ [cmd] \<and> h_common h' = h_common h
      else h_urgent h' = h_urgent h \<and> h_common h' = h_common h @ [cmd]"
    using put(1) assms
    by (cases p) (auto simp: enqueue_def send_urgent_def send_common_def MAX_POLL_EVENT_CAP_def less_prioity_def split: if_splits)
  with put drain show ?thesis by (intro exI [of _ h'] exI [of _ h'']) (auto simp: pending_def)
qed

lemma accepted_command_received_witness:
  "\<exists>h' h''. enqueue High Shutdown sample_handle = (True, h') \<and> length (pending h') = Suc (length (pending sample_handle))
    \<and> (h_urgent h' = h_urgent sample_handle @ [Shutdown] \<and> h_common h' = h_common sample_handle)
    \<and> drain next_command (length (pending h')) h' = (h_urgent sample_handle @ Shutdown # h_common sample_handle, h'')
    \<and> h_urgent h'' = [] \<and> h_common h'' = []"
proof -
  have "h_connected sample_handle" by (simp add: sample_handle_def)
  from accepted_command_received [OF this, of High Shutdown] show ?thesis by (simp only: simp_thms if_True)
qed

end
