(* ===== verification/Options.thy ===== *)
theory Options
  imports SocketAddr
begin

text \<open>
  Model of the options record of \<open>src/options.rs\<close>, its enumerations and its defaults; the builder is in
  theory \<open>OptionsBuilder\<close>. A \<open>Duration\<close> is its number of nanoseconds.
\<close>

subsection \<open>Options\<close>

definition DEFAULT_BUFFER_SIZE :: usize where
  "DEFAULT_BUFFER_SIZE = 1024"

definition MAX_STREAM_BUFFER_CAP :: usize where
  "MAX_STREAM_BUFFER_CAP = 64 * 1024"

datatype load_balancing = LbRoundRobin | LbLeastConnections | LbSourceAddrHash

datatype level = LevelDebug | LevelInfo | LevelWarn | LevelError | LevelFatal

definition level_default :: level where
  [simp]: "level_default = LevelInfo"

datatype tcp_socket_opt = NoDelay | Delay

record options =
  lb :: load_balancing
  reuse_addr :: bool
  reuse_port :: bool
  bind_to_device :: string
  num_event_loop :: usize
  read_buffer_cap :: usize
  write_buffer_cap :: usize
  lock_os_thread :: bool
  ticker :: bool
  tcp_keepalive :: "nat option"
  tcp_keep_interval :: "nat option"
  tcp_keep_count :: "u32 option"
  tcp_no_delay :: tcp_socket_opt
  socket_recv_buffer :: usize
  socket_send_buffer :: usize
  max_batch_size :: usize
  log_path :: "string option"
  log_level :: level

definition default_options :: options where
  "default_options =
     \<lparr>lb = LbRoundRobin, reuse_addr = False, reuse_port = False, bind_to_device = [],
      num_event_loop = 0, read_buffer_cap = MAX_STREAM_BUFFER_CAP,
      write_buffer_cap = MAX_STREAM_BUFFER_CAP, lock_os_thread = False, ticker = False,
      tcp_keepalive = None, tcp_keep_interval = None, tcp_keep_count = None,
      tcp_no_delay = NoDelay, socket_recv_buffer = 0, socket_send_buffer = 0,
      max_batch_size = 0, log_path = None, log_level = level_default\<rparr>"

end
