(* ===== verification/Connection.thy ===== *)
theory Connection
  imports Command Options
begin

text \<open>
  Model of the connection record of \<open>src/connection.rs\<close> and of its inbound half: the two receive
  buffers and the operations that consume them. \<open>io_buffer\<close> holds the bytes of the read in
  progress, \<open>in_buffer\<close> what earlier reads left over; the application sees their concatenation
  \<open>avail\<close>. The type \<open>'k\<close> is the state of the connection's codec, an object of user code.

  Operations are programs over the connection (\<open>&mut self\<close>): an \<open>unwrap\<close> of \<open>None\<close>, a slice or an
  \<open>advance\<close> past the end is the outcome \<open>Panic\<close>.
\<close>

subsection \<open>The connection\<close>

record 'k conn =
  c_gfd :: gfd
  c_socket :: "socket option"
  c_local_addr :: network_address
  c_peer_addr :: network_address
  c_closed :: bool
  c_io_buffer :: "bytes option"
  c_in_buffer :: "bytes option"
  c_out_buffer :: "bytes list option"
  c_handle :: nat
  c_options :: options
  c_codec :: "'k option"

definition conn_new ::
  "gfd \<Rightarrow> socket \<Rightarrow> options \<Rightarrow> network_address \<Rightarrow> network_address \<Rightarrow> nat \<Rightarrow> 'k conn" where
  "conn_new g sk opts local_addr peer_addr handle =
     \<lparr>c_gfd = g, c_socket = Some sk, c_local_addr = local_addr, c_peer_addr = peer_addr,
      c_closed = False, c_io_buffer = None, c_in_buffer = None, c_out_buffer = None,
      c_handle = handle, c_options = opts, c_codec = None\<rparr>"

text \<open>A recycled connection keeps its buffers, emptied: \<open>clear\<close> on each buffer that exists.\<close>

definition conn_reset ::
  "gfd \<Rightarrow> socket \<Rightarrow> options \<Rightarrow> network_address \<Rightarrow> network_address \<Rightarrow> nat \<Rightarrow> 'k conn \<Rightarrow> 'k conn" where
  "conn_reset g sk opts local_addr peer_addr handle c =
     c\<lparr>c_gfd := g, c_socket := Some sk, c_local_addr := local_addr, c_peer_addr := peer_addr,
       c_closed := False, c_handle := handle, c_options := opts, c_codec := None,
       c_in_buffer := map_option (\<lambda>_. []) (c_in_buffer c),
       c_io_buffer := map_option (\<lambda>_. []) (c_io_buffer c),
       c_out_buffer := map_option (\<lambda>_. []) (c_out_buffer c)\<rparr>"

definition in_buf_len :: "'k conn \<Rightarrow> nat" where
  "in_buf_len c = (case c_in_buffer c of Some buf \<Rightarrow> length buf | None \<Rightarrow> 0)"

definition io_buf_len :: "'k conn \<Rightarrow> nat" where
  "io_buf_len c = (case c_io_buffer c of Some buf \<Rightarrow> length buf | None \<Rightarrow> 0)"

text \<open>\<open>match n { Some(n) if n > total_len => return None, Some(n) => n, None => total_len }\<close>\<close>

definition requested :: "nat option \<Rightarrow> nat \<Rightarrow> nat option" where
  "requested n total_len =
     (case n of Some n \<Rightarrow> if total_len < n then None else Some n | None \<Rightarrow> Some total_len)"

definition next_contiguous :: "nat option \<Rightarrow> (bytes option, 'k conn) prog" where
  "next_contiguous n c =
     (let in_buffer_len = in_buf_len c; total_len = in_buffer_len + io_buf_len c in
      case requested n total_len of
        None \<Rightarrow> (Ok None, c)
      | Some actual_len \<Rightarrow>
          if in_buffer_len = 0 then
            (case c_io_buffer c of
               Some io \<Rightarrow>
                 (case split_to actual_len io of
                    Some (data, rest) \<Rightarrow> (Ok (Some data), c\<lparr>c_io_buffer := Some rest\<rparr>)
                  | None \<Rightarrow> (Panic, c))
             | None \<Rightarrow> (Ok None, c))
          else
            (case c_in_buffer c of
               None \<Rightarrow> (Ok None, c)
             | Some inb \<Rightarrow>
                 if actual_len \<le> in_buffer_len then
                   (case split_to actual_len inb of
                      Some (data, rest) \<Rightarrow> (Ok (Some data), c\<lparr>c_in_buffer := Some rest\<rparr>)
                    | None \<Rightarrow> (Panic, c))
                 else
                   (case c_io_buffer c of
                      None \<Rightarrow> (Panic, c)
                    | Some io \<Rightarrow>
                        (case split_to (actual_len - in_buffer_len) io of
                           Some (copied, rest) \<Rightarrow>
                             (Ok (Some (inb @ copied)), c\<lparr>c_in_buffer := None, c_io_buffer := Some rest\<rparr>)
                         | None \<Rightarrow> (Panic, c)))))"

text \<open>The answer is the \<open>SmallVec\<close> of at most two pieces.\<close>

definition next_vectored :: "nat option \<Rightarrow> (bytes list option, 'k conn) prog" where
  "next_vectored n c =
     (let total_len = in_buf_len c + io_buf_len c in
      case (case n of Some n \<Rightarrow> if total_len < n \<or> n \<le> 0 then None else Some n | None \<Rightarrow> Some total_len) of
        None \<Rightarrow> (Ok None, c)
      | Some actual_len \<Rightarrow>
          (case (case c_in_buffer c of
                   None \<Rightarrow> Some ([], actual_len, c)
                 | Some inb \<Rightarrow>
                     let len = min actual_len (length inb) in
                     (case split_to len inb of
                        None \<Rightarrow> None
                      | Some (data, rest) \<Rightarrow>
                          Some (if 0 < len then [data] else [], actual_len - len,
                                c\<lparr>c_in_buffer := (if rest = [] then None else Some rest)\<rparr>))) of
             None \<Rightarrow> (Panic, c)
           | Some (result, remaining, c') \<Rightarrow>
               if 0 < remaining then
                 (case c_io_buffer c' of
                    None \<Rightarrow> (Ok (Some result), c')
                  | Some io \<Rightarrow>
                      (case split_to remaining io of
                         None \<Rightarrow> (Panic, c')
                       | Some (data, rest) \<Rightarrow> (Ok (Some (result @ [data])), c'\<lparr>c_io_buffer := Some rest\<rparr>)))
               else (Ok (Some result), c')))"

text \<open>\<open>PeekData\<close> derefs to a byte slice whichever variant it is.\<close>

datatype peek_data = PeekRaw bytes | PeekBytesMut bytes

fun peek_deref :: "peek_data \<Rightarrow> bytes" where
  "peek_deref (PeekRaw data) = data"
| "peek_deref (PeekBytesMut data) = data"

definition peek :: "nat option \<Rightarrow> (peek_data option, 'k conn) prog" where
  "peek n c =
     (let in_buffer_len = in_buf_len c; total_len = in_buffer_len + io_buf_len c in
      case requested n total_len of
        None \<Rightarrow> (Ok None, c)
      | Some actual_len \<Rightarrow>
          if in_buffer_len = 0 then
            (case c_io_buffer c of
               Some io \<Rightarrow>
                 (case split_to actual_len io of
                    Some (data, _) \<Rightarrow> (Ok (Some (PeekRaw data)), c)
                  | None \<Rightarrow> (Panic, c))
             | None \<Rightarrow> (Ok None, c))
          else
            (case c_in_buffer c of
               None \<Rightarrow> (Ok None, c)
             | Some inb \<Rightarrow>
                 if actual_len \<le> in_buffer_len then
                   (case split_to actual_len inb of
                      Some (data, _) \<Rightarrow> (Ok (Some (PeekRaw data)), c)
                    | None \<Rightarrow> (Panic, c))
                 else
                   (case c_io_buffer c of
                      None \<Rightarrow> (Panic, c)
                    | Some io \<Rightarrow>
                        (case split_to (actual_len - in_buffer_len) io of
                           Some (copied, _) \<Rightarrow> (Ok (Some (PeekBytesMut (inb @ copied))), c)
                         | None \<Rightarrow> (Panic, c)))))"

definition discard :: "nat option \<Rightarrow> (nat option, 'k conn) prog" where
  "discard n c =
     (let in_buffer_len = in_buf_len c; total_len = in_buffer_len + io_buf_len c in
      case requested n total_len of
        None \<Rightarrow> (Ok None, c)
      | Some actual_len \<Rightarrow>
          if in_buffer_len = 0 then
            (case c_io_buffer c of
               Some io \<Rightarrow>
                 (case advance actual_len io of
                    Some rest \<Rightarrow> (Ok (Some actual_len), c\<lparr>c_io_buffer := Some rest\<rparr>)
                  | None \<Rightarrow> (Panic, c))
             | None \<Rightarrow> (Ok None, c))
          else
            (case c_in_buffer c of
               None \<Rightarrow> (Panic, c)
             | Some inb \<Rightarrow>
                 if actual_len \<le> in_buffer_len then
                   (case advance actual_len inb of
                      Some rest \<Rightarrow>
                        (Ok (Some actual_len), c\<lparr>c_in_buffer := (if rest = [] then None else Some rest)\<rparr>)
                    | None \<Rightarrow> (Panic, c))
                 else
                   (case c_io_buffer c of
                      None \<Rightarrow> (Panic, c\<lparr>c_in_buffer := None\<rparr>)
                    | Some io \<Rightarrow>
                        (case advance (actual_len - in_buffer_len) io of
                           Some rest \<Rightarrow>
                             (Ok (Some actual_len), c\<lparr>c_in_buffer := None, c_io_buffer := Some rest\<rparr>)
                         | None \<Rightarrow> (Panic, c\<lparr>c_in_buffer := None\<rparr>)))))"

text \<open>
  \<open>Read::read\<close> into a buffer of \<open>buf_len\<close> bytes: the answer is the bytes copied to its front
  (their number is what the code returns).
\<close>

definition conn_read :: "nat \<Rightarrow> (bytes, 'k conn) prog" where
  "conn_read buf_len c =
     (case (case c_in_buffer c of
              None \<Rightarrow> ([], c)
            | Some inb \<Rightarrow>
                let len = min buf_len (length inb) in
                (take len inb,
                 c\<lparr>c_in_buffer := (if drop len inb = [] then None else Some (drop len inb))\<rparr>)) of
        (got, c') \<Rightarrow>
          if length got = buf_len then (Ok got, c')
          else
            (case c_io_buffer c' of
               None \<Rightarrow> (Ok got, c')
             | Some io \<Rightarrow>
                 let len = min (buf_len - length got) (length io) in
                 (Ok (got @ take len io), c'\<lparr>c_io_buffer := Some (drop len io)\<rparr>)))"

subsection \<open>The abstract view\<close>

definition avail :: "'k conn \<Rightarrow> bytes" where
  "avail c = opt_list (c_in_buffer c) @ opt_list (c_io_buffer c)"

text \<open>Whether there is a buffer to serve a request from, were it for zero bytes.\<close>

definition readable :: "'k conn \<Rightarrow> bool" where
  "readable c \<longleftrightarrow> c_io_buffer c \<noteq> None \<or> opt_list (c_in_buffer c) \<noteq> []"

text \<open>Everything but the inbound buffers.\<close>

definition same_but_inbound :: "'k conn \<Rightarrow> 'k conn \<Rightarrow> bool" where
  "same_but_inbound c c' \<longleftrightarrow> c' = c\<lparr>c_in_buffer := c_in_buffer c', c_io_buffer := c_io_buffer c'\<rparr>"

end
