(* ===== verification/SimKernel.thy ===== *)
theory SimKernel
  imports Socket
begin

text \<open>
  A concrete world to apply the theorems to: a kernel whose answers are scripted. It meets the
  contracts of theory \<open>Socket\<close>, and any finite sequence of answers that the contracts allow can
  be scripted. The component theories use it only in their witnesses.
\<close>

subsection \<open>The scripted kernel\<close>

datatype answer = Accept nat | Fail io_error

text \<open>
  An exhausted write script accepts everything, an exhausted read script answers \<open>WouldBlock\<close>.
  \<open>sim_interest\<close> is what is registered, \<open>sim_dropped\<close> the closed streams, \<open>sim_wakes\<close> the
  wake-ups delivered, \<open>sim_got\<close> the bytes handed out by reads, \<open>sim_seen\<close> a log for the application, \<open>sim_held\<close>
  the sockets in use, \<open>sim_pieces\<close> the reads that gave something, \<open>sim_reg_errors\<close> the next answers of the registry (exhausted: success).
\<close>

record sim =
  sim_sent :: "socket \<Rightarrow> bytes"
  sim_writes :: "answer list"
  sim_reads :: "(io_error + bytes) list"
  sim_interest :: "raw_source \<Rightarrow> (usize \<times> interest) option"
  sim_dropped :: "socket list"
  sim_wakes :: "nat list"
  sim_reg_errors :: "io_error option list"
  sim_accepts :: "(stream \<times> socket_addr) list"
  sim_calls :: "(nat \<times> s2_request) list"
  sim_got :: "socket \<Rightarrow> bytes"
  sim_seen :: "socket \<Rightarrow> bytes"
  sim_held :: "socket set"
  sim_pieces :: "socket \<Rightarrow> bytes list"

definition sim0 :: sim where
  "sim0 = \<lparr>sim_sent = (\<lambda>_. []), sim_writes = [], sim_reads = [], sim_interest = (\<lambda>_. None),
     sim_dropped = [], sim_wakes = [], sim_reg_errors = [], sim_accepts = [], sim_calls = [],
     sim_got = (\<lambda>_. []), sim_seen = (\<lambda>_. []), sim_held = {}, sim_pieces = (\<lambda>_. [])\<rparr>"

definition sim_accept :: "nat \<Rightarrow> sim \<Rightarrow> socket \<Rightarrow> bytes \<Rightarrow> (io_error + nat) \<times> sim" where
  "sim_accept n w sk buf =
     (let n = min n (length buf) in
      (Inr n, w\<lparr>sim_sent := (sim_sent w)(sk := sim_sent w sk @ take n buf)\<rparr>))"

definition sim_write :: "sim \<Rightarrow> socket \<Rightarrow> bytes \<Rightarrow> (io_error + nat) \<times> sim" where
  "sim_write w sk buf =
     (case sim_writes w of
        [] \<Rightarrow> sim_accept (length buf) w sk buf
      | Accept n # as \<Rightarrow> sim_accept n (w\<lparr>sim_writes := as\<rparr>) sk buf
      | Fail e # as \<Rightarrow> (Inl e, w\<lparr>sim_writes := as\<rparr>))"

definition sim_read :: "sim \<Rightarrow> socket \<Rightarrow> nat \<Rightarrow> (io_error + bytes) \<times> sim" where
  "sim_read w sk len =
     (case sim_reads w of
        [] \<Rightarrow> (Inl (IoError WouldBlock []), w)
      | Inl e # rs \<Rightarrow> (Inl e, w\<lparr>sim_reads := rs\<rparr>)
      | Inr d # rs \<Rightarrow> (Inr (take len d),
          w\<lparr>sim_reads := rs, sim_got := (sim_got w)(sk := sim_got w sk @ take len d),
            sim_pieces := (sim_pieces w)(sk := sim_pieces w sk @ (if take len d = [] then [] else [take len d]))\<rparr>))"

definition sim_registry :: "sim \<Rightarrow> raw_source \<Rightarrow> (usize \<times> interest) option \<Rightarrow> (io_error + unit) \<times> sim" where
  "sim_registry w src i =
     (case sim_reg_errors w of
        Some e # es \<Rightarrow> (Inl e, w\<lparr>sim_reg_errors := es\<rparr>)
      | None # es \<Rightarrow> (Inr (), w\<lparr>sim_interest := (sim_interest w)(src := i), sim_reg_errors := es\<rparr>)
      | [] \<Rightarrow> (Inr (), w\<lparr>sim_interest := (sim_interest w)(src := i)\<rparr>))"

definition sim_accept_conn :: "sim \<Rightarrow> (io_error + (stream \<times> socket_addr)) \<times> sim" where
  "sim_accept_conn w =
     (case sim_accepts w of
        [] \<Rightarrow> (Inl (IoError WouldBlock []), w)
      | a # as \<Rightarrow> (Inr a, w\<lparr>sim_accepts := as\<rparr>))"

fun first_vacant :: "bool list \<Rightarrow> nat" where
  "first_vacant [] = 0"
| "first_vacant (occupied # occ) = (if occupied then Suc (first_vacant occ) else 0)"

definition sim_os :: "sim os" where
  "sim_os =
     \<lparr>tcp_read = (\<lambda>w s len. sim_read w (Tcp s) len),
      unix_read = (\<lambda>w s len. sim_read w (Unix s) len),
      tcp_write = (\<lambda>w s buf. sim_write w (Tcp s) buf),
      unix_write = (\<lambda>w s buf. sim_write w (Unix s) buf),
      tcp_write_vectored = (\<lambda>w s bufs. sim_write w (Tcp s) (concat bufs)),
      unix_write_vectored = (\<lambda>w s bufs. sim_write w (Unix s) (concat bufs)),
      tcp_flush = (\<lambda>w s. (Inr (), w)),
      unix_flush = (\<lambda>w s. (Inr (), w)),
      tcp_set_nodelay = (\<lambda>w s b. (Inr (), w)),
      tcp_raw_fd = (\<lambda>w s. of_nat s),
      unix_raw_fd = (\<lambda>w s. of_nat s),
      registry_register = (\<lambda>w src t i. sim_registry w src (Some (t, i))),
      registry_reregister = (\<lambda>w src t i. sim_registry w src (Some (t, i))),
      registry_deregister = (\<lambda>w src. sim_registry w src None),
      drop_stream = (\<lambda>w sk. w\<lparr>sim_dropped := sk # sim_dropped w\<rparr>),
      waker_wake = (\<lambda>w i. (Inr (), w\<lparr>sim_wakes := i # sim_wakes w\<rparr>)),
      tcp_accept = (\<lambda>w l. sim_accept_conn w),
      unix_accept = (\<lambda>w l. case sim_accept_conn w of (Inl e, w') \<Rightarrow> (Inl e, w') | (Inr (s, _), w') \<Rightarrow> (Inr (s, None), w')),
      tcp_listener_addr = (\<lambda>w l. Inr (SocketAddrV4 [127, 0, 0, 1] 9000)),
      unix_listener_addr = (\<lambda>w l. Inr None),
      s2_socket = (\<lambda>w d. (Inr (length (sim_calls w)), w)),
      s2_call = (\<lambda>w s r. (Inr (), w\<lparr>sim_calls := sim_calls w @ [(s, r)]\<rparr>)),
      path_exists = (\<lambda>w p. False),
      remove_file = (\<lambda>w p. (Inr (), w)),
      read_to_string = (\<lambda>w p. None),
      vacant_key = (\<lambda>w occ. first_vacant occ),
      reserve_capacity = (\<lambda>len additional. len + additional)\<rparr>"

subsection \<open>It meets the contracts\<close>

lemma sim_accept_contract: "write_contract sim_sent w sk buf (sim_accept n w sk buf)"
  by (simp add: write_contract_def sim_accept_def Let_def)

lemma sim_write_contract: "write_contract sim_sent w sk buf (sim_write w sk buf)"
  using sim_accept_contract [of _ sk buf]
  by (auto simp: sim_write_def write_contract_def sim_accept_def Let_def split: list.splits answer.splits)

lemma sim_transport_ok: "transport_ok sim_os sim_sent"
  by (simp add: transport_ok_def sim_os_def sim_write_contract)

lemma sim_read_ok: "read_ok sim_os"
  by (auto simp: read_ok_def sim_os_def sim_read_def split: list.splits sum.splits)

lemma first_vacant_free: "\<not> (first_vacant occ < length occ \<and> occ ! first_vacant occ)"
  by (induction occ) auto

lemma sim_socket_read [simp]: "socket_read sim_os w sk len = sim_read w sk len"
  by (cases sk) (simp_all add: socket_read_def sim_os_def)

lemma sim_socket_write_vectored [simp]: "socket_write_vectored sim_os w sk bufs = sim_write w sk (concat bufs)"
  by (cases sk) (simp_all add: socket_write_vectored_def sim_os_def)

lemma first_vacant_count: "first_vacant occ \<le> length (filter (\<lambda>b. b) occ)"
  by (induction occ) auto

lemma sim_vacant_ok: "vacant_ok dbg sim_os"
  using first_vacant_free order_trans [OF _ first_vacant_count] by (simp add: vacant_ok_def sim_os_def)

lemma sim_reserve_ok: "reserve_ok sim_os"
  by (simp add: reserve_ok_def sim_os_def)

lemma first_vacant_le: "first_vacant occ \<le> length occ"
  by (induction occ) auto

text \<open>The same kernel with a registry that never fails.\<close>

definition sim_set_interest :: "sim \<Rightarrow> raw_source \<Rightarrow> (usize \<times> interest) option \<Rightarrow> (io_error + unit) \<times> sim" where
  "sim_set_interest w src i = (Inr (), w\<lparr>sim_interest := (sim_interest w)(src := i)\<rparr>)"

definition steady_os :: "sim os" where
  "steady_os = sim_os
     \<lparr>registry_register := (\<lambda>w src t i. sim_set_interest w src (Some (t, i))),
      registry_reregister := (\<lambda>w src t i. sim_set_interest w src (Some (t, i))),
      registry_deregister := (\<lambda>w src. sim_set_interest w src None)\<rparr>"

lemma steady_sockets [simp]:
  "socket_read steady_os = socket_read sim_os"
  "socket_write_vectored steady_os = socket_write_vectored sim_os"
  by (simp_all add: fun_eq_iff socket_read_def socket_write_vectored_def steady_os_def split: socket.split)

lemma steady_contracts:
  "transport_ok steady_os sim_sent" "read_ok steady_os" "vacant_ok dbg steady_os" "reserve_ok steady_os"
  using sim_transport_ok sim_read_ok sim_vacant_ok sim_reserve_ok
  by (simp_all add: transport_ok_def read_ok_def vacant_ok_def reserve_ok_def steady_os_def)

end
