(* ===== verification/Outbound.thy ===== *)
theory Outbound
  imports Connection SimKernel
begin

text \<open>
  The outbound half of \<open>src/connection.rs\<close>: writing with a queue of chunks that the kernel has not
  taken yet. Operations are programs over the connection and the world. \<open>flush\<close> retries when the
  kernel reports \<open>Interrupted\<close>, without a bound, so its loop is a partial function: \<open>None\<close> is
  "does not return", which becomes the outcome \<open>Diverge\<close>.
\<close>

subsection \<open>Queue arithmetic\<close>

definition IO_MAX :: nat where
  "IO_MAX = 1024"

text \<open>The inner loop \<open>while written > 0\<close> of \<open>flush\<close> and \<open>process_write\<close>.\<close>

fun advance_queue :: "nat \<Rightarrow> bytes list \<Rightarrow> bytes list" where
  "advance_queue 0 q = q"
| "advance_queue (Suc n) [] = []"
| "advance_queue (Suc n) (front # q) =
     (if length front \<le> Suc n then advance_queue (Suc n - length front) q
      else drop (Suc n) front # q)"

text \<open>The loop over \<open>bufs\<close> after a short vectored write: the chunks that are pushed.\<close>

fun unwritten :: "nat \<Rightarrow> bytes list \<Rightarrow> bytes list" where
  "unwritten written [] = []"
| "unwritten written (buf # bufs) =
     (if length buf \<le> written then unwritten (written - length buf) bufs
      else if 0 < written then drop written buf # unwritten 0 bufs
      else buf # unwritten written bufs)"

definition out_busy :: "'k conn \<Rightarrow> bool" where
  "out_busy c = (case c_out_buffer c of Some q \<Rightarrow> q \<noteq> [] | None \<Rightarrow> False)"

text \<open>\<open>get_or_insert_with(VecDeque::new)\<close>, then \<open>push_back\<close> or \<open>extend\<close>.\<close>

definition push_out :: "bytes list \<Rightarrow> 'k conn \<Rightarrow> 'k conn" where
  "push_out bufs c = c\<lparr>c_out_buffer := Some (opt_list (c_out_buffer c) @ bufs)\<rparr>"

definition retryable :: "io_error \<Rightarrow> bool" where
  "retryable e \<longleftrightarrow> err_kind e = WouldBlock \<or> err_kind e = Interrupted"

subsection \<open>Writing\<close>

definition write_bytes :: "'w os \<Rightarrow> bytes \<Rightarrow> (nat, 'k conn \<times> 'w) prog" where
  "write_bytes os buf = (\<lambda>(c, w).
     if out_busy c then (Ok (length buf), (push_out [buf] c, w))
     else
       (case c_socket c of
          None \<Rightarrow> (Panic, (c, w))
        | Some sk \<Rightarrow>
            (case socket_write os w sk buf of
               (Inr n, w') \<Rightarrow>
                 (Ok (length buf), (if n < length buf then push_out [drop n buf] c else c, w'))
             | (Inl e, w') \<Rightarrow>
                 if retryable e then (Ok (length buf), (push_out [buf] c, w')) else (Err e, (c, w')))))"

definition write_vectored_bytes :: "'w os \<Rightarrow> bytes list \<Rightarrow> (nat, 'k conn \<times> 'w) prog" where
  "write_vectored_bytes os bufs = (\<lambda>(c, w).
     let total_len = sum_list (map length bufs) in
     if total_len = 0 then (Ok 0, (c, w))
     else if out_busy c then (Ok total_len, (push_out bufs c, w))
     else
       (case c_socket c of
          None \<Rightarrow> (Panic, (c, w))
        | Some sk \<Rightarrow>
            (case socket_write_vectored os w sk bufs of
               (Inr n, w') \<Rightarrow>
                 (Ok total_len, (if n < total_len then push_out (unwritten n bufs) c else c, w'))
             | (Inl e, w') \<Rightarrow>
                 if retryable e then (Ok total_len, (push_out bufs c, w')) else (Err e, (c, w')))))"

text \<open>\<open>Write::write\<close>, whose two retry arms are written out separately in the source.\<close>

definition conn_write :: "'w os \<Rightarrow> bytes \<Rightarrow> (nat, 'k conn \<times> 'w) prog" where
  "conn_write os buf = (\<lambda>(c, w).
     if out_busy c then (Ok (length buf), (push_out [buf] c, w))
     else
       (case c_socket c of
          None \<Rightarrow> (Panic, (c, w))
        | Some sk \<Rightarrow>
            (case socket_write os w sk buf of
               (Inr n, w') \<Rightarrow>
                 (Ok (length buf), (if n < length buf then push_out [drop n buf] c else c, w'))
             | (Inl e, w') \<Rightarrow>
                 if err_kind e = WouldBlock then (Ok (length buf), (push_out [buf] c, w'))
                 else if err_kind e = Interrupted then (Ok (length buf), (push_out [buf] c, w'))
                 else (Err e, (c, w')))))"

text \<open>The loop over \<open>bufs\<close> in \<open>Write::write_vectored\<close> has two branches only.\<close>

fun unwritten_slices :: "nat \<Rightarrow> bytes list \<Rightarrow> bytes list" where
  "unwritten_slices written [] = []"
| "unwritten_slices written (buf # bufs) =
     (if length buf \<le> written then unwritten_slices (written - length buf) bufs
      else drop written buf # unwritten_slices 0 bufs)"

definition conn_write_vectored :: "'w os \<Rightarrow> bytes list \<Rightarrow> (nat, 'k conn \<times> 'w) prog" where
  "conn_write_vectored os bufs = (\<lambda>(c, w).
     let total_len = sum_list (map length bufs) in
     if total_len = 0 then (Ok 0, (c, w))
     else if out_busy c then (Ok total_len, (push_out bufs c, w))
     else
       (case c_socket c of
          None \<Rightarrow> (Panic, (c, w))
        | Some sk \<Rightarrow>
            (case socket_write_vectored os w sk bufs of
               (Inr n, w') \<Rightarrow>
                 (Ok total_len, (if n < total_len then push_out (unwritten_slices n bufs) c else c, w'))
             | (Inl e, w') \<Rightarrow>
                 if retryable e then (Ok total_len, (push_out bufs c, w')) else (Err e, (c, w')))))"

subsection \<open>Flushing\<close>

partial_function (option) flush_loop ::
  "'w os \<Rightarrow> socket \<Rightarrow> bytes list \<Rightarrow> 'w \<Rightarrow> (unit outcome \<times> bytes list \<times> 'w) option" where
  "flush_loop os sk q w =
     (if q = [] then Some (Ok (), q, w)
      else
        (case socket_write_vectored os w sk (take IO_MAX q) of
           (Inr n, w') \<Rightarrow>
             if n = 0 then Some (Err (IoError WriteZero ''connection closed''), q, w')
             else flush_loop os sk (advance_queue n q) w'
         | (Inl e, w') \<Rightarrow>
             if err_kind e = Interrupted then flush_loop os sk q w'
             else if err_kind e = WouldBlock then Some (Err (IoError WouldBlock ''flush would block''), q, w')
             else Some (Err e, q, w')))"

definition flush_socket :: "'w os \<Rightarrow> (unit, 'k conn \<times> 'w) prog" where
  "flush_socket os = (\<lambda>(c, w).
     case c_socket c of
       None \<Rightarrow> (Panic, (c, w))
     | Some sk \<Rightarrow>
         (case socket_flush os w sk of
            (Inr _, w') \<Rightarrow> (Ok (), (c, w'))
          | (Inl e, w') \<Rightarrow> (Err e, (c, w'))))"

definition flush :: "'w os \<Rightarrow> (unit, 'k conn \<times> 'w) prog" where
  "flush os = (\<lambda>(c, w).
     case c_out_buffer c of
       None \<Rightarrow> flush_socket os (c, w)
     | Some q \<Rightarrow>
         (case c_socket c of
            None \<Rightarrow> (Panic, (c, w))
          | Some sk \<Rightarrow>
              (case flush_loop os sk q w of
                 None \<Rightarrow> (Diverge, (c, w))
               | Some (r, q', w') \<Rightarrow>
                   bind_io (\<lambda>s. (r, s)) (\<lambda>_. flush_socket os) (c\<lparr>c_out_buffer := Some q'\<rparr>, w'))))"

text \<open>\<open>Connection::close\<close> sends a command to the connection's own loop.\<close>

definition conn_close :: "'w os \<Rightarrow> 'k conn \<Rightarrow> (unit, loop_handle \<times> 'w) prog" where
  "conn_close os c =
     (let cmd = Close (slab_index (c_gfd c)) in discard_result (trigger os (priority cmd) cmd))"

subsection \<open>Traces of outbound operations\<close>

text \<open>
  A sequence of writes and flushes as an application makes it, going on after errors. The answer
  lists the data of the writes that succeeded.
\<close>

datatype out_op =
    OutBytes bytes
  | OutVectoredBytes "bytes list"
  | OutWrite bytes
  | OutWriteVectored "bytes list"
  | OutFlush

definition attempt :: "'b \<Rightarrow> 'b \<Rightarrow> ('a, 's) prog \<Rightarrow> ('b, 's) prog" where
  "attempt yes no m s =
     (case m s of
        (Ok _, s') \<Rightarrow> (Ok yes, s')
      | (Err _, s') \<Rightarrow> (Ok no, s')
      | (Panic, s') \<Rightarrow> (Panic, s')
      | (Diverge, s') \<Rightarrow> (Diverge, s'))"

fun out_step :: "'w os \<Rightarrow> out_op \<Rightarrow> (bytes, 'k conn \<times> 'w) prog" where
  "out_step os (OutBytes buf) = attempt buf [] (write_bytes os buf)"
| "out_step os (OutVectoredBytes bufs) = attempt (concat bufs) [] (write_vectored_bytes os bufs)"
| "out_step os (OutWrite buf) = attempt buf [] (conn_write os buf)"
| "out_step os (OutWriteVectored bufs) = attempt (concat bufs) [] (conn_write_vectored os bufs)"
| "out_step os OutFlush = attempt [] [] (flush os)"

fun out_run :: "'w os \<Rightarrow> out_op list \<Rightarrow> (bytes list, 'k conn \<times> 'w) prog" where
  "out_run os [] = ret []"
| "out_run os (x # xs) = bind_io (out_step os x) (\<lambda>d. bind_io (out_run os xs) (\<lambda>ds. ret (d # ds)))"

text \<open>
  What termination of the flush loop needs of the kernel: \<open>Interrupted\<close> is not answered forever
  (\<open>\<mu>\<close> bounds how often it still can be). What progress needs: as long as \<open>live\<close> holds the
  kernel takes at least one byte of what it is offered.
\<close>

definition eintr_bounded :: "'w os \<Rightarrow> ('w \<Rightarrow> nat) \<Rightarrow> bool" where
  "eintr_bounded os \<mu> \<longleftrightarrow>
     (\<forall>w sk bufs e w'. socket_write_vectored os w sk bufs = (Inl e, w') \<longrightarrow> err_kind e = Interrupted \<longrightarrow> \<mu> w' < \<mu> w)"

definition accepting :: "'w os \<Rightarrow> ('w \<Rightarrow> bool) \<Rightarrow> bool" where
  "accepting os live \<longleftrightarrow>
     (\<forall>w sk bufs. live w \<longrightarrow> concat bufs \<noteq> [] \<longrightarrow>
        (\<exists>n w'. socket_write_vectored os w sk bufs = (Inr n, w') \<and> 0 < n \<and> live w')) \<and>
     (\<forall>w sk. live w \<longrightarrow> (\<exists>w'. socket_flush os w sk = (Inr (), w')))"

subsection \<open>The abstract view\<close>

text \<open>
  The outbound stream of a connection on socket \<open>sk\<close>: what the kernel has accepted, followed by
  what is queued.
\<close>

definition outstream :: "('w \<Rightarrow> socket \<Rightarrow> bytes) \<Rightarrow> socket \<Rightarrow> 'k conn \<times> 'w \<Rightarrow> bytes" where
  "outstream wire sk = (\<lambda>(c, w). wire w sk @ concat (opt_list (c_out_buffer c)))"

definition same_but_out :: "'k conn \<Rightarrow> 'k conn \<Rightarrow> bool" where
  "same_but_out c c' \<longleftrightarrow> c' = c\<lparr>c_out_buffer := c_out_buffer c'\<rparr>"

definition others_unchanged :: "('w \<Rightarrow> socket \<Rightarrow> bytes) \<Rightarrow> socket \<Rightarrow> 'w \<Rightarrow> 'w \<Rightarrow> bool" where
  "others_unchanged wire sk w w' \<longleftrightarrow> (\<forall>sk'. sk' \<noteq> sk \<longrightarrow> wire w' sk' = wire w sk')"

text \<open>
  What a write of \<open>data\<close> may do: either it answers the full length and the data is appended to
  the stream, or it fails with an error that is not worth a retry, when nothing was queued, and
  nothing has changed.
\<close>

definition sink_step ::
  "('w \<Rightarrow> socket \<Rightarrow> bytes) \<Rightarrow> socket \<Rightarrow> bytes \<Rightarrow> 'k conn \<times> 'w \<Rightarrow> nat outcome \<Rightarrow> 'k conn \<times> 'w \<Rightarrow> bool" where
  "sink_step wire sk data s r s' \<longleftrightarrow>
     same_but_out (fst s) (fst s') \<and> others_unchanged wire sk (snd s) (snd s') \<and>
     (case r of
        Ok n \<Rightarrow> n = length data \<and> outstream wire sk s' = outstream wire sk s @ data
      | Err e \<Rightarrow> \<not> retryable e \<and> \<not> out_busy (fst s) \<and> fst s' = fst s \<and> wire (snd s') = wire (snd s)
      | _ \<Rightarrow> False)"

text \<open>The contract that the four writing methods share.\<close>

locale byte_sink =
  fixes emit :: "'w os \<Rightarrow> 'd \<Rightarrow> (nat, 'k conn \<times> 'w) prog"
    and payload :: "'d \<Rightarrow> bytes"
  assumes write_step: "transport_ok os wire \<Longrightarrow> c_socket c = Some sk \<Longrightarrow>
      sink_step wire sk (payload d) (c, w) (fst (emit os d (c, w))) (snd (emit os d (c, w)))"
begin

lemma write_cases:
  assumes "transport_ok os wire" and "c_socket c = Some sk"
  obtains c' w' where "emit os d (c, w) = (Ok (length (payload d)), (c', w'))"
      "outstream wire sk (c', w') = outstream wire sk (c, w) @ payload d"
      "same_but_out c c'" "others_unchanged wire sk w w'"
    | e w' where "emit os d (c, w) = (Err e, (c, w'))" "\<not> retryable e" "\<not> out_busy c" "wire w' = wire w"
  using write_step [OF assms, of d w] that
  by (cases "emit os d (c, w)"; cases "fst (emit os d (c, w))") (auto simp: sink_step_def)

text \<open>A connection with something queued never reports an error from a write.\<close>

lemma busy_write_ok:
  assumes "transport_ok os wire" and "c_socket c = Some sk" and "out_busy c"
  shows "fst (emit os d (c, w)) = Ok (length (payload d))"
  using write_cases [OF assms(1,2), of d w] assms(3) by (metis fst_conv)

end

subsection \<open>Queue lemmas\<close>

lemma concat_advance_queue [byte_simps]: "concat (advance_queue n q) = drop n (concat q)"
  by (induction n q rule: advance_queue.induct) simp_all

lemma concat_unwritten [byte_simps]: "concat (unwritten n bufs) = drop n (concat bufs)"
  by (induction n bufs rule: unwritten.induct) auto

lemma concat_unwritten_slices [byte_simps]: "concat (unwritten_slices n bufs) = drop n (concat bufs)"
  by (induction n bufs rule: unwritten_slices.induct) auto

lemma unwritten_nonempty: "[] \<notin> set (unwritten n bufs)"
  by (induction n bufs rule: unwritten.induct) auto

lemma advance_queue_nonempty: "[] \<notin> set q \<Longrightarrow> [] \<notin> set (advance_queue n q)"
  by (induction n q rule: advance_queue.induct) auto

lemma advance_queue_snoc_Nil:
  "n \<le> length (concat q) \<Longrightarrow> advance_queue n (q @ [[]]) = advance_queue n q @ [[]]"
  by (induction n q rule: advance_queue.induct) auto

lemma length_concat_take: "length (concat (take k q)) \<le> length (concat q)"
proof -
  have "concat q = concat (take k q) @ concat (drop k q)"
    by (simp flip: concat_append)
  then show ?thesis by (metis length_append le_add1)
qed

lemma sum_list_length_concat [simp]: "sum_list (map length bufs) = length (concat bufs)"
  by (simp add: length_concat)

lemma not_busy: "\<not> out_busy c \<Longrightarrow> concat (opt_list (c_out_buffer c)) = []"
  by (auto simp: out_busy_def split: option.splits)

lemma same_but_out_refl [simp]: "same_but_out c c"
  by (simp add: same_but_out_def)

lemma same_but_out_push [simp]: "same_but_out c (push_out bufs c)"
  by (simp add: same_but_out_def push_out_def)

lemma same_but_out_update [simp]: "same_but_out c (c\<lparr>c_out_buffer := q\<rparr>)"
  by (simp add: same_but_out_def)

lemma same_but_out_trans: "same_but_out c c' \<Longrightarrow> same_but_out c' c'' \<Longrightarrow> same_but_out c c''"
  by (cases c; cases c'; cases c'') (simp add: same_but_out_def)

lemma same_but_outD:
  assumes "same_but_out c c'"
  shows "c_socket c' = c_socket c" and "c_gfd c' = c_gfd c" and "c_in_buffer c' = c_in_buffer c"
    and "c_io_buffer c' = c_io_buffer c" and "c_closed c' = c_closed c" and "c_handle c' = c_handle c"
  using assms by (cases c; cases c'; simp add: same_but_out_def)+

lemma push_out_concat [simp]:
  "concat (opt_list (c_out_buffer (push_out bufs c))) = concat (opt_list (c_out_buffer c)) @ concat bufs"
  by (simp add: push_out_def)

lemma others_unchanged_refl [simp]: "others_unchanged wire sk w w"
  by (simp add: others_unchanged_def)

lemma others_unchanged_trans:
  "others_unchanged wire sk w w' \<Longrightarrow> others_unchanged wire sk w' w'' \<Longrightarrow> others_unchanged wire sk w w''"
  by (simp add: others_unchanged_def)

text \<open>What one kernel call does to the wire, in the form the proofs below use.\<close>

lemma contract_Inr:
  assumes "write_contract wire w sk data (Inr n, w')"
  shows "n \<le> length data" and "wire w' sk = wire w sk @ take n data" and "others_unchanged wire sk w w'"
  using assms by (simp_all add: write_contract_def others_unchanged_def)

lemma contract_Inl: "write_contract wire w sk data (Inl e, w') \<Longrightarrow> wire w' = wire w"
  by (simp add: write_contract_def)

lemmas sink_defs = sink_step_def outstream_def others_unchanged_def

lemma sink_step_call:
  assumes ct: "write_contract wire w sk data (res, w')" and idle: "\<not> out_busy c"
    and rest: "\<And>n. res = Inr n \<Longrightarrow> concat (rest n) = drop n data"
    and queued: "concat queued = data"
  shows "sink_step wire sk data (c, w)
    (case res of Inr n \<Rightarrow> Ok (length data) | Inl e \<Rightarrow> if retryable e then Ok (length data) else Err e)
    (case res of Inr n \<Rightarrow> (if n < length data then push_out (rest n) c else c, w')
       | Inl e \<Rightarrow> if retryable e then (push_out queued c, w') else (c, w'))"
proof (cases res)
  case (Inl e)
  with ct have "wire w' = wire w" by (auto dest: contract_Inl)
  with Inl idle queued show ?thesis by (simp add: sink_defs)
next
  case (Inr n)
  with ct have c: "n \<le> length data" "wire w' sk = wire w sk @ take n data" "others_unchanged wire sk w w'"
    by (auto dest: contract_Inr)
  from rest [OF Inr] have r: "concat (rest n) = drop n data" .
  from c(1) have "n < length data \<or> n = length data" by auto
  with Inr c r idle show ?thesis
    by (auto simp: sink_step_def outstream_def not_busy)
qed

lemma sink_step_busy:
  "out_busy c \<Longrightarrow> concat queued = data \<Longrightarrow>
    sink_step wire sk data (c, w) (Ok (length data)) (push_out queued c, w)"
  by (simp add: sink_defs)

lemma sink_step_zero: "sink_step wire sk [] (c, w) (Ok 0) (c, w)"
  by (simp add: sink_defs)

subsection \<open>The four writing methods meet the contract\<close>

lemma write_bytes_step:
  assumes ok: "transport_ok os wire" and sk: "c_socket c = Some sk"
  shows "sink_step wire sk buf (c, w) (fst (write_bytes os buf (c, w))) (snd (write_bytes os buf (c, w)))"
proof (cases "out_busy c")
  case True
  then show ?thesis
    using sink_step_busy [of c "[buf]" buf] by (simp add: write_bytes_def)
next
  case False
  obtain res w' where r: "socket_write os w sk buf = (res, w')" by (cases "socket_write os w sk buf")
  from transport_write [OF ok, of w sk buf] r have "write_contract wire w sk buf (res, w')" by simp
  from sink_step_call [OF this False, of "\<lambda>n. [drop n buf]" "[buf]"] False sk r show ?thesis
    by (cases res) (auto simp: write_bytes_def)
qed

lemma write_vectored_bytes_step:
  assumes ok: "transport_ok os wire" and sk: "c_socket c = Some sk"
  shows "sink_step wire sk (concat bufs) (c, w) (fst (write_vectored_bytes os bufs (c, w)))
    (snd (write_vectored_bytes os bufs (c, w)))"
proof (cases "concat bufs = []")
  case True
  then have "write_vectored_bytes os bufs (c, w) = (Ok 0, (c, w))"
    by (simp add: write_vectored_bytes_def Let_def)
  with True sink_step_zero [of wire sk c w] show ?thesis by (simp del: concat_eq_Nil_conv)
next
  case data: False
  then have len: "length (concat bufs) \<noteq> 0" by simp
  show ?thesis
  proof (cases "out_busy c")
    case True
    with data have "write_vectored_bytes os bufs (c, w) = (Ok (length (concat bufs)), (push_out bufs c, w))"
      by (auto simp: write_vectored_bytes_def Let_def)
    with True sink_step_busy [of c bufs "concat bufs"] show ?thesis by simp
  next
    case False
    obtain res w' where r: "socket_write_vectored os w sk bufs = (res, w')"
      by (cases "socket_write_vectored os w sk bufs")
    from transport_write_vectored [OF ok, of w sk bufs] r
    have "write_contract wire w sk (concat bufs) (res, w')" by simp
    from sink_step_call [OF this False, of "\<lambda>n. unwritten n bufs" bufs] len False sk r show ?thesis
      by (cases res)
         (auto simp: write_vectored_bytes_def Let_def concat_unwritten simp del: length_0_conv concat_eq_Nil_conv)
  qed
qed

lemma unwritten_slices_eq: "unwritten_slices = unwritten"
proof (rule ext, rule ext)
  show "unwritten_slices n bufs = unwritten n bufs" for n bufs
    by (induction n bufs rule: unwritten.induct) auto
qed

lemma conn_write_eq: "conn_write os buf = write_bytes os buf"
  by (auto simp: conn_write_def write_bytes_def retryable_def fun_eq_iff split: option.splits sum.splits prod.splits)

lemma conn_write_vectored_eq: "conn_write_vectored os bufs = write_vectored_bytes os bufs"
  unfolding conn_write_vectored_def write_vectored_bytes_def unwritten_slices_eq by (rule refl)

interpretation bytes_sink: byte_sink write_bytes "\<lambda>buf. buf"
  by unfold_locales (rule write_bytes_step)

interpretation vectored_bytes_sink: byte_sink write_vectored_bytes concat
  by unfold_locales (rule write_vectored_bytes_step)

interpretation slice_sink: byte_sink conn_write "\<lambda>buf. buf"
  by unfold_locales (simp add: conn_write_eq write_bytes_step)

interpretation slices_sink: byte_sink conn_write_vectored concat
  by unfold_locales (simp add: conn_write_vectored_eq write_vectored_bytes_step)

subsection \<open>Flushing\<close>

text \<open>Whatever the flush loop returns, the stream is what it was and the queue is empty on success.\<close>

definition flush_post ::
  "('w \<Rightarrow> socket \<Rightarrow> bytes) \<Rightarrow> socket \<Rightarrow> bytes list \<Rightarrow> 'w \<Rightarrow> unit outcome \<times> bytes list \<times> 'w \<Rightarrow> bool" where
  "flush_post wire sk q w res \<longleftrightarrow>
     (case res of (r, q', w') \<Rightarrow>
        wire w' sk @ concat q' = wire w sk @ concat q \<and> others_unchanged wire sk w w'
        \<and> r \<noteq> Panic \<and> r \<noteq> Diverge \<and> (r = Ok () \<longrightarrow> q' = []))"

lemma flush_post_step:
  assumes ct: "write_contract wire w sk (concat (take k q)) (Inr n, w')"
    and rest: "flush_post wire sk (advance_queue n q) w' res"
  shows "flush_post wire sk q w res"
proof -
  have q: "concat q = concat (take k q) @ concat (drop k q)" by (simp flip: concat_append)
  from contract_Inr(1) [OF ct] have "take n (concat q) = take n (concat (take k q))"
    by (subst q) simp
  with contract_Inr(2) [OF ct] have "wire w' sk @ drop n (concat q) = wire w sk @ concat q"
    by (metis append.assoc append_take_drop_id)
  with rest contract_Inr(3) [OF ct] show ?thesis
    by (auto simp: flush_post_def concat_advance_queue intro: others_unchanged_trans split: prod.splits)
qed

lemma flush_loop_post:
  fixes os :: "'w os"
  assumes ret: "flush_loop os sk q w = Some res" and ok: "transport_ok os wire"
  shows "flush_post wire sk q w res"
proof (rule flush_loop.raw_induct [where P = "\<lambda>os sk q w res. transport_ok os wire \<longrightarrow> flush_post wire sk q w res",
      OF _ ret, THEN mp, OF _ ok], intro impI)
  fix f :: "'w os \<Rightarrow> socket \<Rightarrow> bytes list \<Rightarrow> 'w \<Rightarrow> (unit outcome \<times> bytes list \<times> 'w) option"
    and os :: "'w os" and sk q w res
  assume IH: "\<And>os sk q w res. f os sk q w = Some res \<Longrightarrow> transport_ok os wire \<longrightarrow> flush_post wire sk q w res"
    and body: "(if q = [] then Some (Ok (), q, w)
      else case socket_write_vectored os w sk (take IO_MAX q) of
             (Inr n, w') \<Rightarrow> if n = 0 then Some (Err (IoError WriteZero ''connection closed''), q, w')
                           else f os sk (advance_queue n q) w'
           | (Inl e, w') \<Rightarrow> if err_kind e = Interrupted then f os sk q w'
                           else if err_kind e = WouldBlock
                                then Some (Err (IoError WouldBlock ''flush would block''), q, w')
                                else Some (Err e, q, w')) = Some res"
    and ok: "transport_ok os wire"
  show "flush_post wire sk q w res"
  proof (cases "q = []")
    case True
    with body show ?thesis by (auto simp: flush_post_def)
  next
    case False
    obtain r w' where r: "socket_write_vectored os w sk (take IO_MAX q) = (r, w')" by fastforce
    have ct: "write_contract wire w sk (concat (take IO_MAX q)) (r, w')"
      using transport_write_vectored [OF ok, of w sk "take IO_MAX q"] r by simp
    show ?thesis
    proof (cases r)
      case (Inl e)
      with ct have w': "wire w' = wire w" by (auto dest: contract_Inl)
      show ?thesis
      proof (cases "err_kind e = Interrupted")
        case True
        with Inl r body False IH ok have "flush_post wire sk q w' res" by auto
        with w' show ?thesis by (simp add: flush_post_def others_unchanged_def split: prod.splits)
      next
        case False
        with Inl r body \<open>q \<noteq> []\<close> w' show ?thesis
          by (auto simp: flush_post_def others_unchanged_def split: if_splits)
      qed
    next
      case (Inr n)
      show ?thesis
      proof (cases "n = 0")
        case True
        from contract_Inr [OF ct [unfolded Inr]] True have "wire w' sk = wire w sk" "others_unchanged wire sk w w'"
          by simp_all
        with True Inr r body False show ?thesis by (auto simp: flush_post_def)
      next
        case nz: False
        with Inr r body False IH ok have "flush_post wire sk (advance_queue n q) w' res" by auto
        with ct Inr show ?thesis by (auto intro: flush_post_step)
      qed
    qed
  qed
qed

lemma flush_loop_Nil [simp]: "flush_loop os sk [] w = Some (Ok (), [], w)"
  by (simp add: flush_loop.simps)

lemma flush_socket_post:
  assumes "transport_ok os wire" and "c_socket c = Some sk"
  shows "\<exists>r w'. flush_socket os (c, w) = (r, (c, w')) \<and> wire w' = wire w \<and> r \<noteq> Panic \<and> r \<noteq> Diverge"
  using assms transport_flush [of os wire w sk]
  by (cases "socket_flush os w sk"; cases "fst (socket_flush os w sk)") (auto simp: flush_socket_def)

lemma flush_socket_world:
  assumes "transport_ok os wire" and "flush_socket os (c, w) = (r, (c', w'))"
  shows "c' = c \<and> wire w' = wire w"
proof (cases "c_socket c")
  case None
  with assms(2) show ?thesis by (simp add: flush_socket_def)
next
  case (Some sk)
  from flush_socket_post [OF assms(1) Some, of w] assms(2) show ?thesis by auto
qed

text \<open>\<open>flush\<close> on the whole connection; it can only fail to return if the kernel is interrupted forever.\<close>

lemma flush_post_conn:
  assumes ok: "transport_ok os wire" and sk: "c_socket c = Some sk" and fl: "flush os (c, w) = (r, (c', w'))"
  shows "same_but_out c c' \<and> others_unchanged wire sk w w' \<and> r \<noteq> Panic
    \<and> outstream wire sk (c', w') = outstream wire sk (c, w)
    \<and> (r = Ok () \<longrightarrow> opt_list (c_out_buffer c') = [])"
proof (cases "c_out_buffer c")
  case None
  with fl have "flush_socket os (c, w) = (r, (c', w'))" by (simp add: flush_def)
  with flush_socket_post [OF ok sk, of w] None show ?thesis by (auto simp: outstream_def others_unchanged_def)
next
  case (Some q)
  show ?thesis
  proof (cases "flush_loop os sk q w")
    case None
    with Some sk fl show ?thesis by (auto simp: flush_def)
  next
    case (Some res)
    obtain r1 q1 w1 where res: "res = (r1, q1, w1)" by (cases res)
    from flush_loop_post [OF Some ok] res
    have post: "wire w1 sk @ concat q1 = wire w sk @ concat q" "others_unchanged wire sk w w1"
      "r1 \<noteq> Panic" "r1 \<noteq> Diverge" "r1 = Ok () \<longrightarrow> q1 = []" by (simp_all add: flush_post_def)
    let ?c1 = "c\<lparr>c_out_buffer := Some q1\<rparr>"
    from fl \<open>c_out_buffer c = Some q\<close> sk Some res
    have b: "bind_io (\<lambda>s. (r1, s)) (\<lambda>_. flush_socket os) (?c1, w1) = (r, (c', w'))"
      by (simp add: flush_def)
    obtain r2 w2 where f2: "flush_socket os (?c1, w1) = (r2, (?c1, w2))" "wire w2 = wire w1" "r2 \<noteq> Panic"
      using flush_socket_post [OF ok, of ?c1 sk w1] sk by auto
    show ?thesis
      using b f2 post \<open>c_out_buffer c = Some q\<close>
      by (cases r1) (auto simp: bind_io_def outstream_def others_unchanged_def)
  qed
qed

lemma flush_loop_returns:
  assumes ok: "transport_ok os wire" and fin: "eintr_bounded os \<mu>"
  shows "\<exists>res. flush_loop os sk q w = Some res"
proof (induction "length (concat q)" arbitrary: q w rule: less_induct)
  case (less q)
  note outer = less
  show ?case
  proof (induction "\<mu> w" arbitrary: w rule: less_induct)
    case (less w)
    note inner = less
    show ?case
    proof (cases "q = []")
      case False
      obtain r w' where r: "socket_write_vectored os w sk (take IO_MAX q) = (r, w')" by fastforce
      show ?thesis
      proof (cases r)
        case (Inl e)
        show ?thesis
        proof (cases "err_kind e = Interrupted")
          case True
          with fin r Inl have "\<mu> w' < \<mu> w" unfolding eintr_bounded_def by blast
          with inner [of w'] r Inl True False show ?thesis by (subst flush_loop.simps) simp
        next
          case nonint: False
          with r Inl False show ?thesis by (subst flush_loop.simps) simp
        qed
      next
        case (Inr n)
        show ?thesis
        proof (cases "n = 0")
          case True
          with r Inr False show ?thesis by (subst flush_loop.simps) simp
        next
          case nz: False
          from transport_write_vectored [OF ok, of w sk "take IO_MAX q"] r Inr
          have "n \<le> length (concat (take IO_MAX q))" by (auto dest: contract_Inr)
          with nz length_concat_take [of IO_MAX q] have "length (concat (advance_queue n q)) < length (concat q)"
            by (simp add: concat_advance_queue)
          with outer [of "advance_queue n q" w'] r Inr nz False show ?thesis
            by (subst flush_loop.simps) simp
        qed
      qed
    qed simp
  qed
qed

lemma flush_not_diverge:
  fixes c :: "'k conn"
  assumes "transport_ok os wire" and "eintr_bounded os \<mu>"
  shows "fst (flush os (c, w)) \<noteq> Diverge"
proof (cases "c_socket c")
  case None
  then show ?thesis by (auto simp: flush_def flush_socket_def split: option.splits)
next
  case (Some sk)
  have fs: "fst (flush_socket os (c', w')) \<noteq> Diverge" if "c_socket c' = Some sk" for c' :: "'k conn" and w'
    using flush_socket_post [OF assms(1) that, of w'] by auto
  show ?thesis
  proof (cases "c_out_buffer c")
    case None
    with fs [OF Some, of w] show ?thesis by (simp add: flush_def)
  next
    case q: (Some q)
    from flush_loop_returns [OF assms] obtain r q' w' where fl: "flush_loop os sk q w = Some (r, q', w')"
      by (metis surj_pair)
    from flush_loop_post [OF fl assms(1)] have "r \<noteq> Diverge" by (simp add: flush_post_def)
    with fl q Some fs [of "c\<lparr>c_out_buffer := Some q'\<rparr>" w'] show ?thesis
      by (cases r) (simp_all add: flush_def bind_io_def split: prod.splits outcome.splits)
  qed
qed

lemma concat_nonempty: "q \<noteq> [] \<Longrightarrow> [] \<notin> set q \<Longrightarrow> concat (take IO_MAX q) \<noteq> []"
  by (cases q) (auto simp: IO_MAX_def)

lemma flush_loop_delivers:
  assumes ok: "transport_ok os wire" and acc: "accepting os live"
  shows "live w \<Longrightarrow> [] \<notin> set q \<Longrightarrow> \<exists>w'. flush_loop os sk q w = Some (Ok (), [], w') \<and> live w'"
proof (induction "length (concat q)" arbitrary: q w rule: less_induct)
  case (less q w)
  show ?case
  proof (cases "q = []")
    case True
    with less.prems show ?thesis by simp
  next
    case False
    with less.prems have "concat (take IO_MAX q) \<noteq> []" by (intro concat_nonempty)
    with acc less.prems obtain n w' where n: "socket_write_vectored os w sk (take IO_MAX q) = (Inr n, w')" "0 < n" "live w'"
      unfolding accepting_def by blast
    from transport_write_vectored [OF ok, of w sk "take IO_MAX q"] n(1)
    have "n \<le> length (concat (take IO_MAX q))" by (auto dest: contract_Inr)
    with n(2) length_concat_take [of IO_MAX q] have "length (concat (advance_queue n q)) < length (concat q)"
      by (simp add: concat_advance_queue)
    from less.hyps [OF this n(3) advance_queue_nonempty] less.prems n False show ?thesis
      by (subst flush_loop.simps) simp
  qed
qed

text \<open>An empty chunk at the end of the queue is never removed, and flushing never succeeds.\<close>

lemma flush_loop_empty_chunk:
  fixes os :: "'w os"
  assumes ret: "flush_loop os sk (q @ [[]]) w = Some res" and ok: "transport_ok os wire"
  shows "fst res \<noteq> Ok ()"
proof -
  have "\<forall>q0. transport_ok os wire \<longrightarrow> q @ [[]] = q0 @ [[]] \<longrightarrow> fst res \<noteq> Ok ()"
  proof (rule flush_loop.raw_induct [where P = "\<lambda>os sk q w res. \<forall>q0. transport_ok os wire \<longrightarrow> q = q0 @ [[]] \<longrightarrow> fst res \<noteq> Ok ()",
      OF _ ret], intro allI impI)
    fix f :: "'w os \<Rightarrow> socket \<Rightarrow> bytes list \<Rightarrow> 'w \<Rightarrow> (unit outcome \<times> bytes list \<times> 'w) option"
      and os :: "'w os" and sk q w res q0
    assume IH: "\<And>os sk q w res. f os sk q w = Some res \<Longrightarrow>
        \<forall>q0. transport_ok os wire \<longrightarrow> q = q0 @ [[]] \<longrightarrow> fst res \<noteq> Ok ()"
      and body: "(if q = [] then Some (Ok (), q, w)
        else case socket_write_vectored os w sk (take IO_MAX q) of
               (Inr n, w') \<Rightarrow> if n = 0 then Some (Err (IoError WriteZero ''connection closed''), q, w')
                             else f os sk (advance_queue n q) w'
             | (Inl e, w') \<Rightarrow> if err_kind e = Interrupted then f os sk q w'
                             else if err_kind e = WouldBlock
                                  then Some (Err (IoError WouldBlock ''flush would block''), q, w')
                                  else Some (Err e, q, w')) = Some res"
      and ok: "transport_ok os wire" and q: "q = q0 @ [[]]"
    obtain r w' where r: "socket_write_vectored os w sk (take IO_MAX q) = (r, w')" by fastforce
    show "fst res \<noteq> Ok ()"
    proof (cases r)
      case (Inl e)
      have "f os sk q w' = Some res \<Longrightarrow> fst res \<noteq> Ok ()"
        using IH [of os sk q w' res] ok q by blast
      with Inl r body q show ?thesis by (auto split: if_splits)
    next
      case (Inr n)
      from transport_write_vectored [OF ok, of w sk "take IO_MAX q"] r Inr
      have "n \<le> length (concat (take IO_MAX q))" by (auto dest: contract_Inr)
      with length_concat_take [of IO_MAX q] q have "n \<le> length (concat q0)" by simp
      then have adv: "advance_queue n q = advance_queue n q0 @ [[]]" by (simp add: q advance_queue_snoc_Nil)
      have "f os sk (advance_queue n q) w' = Some res \<Longrightarrow> fst res \<noteq> Ok ()"
        using IH [of os sk "advance_queue n q" w' res] ok adv by blast
      with Inr r body q show ?thesis by (auto split: if_splits)
    qed
  qed
  with ok show ?thesis by blast
qed

subsection \<open>Properties\<close>

definition sample_gfd :: gfd where
  "sample_gfd = \<lparr>g_seq = 1, g_index_info = 0, g_fd = 3\<rparr>"

definition sample_conn :: "unit conn" where
  "sample_conn = conn_new sample_gfd (Tcp 3) default_options (UnixAddr ''l'') (UnixAddr ''p'') 0"

lemma sample_conn_simps [simp]:
  "c_socket sample_conn = Some (Tcp 3)" "c_out_buffer sample_conn = None" "c_gfd sample_conn = sample_gfd"
  by (simp_all add: sample_conn_def conn_new_def)

text \<open>A step of a trace, from the contract of the method it calls.\<close>

lemma attempt_sink:
  assumes "sink_step wire sk data s (fst (m s)) (snd (m s))" and "c_socket (fst s) = Some sk"
  shows "\<exists>d c' w'. attempt data [] m s = (Ok d, (c', w')) \<and> outstream wire sk (c', w') = outstream wire sk s @ d
    \<and> same_but_out (fst s) c' \<and> others_unchanged wire sk (snd s) w' \<and> (d = data \<or> d = [])"
  using assms
  by (cases "m s"; cases "fst (m s)") (auto simp: attempt_def sink_step_def outstream_def split: prod.splits)

lemma out_step_spec:
  assumes ok: "transport_ok os wire" and sk: "c_socket c = Some sk"
  shows "(case out_step os x (c, w) of (r, (c', w')) \<Rightarrow>
    same_but_out c c' \<and> others_unchanged wire sk w w'
    \<and> (r = Diverge \<or> (\<exists>d. r = Ok d \<and> outstream wire sk (c', w') = outstream wire sk (c, w) @ d)))"
proof (cases x)
  case (OutBytes buf)
  from attempt_sink [where m = "write_bytes os buf" and s = "(c, w)", OF bytes_sink.write_step [OF ok sk]] sk OutBytes show ?thesis by fastforce
next
  case (OutVectoredBytes bufs)
  from attempt_sink [where m = "write_vectored_bytes os bufs" and s = "(c, w)", OF vectored_bytes_sink.write_step [OF ok sk]] sk OutVectoredBytes show ?thesis by fastforce
next
  case (OutWrite buf)
  from attempt_sink [where m = "conn_write os buf" and s = "(c, w)", OF slice_sink.write_step [OF ok sk]] sk OutWrite show ?thesis by fastforce
next
  case (OutWriteVectored bufs)
  from attempt_sink [where m = "conn_write_vectored os bufs" and s = "(c, w)", OF slices_sink.write_step [OF ok sk]] sk OutWriteVectored show ?thesis by fastforce
next
  case OutFlush
  obtain r c' w' where fl: "flush os (c, w) = (r, (c', w'))" by (metis surj_pair)
  from flush_post_conn [OF ok sk fl] fl OutFlush show ?thesis
    by (cases r) (auto simp: attempt_def)
qed

text \<open>
  C3: no byte is lost, duplicated or reordered on the way out. For any sequence of the four
  writing methods and of flushes, over any kernel that keeps the contract of \<open>write\<close> (short
  writes, \<open>WouldBlock\<close>, \<open>Interrupted\<close> and other errors at any point), none of them panics, and
  what the kernel has accepted followed by what is queued is what it was before followed by the
  data of exactly the writes that reported success, in order; other sockets and the rest of the
  connection are untouched.
\<close>

theorem outbound_stream_integrity:
  assumes "transport_ok os wire" and "c_socket c = Some sk"
  shows "(case out_run os ops (c, w) of (r, (c', w')) \<Rightarrow>
    same_but_out c c' \<and> others_unchanged wire sk w w'
    \<and> (r = Diverge \<or> (\<exists>ds. r = Ok ds \<and> length ds = length ops
         \<and> wire w' sk @ concat (opt_list (c_out_buffer c'))
           = wire w sk @ concat (opt_list (c_out_buffer c)) @ concat ds)))"
  using assms(2)
proof (induction ops arbitrary: c w)
  case Nil
  then show ?case by (simp add: ret_def)
next
  case (Cons x xs)
  obtain r1 c1 w1 where s1: "out_step os x (c, w) = (r1, (c1, w1))" by (metis surj_pair)
  obtain r2 c2 w2 where s2: "out_run os xs (c1, w1) = (r2, (c2, w2))" by (metis surj_pair)
  from out_step_spec [OF assms(1) Cons.prems, where x = x and w = w] s1
  have 1: "same_but_out c c1" "others_unchanged wire sk w w1"
    "r1 = Diverge \<or> (\<exists>d. r1 = Ok d \<and> outstream wire sk (c1, w1) = outstream wire sk (c, w) @ d)"
    by simp_all
  from 1(1) Cons.prems have "c_socket c1 = Some sk" by (simp add: same_but_outD)
  from Cons.IH [OF this, where w = w1] s2 have 2: "same_but_out c1 c2" "others_unchanged wire sk w1 w2"
    "r2 = Diverge \<or> (\<exists>ds. r2 = Ok ds \<and> length ds = length xs
      \<and> outstream wire sk (c2, w2) = outstream wire sk (c1, w1) @ concat ds)"
    by (simp_all add: outstream_def)
  from 1 2 have "same_but_out c c2" "others_unchanged wire sk w w2"
    by (blast intro: same_but_out_trans others_unchanged_trans)+
  with 1 2 s1 s2 show ?case
    by (auto simp: bind_io_def ret_def outstream_def)
qed

lemma outbound_stream_integrity_witness:
  "(case out_run sim_os [OutBytes [1, 2, 3], OutWrite [4], OutFlush] (sample_conn, sim0\<lparr>sim_writes := [Accept 2]\<rparr>) of
     (r, (c', w')) \<Rightarrow> same_but_out sample_conn c' \<and> others_unchanged sim_sent (Tcp 3) (sim0\<lparr>sim_writes := [Accept 2]\<rparr>) w'
       \<and> (r = Diverge \<or> (\<exists>ds. r = Ok ds \<and> length ds = length [OutBytes [1, 2, 3], OutWrite [4], OutFlush]
         \<and> sim_sent w' (Tcp 3) @ concat (opt_list (c_out_buffer c'))
           = sim_sent (sim0\<lparr>sim_writes := [Accept 2]\<rparr>) (Tcp 3) @ concat (opt_list (c_out_buffer sample_conn)) @ concat ds)))"
  by (rule outbound_stream_integrity [OF sim_transport_ok]) simp

text \<open>
  A successful flush has handed everything over. \<open>flush\<close> never changes the outbound stream,
  whatever it answers; when it answers \<open>Ok\<close> the queue is empty, so the kernel has accepted all
  that was queued.
\<close>

theorem flush_correct:
  assumes "transport_ok os wire" and "c_socket c = Some sk" and "flush os (c, w) = (r, (c', w'))"
  shows "same_but_out c c' \<and> others_unchanged wire sk w w' \<and> r \<noteq> Panic
    \<and> wire w' sk @ concat (opt_list (c_out_buffer c')) = wire w sk @ concat (opt_list (c_out_buffer c))
    \<and> (r = Ok () \<longrightarrow> opt_list (c_out_buffer c') = []
         \<and> wire w' sk = wire w sk @ concat (opt_list (c_out_buffer c)))"
  using flush_post_conn [OF assms] by (auto simp: outstream_def)

lemma sample_flush:
  "flush sim_os (push_out [[7, 8], [9]] sample_conn, sim0\<lparr>sim_writes := [Accept 1]\<rparr>)
   = (Ok (), (sample_conn\<lparr>c_out_buffer := Some []\<rparr>,
       sim0\<lparr>sim_sent := (\<lambda>_. [])(Tcp 3 := [7, 8, 9]), sim_writes := []\<rparr>))"
  by (simp add: flush_def flush_socket_def flush_loop.simps push_out_def sim_os_def sim_write_def
      sim_accept_def sim0_def socket_write_vectored_def socket_flush_def IO_MAX_def Let_def bind_io_def)

lemma flush_correct_witness:
  "sim_sent (snd (snd (flush sim_os (push_out [[7, 8], [9]] sample_conn, sim0\<lparr>sim_writes := [Accept 1]\<rparr>)))) (Tcp 3)
   = [7, 8, 9]"
  using flush_correct [OF sim_transport_ok _ sample_flush, of "Tcp 3"] sample_flush
  by (simp add: push_out_def sim0_def)

text \<open>
  C27: \<open>flush\<close> returns. Its loop ends with a result for every queue as long as the kernel does not
  answer \<open>Interrupted\<close> without end, since each accepted write shortens the queue.
\<close>

theorem flush_terminates:
  assumes "transport_ok os wire" and "eintr_bounded os \<mu>"
  shows "(\<exists>res. flush_loop os sk q w = Some res) \<and> fst (flush os (c, w2)) \<noteq> Diverge"
  using flush_loop_returns [OF assms] flush_not_diverge [OF assms] by blast

text \<open>In the scripted kernel the script bounds the interruptions.\<close>

lemma sim_eintr_bounded: "eintr_bounded sim_os (\<lambda>w. length (sim_writes w))"
  by (auto simp: eintr_bounded_def sim_os_def socket_write_vectored_def sim_write_def sim_accept_def Let_def
      split: socket.splits list.splits answer.splits)

lemma flush_terminates_witness:
  "(\<exists>res. flush_loop sim_os (Tcp 3) [[7]] (sim0\<lparr>sim_writes := [Fail (IoError Interrupted [])]\<rparr>) = Some res)
   \<and> fst (flush sim_os (sample_conn, sim0)) \<noteq> Diverge"
  by (rule flush_terminates [OF sim_transport_ok sim_eintr_bounded])

text \<open>
  C26: \<open>flush\<close> delivers. If no queued chunk is empty and the kernel keeps accepting at least one
  byte per call, \<open>flush\<close> answers \<open>Ok\<close> and the whole queue has been accepted, however small the
  pieces the kernel takes and however many chunks there are (more than \<open>IO_MAX\<close> included).
\<close>

theorem flush_delivers:
  assumes ok: "transport_ok os wire" and acc: "accepting os live" and "live w"
    and sk: "c_socket c = Some sk" and ne: "[] \<notin> set (opt_list (c_out_buffer c))"
  shows "\<exists>c' w'. flush os (c, w) = (Ok (), (c', w')) \<and> opt_list (c_out_buffer c') = []
    \<and> wire w' sk = wire w sk @ concat (opt_list (c_out_buffer c))"
proof -
  have sock: "\<exists>w''. flush_socket os (c', w') = (Ok (), (c', w''))" if "live w'" "c_socket c' = Some sk" for c' :: "'b conn" and w'
  proof -
    from acc that obtain w'' where "socket_flush os w' sk = (Inr (), w'')" unfolding accepting_def by blast
    with that show ?thesis by (simp add: flush_socket_def)
  qed
  have "\<exists>c' w'. flush os (c, w) = (Ok (), (c', w'))"
  proof (cases "c_out_buffer c")
    case None
    with sock [OF \<open>live w\<close> sk] show ?thesis by (auto simp: flush_def)
  next
    case (Some q)
    with flush_loop_delivers [OF ok acc \<open>live w\<close>] ne obtain w1 where
      "flush_loop os sk q w = Some (Ok (), [], w1)" "live w1" by force
    with Some sk sock [of w1 "c\<lparr>c_out_buffer := Some []\<rparr>"] show ?thesis
      by (auto simp: flush_def bind_io_def)
  qed
  then obtain c' w' where "flush os (c, w) = (Ok (), (c', w'))" by blast
  with flush_post_conn [OF ok sk this] show ?thesis by (auto simp: outstream_def)
qed

lemma sim_accepting: "accepting sim_os (\<lambda>w. sim_writes w = [])"
  by (auto simp: accepting_def sim_os_def socket_write_vectored_def socket_flush_def sim_write_def
      sim_accept_def Let_def split: socket.splits)

lemma flush_delivers_witness:
  "\<exists>c' w'. flush sim_os (push_out [[7, 8], [9]] sample_conn, sim0) = (Ok (), (c', w')) \<and> opt_list (c_out_buffer c') = []
    \<and> sim_sent w' (Tcp 3) = sim_sent sim0 (Tcp 3) @ concat (opt_list (c_out_buffer (push_out [[7, 8], [9]] sample_conn)))"
  by (rule flush_delivers [OF sim_transport_ok sim_accepting]) (simp_all add: sim0_def push_out_def)

text \<open>
  An empty write poisons a busy connection. Writing an empty buffer while something is queued
  succeeds and queues an empty chunk; from then on no flush can succeed, whatever the kernel
  answers: once the data before it is accepted, the vectored write of the empty chunk accepts 0
  bytes, which the code takes for a closed connection.
\<close>

theorem empty_write_blocks_flush:
  assumes ok: "transport_ok os wire" and busy: "out_busy c" and sk: "c_socket c = Some sk"
  shows "\<exists>c1. write_bytes os [] (c, w) = (Ok 0, (c1, w)) \<and> fst (flush os (c1, w1)) \<noteq> Ok ()"
proof (intro exI conjI)
  let ?c1 = "push_out [[]] c"
  show "write_bytes os [] (c, w) = (Ok 0, (?c1, w))" using busy by (simp add: write_bytes_def)
  show "fst (flush os (?c1, w1)) \<noteq> Ok ()"
  proof (cases "flush_loop os sk (opt_list (c_out_buffer c) @ [[]]) w1")
    case None
    with sk show ?thesis by (simp add: flush_def push_out_def)
  next
    case (Some res)
    from flush_loop_empty_chunk [OF Some ok] have "fst res \<noteq> Ok ()" .
    with Some sk show ?thesis
      by (cases res; cases "fst res") (simp_all add: flush_def push_out_def bind_io_def)
  qed
qed

lemma empty_write_blocks_flush_witness:
  "\<exists>c1. write_bytes sim_os [] (push_out [[7]] sample_conn, sim0) = (Ok 0, (c1, sim0))
     \<and> fst (flush sim_os (c1, sim0)) \<noteq> Ok ()"
  by (rule empty_write_blocks_flush [OF sim_transport_ok]) (simp_all add: out_busy_def push_out_def)

end
