(* ===== verification/Slab.thy ===== *)
theory Slab
  imports Prelude
begin

text \<open>
  The slab of connections: the \<open>slab\<close> crate's \<open>Slab<T>\<close> as its vector of slots. Which vacant slot
  an insertion takes is the crate's choice and an argument of the code that inserts
  (\<open>vacant_key\<close> of theory \<open>Socket\<close>); looking up, removing and iterating (in ascending order of the
  keys) are determined by the slots.
\<close>

subsection \<open>Operations\<close>

type_synonym 'c slab = "'c option list"

definition slab_get :: "'c slab \<Rightarrow> nat \<Rightarrow> 'c option" where
  "slab_get s k = (if k < length s then s ! k else None)"

definition occupied :: "'c slab \<Rightarrow> bool list" where
  "occupied s = map (\<lambda>x. x \<noteq> None) s"

text \<open>\<open>VacantEntry::insert\<close> at the entry's key, and writing through \<open>get_mut\<close>.\<close>

definition slab_insert :: "nat \<Rightarrow> 'c \<Rightarrow> 'c slab \<Rightarrow> 'c slab" where
  "slab_insert k c s =
     (if k < length s then s[k := Some c] else s @ replicate (k - length s) None @ [Some c])"

text \<open>\<open>remove\<close> panics on a vacant key: \<open>None\<close>.\<close>

definition slab_remove :: "nat \<Rightarrow> 'c slab \<Rightarrow> ('c \<times> 'c slab) option" where
  "slab_remove k s = (case slab_get s k of None \<Rightarrow> None | Some c \<Rightarrow> Some (c, s[k := None]))"

definition slab_keys :: "'c slab \<Rightarrow> nat list" where
  "slab_keys s = filter (\<lambda>k. s ! k \<noteq> None) [0..<length s]"

subsection \<open>The contract of a keyed store\<close>

locale keyed_store =
  fixes get :: "'t \<Rightarrow> nat \<Rightarrow> 'c option"
    and insert_at :: "nat \<Rightarrow> 'c \<Rightarrow> 't \<Rightarrow> 't"
    and remove :: "nat \<Rightarrow> 't \<Rightarrow> ('c \<times> 't) option"
    and keys :: "'t \<Rightarrow> nat list"
  assumes get_insert: "get (insert_at k c t) k' = (if k' = k then Some c else get t k')"
    and remove_vacant: "get t k = None \<Longrightarrow> remove k t = None"
    and remove_occupied: "get t k = Some c \<Longrightarrow>
      \<exists>t'. remove k t = Some (c, t') \<and> (\<forall>k'. get t' k' = (if k' = k then None else get t k'))"
    and keys_dom: "set (keys t) = dom (get t)"
    and keys_distinct: "distinct (keys t)"
begin

lemma length_keys: "length (keys t) = card (dom (get t))"
  using keys_distinct [of t] by (simp add: distinct_card flip: keys_dom)

lemma finite_dom: "finite (dom (get t))"
  by (simp flip: keys_dom)

lemma count_insert_new: "get t k = None \<Longrightarrow> length (keys (insert_at k c t)) = Suc (length (keys t))"
proof -
  assume "get t k = None"
  then have "dom (get (insert_at k c t)) = insert k (dom (get t))" and "k \<notin> dom (get t)"
    by (auto simp: get_insert dom_def)
  then show ?thesis by (simp add: length_keys finite_dom)
qed

lemma count_insert_old: "get t k \<noteq> None \<Longrightarrow> length (keys (insert_at k c t)) = length (keys t)"
proof -
  assume "get t k \<noteq> None"
  then have "dom (get (insert_at k c t)) = dom (get t)"
    by (auto simp: get_insert dom_def)
  then show ?thesis by (simp add: length_keys)
qed

lemma count_remove: "remove k t = Some (c, t') \<Longrightarrow> Suc (length (keys t')) = length (keys t)"
proof -
  assume r: "remove k t = Some (c, t')"
  then obtain c' where c': "get t k = Some c'" using remove_vacant by (cases "get t k") auto
  from remove_occupied [OF c'] r have "\<forall>k'. get t' k' = (if k' = k then None else get t k')" by auto
  then have "dom (get t') = dom (get t) - {k}" by (auto simp: dom_def)
  moreover have "k \<in> dom (get t)" using c' by auto
  ultimately show ?thesis
    by (metis card_Suc_Diff1 finite_dom length_keys)
qed

lemma remove_get:
  assumes "remove k t = Some (c, t')"
  shows "get t k = Some c" and "get t' k' = (if k' = k then None else get t k')"
proof -
  obtain c' where c': "get t k = Some c'" using assms remove_vacant by (cases "get t k") auto
  from remove_occupied [OF c'] assms show "get t k = Some c" "get t' k' = (if k' = k then None else get t k')"
    using c' by auto
qed

end

subsection \<open>The slots meet it\<close>

lemma slab_get_insert: "slab_get (slab_insert k c s) k' = (if k' = k then Some c else slab_get s k')"
  by (auto simp: slab_get_def slab_insert_def nth_append nth_list_update nth_Cons')

lemma set_slab_keys: "set (slab_keys s) = dom (slab_get s)"
  by (auto simp: slab_keys_def slab_get_def split: if_splits)

interpretation slots: keyed_store slab_get slab_insert slab_remove slab_keys
proof
  fix s :: "'c slab" and k k' c
  show "slab_get (slab_insert k c s) k' = (if k' = k then Some c else slab_get s k')"
    by (rule slab_get_insert)
  show "slab_get s k = None \<Longrightarrow> slab_remove k s = None" by (simp add: slab_remove_def)
  show "slab_get s k = Some c \<Longrightarrow>
      \<exists>t'. slab_remove k s = Some (c, t') \<and> (\<forall>k'. slab_get t' k' = (if k' = k then None else slab_get s k'))"
    by (auto simp: slab_remove_def slab_get_def nth_list_update split: if_splits)
  show "set (slab_keys s) = dom (slab_get s)" by (rule set_slab_keys)
  show "distinct (slab_keys s)" by (simp add: slab_keys_def)
qed

lemmas slab_simps [simp] = slab_get_insert

lemma slab_vacant: "\<not> (k < length (occupied s) \<and> occupied s ! k) \<longleftrightarrow> slab_get s k = None"
  by (auto simp: occupied_def slab_get_def)

lemma slab_keys_sorted: "sorted (slab_keys s)"
  by (simp add: slab_keys_def sorted_wrt_filter)

end
