(* ===== verification/Handler.thy ===== *)
theory Handler
  imports Connection Slab
begin

text \<open>
  Model of \<open>src/handler.rs\<close>: the actions and the callbacks of the application. A callback is
  user code, a parameter of the event loop: it may change the connection through its public
  methods, the world (its own state included) and, by sending commands, the handle of the loop.
\<close>

datatype action = ActNone | ActClose | ActShutdown

text \<open>The delay that \<open>on_tick\<close> answers is in nanoseconds. It sees all connections of the loop.\<close>

record ('w, 'k) handler =
  on_open :: "'k conn \<Rightarrow> loop_handle \<times> 'w \<Rightarrow> action \<times> 'k conn \<times> loop_handle \<times> 'w"
  on_traffic :: "'k conn \<Rightarrow> loop_handle \<times> 'w \<Rightarrow> action \<times> 'k conn \<times> loop_handle \<times> 'w"
  on_close :: "'k conn \<Rightarrow> loop_handle \<times> 'w \<Rightarrow> action \<times> 'k conn \<times> loop_handle \<times> 'w"
  on_tick :: "'k conn slab \<Rightarrow> loop_handle \<times> 'w \<Rightarrow> (nat \<times> action) \<times> 'k conn slab \<times> loop_handle \<times> 'w"

text \<open>The default methods of the trait.\<close>

definition default_handler :: "('w, 'k) handler" where
  "default_handler =
     \<lparr>on_open = (\<lambda>c (h, w). (ActNone, c, h, w)),
      on_traffic = (\<lambda>c (h, w). (ActNone, c, h, w)),
      on_close = (\<lambda>c (h, w). (ActNone, c, h, w)),
      on_tick = (\<lambda>s (h, w). ((0, ActNone), s, h, w))\<rparr>"

text \<open>
  What the loop relies on: the fields below are private to the crate and no public method of
  \<open>Connection\<close> writes them, so a callback leaves them alone; it can only add commands to the
  loop's channels and set its wake flag; and \<open>on_tick\<close> iterates over the connections in place.
\<close>

definition same_identity :: "'k conn \<Rightarrow> 'k conn \<Rightarrow> bool" where
  "same_identity c c' \<longleftrightarrow>
     c_gfd c' = c_gfd c \<and> c_socket c' = c_socket c \<and> c_closed c' = c_closed c
     \<and> c_handle c' = c_handle c \<and> c_local_addr c' = c_local_addr c \<and> c_peer_addr c' = c_peer_addr c
     \<and> c_options c' = c_options c"

definition callback_ok ::
  "('k conn \<Rightarrow> loop_handle \<times> 'w \<Rightarrow> action \<times> 'k conn \<times> loop_handle \<times> 'w) \<Rightarrow> bool" where
  "callback_ok f \<longleftrightarrow>
     (\<forall>c h w a c' h' w'. f c (h, w) = (a, c', h', w') \<longrightarrow> same_identity c c' \<and> handle_ext h h')"

definition handler_ok :: "('w, 'k) handler \<Rightarrow> bool" where
  "handler_ok H \<longleftrightarrow>
     callback_ok (on_open H) \<and> callback_ok (on_traffic H) \<and> callback_ok (on_close H) \<and>
     (\<forall>s h w r s' h' w'. on_tick H s (h, w) = (r, s', h', w') \<longrightarrow>
        handle_ext h h' \<and> length s' = length s \<and>
        (\<forall>k. case slab_get s k of None \<Rightarrow> slab_get s' k = None
           | Some c \<Rightarrow> (\<exists>c'. slab_get s' k = Some c' \<and> same_identity c c')))"

lemma same_identity_refl [simp]: "same_identity c c"
  by (simp add: same_identity_def)

lemma same_identity_trans: "same_identity c c' \<Longrightarrow> same_identity c' c'' \<Longrightarrow> same_identity c c''"
  by (simp add: same_identity_def)

lemma default_handler_ok: "handler_ok default_handler"
  by (simp add: handler_ok_def callback_ok_def default_handler_def split: option.splits)

lemma callback_okD:
  "callback_ok f \<Longrightarrow> f c (h, w) = (a, c', h', w') \<Longrightarrow> same_identity c c' \<and> handle_ext h h'"
  unfolding callback_ok_def by blast

end
