(* ===== verification/Listener.thy ===== *)
theory Listener
  imports Options Poller
begin

text \<open>
  Model of \<open>src/listener.rs\<close>: listeners and the connections they accept.
\<close>

subsection \<open>Listeners\<close>

datatype listener_inner = TcpListener nat | UnixListener nat

record listener =
  li_inner :: listener_inner
  li_addr :: network_address
  li_options :: options

definition listener_local_addr :: "listener \<Rightarrow> io_error + network_address" where
  "listener_local_addr l = Inr (li_addr l)"

definition listener_accept ::
  "'w os \<Rightarrow> 'w \<Rightarrow> listener \<Rightarrow> (io_error + (socket \<times> network_address)) \<times> 'w" where
  "listener_accept os w l =
     (case li_inner l of
        TcpListener n \<Rightarrow>
          (case tcp_accept os w n of
             (Inl e, w') \<Rightarrow> (Inl e, w')
           | (Inr (s, addr), w') \<Rightarrow> (Inr (Tcp s, TcpAddr addr), w'))
      | UnixListener n \<Rightarrow>
          (case unix_accept os w n of
             (Inl e, w') \<Rightarrow> (Inl e, w')
           | (Inr (s, path), w') \<Rightarrow>
               (Inr (Unix s, UnixAddr (case path of Some p \<Rightarrow> p | None \<Rightarrow> ''unnamed_unix_socket'')), w')))"

definition listener_source :: "listener \<Rightarrow> raw_source" where
  "listener_source l =
     (case li_inner l of TcpListener n \<Rightarrow> TcpListenerSource n | UnixListener n \<Rightarrow> UnixListenerSource n)"

definition listener_register ::
  "'w os \<Rightarrow> 'w \<Rightarrow> listener \<Rightarrow> usize \<Rightarrow> interest \<Rightarrow> (io_error + unit) \<times> 'w" where
  "listener_register os w l token interests = registry_register os w (listener_source l) token interests"

definition listener_reregister ::
  "'w os \<Rightarrow> 'w \<Rightarrow> listener \<Rightarrow> usize \<Rightarrow> interest \<Rightarrow> (io_error + unit) \<times> 'w" where
  "listener_reregister os w l token interests = registry_reregister os w (listener_source l) token interests"

definition listener_deregister :: "'w os \<Rightarrow> 'w \<Rightarrow> listener \<Rightarrow> (io_error + unit) \<times> 'w" where
  "listener_deregister os w l = registry_deregister os w (listener_source l)"

end
