(* ===== verification/EventLoop.thy ===== *)
theory EventLoop
  imports Outbound Handler Listener
begin

text \<open>
  Model of \<open>src/event_loop.rs\<close>: the state of one event loop and every method of \<open>EventLoop\<close>, as
  programs over that state. The arguments are the outside world \<open>os\<close>, the application \<open>H\<close>, and
  \<open>dbg\<close> (debug assertions). The static \<open>MONO_SEQ\<close> is the field \<open>l_mono\<close>; the scratch buffer
  \<open>io_buffer\<close> is its length and capacity, since its bytes are never read before the kernel has
  written them.
\<close>

subsection \<open>State\<close>

datatype io_status = IoCompleted | IoYield | IoClosed bool | IoShutdown

record ('w, 'k) eloop =
  l_id :: u8
  l_listeners :: "listener list option"
  l_options :: options
  l_connections :: "'k conn slab"
  l_scratch :: "nat \<times> nat"
  l_handle :: loop_handle
  l_pool :: "'k conn list"
  l_mono :: u32
  l_world :: 'w

definition MAX_ASYNC_TASK_ONE_TIME :: nat where
  "MAX_ASYNC_TASK_ONE_TIME = 256"

definition shutdown_error :: io_error where
  "shutdown_error = IoError Interrupted ''EventLoop Shutdown''"

subsection \<open>Access to the parts of the state\<close>

text \<open>A call on the connection in slot \<open>key\<close>, which must be there.\<close>

definition on_conn :: "nat \<Rightarrow> ('a, 'k conn \<times> 'w) prog \<Rightarrow> ('a, ('w, 'k) eloop) prog" where
  "on_conn key m st =
     (case slab_get (l_connections st) key of
        None \<Rightarrow> (Panic, st)
      | Some c \<Rightarrow>
          (case m (c, l_world st) of
             (r, (c', w')) \<Rightarrow>
               (r, st\<lparr>l_connections := slab_insert key c' (l_connections st), l_world := w'\<rparr>)))"

text \<open>A callback on the connection in slot \<open>key\<close>.\<close>

definition callback ::
  "nat \<Rightarrow> ('k conn \<Rightarrow> loop_handle \<times> 'w \<Rightarrow> action \<times> 'k conn \<times> loop_handle \<times> 'w)
    \<Rightarrow> (action, ('w, 'k) eloop) prog" where
  "callback key f st =
     (case slab_get (l_connections st) key of
        None \<Rightarrow> (Panic, st)
      | Some c \<Rightarrow>
          (case f c (l_handle st, l_world st) of
             (a, c', h', w') \<Rightarrow>
               (Ok a, st\<lparr>l_connections := slab_insert key c' (l_connections st), l_handle := h', l_world := w'\<rparr>)))"

definition on_handle :: "('a, loop_handle \<times> 'w) prog \<Rightarrow> ('a, ('w, 'k) eloop) prog" where
  "on_handle m st =
     (case m (l_handle st, l_world st) of (r, (h', w')) \<Rightarrow> (r, st\<lparr>l_handle := h', l_world := w'\<rparr>))"

text \<open>A call on the world whose error is propagated.\<close>

definition on_world :: "('w \<Rightarrow> (io_error + 'a) \<times> 'w) \<Rightarrow> ('a, ('w, 'k) eloop) prog" where
  "on_world f st =
     (case f (l_world st) of
        (Inl e, w') \<Rightarrow> (Err e, st\<lparr>l_world := w'\<rparr>)
      | (Inr x, w') \<Rightarrow> (Ok x, st\<lparr>l_world := w'\<rparr>))"

definition loop_trigger :: "'w os \<Rightarrow> prioity \<Rightarrow> command \<Rightarrow> (bool, ('w, 'k) eloop) prog" where
  "loop_trigger os prio cmd = on_handle (trigger os prio cmd)"

subsection \<open>Interest\<close>

definition reregister :: "'w os \<Rightarrow> nat \<Rightarrow> (unit, ('w, 'k) eloop) prog" where
  "reregister os key st =
     (case slab_get (l_connections st) key of
        None \<Rightarrow> (Ok (), st)
      | Some c \<Rightarrow>
          (case c_socket c of
             None \<Rightarrow> (Panic, st)
           | Some sk \<Rightarrow>
               (let is_empty = (case c_out_buffer c of None \<Rightarrow> True | Some q \<Rightarrow> q = []) in
                if is_empty then on_world (\<lambda>w. disable_write (socket_reregister os) w sk (of_nat key)) st
                else on_world (\<lambda>w. enable_write (socket_reregister os) w sk (of_nat key)) st)))"

subsection \<open>Closing\<close>

definition drop_out_buffer :: "(unit, 'k conn \<times> 'w) prog" where
  "drop_out_buffer = (\<lambda>(c, w). (Ok (), (c\<lparr>c_out_buffer := None\<rparr>, w)))"

definition deregister_conn :: "'w os \<Rightarrow> nat \<Rightarrow> (unit, ('w, 'k) eloop) prog" where
  "deregister_conn os key st =
     (case slab_get (l_connections st) key of
        None \<Rightarrow> (Panic, st)
      | Some c \<Rightarrow>
          (case c_socket c of
             Some sk \<Rightarrow> on_world (\<lambda>w. poller_deregister (socket_deregister os) w sk) st
           | None \<Rightarrow> (Ok (), st)))"

text \<open>\<open>conn.socket = None\<close> runs the destructor of the stream.\<close>

definition retire_conn :: "'w os \<Rightarrow> nat \<Rightarrow> (unit, ('w, 'k) eloop) prog" where
  "retire_conn os key st =
     (case slab_remove key (l_connections st) of
        None \<Rightarrow> (Panic, st)
      | Some (c, conns') \<Rightarrow>
          (Ok (),
           st\<lparr>l_connections := conns',
              l_world := (case c_socket c of Some sk \<Rightarrow> drop_stream os (l_world st) sk | None \<Rightarrow> l_world st),
              l_pool := c\<lparr>c_socket := None\<rparr> # l_pool st,
              l_handle := (l_handle st)\<lparr>h_conn_count := h_conn_count (l_handle st) - 1\<rparr>\<rparr>))"

definition close_connection ::
  "'w os \<Rightarrow> ('w, 'k) handler \<Rightarrow> nat \<Rightarrow> bool \<Rightarrow> (unit, ('w, 'k) eloop) prog" where
  "close_connection os H key graceful st =
     (if slab_get (l_connections st) key = None then (Ok (), st)
      else
        bind_io (on_conn key (if graceful then discard_result (flush os) else drop_out_buffer)) (\<lambda>_.
        bind_io (callback key (on_close H)) (\<lambda>_.
        bind_io (deregister_conn os key) (\<lambda>_.
        retire_conn os key))) st)"

text \<open>The loops over the keys and over the listeners in \<open>shutdown\<close>.\<close>

fun close_all :: "'w os \<Rightarrow> ('w, 'k) handler \<Rightarrow> nat list \<Rightarrow> (unit, ('w, 'k) eloop) prog" where
  "close_all os H [] = ret ()"
| "close_all os H (key # keys) =
     bind_io (discard_result (close_connection os H key True)) (\<lambda>_. close_all os H keys)"

fun deregister_all :: "'w os \<Rightarrow> listener list \<Rightarrow> (unit, ('w, 'k) eloop) prog" where
  "deregister_all os [] = ret ()"
| "deregister_all os (l # ls) =
     bind_io (discard_result (on_world (\<lambda>w. poller_deregister (listener_deregister os) w l)))
       (\<lambda>_. deregister_all os ls)"

definition shutdown :: "'w os \<Rightarrow> ('w, 'k) handler \<Rightarrow> (unit, ('w, 'k) eloop) prog" where
  "shutdown os H st =
     bind_io (case l_listeners st of None \<Rightarrow> ret () | Some ls \<Rightarrow> deregister_all os ls)
       (\<lambda>_ st'. close_all os H (slab_keys (l_connections st')) st')
       (st\<lparr>l_listeners := None\<rparr>)"

definition shutdown_and_stop :: "'w os \<Rightarrow> ('w, 'k) handler \<Rightarrow> ('a, ('w, 'k) eloop) prog" where
  "shutdown_and_stop os H = bind_io (shutdown os H) (\<lambda>_. raise shutdown_error)"

subsection \<open>Registering\<close>

text \<open>
  \<open>entry\<close> is a vacant slot of the slab; the socket is dropped on the way out of every branch that
  does not store the connection.
\<close>

definition register_conn ::
  "'w os \<Rightarrow> bool \<Rightarrow> ('w, 'k) handler \<Rightarrow> socket \<Rightarrow> network_address \<Rightarrow> network_address
    \<Rightarrow> (unit, ('w, 'k) eloop) prog" where
  "register_conn os dbg H sk local_addr peer_addr st =
     (let w1 = (if tcp_no_delay (l_options st) = NoDelay then snd (set_nodelay os (l_world st) sk True)
                else l_world st);
          key = vacant_key os w1 (occupied (l_connections st)) in
      case poller_register (socket_register os) w1 sk (of_nat key) of
        (Inl e, w2) \<Rightarrow> (Err e, st\<lparr>l_world := drop_stream os w2 sk\<rparr>)
      | (Inr _, w2) \<Rightarrow>
          (case Gfd_new dbg (socket_fd os w2 sk) (l_id st) (of_nat key) (l_mono st) of
             (Ok g, mono') \<Rightarrow>
               (let (c, pool') =
                      (case l_pool st of
                         p # ps \<Rightarrow>
                           (conn_reset g sk (l_options st) local_addr peer_addr (h_idx (l_handle st)) p, ps)
                       | [] \<Rightarrow>
                           (conn_new g sk (l_options st) local_addr peer_addr (h_idx (l_handle st)), []));
                    (a, c', h', w3) = on_open H c (l_handle st, w2);
                    st' = st\<lparr>l_mono := mono', l_pool := pool', l_handle := h', l_world := w3\<rparr> in
                case a of
                  ActClose \<Rightarrow>
                    bind_io (close_connection os H key True)
                      (\<lambda>_ s. (Ok (), s\<lparr>l_world := drop_stream os (l_world s) sk\<rparr>)) st'
                | ActNone \<Rightarrow>
                    (Ok (),
                     st'\<lparr>l_connections := slab_insert key c' (l_connections st'),
                         l_handle := h'\<lparr>h_conn_count := h_conn_count h' + 1\<rparr>\<rparr>)
                | ActShutdown \<Rightarrow>
                    bind_io (shutdown os H)
                      (\<lambda>_ s. (Err shutdown_error, s\<lparr>l_world := drop_stream os (l_world s) sk\<rparr>)) st')
           | (_, mono') \<Rightarrow> (Panic, st)))"

subsection \<open>Reading\<close>

text \<open>
  Before each read: \<open>reserve\<close> if the capacity is below \<open>read_buffer_cap\<close>, then the unsafe
  \<open>set_len\<close> if the length is. \<open>None\<close> would be \<open>set_len\<close> past the capacity, which is undefined
  behaviour.
\<close>

definition prepare_scratch :: "'w os \<Rightarrow> nat \<Rightarrow> nat \<times> nat \<Rightarrow> (nat \<times> nat) option" where
  "prepare_scratch os read_cap = (\<lambda>(len, capacity).
     let capacity' = (if capacity < read_cap then reserve_capacity os len read_cap else capacity) in
     if len < read_cap then (if read_cap \<le> capacity' then Some (read_cap, capacity') else None)
     else Some (len, capacity'))"

text \<open>What the loop does with the unconsumed bytes after \<open>on_traffic\<close>.\<close>

definition merge_io :: "'k conn \<Rightarrow> 'k conn" where
  "merge_io c =
     (case c_io_buffer c of
        None \<Rightarrow> c
      | Some io \<Rightarrow>
          (if io = [] then c\<lparr>c_io_buffer := None\<rparr>
           else
             (case c_in_buffer c of
                Some inb \<Rightarrow> c\<lparr>c_io_buffer := None, c_in_buffer := Some (inb @ io)\<rparr>
              | None \<Rightarrow> c\<lparr>c_io_buffer := None, c_in_buffer := Some io\<rparr>)))"

function read_loop ::
  "'w os \<Rightarrow> ('w, 'k) handler \<Rightarrow> nat \<Rightarrow> nat \<Rightarrow> nat \<Rightarrow> nat \<Rightarrow> (io_status, ('w, 'k) eloop) prog" where
  "read_loop os H key max_batch read_cap bytes_read st =
     (if max_batch \<le> bytes_read then (Ok IoYield, st)
      else
        (case prepare_scratch os read_cap (l_scratch st) of
           None \<Rightarrow> (Panic, st)
         | Some (len, capacity) \<Rightarrow>
             (case slab_get (l_connections st) key of
                None \<Rightarrow> (Panic, st)
              | Some c \<Rightarrow>
                  (case c_socket c of
                     None \<Rightarrow> (Panic, st)
                   | Some sk \<Rightarrow>
                       (case socket_read os (l_world st) sk len of
                          (Inl e, w') \<Rightarrow>
                            (let st' = st\<lparr>l_scratch := (len, capacity), l_world := w'\<rparr> in
                             if err_kind e = WouldBlock then (Ok IoCompleted, st')
                             else (Ok (IoClosed False), st'))
                        | (Inr data, w') \<Rightarrow>
                            (let n = length data;
                                 st' = st\<lparr>l_scratch := (len, capacity), l_world := w'\<rparr> in
                             if n = 0 then (Ok (IoClosed True), st')
                             else if len < n then (Panic, st')
                             else
                               (let st1 = st'\<lparr>l_scratch := (len - n, capacity - n),
                                    l_connections := slab_insert key (c\<lparr>c_io_buffer := Some data\<rparr>) (l_connections st)\<rparr> in
                                (case callback key (on_traffic H) st1 of
                                   (Ok ActNone, st2) \<Rightarrow>
                                     (case slab_get (l_connections st2) key of
                                        None \<Rightarrow> (Panic, st2)
                                      | Some c2 \<Rightarrow>
                                          read_loop os H key max_batch read_cap (bytes_read + n)
                                            (st2\<lparr>l_connections := slab_insert key (merge_io c2) (l_connections st2)\<rparr>))
                                 | (Ok ActClose, st2) \<Rightarrow> (Ok (IoClosed True), st2)
                                 | (Ok ActShutdown, st2) \<Rightarrow> (Ok IoShutdown, st2)
                                 | (Err e, st2) \<Rightarrow> (Err e, st2)
                                 | (Panic, st2) \<Rightarrow> (Panic, st2)
                                 | (Diverge, st2) \<Rightarrow> (Diverge, st2)))))))))"
  by pat_completeness auto
termination
  by (relation "measure (\<lambda>(os, H, key, max_batch, read_cap, bytes_read, st). max_batch - bytes_read)")
     (auto simp flip: length_greater_0_conv)

declare read_loop.simps [simp del]

definition process_read :: "'w os \<Rightarrow> ('w, 'k) handler \<Rightarrow> nat \<Rightarrow> (io_status, ('w, 'k) eloop) prog" where
  "process_read os H key st =
     (case slab_get (l_connections st) key of
        None \<Rightarrow> (Ok IoCompleted, st)
      | Some c \<Rightarrow>
          if c_closed c then (Ok IoCompleted, st)
          else read_loop os H key (unat (max_batch_size (l_options st)))
                 (unat (read_buffer_cap (l_options st))) 0 st)"

definition read_socket :: "'w os \<Rightarrow> ('w, 'k) handler \<Rightarrow> nat \<Rightarrow> (unit, ('w, 'k) eloop) prog" where
  "read_socket os H key =
     bind_io (process_read os H key) (\<lambda>status.
       case status of
         IoClosed graceful \<Rightarrow> close_connection os H key graceful
       | IoYield \<Rightarrow> discard_result (loop_trigger os High (Read key))
       | IoCompleted \<Rightarrow> ret ()
       | IoShutdown \<Rightarrow> shutdown_and_stop os H)"

subsection \<open>Writing\<close>

partial_function (option) write_loop ::
  "'w os \<Rightarrow> nat \<Rightarrow> socket \<Rightarrow> nat \<Rightarrow> bytes list \<Rightarrow> 'w \<Rightarrow> (io_status \<times> bytes list \<times> 'w) option" where
  "write_loop os max_batch sk bytes_written q w =
     (if q = [] then Some (IoCompleted, q, w)
      else if max_batch \<le> bytes_written then Some (IoYield, q, w)
      else
        (case socket_write_vectored os w sk (take IO_MAX q) of
           (Inr n, w') \<Rightarrow>
             if n = 0 then Some (IoClosed False, q, w')
             else write_loop os max_batch sk (bytes_written + n) (advance_queue n q) w'
         | (Inl e, w') \<Rightarrow>
             if err_kind e = WouldBlock then Some (IoCompleted, q, w')
             else if err_kind e = Interrupted then write_loop os max_batch sk bytes_written q w'
             else Some (IoClosed False, q, w')))"

definition conn_write_batch :: "'w os \<Rightarrow> nat \<Rightarrow> (io_status, 'k conn \<times> 'w) prog" where
  "conn_write_batch os max_batch = (\<lambda>(c, w).
     case c_out_buffer c of
       None \<Rightarrow> (Ok IoCompleted, (c, w))
     | Some q \<Rightarrow>
         (if q = [] then (Ok IoCompleted, (c, w))
          else
            (case c_socket c of
               None \<Rightarrow> (Panic, (c, w))
             | Some sk \<Rightarrow>
                 (case write_loop os max_batch sk 0 q w of
                    None \<Rightarrow> (Diverge, (c, w))
                  | Some (status, q', w') \<Rightarrow> (Ok status, (c\<lparr>c_out_buffer := Some q'\<rparr>, w'))))))"

definition process_write :: "'w os \<Rightarrow> nat \<Rightarrow> (io_status, ('w, 'k) eloop) prog" where
  "process_write os key st =
     (case slab_get (l_connections st) key of
        None \<Rightarrow> (Ok IoCompleted, st)
      | Some c \<Rightarrow> on_conn key (conn_write_batch os (unat (max_batch_size (l_options st)))) st)"

definition write_socket :: "'w os \<Rightarrow> ('w, 'k) handler \<Rightarrow> nat \<Rightarrow> (unit, ('w, 'k) eloop) prog" where
  "write_socket os H key =
     bind_io (process_write os key) (\<lambda>status.
       case status of
         IoClosed graceful \<Rightarrow> close_connection os H key graceful
       | IoYield \<Rightarrow> discard_result (loop_trigger os High (Write key))
       | IoCompleted \<Rightarrow> reregister os key
       | IoShutdown \<Rightarrow> discard_result (loop_trigger os High Shutdown))"

subsection \<open>Commands\<close>

text \<open>\<open>AsyncWrite\<close> is the only command that names its connection by descriptor.\<close>

definition async_write :: "'w os \<Rightarrow> ('w, 'k) handler \<Rightarrow> gfd \<Rightarrow> bytes \<Rightarrow> (unit, ('w, 'k) eloop) prog" where
  "async_write os H g data st =
     (if event_loop_index g \<noteq> unat (l_id st) then (Ok (), st)
      else
        (let token = slab_index g in
         case slab_get (l_connections st) token of
           None \<Rightarrow> (Ok (), st)
         | Some c \<Rightarrow>
             if c_gfd c \<noteq> g then (Ok (), st)
             else
               (case on_conn token (conn_write os data) st of
                  (Ok _, st') \<Rightarrow> reregister os token st'
                | (Err _, st') \<Rightarrow> close_connection os H token False st'
                | (Panic, st') \<Rightarrow> (Panic, st')
                | (Diverge, st') \<Rightarrow> (Diverge, st'))))"

fun run_command :: "'w os \<Rightarrow> bool \<Rightarrow> ('w, 'k) handler \<Rightarrow> command \<Rightarrow> (unit, ('w, 'k) eloop) prog" where
  "run_command os dbg H CmdNone = ret ()"
| "run_command os dbg H (AsyncWrite g data) = async_write os H g data"
| "run_command os dbg H (Register sk local_addr peer_addr) = register_conn os dbg H sk local_addr peer_addr"
| "run_command os dbg H (Close key) = close_connection os H key True"
| "run_command os dbg H (Read key) = read_socket os H key"
| "run_command os dbg H (Write key) = write_socket os H key"
| "run_command os dbg H Wake = on_handle (wake_handle os)"
| "run_command os dbg H Shutdown = shutdown_and_stop os H"

fun process_commands :: "'w os \<Rightarrow> bool \<Rightarrow> ('w, 'k) handler \<Rightarrow> nat \<Rightarrow> (unit, ('w, 'k) eloop) prog" where
  "process_commands os dbg H 0 st = (Ok (), st)"
| "process_commands os dbg H (Suc n) st =
     (case next_command (l_handle st) of
        (None, h') \<Rightarrow> (Ok (), st\<lparr>l_handle := h'\<rparr>)
      | (Some cmd, h') \<Rightarrow>
          bind_io (run_command os dbg H cmd) (\<lambda>_. process_commands os dbg H n) (st\<lparr>l_handle := h'\<rparr>))"

definition process_command :: "'w os \<Rightarrow> bool \<Rightarrow> ('w, 'k) handler \<Rightarrow> (unit, ('w, 'k) eloop) prog" where
  "process_command os dbg H = process_commands os dbg H MAX_ASYNC_TASK_ONE_TIME"

subsection \<open>Events\<close>

record event =
  ev_token :: usize
  ev_readable :: bool
  ev_writable :: bool
  ev_error :: bool
  ev_read_closed :: bool

definition process_io :: "'w os \<Rightarrow> ('w, 'k) handler \<Rightarrow> event \<Rightarrow> (unit, ('w, 'k) eloop) prog" where
  "process_io os H ev =
     (let key = unat (ev_token ev) in
      if (ev_error ev \<or> ev_read_closed ev) \<and> (\<not> ev_readable ev \<and> \<not> ev_writable ev)
      then close_connection os H key False
      else
        bind_io (if ev_error ev \<or> ev_writable ev then write_socket os H key else ret ()) (\<lambda>_.
        bind_io (if ev_error ev \<or> ev_readable ev then read_socket os H key else ret ()) (\<lambda>_.
        reregister os key)))"

text \<open>
  The accept loop runs until the listener has nothing more to accept, so it is partial: \<open>None\<close> is
  a listener that never runs dry.
\<close>

partial_function (option) accept_loop ::
  "'w os \<Rightarrow> bool \<Rightarrow> ('w, 'k) handler \<Rightarrow> listener \<Rightarrow> ('w, 'k) eloop \<Rightarrow> (unit outcome \<times> ('w, 'k) eloop) option" where
  "accept_loop os dbg H l st =
     (case listener_accept os (l_world st) l of
        (Inl e, w') \<Rightarrow> Some (Ok (), st\<lparr>l_world := w'\<rparr>)
      | (Inr (sk, peer_addr), w') \<Rightarrow>
          (case listener_local_addr l of
             Inl e \<Rightarrow> Some (Err e, st\<lparr>l_world := drop_stream os w' sk\<rparr>)
           | Inr local_addr \<Rightarrow>
               (case register_conn os dbg H sk local_addr peer_addr (st\<lparr>l_world := w'\<rparr>) of
                  (Ok _, st') \<Rightarrow> accept_loop os dbg H l st'
                | (Err e, st') \<Rightarrow> Some (Err e, st')
                | (Panic, st') \<Rightarrow> Some (Panic, st')
                | (Diverge, st') \<Rightarrow> Some (Diverge, st'))))"

text \<open>The listeners are taken out of the loop while it accepts and put back on every way out.\<close>

definition accept_process :: "'w os \<Rightarrow> bool \<Rightarrow> ('w, 'k) handler \<Rightarrow> nat \<Rightarrow> (unit, ('w, 'k) eloop) prog" where
  "accept_process os dbg H idx st =
     (case l_listeners st of
        None \<Rightarrow> (Ok (), st)
      | Some ls \<Rightarrow>
          (if idx < length ls then
             (case accept_loop os dbg H (ls ! idx) (st\<lparr>l_listeners := None\<rparr>) of
                None \<Rightarrow> (Diverge, st)
              | Some (r, st') \<Rightarrow> (r, st'\<lparr>l_listeners := Some ls\<rparr>))
           else (Ok (), st)))"

definition dispatch_event :: "'w os \<Rightarrow> bool \<Rightarrow> ('w, 'k) handler \<Rightarrow> event \<Rightarrow> (unit, ('w, 'k) eloop) prog" where
  "dispatch_event os dbg H ev =
     (if ev_token ev = WAKE_TOKEN then
        bind_io (on_handle (\<lambda>(h, w). (Ok (), (h\<lparr>h_waker := reset_waker (h_waker h)\<rparr>, w))))
          (\<lambda>_. process_command os dbg H)
      else
        (case is_listener_token (ev_token ev) of
           Some idx \<Rightarrow> accept_process os dbg H (unat idx)
         | None \<Rightarrow> process_io os H ev))"

fun dispatch_events :: "'w os \<Rightarrow> bool \<Rightarrow> ('w, 'k) handler \<Rightarrow> event list \<Rightarrow> (unit, ('w, 'k) eloop) prog" where
  "dispatch_events os dbg H [] = ret ()"
| "dispatch_events os dbg H (ev # evs) =
     bind_io (dispatch_event os dbg H ev) (\<lambda>_. dispatch_events os dbg H evs)"

end
