(* ===== verification/LoopInv.thy ===== *)
theory LoopInv
  imports EventLoop
begin

text \<open>
  The invariant of an event loop, and the proof that every method keeps it and never panics:
  what makes each \<open>unwrap\<close>, the slab's \<open>remove\<close>, \<open>split_to\<close> and the unsafe \<open>set_len\<close> of the code
  safe, and what makes \<open>conn_count\<close> the number of open connections.
\<close>

subsection \<open>The invariant\<close>

text \<open>
  An open connection in slot \<open>k\<close> owns a socket, is not marked closed, and its descriptor names
  this loop and this slot (modulo the 24 bits that a descriptor has for it).
\<close>

definition conn_ok :: "u8 \<Rightarrow> nat \<Rightarrow> nat \<Rightarrow> 'k conn \<Rightarrow> bool" where
  "conn_ok loop_id idx k c \<longleftrightarrow>
     c_socket c \<noteq> None \<and> \<not> c_closed c \<and> slab_index (c_gfd c) = k mod 2 ^ 24
     \<and> event_loop_index (c_gfd c) = unat loop_id \<and> c_handle c = idx"

definition loop_inv :: "('w, 'k) eloop \<Rightarrow> bool" where
  "loop_inv st \<longleftrightarrow>
     (\<forall>k c. slab_get (l_connections st) k = Some c \<longrightarrow> conn_ok (l_id st) (h_idx (l_handle st)) k c)
     \<and> (\<forall>c \<in> set (l_pool st). c_socket c = None)
     \<and> h_conn_count (l_handle st) = of_nat (length (slab_keys (l_connections st)))
     \<and> fst (l_scratch st) \<le> snd (l_scratch st)"

text \<open>What the loop relies on, together.\<close>

definition env_ok :: "bool \<Rightarrow> 'w os \<Rightarrow> ('w \<Rightarrow> socket \<Rightarrow> bytes) \<Rightarrow> ('w, 'k) handler \<Rightarrow> bool" where
  "env_ok dbg os wire H \<longleftrightarrow>
     transport_ok os wire \<and> read_ok os \<and> vacant_ok dbg os \<and> reserve_ok os \<and> handler_ok H"

text \<open>The invariant with a given slot occupied.\<close>

definition slot_inv :: "nat \<Rightarrow> ('w, 'k) eloop \<Rightarrow> bool" where
  "slot_inv key st \<longleftrightarrow> loop_inv st \<and> slab_get (l_connections st) key \<noteq> None"

subsection \<open>The write loop\<close>

text \<open>The kernel has refused more on the socket, and nothing has happened since.\<close>

definition blocked_write :: "'w os \<Rightarrow> socket \<Rightarrow> bytes list \<Rightarrow> 'w \<Rightarrow> bool" where
  "blocked_write os sk q w' \<longleftrightarrow>
     (\<exists>w e. socket_write_vectored os w sk (take IO_MAX q) = (Inl e, w') \<and> err_kind e = WouldBlock)"

text \<open>A write that took nothing or failed in a way that is not tried again, on what was left of the queue.\<close>

definition failed_write :: "'w os \<Rightarrow> socket \<Rightarrow> bytes list \<Rightarrow> 'w \<Rightarrow> bool" where
  "failed_write os sk q w' \<longleftrightarrow>
     (\<exists>w r. socket_write_vectored os w sk (take IO_MAX q) = (r, w')
        \<and> (r = Inr 0 \<or> (\<exists>e. r = Inl e \<and> err_kind e \<noteq> WouldBlock \<and> err_kind e \<noteq> Interrupted)))"

definition write_post ::
  "'w os \<Rightarrow> ('w \<Rightarrow> socket \<Rightarrow> bytes) \<Rightarrow> nat \<Rightarrow> socket \<Rightarrow> nat \<Rightarrow> bytes list \<Rightarrow> 'w \<Rightarrow> io_status \<times> bytes list \<times> 'w \<Rightarrow> bool" where
  "write_post os wire max_batch sk written q w res \<longleftrightarrow>
     (case res of (status, q', w') \<Rightarrow>
        wire w' sk @ concat q' = wire w sk @ concat q \<and> others_unchanged wire sk w w'
        \<and> length (wire w sk) \<le> length (wire w' sk)
        \<and> (status = IoYield \<longrightarrow> q' \<noteq> [] \<and> max_batch + length (wire w sk) \<le> written + length (wire w' sk))
        \<and> (status = IoCompleted \<longrightarrow> q' = [] \<or> blocked_write os sk q' w')
        \<and> (status = IoCompleted \<or> status = IoYield \<or> (status = IoClosed False \<and> failed_write os sk q' w')))"

lemma write_post_step:
  assumes ct: "write_contract wire w sk (concat (take k q)) (Inr n, w')"
    and rest: "write_post os wire max_batch sk (written + n) (advance_queue n q) w' res"
  shows "write_post os wire max_batch sk written q w res"
proof -
  obtain status q' w'' where res: "res = (status, q', w'')" by (metis surj_pair)
  have q: "concat q = concat (take k q) @ concat (drop k q)" by (simp flip: concat_append)
  from contract_Inr(1) [OF ct] have "take n (concat q) = take n (concat (take k q))"
    by (subst q) simp
  with contract_Inr(2) [OF ct] have w': "wire w' sk @ drop n (concat q) = wire w sk @ concat q"
    by (metis append.assoc append_take_drop_id)
  from contract_Inr [OF ct] have len: "length (wire w' sk) = length (wire w sk) + n" by simp
  from rest res w' len contract_Inr(3) [OF ct] show ?thesis
    by (auto simp: write_post_def concat_advance_queue intro: others_unchanged_trans)
qed

lemma write_loop_post:
  fixes os :: "'w os"
  assumes ret: "write_loop os max_batch sk written q w = Some res" and ok: "transport_ok os wire"
  shows "write_post os wire max_batch sk written q w res"
proof (rule write_loop.raw_induct [where P = "\<lambda>os max_batch sk written q w res.
      transport_ok os wire \<longrightarrow> write_post os wire max_batch sk written q w res", OF _ ret, THEN mp, OF _ ok], intro impI)
  fix f :: "'w os \<Rightarrow> nat \<Rightarrow> socket \<Rightarrow> nat \<Rightarrow> bytes list \<Rightarrow> 'w \<Rightarrow> (io_status \<times> bytes list \<times> 'w) option"
    and os :: "'w os" and max_batch sk written q w res
  assume IH: "\<And>os max_batch sk written q w res. f os max_batch sk written q w = Some res \<Longrightarrow>
      transport_ok os wire \<longrightarrow> write_post os wire max_batch sk written q w res"
    and body: "(if q = [] then Some (IoCompleted, q, w)
      else if max_batch \<le> written then Some (IoYield, q, w)
      else case socket_write_vectored os w sk (take IO_MAX q) of
             (Inr n, w') \<Rightarrow> if n = 0 then Some (IoClosed False, q, w')
                           else f os max_batch sk (written + n) (advance_queue n q) w'
           | (Inl e, w') \<Rightarrow> if err_kind e = WouldBlock then Some (IoCompleted, q, w')
                           else if err_kind e = Interrupted then f os max_batch sk written q w'
                           else Some (IoClosed False, q, w')) = Some res"
    and ok: "transport_ok os wire"
  obtain r w' where r: "socket_write_vectored os w sk (take IO_MAX q) = (r, w')" by fastforce
  have ct: "write_contract wire w sk (concat (take IO_MAX q)) (r, w')"
    using transport_write_vectored [OF ok, of w sk "take IO_MAX q"] r by simp
  consider "q = [] \<or> max_batch \<le> written" | "q \<noteq> []" "\<not> max_batch \<le> written" by blast
  then show "write_post os wire max_batch sk written q w res"
  proof cases
    case 1
    with body show ?thesis by (auto simp: write_post_def split: if_splits)
  next
    case 2
    show ?thesis
    proof (cases r)
      case (Inl e)
      with ct have w': "wire w' = wire w" by (auto dest: contract_Inl)
      have "f os max_batch sk written q w' = Some res \<Longrightarrow> write_post os wire max_batch sk written q w' res"
        using IH ok by blast
      then have "f os max_batch sk written q w' = Some res \<Longrightarrow> write_post os wire max_batch sk written q w res"
        using w' by (simp add: write_post_def others_unchanged_def split: prod.splits)
      with Inl r body 2 w' show ?thesis
        by (auto simp: write_post_def others_unchanged_def blocked_write_def failed_write_def split: if_splits)
    next
      case (Inr n)
      have "f os max_batch sk (written + n) (advance_queue n q) w' = Some res \<Longrightarrow>
          write_post os wire max_batch sk written q w res"
        using IH [of os max_batch sk "written + n" "advance_queue n q" w' res] ok
          write_post_step [OF ct [unfolded Inr]] by blast
      moreover from ct Inr have "n = 0 \<Longrightarrow> write_post os wire max_batch sk written q w (IoClosed False, q, w')"
        using r by (auto dest: contract_Inr simp: write_post_def failed_write_def)
      ultimately show ?thesis using Inr r body 2 by (auto split: if_splits)
    qed
  qed
qed

lemma write_loop_returns:
  assumes ok: "transport_ok os wire" and fin: "eintr_bounded os \<mu>"
  shows "\<exists>res. write_loop os max_batch sk written q w = Some res"
proof (induction "length (concat q)" arbitrary: q w written rule: less_induct)
  case (less q)
  note outer = less
  show ?case
  proof (induction "\<mu> w" arbitrary: w rule: less_induct)
    case (less w)
    note inner = less
    show ?case
    proof (cases "q = [] \<or> max_batch \<le> written")
      case True
      then show ?thesis by (subst write_loop.simps) auto
    next
      case False
      obtain r w' where r: "socket_write_vectored os w sk (take IO_MAX q) = (r, w')" by fastforce
      show ?thesis
      proof (cases r)
        case (Inl e)
        from fin r Inl have "err_kind e = Interrupted \<Longrightarrow> \<mu> w' < \<mu> w" unfolding eintr_bounded_def by blast
        with inner [of w'] r Inl False show ?thesis by (subst write_loop.simps) auto
      next
        case (Inr n)
        from transport_write_vectored [OF ok, of w sk "take IO_MAX q"] r Inr
        have "n \<le> length (concat (take IO_MAX q))" by (auto dest: contract_Inr)
        with length_concat_take [of IO_MAX q]
        have "n \<noteq> 0 \<Longrightarrow> length (concat (advance_queue n q)) < length (concat q)"
          by (simp add: concat_advance_queue)
        with outer [of "advance_queue n q" "written + n" w'] r Inr False show ?thesis
          by (subst write_loop.simps) auto
      qed
    qed
  qed
qed

subsection \<open>Changes that keep the invariant\<close>

text \<open>The fields the invariant reads of a connection.\<close>

definition same_core :: "'k conn \<Rightarrow> 'k conn \<Rightarrow> bool" where
  "same_core c c' \<longleftrightarrow>
     c_gfd c' = c_gfd c \<and> c_socket c' = c_socket c \<and> c_closed c' = c_closed c \<and> c_handle c' = c_handle c"

lemma same_core_refl [simp]: "same_core c c"
  by (simp add: same_core_def)

lemma same_core_out: "same_but_out c c' \<Longrightarrow> same_core c c'"
  by (simp add: same_core_def same_but_outD)

lemma same_core_identity: "same_identity c c' \<Longrightarrow> same_core c c'"
  by (simp add: same_core_def same_identity_def)

lemma same_core_merge [simp]: "same_core c (merge_io c)"
  by (simp add: same_core_def merge_io_def split: option.splits)

lemma conn_ok_core: "same_core c c' \<Longrightarrow> conn_ok loop_id idx k c' = conn_ok loop_id idx k c"
  by (simp add: same_core_def conn_ok_def)

lemma slot_inv_get: "slot_inv key st \<Longrightarrow> \<exists>c sk. slab_get (l_connections st) key = Some c \<and> c_socket c = Some sk"
  by (auto simp: slot_inv_def loop_inv_def conn_ok_def)

text \<open>Replacing the connection in an occupied slot, with any change of the rest that the invariant ignores.\<close>

lemma slot_inv_put:
  assumes "slot_inv k0 st" and "slab_get (l_connections st) key = Some c" and "same_core c c'"
    and "l_connections st' = slab_insert key c' (l_connections st)" and "l_id st' = l_id st"
    and "l_pool st' = l_pool st" and "fst (l_scratch st') \<le> snd (l_scratch st')"
    and "h_idx (l_handle st') = h_idx (l_handle st)"
    and "h_conn_count (l_handle st') = h_conn_count (l_handle st)"
  shows "slot_inv k0 st'"
proof -
  have "length (slab_keys (slab_insert key c' (l_connections st))) = length (slab_keys (l_connections st))"
    using assms(2) by (simp add: slots.count_insert_old)
  with assms show ?thesis
    by (auto simp: slot_inv_def loop_inv_def conn_ok_core)
qed

lemma slot_inv_rest:
  assumes "slot_inv key st" and "l_connections st' = l_connections st" and "l_id st' = l_id st"
    and "l_pool st' = l_pool st" and "fst (l_scratch st') \<le> snd (l_scratch st')"
    and "h_idx (l_handle st') = h_idx (l_handle st)"
    and "h_conn_count (l_handle st') = h_conn_count (l_handle st)"
  shows "slot_inv key st'"
  using assms by (auto simp: slot_inv_def loop_inv_def)

lemma loop_inv_rest:
  assumes "loop_inv st" and "l_connections st' = l_connections st" and "l_id st' = l_id st"
    and "l_pool st' = l_pool st" and "fst (l_scratch st') \<le> snd (l_scratch st')"
    and "h_idx (l_handle st') = h_idx (l_handle st)"
    and "h_conn_count (l_handle st') = h_conn_count (l_handle st)"
  shows "loop_inv st'"
  using assms by (auto simp: loop_inv_def)

lemma loop_inv_scratch: "loop_inv st \<Longrightarrow> fst (l_scratch st) \<le> snd (l_scratch st)"
  by (simp add: loop_inv_def)

lemma slot_invD: "slot_inv key st \<Longrightarrow> loop_inv st"
  by (simp add: slot_inv_def)

subsection \<open>The building blocks\<close>

lemma on_conn_triple:
  assumes "\<And>c w r c' w'. m (c, w) = (r, (c', w')) \<Longrightarrow> c_socket c \<noteq> None \<Longrightarrow> r \<noteq> Panic \<and> same_core c c'"
  shows "triple (slot_inv key) (on_conn key m) (\<lambda>_. slot_inv key) loop_inv"
proof (rule tripleI)
  fix st r st' assume inv: "slot_inv key st" and run: "on_conn key m st = (r, st')"
  obtain c sk where c: "slab_get (l_connections st) key = Some c" "c_socket c = Some sk"
    using slot_inv_get [OF inv] by blast
  obtain r1 c1 w1 where m: "m (c, l_world st) = (r1, (c1, w1))" by (metis surj_pair)
  from assms [OF m] c have core: "r1 \<noteq> Panic" "same_core c c1" by auto
  from run c m have st': "r = r1" "st' = st\<lparr>l_connections := slab_insert key c1 (l_connections st), l_world := w1\<rparr>"
    by (simp_all add: on_conn_def)
  have "slot_inv key st'"
    by (rule slot_inv_put [OF inv c(1) core(2)])
       (use st' inv in \<open>simp_all add: slot_inv_def loop_inv_def\<close>)
  then show "case r of Ok x \<Rightarrow> slot_inv key st' | Panic \<Rightarrow> False | Err e \<Rightarrow> loop_inv st' | Diverge \<Rightarrow> loop_inv st'"
    using st'(1) core(1) by (cases r1) (simp_all add: slot_invD)
qed

lemma callback_triple:
  assumes "callback_ok f"
  shows "triple (slot_inv key) (callback key f) (\<lambda>_. slot_inv key) loop_inv"
proof (rule tripleI)
  fix st r st' assume inv: "slot_inv key st" and run: "callback key f st = (r, st')"
  obtain c sk where c: "slab_get (l_connections st) key = Some c" using slot_inv_get [OF inv] by blast
  obtain a c1 h1 w1 where f: "f c (l_handle st, l_world st) = (a, c1, h1, w1)" by (metis surj_pair)
  from callback_okD [OF assms f] have core: "same_core c c1" "handle_ext (l_handle st) h1"
    by (simp_all add: same_core_identity)
  from run c f have st': "r = Ok a"
    "st' = st\<lparr>l_connections := slab_insert key c1 (l_connections st), l_handle := h1, l_world := w1\<rparr>"
    by (simp_all add: callback_def)
  have "slot_inv key st'"
    by (rule slot_inv_put [OF inv c core(1)])
       (use st' inv core(2) in \<open>simp_all add: slot_inv_def loop_inv_def handle_ext_def\<close>)
  then show "case r of Ok x \<Rightarrow> slot_inv key st' | Panic \<Rightarrow> False | Err e \<Rightarrow> loop_inv st' | Diverge \<Rightarrow> loop_inv st'"
    using st'(1) by simp
qed

lemma on_world_slot: "triple (slot_inv key) (on_world f) (\<lambda>_. slot_inv key) loop_inv"
proof (rule tripleI)
  fix st r st' assume inv: "slot_inv key st" and run: "on_world f st = (r, st')"
  obtain x w' where f: "f (l_world st) = (x, w')" by fastforce
  with run have st': "st' = st\<lparr>l_world := w'\<rparr>" and r: "r \<noteq> Panic"
    by (auto simp: on_world_def split: sum.splits)
  have "slot_inv key st'"
    using inv st' by (intro slot_inv_rest [OF inv]) (simp_all add: slot_inv_def loop_inv_def)
  with r show "case r of Ok x \<Rightarrow> slot_inv key st' | Panic \<Rightarrow> False | Err e \<Rightarrow> loop_inv st' | Diverge \<Rightarrow> loop_inv st'"
    by (cases r) (simp_all add: slot_invD)
qed

lemma keeps_on_world [keeps_intros]: "keeps loop_inv (on_world f)"
  by (auto simp: keeps_def on_world_def loop_inv_def split: prod.splits sum.splits)

lemma keeps_on_handle:
  fixes m :: "('a, loop_handle \<times> 'w) prog"
  assumes "\<And>h w r h' w'. m (h, w) = (r, (h', w')) \<Longrightarrow> r \<noteq> Panic \<and> h_idx h' = h_idx h \<and> h_conn_count h' = h_conn_count h"
  shows "keeps (loop_inv :: ('w, 'k) eloop \<Rightarrow> bool) (on_handle m)"
  unfolding keeps_def
proof (intro allI impI)
  fix st :: "('w, 'k) eloop" assume inv: "loop_inv st"
  obtain r h' w' where m: "m (l_handle st, l_world st) = (r, (h', w'))" by (metis surj_pair)
  from assms [OF m] inv m show "fst (on_handle m st) \<noteq> Panic \<and> loop_inv (snd (on_handle m st))"
    by (simp_all add: on_handle_def loop_inv_def)
qed

lemma keeps_trigger [keeps_intros]: "keeps loop_inv (loop_trigger os p cmd)"
  unfolding loop_trigger_def
proof (rule keeps_on_handle)
  fix h w r h' w' assume t: "trigger os p cmd (h, w) = (r, (h', w'))"
  from trigger_ext [of h os p cmd w] trigger_outcome [of os p cmd h w] t
  show "r \<noteq> Panic \<and> h_idx h' = h_idx h \<and> h_conn_count h' = h_conn_count h"
    by (auto simp: handle_ext_def)
qed

lemma keeps_wake [keeps_intros]: "keeps loop_inv (on_handle (wake_handle os))"
proof (rule keeps_on_handle)
  fix h w r h' w' assume t: "wake_handle os (h, w) = (r, (h', w'))"
  from wake_handle_state [of os h w] wake_handle_outcome [of os "(h, w)"] t
  show "r \<noteq> Panic \<and> h_idx h' = h_idx h \<and> h_conn_count h' = h_conn_count h" by simp
qed

lemma keeps_reregister [keeps_intros]: "keeps (loop_inv :: ('w, 'k) eloop \<Rightarrow> bool) (reregister os key)"
  unfolding keeps_def
proof (intro allI impI)
  fix st :: "('w, 'k) eloop" assume inv: "loop_inv st"
  then have sock: "slab_get (l_connections st) key = Some c \<Longrightarrow> c_socket c \<noteq> None" for c
    by (auto simp: loop_inv_def conn_ok_def)
  show "fst (reregister os key st) \<noteq> Panic \<and> loop_inv (snd (reregister os key st))"
  proof (cases "slab_get (l_connections st) key")
    case None
    with inv show ?thesis by (simp add: reregister_def)
  next
    case (Some c)
    with sock obtain sk where "c_socket c = Some sk" by blast
    with Some show ?thesis
      by (simp add: reregister_def Let_def keepsD [OF keeps_on_world inv])
  qed
qed

subsection \<open>Closing\<close>

lemma flush_core:
  assumes ok: "transport_ok os wire" and fl: "flush os (c, w) = (r, (c', w'))" and sk: "c_socket c \<noteq> None"
  shows "r \<noteq> Panic \<and> same_core c c'"
proof -
  from sk obtain s where "c_socket c = Some s" by auto
  from flush_post_conn [OF ok this fl] show ?thesis by (auto intro: same_core_out)
qed

lemma discard_core:
  assumes m: "\<And>c w r c' w'. m (c, w) = (r, (c', w')) \<Longrightarrow> c_socket c \<noteq> None \<Longrightarrow> r \<noteq> Panic \<and> same_core c c'"
    and d: "discard_result m (c, w) = (r, (c', w'))" and sk: "c_socket c \<noteq> None"
  shows "r \<noteq> Panic \<and> same_core c c'"
proof -
  obtain r1 c1 w1 where m1: "m (c, w) = (r1, (c1, w1))" by (metis surj_pair)
  from m [OF m1 sk] d m1 show ?thesis by (cases r1) (auto simp: discard_result_def)
qed

lemma deregister_triple: "triple (slot_inv key) (deregister_conn os key) (\<lambda>_. slot_inv key) loop_inv"
proof (rule tripleI)
  fix st r st' assume inv: "slot_inv key st" and run: "deregister_conn os key st = (r, st')"
  obtain c sk where c: "slab_get (l_connections st) key = Some c" "c_socket c = Some sk"
    using slot_inv_get [OF inv] by blast
  with run have "on_world (\<lambda>w. poller_deregister (socket_deregister os) w sk) st = (r, st')"
    by (simp add: deregister_conn_def)
  with tripleD [OF on_world_slot inv]
  show "case r of Ok x \<Rightarrow> slot_inv key st' | Panic \<Rightarrow> False | Err e \<Rightarrow> loop_inv st' | Diverge \<Rightarrow> loop_inv st'"
    by blast
qed

lemma retire_triple: "triple (slot_inv key) (retire_conn os key) (\<lambda>_ st. loop_inv st \<and> slab_get (l_connections st) key = None) loop_inv"
proof (rule tripleI)
  fix st r st' assume inv: "slot_inv key st" and run: "retire_conn os key st = (r, st')"
  then obtain c where c: "slab_get (l_connections st) key = Some c" by (auto simp: slot_inv_def)
  from slots.remove_occupied [OF c] obtain conns' where rm: "slab_remove key (l_connections st) = Some (c, conns')"
    and get: "\<And>k. slab_get conns' k = (if k = key then None else slab_get (l_connections st) k)" by auto
  from slots.count_remove [OF rm] have cnt: "length (slab_keys (l_connections st)) = Suc (length (slab_keys conns'))" by simp
  from run rm have r: "r = Ok ()" and conns: "l_connections st' = conns'" and rest: "l_id st' = l_id st"
    "l_scratch st' = l_scratch st" "l_pool st' = c\<lparr>c_socket := None\<rparr> # l_pool st"
    "l_handle st' = (l_handle st)\<lparr>h_conn_count := h_conn_count (l_handle st) - 1\<rparr>"
    by (auto simp: retire_conn_def)
  have "loop_inv st'"
    using inv conns rest get cnt by (auto simp: slot_inv_def loop_inv_def split: if_splits)
  then show "case r of Ok x \<Rightarrow> loop_inv st' \<and> slab_get (l_connections st') key = None | Panic \<Rightarrow> False
      | Err e \<Rightarrow> loop_inv st' | Diverge \<Rightarrow> loop_inv st'"
    using r conns get by simp
qed

lemma close_triple:
  assumes env: "env_ok dbg os wire H"
  shows "triple loop_inv (close_connection os H key graceful)
    (\<lambda>_ st. loop_inv st \<and> slab_get (l_connections st) key = None) loop_inv"
proof -
  have ok: "transport_ok os wire" using env by (simp add: env_ok_def)
  have g: "triple (slot_inv key) (on_conn key (discard_result (flush os))) (\<lambda>_. slot_inv key) loop_inv"
    by (rule on_conn_triple, rule discard_core, rule flush_core [OF ok])
  have d: "triple (slot_inv key) (on_conn key drop_out_buffer) (\<lambda>_. slot_inv key) loop_inv"
    by (auto intro!: on_conn_triple simp: drop_out_buffer_def same_core_def)
  have fl: "triple (slot_inv key)
      (on_conn key (if graceful then discard_result (flush os) else drop_out_buffer)) (\<lambda>_. slot_inv key) loop_inv"
    by (cases graceful) (simp_all add: g d)
  have cb: "callback_ok (on_close H)" using env by (simp add: env_ok_def handler_ok_def)
  have chain: "triple (slot_inv key)
      (bind_io (on_conn key (if graceful then discard_result (flush os) else drop_out_buffer)) (\<lambda>_.
       bind_io (callback key (on_close H)) (\<lambda>_.
       bind_io (deregister_conn os key) (\<lambda>_. retire_conn os key))))
      (\<lambda>_ st. loop_inv st \<and> slab_get (l_connections st) key = None) loop_inv"
    by (intro triple_bind [OF fl] triple_bind [OF callback_triple [OF cb]]
        triple_bind [OF deregister_triple] retire_triple)
  show ?thesis
  proof (rule tripleI)
    fix st r st' assume inv: "loop_inv st" and run: "close_connection os H key graceful st = (r, st')"
    show "case r of Ok x \<Rightarrow> loop_inv st' \<and> slab_get (l_connections st') key = None | Panic \<Rightarrow> False
        | Err e \<Rightarrow> loop_inv st' | Diverge \<Rightarrow> loop_inv st'"
    proof (cases "slab_get (l_connections st) key = None")
      case True
      with run inv show ?thesis by (auto simp: close_connection_def)
    next
      case False
      with inv have "slot_inv key st" by (simp add: slot_inv_def)
      from tripleD [OF chain this, of r st'] run False show ?thesis by (simp add: close_connection_def)
    qed
  qed
qed

lemma keeps_close:
  assumes "env_ok dbg os wire H"
  shows "keeps loop_inv (close_connection os H key graceful)"
  unfolding keeps_triple by (rule triple_conseq [OF close_triple [OF assms]]) simp_all

lemma keeps_close_all: "env_ok dbg os wire H \<Longrightarrow> keeps loop_inv (close_all os H keys)"
  by (induction keys) (auto intro!: keeps_intros keeps_close)

lemma keeps_deregister_all: "keeps loop_inv (deregister_all os ls)"
  by (induction ls) (auto intro!: keeps_intros)

lemma keeps_state: "(\<And>s. keeps I (m s)) \<Longrightarrow> keeps I (\<lambda>s. m s s)"
  by (simp add: keeps_def)

lemma keeps_update:
  assumes m: "keeps loop_inv m" and f: "\<And>st. loop_inv st \<Longrightarrow> loop_inv (f st)"
  shows "keeps loop_inv (\<lambda>st. m (f st))"
  using assms by (simp add: keeps_def)

lemma keeps_shutdown:
  assumes env: "env_ok dbg os wire H"
  shows "keeps loop_inv (shutdown os H)"
proof -
  have "keeps loop_inv (\<lambda>st'. close_all os H (slab_keys (l_connections st')) st')"
    by (rule keeps_state) (rule keeps_close_all [OF env])
  then have k: "keeps loop_inv (bind_io (case ls of None \<Rightarrow> ret () | Some ls \<Rightarrow> deregister_all os ls)
      (\<lambda>_ st'. close_all os H (slab_keys (l_connections st')) st'))" for ls
    by (cases ls) (auto intro: keeps_bind_io keeps_ret keeps_deregister_all)
  show ?thesis
    unfolding keeps_def
  proof (intro allI impI)
    fix st :: "('a, 'b) eloop" assume "loop_inv st"
    then have "loop_inv (st\<lparr>l_listeners := None\<rparr>)" by (simp add: loop_inv_def)
    from keepsD [OF k this] show "fst (shutdown os H st) \<noteq> Panic \<and> loop_inv (snd (shutdown os H st))"
      by (simp add: shutdown_def)
  qed
qed

lemma keeps_shutdown_and_stop: "env_ok dbg os wire H \<Longrightarrow> keeps loop_inv (shutdown_and_stop os H)"
  unfolding shutdown_and_stop_def by (intro keeps_bind_io keeps_shutdown keeps_raise)

end
