(* ===== verification/LoopSafety.thy ===== *)
theory LoopSafety
  imports LoopInv
begin

text \<open>
  The rest of the safety proof of the event loop: registering, reading, writing, commands and
  events keep the invariant of theory \<open>LoopInv\<close>, and never panic, save that with debug assertions a
  registration panics in \<open>Gfd::new\<close> when \<open>2 ^ 24\<close> connections are open.
\<close>

subsection \<open>Registering\<close>

lemma env_okD:
  assumes "env_ok dbg os wire H"
  shows "transport_ok os wire" and "read_ok os" and "vacant_ok dbg os" and "reserve_ok os"
    and "callback_ok (on_open H)" and "callback_ok (on_traffic H)" and "callback_ok (on_close H)"
  using assms by (simp_all add: env_ok_def handler_ok_def)

lemma loop_inv_insert:
  assumes inv: "loop_inv st" and vac: "slab_get (l_connections st) key = None"
    and c: "conn_ok (l_id st) (h_idx (l_handle st)) key c"
    and st': "l_connections st' = slab_insert key c (l_connections st)" "l_id st' = l_id st"
      "l_scratch st' = l_scratch st" "set (l_pool st') \<subseteq> set (l_pool st)"
      "h_idx (l_handle st') = h_idx (l_handle st)"
      "h_conn_count (l_handle st') = h_conn_count (l_handle st) + 1"
  shows "loop_inv st'"
  using assms by (auto simp: loop_inv_def slots.count_insert_new [OF vac])

definition crowded :: "bool \<Rightarrow> ('w, 'k) eloop \<Rightarrow> bool" where
  "crowded dbg st \<longleftrightarrow> dbg \<and> 2 ^ 24 \<le> length (slab_keys (l_connections st))"

lemma occupied_count: "length (filter (\<lambda>b. b) (occupied s)) = length (slab_keys s)"
proof -
  have "length (filter (\<lambda>b. b) (map (\<lambda>x. x \<noteq> None) s)) = card {i. i < length s \<and> s ! i \<noteq> None}"
    unfolding length_filter_conv_card by (intro arg_cong [where f = card]) auto
  also have "\<dots> = length (slab_keys s)"
    unfolding slab_keys_def by (subst distinct_card [symmetric]) (auto intro!: arg_cong [where f = card])
  finally show ?thesis by (simp add: occupied_def)
qed

text \<open>
  What a registration does: it is refused by the registry, or panics in a crowded loop, or it opens a
  connection in a vacant slot and goes on as \<open>on_open\<close> says.
\<close>

definition fresh_conn :: "gfd \<Rightarrow> socket \<Rightarrow> network_address \<Rightarrow> network_address \<Rightarrow> ('w, 'k) eloop \<Rightarrow> 'k conn \<Rightarrow> 'k conn list \<Rightarrow> bool" where
  "fresh_conn g sk la pa st c pool' \<longleftrightarrow>
     (case l_pool st of
        p # ps \<Rightarrow> c = conn_reset g sk (l_options st) la pa (h_idx (l_handle st)) p \<and> pool' = ps
      | [] \<Rightarrow> c = conn_new g sk (l_options st) la pa (h_idx (l_handle st)) \<and> pool' = [])"

lemma register_run:
  fixes H :: "('w, 'k) handler"
  assumes env: "env_ok dbg os wire H" and inv: "loop_inv st"
  obtains (refused) e w' where "register_conn os dbg H sk la pa st = (Err e, st\<lparr>l_world := w'\<rparr>)"
    | (full) "register_conn os dbg H sk la pa st = (Panic, st)" "crowded dbg st"
    | (opened) key g c pool' a c' h' w1 w2 w3 mono' st' where
        "poller_register (socket_register os) w1 sk (of_nat key) = (Inr (), w2)"
        "slab_get (l_connections st) key = None" "slab_index g = key mod 2 ^ 24" "event_loop_index g = unat (l_id st)"
        "fresh_conn g sk la pa st c pool'" "on_open H c (l_handle st, w2) = (a, c', h', w3)"
        "same_identity c c'" "handle_ext (l_handle st) h'"
        "st' = st\<lparr>l_mono := mono', l_pool := pool', l_handle := h', l_world := w3\<rparr>" "loop_inv st'"
        "register_conn os dbg H sk la pa st =
          (case a of
             ActClose \<Rightarrow> (Ok (), st'\<lparr>l_world := drop_stream os w3 sk\<rparr>)
           | ActNone \<Rightarrow> (Ok (), st'\<lparr>l_connections := slab_insert key c' (l_connections st),
               l_handle := h'\<lparr>h_conn_count := h_conn_count h' + 1\<rparr>\<rparr>)
           | ActShutdown \<Rightarrow> bind_io (shutdown os H)
               (\<lambda>_ s. (Err shutdown_error, s\<lparr>l_world := drop_stream os (l_world s) sk\<rparr>)) st')"
proof -
  define w1 where "w1 = (if tcp_no_delay (l_options st) = NoDelay then snd (set_nodelay os (l_world st) sk True) else l_world st)"
  define key where "key = vacant_key os w1 (occupied (l_connections st))"
  from env have "\<not> (key < length (occupied (l_connections st)) \<and> occupied (l_connections st) ! key)"
    and small: "dbg \<Longrightarrow> 2 ^ 24 \<le> key \<Longrightarrow> 2 ^ 24 \<le> length (slab_keys (l_connections st))"
    unfolding occupied_count [symmetric] env_ok_def vacant_ok_def key_def by blast+
  from this(1) have vac: "slab_get (l_connections st) key = None" by (rule slab_vacant [THEN iffD1])
  obtain rr w2 where reg: "poller_register (socket_register os) w1 sk (of_nat key) = (rr, w2)" by fastforce
  note reg_def = register_conn_def [of os dbg H sk la pa st, folded w1_def, unfolded Let_def, folded key_def]
  show ?thesis
  proof (cases rr)
    case (Inl e)
    with reg show ?thesis by (intro refused) (simp add: reg_def)
  next
    case (Inr u)
    show ?thesis
    proof (cases "dbg \<and> \<not> (of_nat key :: usize) < push_bit 24 1")
      case True
      then have "dbg" "2 ^ 24 \<le> unat (of_nat key :: usize)" unfolding token_mask by auto
      moreover from this(2) have "2 ^ 24 \<le> key" unfolding unat_of_nat by (metis le_trans mod_less_eq_dividend)
      ultimately have "crowded dbg st" using small by (simp add: crowded_def)
      moreover have "fst (Gfd_new dbg (socket_fd os w2 sk) (l_id st) (of_nat key) (l_mono st)) = Panic"
        unfolding Gfd_new_def by (simp only: eqTrueI [OF True] if_True fst_conv)
      then have "register_conn os dbg H sk la pa st = (Panic, st)"
        using reg Inr by (cases "Gfd_new dbg (socket_fd os w2 sk) (l_id st) (of_nat key) (l_mono st)") (simp add: reg_def)
      ultimately show ?thesis by (intro full)
    next
    case False
    then have "(dbg \<and> \<not> (of_nat key :: usize) < push_bit 24 1) = False" by (simp only:)
    then obtain g mono' where g: "Gfd_new dbg (socket_fd os w2 sk) (l_id st) (of_nat key) (l_mono st) = (Ok g, mono')"
      unfolding Gfd_new_def by (simp only: if_False)
    have gi: "slab_index g = key mod 2 ^ 24" "event_loop_index g = unat (l_id st)"
      using Gfd_new_fields [OF g] by (simp_all add: unat_of_nat mod_mod_cancel)
    obtain c pool' where cp: "(case l_pool st of
          p # ps \<Rightarrow> (conn_reset g sk (l_options st) la pa (h_idx (l_handle st)) p, ps)
        | [] \<Rightarrow> (conn_new g sk (l_options st) la pa (h_idx (l_handle st)), [])) = (c, pool')" by fastforce
    then have fresh: "fresh_conn g sk la pa st c pool'" by (auto simp: fresh_conn_def split: list.splits)
    obtain a c' h' w3 where f: "on_open H c (l_handle st, w2) = (a, c', h', w3)" by (metis surj_pair)
    from callback_okD [OF env_okD(5) [OF env] f]
    have cb: "same_identity c c'" "handle_ext (l_handle st) h'" by simp_all
    define st' where "st' = st\<lparr>l_mono := mono', l_pool := pool', l_handle := h', l_world := w3\<rparr>"
    have inv': "loop_inv st'"
      using inv cb(2) fresh by (auto simp: st'_def loop_inv_def handle_ext_def fresh_conn_def split: list.splits)
    have "close_connection os H key True st' = (Ok (), st')"
      using vac by (simp add: close_connection_def st'_def)
    then have run: "register_conn os dbg H sk la pa st =
        (case a of
           ActClose \<Rightarrow> (Ok (), st'\<lparr>l_world := drop_stream os w3 sk\<rparr>)
         | ActNone \<Rightarrow> (Ok (), st'\<lparr>l_connections := slab_insert key c' (l_connections st),
             l_handle := h'\<lparr>h_conn_count := h_conn_count h' + 1\<rparr>\<rparr>)
         | ActShutdown \<Rightarrow> bind_io (shutdown os H)
             (\<lambda>_ s. (Err shutdown_error, s\<lparr>l_world := drop_stream os (l_world s) sk\<rparr>)) st')"
      using reg Inr g cp f by (cases a) (simp_all add: reg_def st'_def bind_io_Ok)
    have taken: "poller_register (socket_register os) w1 sk (of_nat key) = (Inr (), w2)" using reg Inr by simp
    show ?thesis by (rule opened [OF taken vac gi fresh f cb st'_def inv' run])
    qed
  qed
qed

lemma fresh_conn_ok:
  assumes "fresh_conn g sk la pa st c pool'" and "same_identity c c'"
    and "slab_index g = key mod 2 ^ 24" and "event_loop_index g = unat (l_id st)"
  shows "conn_ok (l_id st) (h_idx (l_handle st)) key c'"
  using assms
  by (auto simp: fresh_conn_def conn_ok_def same_identity_def conn_new_def conn_reset_def split: list.splits)

lemma keeps_register:
  fixes H :: "('w, 'k) handler"
  assumes env: "env_ok dbg os wire H"
  shows "keeps_but (crowded dbg) loop_inv (register_conn os dbg H sk la pa)"
  unfolding keeps_but_def
proof (intro allI impI)
  fix st :: "('w, 'k) eloop" assume inv: "loop_inv st"
  show "(fst (register_conn os dbg H sk la pa st) = Panic \<longrightarrow> crowded dbg (snd (register_conn os dbg H sk la pa st)))
      \<and> loop_inv (snd (register_conn os dbg H sk la pa st))"
  proof (rule register_run [OF env inv, of sk la pa])
    assume "register_conn os dbg H sk la pa st = (Panic, st)" "crowded dbg st"
    with inv show ?thesis by simp
  next
    fix e w' assume "register_conn os dbg H sk la pa st = (Err e, st\<lparr>l_world := w'\<rparr>)"
    with inv show ?thesis by (simp add: loop_inv_def)
  next
    fix key g c pool' a c' h' w1 w2 w3 mono' st'
    assume vac: "slab_get (l_connections st) key = None"
      and g: "slab_index g = key mod 2 ^ 24" "event_loop_index g = unat (l_id st)"
      and fresh: "fresh_conn g sk la pa st c pool'" "same_identity c c'"
      and h: "handle_ext (l_handle st) h'"
      and st': "st' = st\<lparr>l_mono := mono', l_pool := pool', l_handle := h', l_world := w3\<rparr>" and inv': "loop_inv st'"
      and run: "register_conn os dbg H sk la pa st =
        (case a of
           ActClose \<Rightarrow> (Ok (), st'\<lparr>l_world := drop_stream os w3 sk\<rparr>)
         | ActNone \<Rightarrow> (Ok (), st'\<lparr>l_connections := slab_insert key c' (l_connections st),
             l_handle := h'\<lparr>h_conn_count := h_conn_count h' + 1\<rparr>\<rparr>)
         | ActShutdown \<Rightarrow> bind_io (shutdown os H)
             (\<lambda>_ s. (Err shutdown_error, s\<lparr>l_world := drop_stream os (l_world s) sk\<rparr>)) st')"
    have vac': "slab_get (l_connections st') key = None" using vac st' by simp
    have "loop_inv (st'\<lparr>l_connections := slab_insert key c' (l_connections st),
             l_handle := h'\<lparr>h_conn_count := h_conn_count h' + 1\<rparr>\<rparr>)"
      by (rule loop_inv_insert [OF inv' vac'])
         (use fresh_conn_ok [OF fresh g] h st' in \<open>simp_all add: handle_ext_def\<close>)
    moreover have "keeps loop_inv (\<lambda>s. (Err shutdown_error, s\<lparr>l_world := drop_stream os (l_world s) sk\<rparr>) :: unit outcome \<times> ('w, 'k) eloop)"
      by (simp add: keeps_def loop_inv_def)
    then have "keeps loop_inv (bind_io (shutdown os H) (\<lambda>_ s. (Err shutdown_error, s\<lparr>l_world := drop_stream os (l_world s) sk\<rparr>) :: unit outcome \<times> ('w, 'k) eloop))"
      by (intro keeps_bind_io keeps_shutdown [OF env])
    note keepsD [OF this inv']
    moreover have "loop_inv (st'\<lparr>l_world := drop_stream os w3 sk\<rparr>)" using inv' by (simp add: loop_inv_def)
    ultimately show ?thesis using run by (cases a) simp_all
  qed
qed

subsection \<open>Reading\<close>

text \<open>The scratch buffer: \<open>set_len\<close> never passes the capacity, and the buffer is large enough.\<close>

lemma prepare_scratch_safe:
  assumes "reserve_ok os" and "fst sc \<le> snd sc"
  shows "\<exists>len capacity. prepare_scratch os read_cap sc = Some (len, capacity) \<and> len \<le> capacity \<and> read_cap \<le> len"
proof -
  obtain len capacity where sc: "sc = (len, capacity)" by fastforce
  from assms(1) have "len + read_cap \<le> reserve_capacity os len read_cap" by (simp add: reserve_ok_def)
  with assms(2) sc show ?thesis by (auto simp: prepare_scratch_def Let_def)
qed

lemma slot_inv_merge:
  assumes "slot_inv key st" and "slab_get (l_connections st) key = Some c"
  shows "slot_inv key (st\<lparr>l_connections := slab_insert key (merge_io c) (l_connections st)\<rparr>)"
  by (rule slot_inv_put [OF assms same_core_merge]) (use assms(1) in \<open>simp_all add: slot_inv_def loop_inv_def\<close>)

lemma slot_inv_received:
  assumes "slot_inv key st" and "slab_get (l_connections st) key = Some c" and "fst sc \<le> snd sc"
  shows "slot_inv key (st\<lparr>l_world := w, l_scratch := sc,
    l_connections := slab_insert key (c\<lparr>c_io_buffer := Some data\<rparr>) (l_connections st)\<rparr>)"
  by (rule slot_inv_put [OF assms(1,2), of "c\<lparr>c_io_buffer := Some data\<rparr>"])
     (use assms in \<open>simp_all add: slot_inv_def loop_inv_def same_core_def\<close>)

text \<open>
  The rule for the read loop: \<open>P n\<close> holds of the connection and the world between two reads, when \<open>n\<close>
  bytes have been read, \<open>Q\<close> after a callback that ends the loop. Each answer has its reason: the kernel
  has said that there is nothing more to read, the batch limit is reached, the stream has ended or
  failed, or the callback has asked for it.
\<close>

definition drained :: "'w os \<Rightarrow> socket \<Rightarrow> 'w \<Rightarrow> bool" where
  "drained os sk w' \<longleftrightarrow> (\<exists>w len e. socket_read os w sk len = (Inl e, w') \<and> err_kind e = WouldBlock)"

definition asked_for :: "('w, 'k) handler \<Rightarrow> action \<Rightarrow> 'k conn \<Rightarrow> 'w \<Rightarrow> bool" where
  "asked_for H a c' w' \<longleftrightarrow> (\<exists>c h w h'. on_traffic H c (h, w) = (a, c', h', w'))"

definition read_ended :: "'w os \<Rightarrow> ('w, 'k) handler \<Rightarrow> socket \<Rightarrow> io_status \<Rightarrow> 'k conn \<Rightarrow> 'w \<Rightarrow> bool" where
  "read_ended os H sk status c' w' \<longleftrightarrow>
     (case status of
        IoCompleted \<Rightarrow> drained os sk w'
      | IoYield \<Rightarrow> True
      | IoClosed graceful \<Rightarrow>
          if graceful then (\<exists>w len. socket_read os w sk len = (Inr [], w')) \<or> asked_for H ActClose c' w'
          else \<exists>w len e. socket_read os w sk len = (Inl e, w') \<and> err_kind e \<noteq> WouldBlock
      | IoShutdown \<Rightarrow> asked_for H ActShutdown c' w')"

lemma read_loop_rule:
  fixes H :: "('w, 'k) handler"
  assumes env: "env_ok dbg os wire H"
    and stop: "\<And>n c w sk len r w'. P n c w \<Longrightarrow> c_socket c = Some sk \<Longrightarrow> socket_read os w sk len = (r, w') \<Longrightarrow>
      (\<forall>data. r = Inr data \<longrightarrow> data = []) \<Longrightarrow> P n c w'"
    and step: "\<And>n c w sk len data w1 h a c' h' w2. P n c w \<Longrightarrow> c_socket c = Some sk \<Longrightarrow>
      socket_read os w sk len = (Inr data, w1) \<Longrightarrow> on_traffic H (c\<lparr>c_io_buffer := Some data\<rparr>) (h, w1) = (a, c', h', w2) \<Longrightarrow>
      (a = ActNone \<longrightarrow> P (n + length data) (merge_io c') w2) \<and> Q c' w2"
    and PQ: "\<And>n c w. P n c w \<Longrightarrow> Q c w"
  shows "slot_inv key st \<Longrightarrow> slab_get (l_connections st) key = Some c \<Longrightarrow> c_socket c = Some sk \<Longrightarrow> P bytes_read c (l_world st) \<Longrightarrow>
    \<exists>status st' c'. read_loop os H key max_batch read_cap bytes_read st = (Ok status, st') \<and> slot_inv key st'
      \<and> slab_get (l_connections st') key = Some c' \<and> c_socket c' = Some sk \<and> Q c' (l_world st')
      \<and> (status = IoCompleted \<longrightarrow> (\<exists>n. P n c' (l_world st')))
      \<and> (status = IoYield \<longrightarrow> (\<exists>n. max_batch \<le> n \<and> P n c' (l_world st')))
      \<and> read_ended os H sk status c' (l_world st')"
proof (induction "max_batch - bytes_read" arbitrary: bytes_read st c rule: less_induct)
  case less
  note inv = less.prems(1) and c = less.prems(2,3) and P = less.prems(4)
  show ?case
  proof (cases "max_batch \<le> bytes_read")
    case True
    with inv c P PQ [OF P] show ?thesis by (auto simp: read_loop.simps read_ended_def)
  next
    case False
    have "reserve_ok os" "fst (l_scratch st) \<le> snd (l_scratch st)"
      using env inv by (simp_all add: env_ok_def slot_inv_def loop_inv_def)
    from prepare_scratch_safe [OF this] obtain len capacity where
      prep: "prepare_scratch os read_cap (l_scratch st) = Some (len, capacity)" "len \<le> capacity" by blast
    obtain r w' where r: "socket_read os (l_world st) sk len = (r, w')" by fastforce
    let ?st' = "st\<lparr>l_scratch := (len, capacity), l_world := w'\<rparr>"
    have inv': "slot_inv key ?st'"
      by (rule slot_inv_rest [OF inv]) (simp_all add: prep)
    note unf = read_loop.simps [of os H key max_batch read_cap bytes_read st]
    consider (stop) "\<forall>data. r = Inr data \<longrightarrow> data = []" | (data) data where "r = Inr data" "data \<noteq> []" by blast
    then show ?thesis
    proof cases
      case stop
      have P': "P bytes_read c w'" by (rule assms(2) [OF P c(2) r stop])
      show ?thesis
        using False c prep r inv' stop P' PQ [OF P']
        by (cases r) (auto simp: unf Let_def read_ended_def drained_def)
    next
      case (data data)
      from env r data have n: "length data \<le> len" by (auto simp: env_ok_def intro: read_length)
      let ?c1 = "c\<lparr>c_io_buffer := Some data\<rparr>"
      let ?st1 = "?st'\<lparr>l_scratch := (len - length data, capacity - length data),
          l_connections := slab_insert key ?c1 (l_connections st)\<rparr>"
      have inv1: "slot_inv key ?st1"
        using slot_inv_received [OF inv c(1), where sc = "(len - length data, capacity - length data)" and w = w' and data = data] prep(2)
        by simp
      have cbk: "callback_ok (on_traffic H)" using env by (simp add: env_ok_def handler_ok_def)
      obtain a c2 h2 w2 where f: "on_traffic H ?c1 (l_handle st, w') = (a, c2, h2, w2)" by (metis surj_pair)
      let ?st2 = "?st1\<lparr>l_connections := slab_insert key c2 (l_connections ?st1), l_handle := h2, l_world := w2\<rparr>"
      have cb: "callback key (on_traffic H) ?st1 = (Ok a, ?st2)"
        using f by (simp add: callback_def)
      from tripleD [OF callback_triple [OF cbk] inv1 cb] have inv2: "slot_inv key ?st2" by simp
      from callback_okD [OF cbk f] c(2) have sk2: "c_socket c2 = Some sk" by (simp add: same_identity_def)
      from step [OF P c(2) r [unfolded data] f] have Q2: "Q c2 w2" and P2: "a = ActNone \<Longrightarrow> P (bytes_read + length data) (merge_io c2) w2" by blast+
      have c2: "slab_get (l_connections ?st2) key = Some c2" by simp
      let ?st3 = "?st2\<lparr>l_connections := slab_insert key (merge_io c2) (l_connections ?st2)\<rparr>"
      have eq: "read_loop os H key max_batch read_cap bytes_read st =
         (case a of ActNone \<Rightarrow> read_loop os H key max_batch read_cap (bytes_read + length data) ?st3
          | ActClose \<Rightarrow> (Ok (IoClosed True), ?st2) | ActShutdown \<Rightarrow> (Ok IoShutdown, ?st2))"
        using False c prep(1) r data n cb by (cases a) (simp_all add: unf Let_def)
      have dec: "max_batch - (bytes_read + length data) < max_batch - bytes_read"
        using False data by (cases data) auto
      show ?thesis
      proof (cases "a = ActNone")
        case True
        have sk3: "c_socket (merge_io c2) = Some sk" using sk2 same_core_merge [of c2] by (simp add: same_core_def)
        have "slab_get (l_connections ?st3) key = Some (merge_io c2)" and "P (bytes_read + length data) (merge_io c2) (l_world ?st3)"
          using P2 [OF True] by simp_all
        from less.hyps [OF dec slot_inv_merge [OF inv2 c2] this(1) sk3 this(2)] True eq show ?thesis by simp
      next
        case False
        then consider "a = ActClose" | "a = ActShutdown" by (cases a) auto
        moreover have "asked_for H a c2 (l_world ?st2)" using f by (auto simp: asked_for_def)
        ultimately show ?thesis using eq inv2 c2 sk2 Q2 by cases (simp_all add: read_ended_def)
      qed
    qed
  qed
qed

lemma read_loop_safe:
  assumes env: "env_ok dbg os wire H" and inv: "slot_inv key st"
  shows "\<exists>status st'. read_loop os H key max_batch read_cap bytes_read st = (Ok status, st') \<and> slot_inv key st'"
proof -
  obtain c sk where "slab_get (l_connections st) key = Some c" "c_socket c = Some sk"
    using slot_inv_get [OF inv] by blast
  from read_loop_rule [where P = "\<lambda>_ _ _. True" and Q = "\<lambda>_ _. True", OF env _ _ _ inv this] show ?thesis by fastforce
qed

lemma process_read_safe:
  assumes env: "env_ok dbg os wire H" and inv: "loop_inv st"
  shows "\<exists>status st'. process_read os H key st = (Ok status, st') \<and> loop_inv st'"
proof (cases "slab_get (l_connections st) key")
  case None
  with inv show ?thesis by (simp add: process_read_def)
next
  case (Some c)
  with inv have "slot_inv key st" "\<not> c_closed c" by (auto simp: slot_inv_def loop_inv_def conn_ok_def)
  with Some read_loop_safe [OF env this(1)] show ?thesis
    by (fastforce simp: process_read_def dest: slot_invD)
qed

lemma process_read_rule:
  fixes H :: "('w, 'k) handler"
  assumes env: "env_ok dbg os wire H" and inv: "loop_inv st"
    and c: "slab_get (l_connections st) key = Some c" "c_socket c = Some sk"
    and stop: "\<And>n c w sk len r w'. P n c w \<Longrightarrow> c_socket c = Some sk \<Longrightarrow> socket_read os w sk len = (r, w') \<Longrightarrow>
      (\<forall>data. r = Inr data \<longrightarrow> data = []) \<Longrightarrow> P n c w'"
    and step: "\<And>n c w sk len data w1 h a c' h' w2. P n c w \<Longrightarrow> c_socket c = Some sk \<Longrightarrow>
      socket_read os w sk len = (Inr data, w1) \<Longrightarrow> on_traffic H (c\<lparr>c_io_buffer := Some data\<rparr>) (h, w1) = (a, c', h', w2) \<Longrightarrow>
      (a = ActNone \<longrightarrow> P (n + length data) (merge_io c') w2) \<and> Q c' w2"
    and PQ: "\<And>n c w. P n c w \<Longrightarrow> Q c w" and start: "P 0 c (l_world st)"
  shows "\<exists>status st' c'. process_read os H key st = (Ok status, st')
      \<and> slab_get (l_connections st') key = Some c' \<and> c_socket c' = Some sk \<and> Q c' (l_world st')
      \<and> (status = IoCompleted \<longrightarrow> (\<exists>n. P n c' (l_world st')))
      \<and> (status = IoYield \<longrightarrow> (\<exists>n. unat (max_batch_size (l_options st)) \<le> n \<and> P n c' (l_world st')))
      \<and> read_ended os H sk status c' (l_world st')"
proof -
  have slot: "slot_inv key st" and "\<not> c_closed c" using inv c(1) by (auto simp: slot_inv_def loop_inv_def conn_ok_def)
  with c(1) have eq: "process_read os H key st =
      read_loop os H key (unat (max_batch_size (l_options st))) (unat (read_buffer_cap (l_options st))) 0 st"
    by (simp add: process_read_def)
  have "\<exists>status st' c'. process_read os H key st = (Ok status, st') \<and> slot_inv key st'
      \<and> slab_get (l_connections st') key = Some c' \<and> c_socket c' = Some sk \<and> Q c' (l_world st')
      \<and> (status = IoCompleted \<longrightarrow> (\<exists>n. P n c' (l_world st')))
      \<and> (status = IoYield \<longrightarrow> (\<exists>n. unat (max_batch_size (l_options st)) \<le> n \<and> P n c' (l_world st')))
      \<and> read_ended os H sk status c' (l_world st')"
    unfolding eq by (rule read_loop_rule [where P = P and Q = Q, OF env stop step PQ slot c start])
  then show ?thesis by blast
qed

lemma keeps_process_read:
  fixes H :: "('w, 'k) handler"
  shows "env_ok dbg os wire H \<Longrightarrow> keeps loop_inv (process_read os H key)"
  unfolding keeps_def
proof (intro allI impI)
  fix st :: "('w, 'k) eloop" assume "env_ok dbg os wire H" "loop_inv st"
  from process_read_safe [OF this, of key]
  show "fst (process_read os H key st) \<noteq> Panic \<and> loop_inv (snd (process_read os H key st))" by auto
qed

lemma keeps_read_socket: "env_ok dbg os wire H \<Longrightarrow> keeps loop_inv (read_socket os H key)"
  unfolding read_socket_def
  by (intro keeps_bind_io keeps_process_read)
     (auto split: io_status.split intro!: keeps_intros keeps_close keeps_shutdown_and_stop)

subsection \<open>Writing\<close>

lemma keeps_on_conn:
  fixes m :: "('a, 'k conn \<times> 'w) prog"
  assumes m: "\<And>c w r c' w'. m (c, w) = (r, (c', w')) \<Longrightarrow> c_socket c \<noteq> None \<Longrightarrow> r \<noteq> Panic \<and> same_core c c'"
    and inv: "loop_inv st" and c: "slab_get (l_connections st) key = Some c"
  shows "fst (on_conn key m st) \<noteq> Panic \<and> loop_inv (snd (on_conn key m st))"
proof -
  obtain r st' where run: "on_conn key m st = (r, st')" by fastforce
  have t: "triple (slot_inv key) (on_conn key m) (\<lambda>_. slot_inv key) loop_inv"
    by (rule on_conn_triple) (rule m)
  from inv c have "slot_inv key st" by (simp add: slot_inv_def)
  from tripleD [OF t this run] run show ?thesis by (cases r) (simp_all add: slot_invD)
qed

lemma conn_write_batch_core:
  assumes "conn_write_batch os max_batch (c, w) = (r, (c', w'))" and "c_socket c \<noteq> None"
  shows "r \<noteq> Panic \<and> same_core c c'"
  using assms by (auto simp: conn_write_batch_def same_core_def split: option.splits if_splits prod.splits)

lemma keeps_process_write:
  fixes os :: "'w os"
  shows "keeps (loop_inv :: ('w, 'k) eloop \<Rightarrow> bool) (process_write os key)"
  unfolding keeps_def
proof (intro allI impI)
  fix st :: "('w, 'k) eloop" assume inv: "loop_inv st"
  show "fst (process_write os key st) \<noteq> Panic \<and> loop_inv (snd (process_write os key st))"
  proof (cases "slab_get (l_connections st) key")
    case None
    with inv show ?thesis by (simp add: process_write_def)
  next
    case (Some c)
    with keeps_on_conn [OF conn_write_batch_core inv Some] show ?thesis
      by (simp add: process_write_def)
  qed
qed

lemma keeps_write_socket: "env_ok dbg os wire H \<Longrightarrow> keeps loop_inv (write_socket os H key)"
  unfolding write_socket_def
  by (intro keeps_bind_io keeps_process_write)
     (auto split: io_status.split intro!: keeps_intros keeps_close)

subsection \<open>Commands\<close>

lemma conn_write_core:
  assumes ok: "transport_ok os wire" and m: "conn_write os data (c, w) = (r, (c', w'))" and sk: "c_socket c \<noteq> None"
  shows "r \<noteq> Panic \<and> same_core c c'"
proof -
  from sk obtain s where "c_socket c = Some s" by auto
  from write_bytes_step [OF ok this, of data w] m [unfolded conn_write_eq]
  show ?thesis by (auto simp: sink_step_def intro: same_core_out)
qed

lemma keeps_async_write:
  fixes H :: "('w, 'k) handler"
  assumes env: "env_ok dbg os wire H"
  shows "keeps loop_inv (async_write os H g data)"
  unfolding keeps_def
proof (intro allI impI)
  fix st :: "('w, 'k) eloop" assume inv: "loop_inv st"
  note unf = async_write_def [of os H g data st] Let_def
  show "fst (async_write os H g data st) \<noteq> Panic \<and> loop_inv (snd (async_write os H g data st))"
  proof (cases "slab_get (l_connections st) (slab_index g)")
    case None
    with inv show ?thesis by (simp add: unf)
  next
    case (Some c)
    obtain r st1 where run: "on_conn (slab_index g) (conn_write os data) st = (r, st1)" by fastforce
    have "fst (on_conn (slab_index g) (conn_write os data) st) \<noteq> Panic
        \<and> loop_inv (snd (on_conn (slab_index g) (conn_write os data) st))"
      by (rule keeps_on_conn [OF _ inv Some]) (rule conn_write_core [OF env_okD(1) [OF env]])
    with run have "r \<noteq> Panic" "loop_inv st1" by simp_all
    with Some inv run keepsD [OF keeps_reregister, of st1 os "slab_index g"]
      keepsD [OF keeps_close [OF env], of st1 "slab_index g" False]
    show ?thesis by (cases r) (simp_all add: unf)
  qed
qed

lemma keeps_run_command: "env_ok dbg os wire H \<Longrightarrow> keeps_but (crowded dbg) loop_inv (run_command os dbg H cmd)"
  by (cases cmd)
     (simp_all add: keeps_intros keeps_but keeps_async_write keeps_register keeps_close keeps_read_socket
        keeps_write_socket keeps_shutdown_and_stop)

lemma next_command_fields:
  "next_command h = (x, h') \<Longrightarrow> h_idx h' = h_idx h \<and> h_conn_count h' = h_conn_count h"
  by (auto simp: next_command.simps split: list.splits)

lemma keeps_process_commands:
  fixes H :: "('w, 'k) handler"
  assumes env: "env_ok dbg os wire H"
  shows "keeps_but (crowded dbg) loop_inv (process_commands os dbg H n)"
proof (induction n)
  case 0
  then show ?case by (simp add: keeps_but_def)
next
  case (Suc n)
  show ?case
    unfolding keeps_but_def
  proof (intro allI impI)
    fix st :: "('w, 'k) eloop" assume inv: "loop_inv st"
    obtain x h' where nc: "next_command (l_handle st) = (x, h')" by fastforce
    with inv have inv': "loop_inv (st\<lparr>l_handle := h'\<rparr>)"
      by (auto simp: loop_inv_def dest: next_command_fields)
    have "keeps_but (crowded dbg) loop_inv (bind_io (run_command os dbg H cmd) (\<lambda>_. process_commands os dbg H n))" for cmd
      by (intro keeps_bind_io keeps_run_command [OF env] Suc.IH)
    from keeps_butD [OF this inv'] nc inv'
    show "(fst (process_commands os dbg H (Suc n) st) = Panic \<longrightarrow> crowded dbg (snd (process_commands os dbg H (Suc n) st)))
        \<and> loop_inv (snd (process_commands os dbg H (Suc n) st))"
      by (cases x) simp_all
  qed
qed

subsection \<open>Events\<close>

lemma keeps_process_io: "env_ok dbg os wire H \<Longrightarrow> keeps loop_inv (process_io os H ev)"
  unfolding process_io_def Let_def
  by (intro keeps_if keeps_bind_io keeps_intros keeps_close keeps_write_socket keeps_read_socket)

lemma accept_loop_safe:
  fixes H :: "('w, 'k) handler"
  assumes ret: "accept_loop os dbg H l st = Some res" and env: "env_ok dbg os wire H" and inv: "loop_inv st"
  shows "(fst res = Panic \<longrightarrow> crowded dbg (snd res)) \<and> loop_inv (snd res)"
proof (rule accept_loop.raw_induct [where P = "\<lambda>os dbg H l st res.
      env_ok dbg os wire H \<longrightarrow> loop_inv st \<longrightarrow> (fst res = Panic \<longrightarrow> crowded dbg (snd res)) \<and> loop_inv (snd res)", OF _ ret, THEN mp, THEN mp, OF _ env inv], intro impI)
  fix f :: "'w os \<Rightarrow> bool \<Rightarrow> ('w, 'k) handler \<Rightarrow> listener \<Rightarrow> ('w, 'k) eloop \<Rightarrow> (unit outcome \<times> ('w, 'k) eloop) option"
    and os :: "'w os" and dbg and H :: "('w, 'k) handler" and l and st :: "('w, 'k) eloop" and res
  assume IH: "\<And>os dbg H l st res. f os dbg H l st = Some res \<Longrightarrow>
      env_ok dbg os wire H \<longrightarrow> loop_inv st \<longrightarrow> (fst res = Panic \<longrightarrow> crowded dbg (snd res)) \<and> loop_inv (snd res)"
    and body: "(case listener_accept os (l_world st) l of
        (Inl e, w') \<Rightarrow> Some (Ok (), st\<lparr>l_world := w'\<rparr>)
      | (Inr (sk, peer_addr), w') \<Rightarrow>
          (case listener_local_addr l of
             Inl e \<Rightarrow> Some (Err e, st\<lparr>l_world := drop_stream os w' sk\<rparr>)
           | Inr local_addr \<Rightarrow>
               (case register_conn os dbg H sk local_addr peer_addr (st\<lparr>l_world := w'\<rparr>) of
                  (Ok _, st') \<Rightarrow> f os dbg H l st'
                | (Err e, st') \<Rightarrow> Some (Err e, st')
                | (Panic, st') \<Rightarrow> Some (Panic, st')
                | (Diverge, st') \<Rightarrow> Some (Diverge, st')))) = Some res"
    and env: "env_ok dbg os wire H" and inv: "loop_inv st"
  obtain r w' where acc: "listener_accept os (l_world st) l = (r, w')" by fastforce
  show "(fst res = Panic \<longrightarrow> crowded dbg (snd res)) \<and> loop_inv (snd res)"
  proof (cases r)
    case (Inl e)
    with acc body inv show ?thesis by (auto simp: loop_inv_def)
  next
    case (Inr p)
    obtain sk peer where p: "p = (sk, peer)" by fastforce
    obtain r2 st2 where reg: "register_conn os dbg H sk (li_addr l) peer (st\<lparr>l_world := w'\<rparr>) = (r2, st2)" by fastforce
    have "loop_inv (st\<lparr>l_world := w'\<rparr>)" using inv by (simp add: loop_inv_def)
    from keeps_butD [OF keeps_register [OF env] this, of sk "li_addr l" peer] reg
    have "r2 = Panic \<Longrightarrow> crowded dbg st2" "loop_inv st2" by simp_all
    with body acc Inr p reg IH [of os dbg H l st2 res] env show ?thesis
      by (cases r2) (auto simp: listener_local_addr_def)
  qed
qed

lemma keeps_accept_process:
  fixes H :: "('w, 'k) handler"
  assumes env: "env_ok dbg os wire H"
  shows "keeps_but (crowded dbg) loop_inv (accept_process os dbg H idx)"
  unfolding keeps_but_def
proof (intro allI impI)
  fix st :: "('w, 'k) eloop" assume inv: "loop_inv st"
  then have inv': "loop_inv (st\<lparr>l_listeners := None\<rparr>)" by (simp add: loop_inv_def)
  show "(fst (accept_process os dbg H idx st) = Panic \<longrightarrow> crowded dbg (snd (accept_process os dbg H idx st)))
      \<and> loop_inv (snd (accept_process os dbg H idx st))"
  proof (cases "\<exists>ls. l_listeners st = Some ls \<and> idx < length ls")
    case False
    with inv show ?thesis by (auto simp: accept_process_def split: option.split)
  next
    case True
    then obtain ls where ls: "l_listeners st = Some ls" "idx < length ls" by blast
    show ?thesis
    proof (cases "accept_loop os dbg H (ls ! idx) (st\<lparr>l_listeners := None\<rparr>)")
      case None
      with ls inv show ?thesis by (simp add: accept_process_def)
    next
      case (Some res)
      obtain r st' where res: "res = (r, st')" by fastforce
      from accept_loop_safe [OF Some env inv'] res have "r = Panic \<Longrightarrow> crowded dbg st'" "loop_inv st'" by simp_all
      with Some ls res show ?thesis by (cases r) (simp_all add: accept_process_def loop_inv_def crowded_def)
    qed
  qed
qed

lemma keeps_dispatch: "env_ok dbg os wire H \<Longrightarrow> keeps_but (crowded dbg) loop_inv (dispatch_event os dbg H ev)"
  unfolding dispatch_event_def process_command_def
  by (auto intro!: keeps_bind_io keeps_but [OF keeps_on_handle] keeps_process_commands keeps_accept_process
      keeps_but [OF keeps_process_io] split: option.split)

lemma keeps_dispatch_events: "env_ok dbg os wire H \<Longrightarrow> keeps_but (crowded dbg) loop_inv (dispatch_events os dbg H evs)"
  by (induction evs) (auto intro!: keeps_intros keeps_dispatch)

end
