(* ===== verification/RunLoop.thy ===== *)
theory RunLoop
  imports LoopSafety
begin

text \<open>
  The construction and the main loop of \<open>src/event_loop.rs\<close>: \<open>EventLoop::new\<close>, \<open>listener\<close>,
  \<open>build\<close>, one turn of \<open>run_loop\<close> with its ticker, the loop itself and \<open>run\<close>. Polling, the
  clock and the creation of the poller are outside the repository: the record \<open>reactor\<close>.
\<close>

subsection \<open>The reactor\<close>

text \<open>
  While \<open>poll\<close> waits, other threads run: it answers with the handle as they left it. Instants and
  durations are nanoseconds.
\<close>

record 'w reactor =
  poller_new :: "'w \<Rightarrow> (io_error + unit) \<times> 'w"
  waker_new :: "'w \<Rightarrow> (io_error + nat) \<times> 'w"
  buffer_capacity :: "nat \<Rightarrow> nat"
  poll_wait :: "nat option \<Rightarrow> loop_handle \<times> 'w \<Rightarrow> (io_error + event list) \<times> loop_handle \<times> 'w"
  clock_now :: "'w \<Rightarrow> nat \<times> 'w"

text \<open>Other threads reach the loop only through its handle: they add commands and set the wake flag.\<close>

definition reactor_ok :: "'w reactor \<Rightarrow> bool" where
  "reactor_ok rx \<longleftrightarrow> (\<forall>t h w r h' w'. poll_wait rx t (h, w) = (r, h', w') \<longrightarrow> handle_ext h h')"

subsection \<open>Construction\<close>

definition handle_new :: "nat \<Rightarrow> nat \<Rightarrow> usize \<Rightarrow> loop_handle" where
  "handle_new idx wk conn_count =
     \<lparr>h_idx = idx, h_urgent = [], h_common = [], h_connected = True,
      h_waker = \<lparr>waker_id = wk, awoken = False\<rparr>, h_conn_count = conn_count\<rparr>"

definition eloop_new :: "'w reactor \<Rightarrow> u8 \<Rightarrow> options \<Rightarrow> usize \<Rightarrow> u32 \<Rightarrow> (('w, 'k) eloop, 'w) prog" where
  "eloop_new rx loop_id opts conn_count mono_seq w =
     (case poller_new rx w of
        (Inl e, w1) \<Rightarrow> (Err e, w1)
      | (Inr _, w1) \<Rightarrow>
          (case waker_new rx w1 of
             (Inl e, w2) \<Rightarrow> (Err e, w2)
           | (Inr wk, w2) \<Rightarrow>
               (Ok \<lparr>l_id = loop_id, l_listeners = None, l_options = opts, l_connections = [],
                    l_scratch = (0, buffer_capacity rx (unat (read_buffer_cap opts))),
                    l_handle = handle_new (unat loop_id) wk conn_count, l_pool = [],
                    l_mono = mono_seq, l_world = w2\<rparr>, w2)))"

definition set_listeners :: "listener list \<Rightarrow> ('w, 'k) eloop \<Rightarrow> ('w, 'k) eloop" where
  "set_listeners ls st = st\<lparr>l_listeners := Some ls\<rparr>"

text \<open>The loop over the enumerated listeners; \<open>i\<close> is the index of the first.\<close>

fun build_listeners :: "'w os \<Rightarrow> bool \<Rightarrow> nat \<Rightarrow> listener list \<Rightarrow> (unit, ('w, 'k) eloop) prog" where
  "build_listeners os dbg i [] = ret ()"
| "build_listeners os dbg i (l # ls) =
     (case listener_token dbg (of_nat i) of
        Ok token \<Rightarrow> bind_io (on_world (\<lambda>w. poller_register (listener_register os) w l token))
          (\<lambda>_. build_listeners os dbg (Suc i) ls)
      | _ \<Rightarrow> (\<lambda>st. (Panic, st)))"

definition eloop_build :: "'w os \<Rightarrow> bool \<Rightarrow> (unit, ('w, 'k) eloop) prog" where
  "eloop_build os dbg st =
     (case l_listeners st of None \<Rightarrow> (Ok (), st) | Some ls \<Rightarrow> build_listeners os dbg 0 ls st)"

subsection \<open>The ticker\<close>

definition call_tick :: "('w, 'k) handler \<Rightarrow> (nat \<times> action, ('w, 'k) eloop) prog" where
  "call_tick H st =
     (case on_tick H (l_connections st) (l_handle st, l_world st) of
        (r, conns', h', w') \<Rightarrow> (Ok r, st\<lparr>l_connections := conns', l_handle := h', l_world := w'\<rparr>))"

definition clock :: "'w reactor \<Rightarrow> (nat, ('w, 'k) eloop) prog" where
  "clock rx st = (case clock_now rx (l_world st) of (t, w') \<Rightarrow> (Ok t, st\<lparr>l_world := w'\<rparr>))"

text \<open>
  An \<open>Instant\<close> has 63 bits of seconds beside its nanoseconds; \<open>Instant::now() + delay\<close> panics beyond.
\<close>

definition INSTANT_END :: nat where
  "INSTANT_END = 2 ^ 63 * 10 ^ 9"

definition instant_add :: "nat \<Rightarrow> nat \<Rightarrow> (nat, 's) prog" where
  "instant_add now delay s = (if now + delay < INSTANT_END then (Ok (now + delay), s) else (Panic, s))"

definition schedule :: "'w reactor \<Rightarrow> nat \<Rightarrow> (nat option, ('w, 'k) eloop) prog" where
  "schedule rx delay =
     (if delay = 0 then ret None
      else bind_io (clock rx) (\<lambda>now. bind_io (instant_add now delay) (\<lambda>t. ret (Some t))))"

text \<open>Before the loop; \<open>None\<close> is a shutdown asked for by the first tick.\<close>

definition first_tick :: "'w reactor \<Rightarrow> 'w os \<Rightarrow> ('w, 'k) handler \<Rightarrow> (nat option option, ('w, 'k) eloop) prog" where
  "first_tick rx os H st =
     (if ticker (l_options st) then
        bind_io (call_tick H) (\<lambda>(delay, a).
          if a = ActShutdown then bind_io (shutdown os H) (\<lambda>_. ret None)
          else bind_io (schedule rx delay) (\<lambda>t. ret (Some t))) st
      else (Ok (Some None), st))"

definition tick_due :: "'w reactor \<Rightarrow> 'w os \<Rightarrow> ('w, 'k) handler \<Rightarrow> nat option \<Rightarrow> (nat option, ('w, 'k) eloop) prog" where
  "tick_due rx os H next_tick =
     (case next_tick of
        None \<Rightarrow> ret None
      | Some tick \<Rightarrow>
          bind_io (clock rx) (\<lambda>now.
            if tick \<le> now then
              bind_io (call_tick H) (\<lambda>(delay, a).
                if a = ActShutdown then shutdown_and_stop os H else schedule rx delay)
            else ret (Some tick)))"

subsection \<open>The loop\<close>

definition has_pending :: "('w, 'k) eloop \<Rightarrow> bool" where
  "has_pending st \<longleftrightarrow> h_urgent (l_handle st) \<noteq> [] \<or> h_common (l_handle st) \<noteq> []"

definition poll_timeout :: "'w reactor \<Rightarrow> bool \<Rightarrow> nat option \<Rightarrow> (nat option, ('w, 'k) eloop) prog" where
  "poll_timeout rx pending_commands next_tick =
     (if pending_commands then ret (Some 0)
      else
        (case next_tick of
           Some tick \<Rightarrow> bind_io (clock rx) (\<lambda>now. ret (if tick \<le> now then Some 0 else Some (tick - now)))
         | None \<Rightarrow> ret None))"

definition wait_events :: "'w reactor \<Rightarrow> nat option \<Rightarrow> (io_error + event list, ('w, 'k) eloop) prog" where
  "wait_events rx timeout st =
     (case poll_wait rx timeout (l_handle st, l_world st) of
        (r, h', w') \<Rightarrow> (Ok r, st\<lparr>l_handle := h', l_world := w'\<rparr>))"

text \<open>One turn; its answer is the next tick. An interrupted poll is tried again.\<close>

definition loop_turn ::
  "'w reactor \<Rightarrow> 'w os \<Rightarrow> bool \<Rightarrow> ('w, 'k) handler \<Rightarrow> nat option \<Rightarrow> (nat option, ('w, 'k) eloop) prog" where
  "loop_turn rx os dbg H next_tick st =
     (let pending_commands = has_pending st in
      bind_io (poll_timeout rx pending_commands next_tick) (\<lambda>timeout.
      bind_io (wait_events rx timeout) (\<lambda>r.
        case r of
          Inl e \<Rightarrow> if err_kind e = Interrupted then ret next_tick else raise e
        | Inr events \<Rightarrow>
            bind_io (if pending_commands then process_command os dbg H else ret ()) (\<lambda>_.
            bind_io (dispatch_events os dbg H events) (\<lambda>_.
            tick_due rx os H next_tick)))) st)"

text \<open>The \<open>loop\<close> has no end but an error: \<open>None\<close> is a loop that runs forever.\<close>

partial_function (option) turns ::
  "'w reactor \<Rightarrow> 'w os \<Rightarrow> bool \<Rightarrow> ('w, 'k) handler \<Rightarrow> nat option \<Rightarrow> ('w, 'k) eloop
    \<Rightarrow> (unit outcome \<times> ('w, 'k) eloop) option" where
  "turns rx os dbg H next_tick st =
     (case loop_turn rx os dbg H next_tick st of
        (Ok next_tick', st') \<Rightarrow> turns rx os dbg H next_tick' st'
      | (Err e, st') \<Rightarrow> Some (Err e, st')
      | (Panic, st') \<Rightarrow> Some (Panic, st')
      | (Diverge, st') \<Rightarrow> Some (Diverge, st'))"

definition run_turns ::
  "'w reactor \<Rightarrow> 'w os \<Rightarrow> bool \<Rightarrow> ('w, 'k) handler \<Rightarrow> nat option \<Rightarrow> (unit, ('w, 'k) eloop) prog" where
  "run_turns rx os dbg H next_tick st =
     (case turns rx os dbg H next_tick st of None \<Rightarrow> (Diverge, st) | Some res \<Rightarrow> res)"

definition run_loop :: "'w reactor \<Rightarrow> 'w os \<Rightarrow> bool \<Rightarrow> ('w, 'k) handler \<Rightarrow> (unit, ('w, 'k) eloop) prog" where
  "run_loop rx os dbg H =
     bind_io (first_tick rx os H) (\<lambda>t.
       case t of None \<Rightarrow> ret () | Some next_tick \<Rightarrow> run_turns rx os dbg H next_tick)"

definition run :: "'w reactor \<Rightarrow> 'w os \<Rightarrow> bool \<Rightarrow> ('w, 'k) handler \<Rightarrow> (unit, ('w, 'k) eloop) prog" where
  "run rx os dbg H st =
     (case run_loop rx os dbg H st of
        (Err e, st') \<Rightarrow> if err_kind e = Interrupted then (Ok (), st') else (Err e, st')
      | other \<Rightarrow> other)"

subsection \<open>Running keeps the invariant\<close>

lemma eloop_new_inv:
  "fst (eloop_new rx loop_id opts 0 mono_seq w) = Ok st \<Longrightarrow> loop_inv (st :: ('w, 'k) eloop)"
  by (auto simp: eloop_new_def handle_new_def loop_inv_def slab_get_def slab_keys_def split: prod.splits sum.splits)

lemma keeps_handle_rest:
  assumes "\<And>st. \<exists>r h' w'. m st = (r, st\<lparr>l_handle := h', l_world := w'\<rparr>) \<and> r \<noteq> Panic \<and> handle_ext (l_handle st) h'"
  shows "keeps (loop_inv :: ('w, 'k) eloop \<Rightarrow> bool) m"
  unfolding keeps_def
proof (intro allI impI)
  fix st :: "('w, 'k) eloop" assume "loop_inv st"
  with assms [of st] show "fst (m st) \<noteq> Panic \<and> loop_inv (snd (m st))"
    by (auto simp: loop_inv_def handle_ext_def)
qed

lemma keeps_clock: "keeps loop_inv (clock rx)"
  by (auto simp: keeps_def clock_def loop_inv_def split: prod.splits)

lemma keeps_wait_events: "reactor_ok rx \<Longrightarrow> keeps loop_inv (wait_events rx timeout)"
proof (rule keeps_handle_rest)
  fix st :: "('a, 'b) eloop" assume ok: "reactor_ok rx"
  obtain r h' w' where p: "poll_wait rx timeout (l_handle st, l_world st) = (r, h', w')" by (metis surj_pair)
  with ok have "handle_ext (l_handle st) h'" unfolding reactor_ok_def by blast
  with p show "\<exists>r h' w'. wait_events rx timeout st = (r, st\<lparr>l_handle := h', l_world := w'\<rparr>) \<and> r \<noteq> Panic
      \<and> handle_ext (l_handle st) h'"
    by (auto simp: wait_events_def)
qed

text \<open>\<open>on_tick\<close> sees the open connections and changes none of the fields the invariant reads.\<close>

lemma keys_same:
  assumes "length s' = length s"
    and "\<And>k. case slab_get s k of None \<Rightarrow> slab_get s' k = None | Some c \<Rightarrow> (\<exists>c'. slab_get s' k = Some c' \<and> same_identity c c')"
  shows "slab_keys s' = slab_keys s"
proof -
  have "k < length s \<Longrightarrow> (s' ! k \<noteq> None) = (s ! k \<noteq> None)" for k
    using assms(2) [of k] assms(1) by (cases "s ! k") (auto simp: slab_get_def)
  then show ?thesis
    unfolding slab_keys_def assms(1) by (intro filter_cong refl) simp
qed

lemma keeps_call_tick:
  assumes env: "env_ok dbg os wire H"
  shows "keeps loop_inv (call_tick H)"
  unfolding keeps_def
proof (intro allI impI)
  fix st :: "('a, 'b) eloop" assume inv: "loop_inv st"
  obtain r s' h' w' where t: "on_tick H (l_connections st) (l_handle st, l_world st) = (r, s', h', w')"
    by (metis surj_pair)
  from env t have ext: "handle_ext (l_handle st) h'" and len: "length s' = length (l_connections st)"
    and slots: "\<And>k. case slab_get (l_connections st) k of None \<Rightarrow> slab_get s' k = None
      | Some c \<Rightarrow> (\<exists>c'. slab_get s' k = Some c' \<and> same_identity c c')"
    unfolding env_ok_def handler_ok_def by blast+
  have "conn_ok (l_id st) (h_idx (l_handle st)) k c'" if "slab_get s' k = Some c'" for k c'
  proof -
    from slots [of k] that obtain c where c: "slab_get (l_connections st) k = Some c" "same_identity c c'"
      by (cases "slab_get (l_connections st) k") auto
    from inv c(1) have "conn_ok (l_id st) (h_idx (l_handle st)) k c" by (simp add: loop_inv_def)
    with conn_ok_core [OF same_core_identity [OF c(2)]] show ?thesis by simp
  qed
  with t inv ext keys_same [OF len slots]
  show "fst (call_tick H st) \<noteq> Panic \<and> loop_inv (snd (call_tick H st))"
    by (auto simp: call_tick_def loop_inv_def handle_ext_def)
qed

text \<open>
  What the application is asked for: no delay that leads past the last instant. Without it a tick
  may panic; nothing else does, save in a crowded loop.
\<close>

definition delays_fit :: "'w reactor \<Rightarrow> ('w, 'k) handler \<Rightarrow> bool" where
  "delays_fit rx H \<longleftrightarrow>
     (\<forall>s h w delay a s' h' w' w2. on_tick H s (h, w) = ((delay, a), s', h', w') \<longrightarrow> fst (clock_now rx w2) + delay < INSTANT_END)"

definition may_panic :: "'w reactor \<Rightarrow> bool \<Rightarrow> ('w, 'k) handler \<Rightarrow> ('w, 'k) eloop \<Rightarrow> bool" where
  "may_panic rx dbg H st \<longleftrightarrow> crowded dbg st \<or> \<not> delays_fit rx H"

lemma may_panic_crowded: "keeps_but (crowded dbg) I m \<Longrightarrow> keeps_but (may_panic rx dbg H) I m"
  by (erule keeps_but_mono) (simp add: may_panic_def)

lemma schedule_panics:
  "fst (schedule rx delay st) = Panic \<longleftrightarrow> delay \<noteq> 0 \<and> INSTANT_END \<le> fst (clock_now rx (l_world st)) + delay"
  by (auto simp: schedule_def clock_def instant_add_def bind_io_def ret_def split: prod.split)

lemma keeps_schedule:
  assumes "\<And>w. fst (clock_now rx w) + delay < INSTANT_END \<or> \<not> delays_fit rx H"
  shows "keeps_but (may_panic rx dbg H) loop_inv (schedule rx delay)"
proof (rule keeps_butI)
  fix st :: "('a, 'b) eloop"
  show "fst (schedule rx delay st) = Panic \<Longrightarrow> may_panic rx dbg H (snd (schedule rx delay st))"
    using assms [of "l_world st"] by (auto simp: schedule_panics may_panic_def)
  show "loop_inv st \<Longrightarrow> loop_inv (snd (schedule rx delay st))"
    by (auto simp: schedule_def clock_def instant_add_def bind_io_def ret_def loop_inv_def split: prod.split)
qed

text \<open>After a callback the delay is one that it has answered.\<close>

lemma keeps_after_tick:
  assumes env: "env_ok dbg os wire H"
    and f: "\<And>delay a. (\<And>w. fst (clock_now rx w) + delay < INSTANT_END \<or> \<not> delays_fit rx H) \<Longrightarrow>
      keeps_but (may_panic rx dbg H) loop_inv (f (delay, a))"
  shows "keeps_but (may_panic rx dbg H) loop_inv (bind_io (call_tick H) f)"
  unfolding keeps_but_def
proof (intro allI impI)
  fix st :: "('a, 'b) eloop" assume inv: "loop_inv st"
  obtain delay a s' h' w' where t: "on_tick H (l_connections st) (l_handle st, l_world st) = ((delay, a), s', h', w')"
    by (metis surj_pair)
  then have run: "call_tick H st = (Ok (delay, a), st\<lparr>l_connections := s', l_handle := h', l_world := w'\<rparr>)" by (simp add: call_tick_def)
  have "fst (clock_now rx w) + delay < INSTANT_END \<or> \<not> delays_fit rx H" for w using t unfolding delays_fit_def by blast
  from keeps_butD [OF f [OF this]] keepsD(2) [OF keeps_call_tick [OF env] inv] run
  show "(fst (bind_io (call_tick H) f st) = Panic \<longrightarrow> may_panic rx dbg H (snd (bind_io (call_tick H) f st)))
      \<and> loop_inv (snd (bind_io (call_tick H) f st))" by (simp add: bind_io_Ok)
qed

lemma keeps_tick_due:
  assumes env: "env_ok dbg os wire H"
  shows "keeps_but (may_panic rx dbg H) loop_inv (tick_due rx os H next_tick)"
  unfolding tick_due_def
  by (auto split: option.split intro!: keeps_intros keeps_but [OF keeps_clock] keeps_after_tick [OF env]
      keeps_but [OF keeps_shutdown_and_stop [OF env]] keeps_schedule)

lemma tick_due_calm:
  assumes "env_ok dbg os wire H" and "loop_inv st"
  shows "delays_fit rx H \<longrightarrow> fst (tick_due rx os H next_tick st) \<noteq> Panic"
proof -
  have "env_ok False os wire H" using assms(1) by (simp add: env_ok_def vacant_ok_def)
  from keeps_butD(1) [OF keeps_tick_due [OF this] assms(2), of rx next_tick] show ?thesis
    by (auto simp: may_panic_def crowded_def)
qed

lemma keeps_first_tick:
  assumes env: "env_ok dbg os wire H"
  shows "keeps_but (may_panic rx dbg H) loop_inv (first_tick rx os H)"
proof -
  have "keeps_but (may_panic rx dbg H) loop_inv (bind_io (call_tick H) (\<lambda>(delay, a).
          if a = ActShutdown then bind_io (shutdown os H) (\<lambda>_. ret None)
          else bind_io (schedule rx delay) (\<lambda>t. ret (Some t))))"
    by (auto intro!: keeps_after_tick [OF env] keeps_intros keeps_but [OF keeps_shutdown [OF env]] keeps_schedule)
  then show ?thesis by (auto simp: keeps_but_def first_tick_def)
qed

lemma keeps_loop_turn:
  assumes env: "env_ok dbg os wire H" and rx: "reactor_ok rx"
  shows "keeps_but (may_panic rx dbg H) loop_inv (loop_turn rx os dbg H next_tick)"
proof -
  have cmds: "keeps_but (may_panic rx dbg H) loop_inv (process_command os dbg H)"
    unfolding process_command_def by (rule may_panic_crowded, rule keeps_process_commands [OF env])
  have timeout: "keeps_but (may_panic rx dbg H) loop_inv (poll_timeout rx p next_tick)" for p
    unfolding poll_timeout_def by (auto split: option.split intro!: keeps_intros keeps_but [OF keeps_clock])
  have "keeps_but (may_panic rx dbg H) loop_inv (bind_io (poll_timeout rx p next_tick) (\<lambda>timeout.
      bind_io (wait_events rx timeout) (\<lambda>r.
        case r of
          Inl e \<Rightarrow> if err_kind e = Interrupted then ret next_tick else raise e
        | Inr events \<Rightarrow>
            bind_io (if p then process_command os dbg H else ret ()) (\<lambda>_.
            bind_io (dispatch_events os dbg H events) (\<lambda>_.
            tick_due rx os H next_tick)))))" for p
    by (intro keeps_bind_io timeout keeps_but [OF keeps_wait_events [OF rx]])
       (auto split: sum.split intro!: keeps_ret keeps_raise keeps_bind_io cmds may_panic_crowded [OF keeps_dispatch_events [OF env]]
          keeps_tick_due [OF env])
  then show ?thesis by (simp add: keeps_but_def loop_turn_def Let_def)
qed

lemma turns_safe:
  fixes H :: "('w, 'k) handler"
  assumes ret: "turns rx os dbg H next_tick st = Some res"
    and env: "env_ok dbg os wire H" and rx: "reactor_ok rx" and inv: "loop_inv st"
  shows "(fst res = Panic \<longrightarrow> may_panic rx dbg H (snd res)) \<and> loop_inv (snd res) \<and> fst res \<noteq> Ok ()"
proof (rule turns.raw_induct [where P = "\<lambda>rx os dbg H next_tick st res.
      env_ok dbg os wire H \<longrightarrow> reactor_ok rx \<longrightarrow> loop_inv st \<longrightarrow>
        (fst res = Panic \<longrightarrow> may_panic rx dbg H (snd res)) \<and> loop_inv (snd res) \<and> fst res \<noteq> Ok ()",
      OF _ ret, THEN mp, THEN mp, THEN mp, OF _ env rx inv], intro impI)
  fix f :: "'w reactor \<Rightarrow> 'w os \<Rightarrow> bool \<Rightarrow> ('w, 'k) handler \<Rightarrow> nat option \<Rightarrow> ('w, 'k) eloop \<Rightarrow> (unit outcome \<times> ('w, 'k) eloop) option"
    and rx :: "'w reactor" and os :: "'w os" and dbg and H :: "('w, 'k) handler" and next_tick and st :: "('w, 'k) eloop" and res
  assume IH: "\<And>rx os dbg H next_tick st res. f rx os dbg H next_tick st = Some res \<Longrightarrow>
      env_ok dbg os wire H \<longrightarrow> reactor_ok rx \<longrightarrow> loop_inv st \<longrightarrow>
        (fst res = Panic \<longrightarrow> may_panic rx dbg H (snd res)) \<and> loop_inv (snd res) \<and> fst res \<noteq> Ok ()"
    and body: "(case loop_turn rx os dbg H next_tick st of
        (Ok next_tick', st') \<Rightarrow> f rx os dbg H next_tick' st'
      | (Err e, st') \<Rightarrow> Some (Err e, st')
      | (Panic, st') \<Rightarrow> Some (Panic, st')
      | (Diverge, st') \<Rightarrow> Some (Diverge, st')) = Some res"
    and env: "env_ok dbg os wire H" and rx: "reactor_ok rx" and inv: "loop_inv st"
  obtain r st' where t: "loop_turn rx os dbg H next_tick st = (r, st')" by fastforce
  from keeps_butD [OF keeps_loop_turn [OF env rx] inv, of next_tick] t
  have "r = Panic \<Longrightarrow> may_panic rx dbg H st'" "loop_inv st'" by simp_all
  with body t IH env rx show "(fst res = Panic \<longrightarrow> may_panic rx dbg H (snd res)) \<and> loop_inv (snd res) \<and> fst res \<noteq> Ok ()"
    by (cases r) auto
qed

lemma keeps_run_turns:
  assumes env: "env_ok dbg os wire H" and rx: "reactor_ok rx"
  shows "keeps_but (may_panic rx dbg H) loop_inv (run_turns rx os dbg H next_tick)"
proof (rule keeps_butI)
  fix st :: "('a, 'b) eloop" assume inv: "loop_inv st"
  note safe = turns_safe [OF _ env rx inv, of next_tick]
  show "fst (run_turns rx os dbg H next_tick st) = Panic \<Longrightarrow> may_panic rx dbg H (snd (run_turns rx os dbg H next_tick st))"
    using safe by (cases "turns rx os dbg H next_tick st") (simp_all add: run_turns_def)
  show "loop_inv (snd (run_turns rx os dbg H next_tick st))"
    using inv safe by (cases "turns rx os dbg H next_tick st") (simp_all add: run_turns_def)
qed

lemma keeps_run:
  assumes env: "env_ok dbg os wire H" and rx: "reactor_ok rx"
  shows "keeps_but (may_panic rx dbg H) loop_inv (run rx os dbg H)"
  unfolding keeps_but_def
proof (intro allI impI)
  have k: "keeps_but (may_panic rx dbg H) loop_inv (run_loop rx os dbg H)"
    unfolding run_loop_def
    by (auto split: option.split intro!: keeps_intros keeps_first_tick [OF env] keeps_run_turns [OF env rx])
  fix st :: "('a, 'b) eloop" assume inv: "loop_inv st"
  obtain r st' where t: "run_loop rx os dbg H st = (r, st')" by fastforce
  from keeps_butD [OF k inv] t
  show "(fst (run rx os dbg H st) = Panic \<longrightarrow> may_panic rx dbg H (snd (run rx os dbg H st))) \<and> loop_inv (snd (run rx os dbg H st))"
    by (cases r) (auto simp: run_def)
qed

end
