(* ===== verification/LoopTheorems.thy ===== *)
theory LoopTheorems
  imports RunLoop SimKernel
begin

text \<open>
  What the event loop promises: safety in every reachable state, and what closing, registering,
  writing through a descriptor and shutting down do.
\<close>

subsection \<open>Reachable states\<close>

text \<open>
  What can happen to a loop between two observations: it runs a command, handles an event or
  ticks, or another thread uses its handle. (A loop whose step failed stops.)
\<close>

inductive loop_reaches ::
  "'w os \<Rightarrow> bool \<Rightarrow> ('w, 'k) handler \<Rightarrow> ('w, 'k) eloop \<Rightarrow> ('w, 'k) eloop \<Rightarrow> bool"
  for os :: "'w os" and dbg :: bool and H :: "('w, 'k) handler" and start :: "('w, 'k) eloop" where
    here: "loop_reaches os dbg H start start"
  | command: "loop_reaches os dbg H start st \<Longrightarrow> run_command os dbg H cmd st = (r, st') \<Longrightarrow>
      loop_reaches os dbg H start st'"
  | event: "loop_reaches os dbg H start st \<Longrightarrow> dispatch_event os dbg H ev st = (r, st') \<Longrightarrow>
      loop_reaches os dbg H start st'"
  | tick: "loop_reaches os dbg H start st \<Longrightarrow> call_tick H st = (r, st') \<Longrightarrow> loop_reaches os dbg H start st'"
  | others: "loop_reaches os dbg H start st \<Longrightarrow> handle_ext (l_handle st) h' \<Longrightarrow>
      loop_reaches os dbg H start (st\<lparr>l_handle := h', l_world := w'\<rparr>)"

lemma loop_reaches_inv:
  assumes "loop_reaches os dbg H start st" and env: "env_ok dbg os wire H" and "loop_inv start"
  shows "loop_inv st"
  using assms(1)
proof induction
  case here
  show ?case by (rule assms(3))
next
  case (command st cmd r st')
  from keeps_butD(2) [OF keeps_run_command [OF env] command.IH, of cmd] command.hyps(2) show ?case by simp
next
  case (event st ev r st')
  from keeps_butD(2) [OF keeps_dispatch [OF env] event.IH, of ev] event.hyps(2) show ?case by simp
next
  case (tick st r st')
  from keepsD(2) [OF keeps_call_tick [OF env] tick.IH] tick.hyps(2) show ?case by simp
next
  case (others st h' w')
  then show ?case by (auto simp: loop_inv_def handle_ext_def)
qed

subsection \<open>A concrete loop\<close>

definition sim_reactor :: "sim reactor" where
  "sim_reactor =
     \<lparr>poller_new = (\<lambda>w. (Inr (), w)), waker_new = (\<lambda>w. (Inr 7, w)), buffer_capacity = (\<lambda>n. n),
      poll_wait = (\<lambda>t (h, w). (Inr [], h, w)), clock_now = (\<lambda>w. (0, w))\<rparr>"

definition sample_options :: options where
  "sample_options = default_options\<lparr>read_buffer_cap := 64, max_batch_size := 128\<rparr>"

definition sample_loop :: "sim \<Rightarrow> (sim, unit) eloop" where
  "sample_loop w =
     \<lparr>l_id = 1, l_listeners = None, l_options = sample_options, l_connections = [], l_scratch = (0, 64),
      l_handle = handle_new 1 7 0, l_pool = [], l_mono = 0, l_world = w\<rparr>"

lemma sample_loop_new: "fst (eloop_new sim_reactor 1 sample_options 0 0 w) = Ok (sample_loop w)"
  by (simp add: eloop_new_def sim_reactor_def sample_loop_def sample_options_def)

lemma sim_reactor_ok: "reactor_ok sim_reactor"
  by (simp add: reactor_ok_def sim_reactor_def)

lemma sim_env_ok: "handler_ok H \<Longrightarrow> env_ok dbg sim_os sim_sent H"
  by (simp add: env_ok_def sim_transport_ok sim_read_ok sim_vacant_ok sim_reserve_ok)

lemma sample_loop_inv: "loop_inv (sample_loop w)"
  by (rule eloop_new_inv [OF sample_loop_new])

subsection \<open>Safety\<close>

lemma sim_delays_fit: "delays_fit sim_reactor default_handler"
  by (simp add: delays_fit_def sim_reactor_def default_handler_def INSTANT_END_def)

text \<open>
  C1: the bookkeeping of an event loop is right in every reachable state, and it panics in no case but
  two. From a fresh loop, under any sequence of commands (stale or invented keys included), readiness
  events for any token, ticks and interference through the handle, over any kernel, slab and application
  that keep their contracts: every open connection owns a socket and carries a descriptor that names
  this loop and its slot, no pooled connection holds a socket, \<open>conn_count\<close> is the number of open
  connections. No command and no event panics from there (no \<open>unwrap\<close> of \<open>None\<close>, no \<open>remove\<close> of a
  vacant slot, no \<open>split_to\<close> past the end, no \<open>set_len\<close> past the capacity) unless debug assertions are
  compiled in and \<open>2 ^ 24\<close> connections are open in the loop (\<open>crowded\<close>); no tick panics, and no whole
  run panics for another reason, unless \<open>on_tick\<close> asks for a delay that leads past the last instant of the
  clock (\<open>delays_fit\<close>).
\<close>

theorem event_loop_safe:
  assumes "transport_ok os wire" and "read_ok os" and "vacant_ok dbg os" and "reserve_ok os"
    and "handler_ok H" and "reactor_ok rx"
    and "fst (eloop_new rx loop_id opts 0 seq w) = Ok start"
    and "loop_reaches os dbg H (start\<lparr>l_listeners := ls\<rparr>) st"
  shows "(\<forall>key c. slab_get (l_connections st) key = Some c \<longrightarrow>
            c_socket c \<noteq> None \<and> slab_index (c_gfd c) = key mod 2 ^ 24
            \<and> event_loop_index (c_gfd c) = unat (l_id st) \<and> c_handle c = h_idx (l_handle st))
    \<and> (\<forall>c \<in> set (l_pool st). c_socket c = None)
    \<and> h_conn_count (l_handle st) = of_nat (length (slab_keys (l_connections st)))
    \<and> (fst (run_command os dbg H cmd st) = Panic \<longrightarrow> crowded dbg (snd (run_command os dbg H cmd st)))
    \<and> (fst (process_command os dbg H st) = Panic \<longrightarrow> crowded dbg (snd (process_command os dbg H st)))
    \<and> (fst (dispatch_event os dbg H ev st) = Panic \<longrightarrow> crowded dbg (snd (dispatch_event os dbg H ev st)))
    \<and> (delays_fit rx H \<longrightarrow> fst (tick_due rx os H next_tick st) \<noteq> Panic
        \<and> (fst (run rx os dbg H st) = Panic \<longrightarrow> crowded dbg (snd (run rx os dbg H st))))"
proof -
  have env: "env_ok dbg os wire H" using assms(1-5) by (simp add: env_ok_def)
  have "loop_inv (start\<lparr>l_listeners := ls\<rparr>)" using eloop_new_inv [OF assms(7)] by (simp add: loop_inv_def)
  then have inv: "loop_inv st" by (rule loop_reaches_inv [OF assms(8) env])
  from inv tick_due_calm [OF env inv, of rx next_tick] show ?thesis
    using keeps_butD(1) [OF keeps_run_command [OF env] inv] keeps_butD(1) [OF keeps_process_commands [OF env] inv]
      keeps_butD(1) [OF keeps_dispatch [OF env] inv] keeps_butD(1) [OF keeps_run [OF env assms(6)] inv]
    by (auto simp: loop_inv_def conn_ok_def process_command_def may_panic_def)
qed

lemma event_loop_safe_witness:
  "\<exists>st. run_command sim_os True default_handler (Register (Tcp 9) (UnixAddr ''l'') (UnixAddr ''p''))
      (sample_loop sim0\<lparr>l_listeners := None\<rparr>) = (Ok (), st)
    \<and> slab_keys (l_connections st) = [0] \<and> h_conn_count (l_handle st) = 1
    \<and> (fst (run_command sim_os True default_handler (Close 0) st) = Panic \<longrightarrow>
        crowded True (snd (run_command sim_os True default_handler (Close 0) st)))
    \<and> fst (tick_due sim_reactor sim_os default_handler (Some 0) st) \<noteq> Panic"
proof -
  let ?st0 = "sample_loop sim0\<lparr>l_listeners := None\<rparr>"
  obtain r st where run: "run_command sim_os True default_handler (Register (Tcp 9) (UnixAddr ''l'') (UnixAddr ''p'')) ?st0 = (r, st)"
    by fastforce
  then have r: "r = Ok ()" and keys: "slab_keys (l_connections st) = [0]"
    by (auto simp: register_conn_def sample_loop_def sample_options_def default_options_def sim_os_def set_nodelay_def
        poller_register_def socket_register_def sim_registry_def sim0_def Gfd_new_def socket_fd_def token_mask
        default_handler_def slab_insert_def slab_keys_def handle_new_def occupied_def Let_def)
  have reach: "loop_reaches sim_os True default_handler ?st0 st"
    by (rule loop_reaches.command [OF loop_reaches.here run])
  note safe = event_loop_safe [OF sim_transport_ok sim_read_ok sim_vacant_ok sim_reserve_ok default_handler_ok
    sim_reactor_ok sample_loop_new reach]
  from safe [of "Close 0" _ "Some 0"] keys run r sim_delays_fit show ?thesis by auto
qed

subsection \<open>Closing\<close>

definition deregister_works :: "'w os \<Rightarrow> bool" where
  "deregister_works os \<longleftrightarrow> (\<forall>w src. \<exists>w'. registry_deregister os w src = (Inr (), w'))"

text \<open>Two states that differ at most in slot \<open>key\<close>, in the world and by appended commands.\<close>

definition same_but_slot :: "nat \<Rightarrow> ('w, 'k) eloop \<Rightarrow> ('w, 'k) eloop \<Rightarrow> bool" where
  "same_but_slot key st st' \<longleftrightarrow>
     (\<forall>k. k \<noteq> key \<longrightarrow> slab_get (l_connections st') k = slab_get (l_connections st) k)
     \<and> l_id st' = l_id st \<and> l_listeners st' = l_listeners st \<and> l_options st' = l_options st
     \<and> l_pool st' = l_pool st \<and> handle_ext (l_handle st) (l_handle st')"

lemma same_but_slot_trans:
  "same_but_slot key st st' \<Longrightarrow> same_but_slot key st' st'' \<Longrightarrow> same_but_slot key st st''"
  by (auto simp: same_but_slot_def intro: handle_ext_trans)

lemma on_conn_slot:
  assumes "slab_get (l_connections st) key = Some c" and "m (c, l_world st) = (r, (c', w'))"
  shows "\<exists>st'. on_conn key m st = (r, st') \<and> slab_get (l_connections st') key = Some c' \<and> l_world st' = w'
    \<and> l_handle st' = l_handle st \<and> same_but_slot key st st'"
  using assms by (simp add: on_conn_def same_but_slot_def)

lemma callback_slot:
  assumes "slab_get (l_connections st) key = Some c" and "callback_ok f"
  shows "\<exists>a st' c'. callback key f st = (Ok a, st') \<and> slab_get (l_connections st') key = Some c'
    \<and> same_identity c c' \<and> same_but_slot key st st'"
proof -
  obtain a c' h' w' where f: "f c (l_handle st, l_world st) = (a, c', h', w')" by (metis surj_pair)
  from callback_okD [OF assms(2) f] assms(1) f show ?thesis
    by (auto simp: callback_def same_but_slot_def)
qed

lemma flush_returns:
  assumes ok: "transport_ok os wire" and sk: "c_socket c = Some sk" and fin: "eintr_bounded os \<mu>"
  shows "\<exists>c' w'. discard_result (flush os) (c, w) = (Ok (), (c', w')) \<and> same_core c c'"
proof -
  obtain r c' w' where fl: "flush os (c, w) = (r, (c', w'))" by (metis surj_pair)
  from flush_post_conn [OF ok sk fl] have post: "r \<noteq> Panic" "same_core c c'" by (simp_all add: same_core_out)
  from flush_not_diverge [OF ok fin, of c w] fl have "r \<noteq> Diverge" by simp
  with fl post show ?thesis by (cases r) (auto simp: discard_result_def)
qed

text \<open>The first three steps of closing leave the connection in its slot, with its socket.\<close>

lemma close_steps:
  fixes H :: "('w, 'k) handler"
  assumes env: "env_ok dbg os wire H" and fin: "eintr_bounded os \<mu>" and dereg: "deregister_works os"
    and c: "slab_get (l_connections st) key = Some c" "c_socket c = Some sk"
  shows "\<exists>st3 c3. close_connection os H key graceful st = retire_conn os key st3
    \<and> slab_get (l_connections st3) key = Some c3 \<and> same_core c c3 \<and> same_but_slot key st st3"
proof -
  have "\<exists>c1 w1. (if graceful then discard_result (flush os) else drop_out_buffer) (c, l_world st) = (Ok (), (c1, w1))
      \<and> same_core c c1"
    using flush_returns [OF env_okD(1) [OF env] c(2) fin]
    by (cases graceful) (simp_all add: drop_out_buffer_def same_core_def)
  then obtain c1 w1 where f: "(if graceful then discard_result (flush os) else drop_out_buffer) (c, l_world st) = (Ok (), (c1, w1))"
    and core1: "same_core c c1" by blast
  from on_conn_slot [where m = "if graceful then discard_result (flush os) else drop_out_buffer", OF c(1) f] obtain st1 where
    1: "on_conn key (if graceful then discard_result (flush os) else drop_out_buffer) st = (Ok (), st1)"
      "slab_get (l_connections st1) key = Some c1" "same_but_slot key st st1" by blast
  from callback_slot [OF 1(2) env_okD(7) [OF env]] obtain a st2 c2 where
    2: "callback key (on_close H) st1 = (Ok a, st2)" "slab_get (l_connections st2) key = Some c2"
      "same_identity c1 c2" "same_but_slot key st1 st2" by blast
  from core1 same_core_identity [OF 2(3)] have core2: "same_core c c2" by (simp add: same_core_def)
  with c(2) have sk2: "c_socket c2 = Some sk" by (simp add: same_core_def)
  from dereg obtain w3 where "poller_deregister (socket_deregister os) (l_world st2) sk = (Inr (), w3)"
    unfolding deregister_works_def poller_deregister_def socket_deregister_def by (cases sk) fastforce+
  with 2(2) sk2 have 3: "deregister_conn os key st2 = (Ok (), st2\<lparr>l_world := w3\<rparr>)"
    by (simp add: deregister_conn_def on_world_def)
  have "close_connection os H key graceful st = retire_conn os key (st2\<lparr>l_world := w3\<rparr>)"
    using c(1) 1(1) 2(1) 3 by (simp add: close_connection_def bind_io_Ok)
  moreover have "same_but_slot key st (st2\<lparr>l_world := w3\<rparr>)"
    using same_but_slot_trans [OF 1(3) 2(4)] by (simp add: same_but_slot_def)
  ultimately show ?thesis using 2(2) core2 by fastforce
qed

lemma close_open:
  fixes H :: "('w, 'k) handler"
  assumes env: "env_ok dbg os wire H" and inv: "loop_inv st"
    and fin: "eintr_bounded os \<mu>" and dereg: "deregister_works os"
    and c: "slab_get (l_connections st) key = Some c"
  shows "\<exists>st' sk p. close_connection os H key graceful st = (Ok (), st') \<and> slab_get (l_connections st') key = None
    \<and> (\<forall>k. k \<noteq> key \<longrightarrow> slab_get (l_connections st') k = slab_get (l_connections st) k)
    \<and> h_conn_count (l_handle st') = h_conn_count (l_handle st) - 1
    \<and> c_socket c = Some sk \<and> (\<exists>w. l_world st' = drop_stream os w sk)
    \<and> l_pool st' = p # l_pool st \<and> c_gfd p = c_gfd c \<and> c_socket p = None \<and> l_listeners st' = l_listeners st"
proof -
  from inv c have "conn_ok (l_id st) (h_idx (l_handle st)) key c" by (simp add: loop_inv_def)
  then obtain sk where sk: "c_socket c = Some sk" by (auto simp: conn_ok_def)
  from close_steps [OF env fin dereg c sk, of graceful] obtain st3 c3 where
    close: "close_connection os H key graceful st = retire_conn os key st3"
    and c3: "slab_get (l_connections st3) key = Some c3" "same_core c c3" and same: "same_but_slot key st st3"
    by blast
  from slots.remove_occupied [OF c3(1)] obtain conns' where rm: "slab_remove key (l_connections st3) = Some (c3, conns')"
    and get: "\<And>k. slab_get conns' k = (if k = key then None else slab_get (l_connections st3) k)" by auto
  from c3(2) sk have "c_socket c3 = Some sk" "c_gfd c3 = c_gfd c" by (simp_all add: same_core_def)
  with close rm get same sk show ?thesis
    by (auto simp: retire_conn_def same_but_slot_def handle_ext_def)
qed

text \<open>
  C16: closing a connection closes that connection and no other. With a registry that can
  deregister and finitely many interruptions, \<open>close_connection\<close> of an open connection succeeds,
  gracefully or not: its slot is vacant, every other slot holds exactly what it held, \<open>conn_count\<close>
  is one less, the stream's destructor has run last, and the object, without its socket, is on the
  top of the pool. On a vacant key it does nothing.
\<close>

theorem close_connection_correct:
  assumes env: "env_ok dbg os wire H" and inv: "loop_inv st"
    and fin: "eintr_bounded os \<mu>" and dereg: "deregister_works os"
  shows "\<exists>st'. close_connection os H key graceful st = (Ok (), st')
    \<and> (case slab_get (l_connections st) key of
         None \<Rightarrow> st' = st
       | Some c \<Rightarrow> slab_get (l_connections st') key = None
           \<and> (\<forall>k. k \<noteq> key \<longrightarrow> slab_get (l_connections st') k = slab_get (l_connections st) k)
           \<and> h_conn_count (l_handle st') = h_conn_count (l_handle st) - 1
           \<and> (\<exists>sk w. c_socket c = Some sk \<and> l_world st' = drop_stream os w sk)
           \<and> (\<exists>p. l_pool st' = p # l_pool st \<and> c_gfd p = c_gfd c \<and> c_socket p = None))"
proof (cases "slab_get (l_connections st) key")
  case None
  then show ?thesis by (simp add: close_connection_def)
next
  case (Some c)
  from close_open [OF env inv fin dereg Some, of graceful] Some show ?thesis by auto
qed

lemma steady_env_ok: "handler_ok H \<Longrightarrow> env_ok dbg steady_os sim_sent H"
  by (simp add: env_ok_def steady_contracts)

lemma steady_deregister: "deregister_works steady_os"
  by (simp add: deregister_works_def steady_os_def sim_set_interest_def)

lemma steady_eintr: "eintr_bounded steady_os (\<lambda>w. length (sim_writes w))"
  using sim_eintr_bounded by (simp add: eintr_bounded_def)

text \<open>A loop with one open connection, on stream 3 in slot 0, descriptor \<open>sample_gfd\<close> of loop 0.\<close>

definition busy_loop :: "sim \<Rightarrow> unit conn \<Rightarrow> (sim, unit) eloop" where
  "busy_loop w c =
     \<lparr>l_id = 0, l_listeners = None, l_options = sample_options, l_connections = [Some c], l_scratch = (0, 64),
      l_handle = handle_new 0 7 1, l_pool = [], l_mono = 2, l_world = w\<rparr>"

lemma busy_loop_inv: "same_core sample_conn c \<Longrightarrow> loop_inv (busy_loop w c)"
  by (simp add: busy_loop_def loop_inv_def conn_ok_def same_core_def sample_conn_def conn_new_def sample_gfd_def
      handle_new_def slab_keys_def slab_get_def slab_index_def event_loop_index_def split: if_splits)

lemma close_connection_correct_witness:
  "\<exists>st'. close_connection steady_os default_handler 0 True (busy_loop sim0 sample_conn) = (Ok (), st')
    \<and> slab_get (l_connections st') 0 = None \<and> h_conn_count (l_handle st') = 0
    \<and> (\<exists>p. l_pool st' = [p] \<and> c_gfd p = sample_gfd \<and> c_socket p = None)"
  using close_connection_correct [OF steady_env_ok [OF default_handler_ok] busy_loop_inv [where w = sim0, OF same_core_refl] steady_eintr
      steady_deregister, where graceful = True and key = 0]
  by (auto simp: busy_loop_def slab_get_def handle_new_def)

subsection \<open>Registering\<close>

text \<open>
  C17: a registration opens a clean connection in a vacant slot. When \<open>register\<close> succeeds, the registry has
  taken the socket under the number of a vacant slot, and \<open>on_open\<close> was called on a connection that has the
  new socket, the new addresses, a descriptor naming the loop and the slot, no unread byte, nothing
  queued and no codec, whether it was built or taken from the pool (nothing of its former life leaks).
  If \<open>on_open\<close> answered \<open>None\<close>, exactly that slot now holds what it made of the connection and \<open>conn_count\<close> is one more;
  otherwise it answered \<open>Close\<close>, no slot and no count has changed and the stream has been dropped.
\<close>

theorem register_opens_clean:
  fixes H :: "('w, 'k) handler"
  assumes env: "env_ok dbg os wire H" and inv: "loop_inv st"
    and run: "register_conn os dbg H sk la pa st = (Ok (), st')"
  shows "\<exists>key c a c' w1 w2 h' w3. poller_register (socket_register os) w1 sk (of_nat key) = (Inr (), w2)
    \<and> slab_get (l_connections st) key = None
    \<and> c_socket c = Some sk \<and> c_local_addr c = la \<and> c_peer_addr c = pa
    \<and> slab_index (c_gfd c) = key mod 2 ^ 24 \<and> event_loop_index (c_gfd c) = unat (l_id st)
    \<and> avail c = [] \<and> concat (opt_list (c_out_buffer c)) = [] \<and> c_codec c = None \<and> \<not> c_closed c
    \<and> on_open H c (l_handle st, w2) = (a, c', h', w3)
    \<and> (a = ActNone \<and> l_connections st' = slab_insert key c' (l_connections st)
          \<and> h_conn_count (l_handle st') = h_conn_count (l_handle st) + 1 \<and> l_world st' = w3
       \<or> a = ActClose \<and> l_connections st' = l_connections st
          \<and> h_conn_count (l_handle st') = h_conn_count (l_handle st) \<and> l_world st' = drop_stream os w3 sk)"
proof (rule register_run [OF env inv, of sk la pa])
  fix e w' assume "register_conn os dbg H sk la pa st = (Err e, st\<lparr>l_world := w'\<rparr>)"
  with run show ?thesis by simp
next
  assume "register_conn os dbg H sk la pa st = (Panic, st)"
  with run show ?thesis by simp
next
  fix key g c pool' a c' h' w1 w2 w3 mono' st1
  assume reg: "poller_register (socket_register os) w1 sk (of_nat key) = (Inr (), w2)" and vac: "slab_get (l_connections st) key = None"
    and g: "slab_index g = key mod 2 ^ 24" "event_loop_index g = unat (l_id st)"
    and fresh: "fresh_conn g sk la pa st c pool'" and f: "on_open H c (l_handle st, w2) = (a, c', h', w3)"
    and h: "handle_ext (l_handle st) h'"
    and st1: "st1 = st\<lparr>l_mono := mono', l_pool := pool', l_handle := h', l_world := w3\<rparr>"
    and eq: "register_conn os dbg H sk la pa st =
        (case a of
           ActClose \<Rightarrow> (Ok (), st1\<lparr>l_world := drop_stream os w3 sk\<rparr>)
         | ActNone \<Rightarrow> (Ok (), st1\<lparr>l_connections := slab_insert key c' (l_connections st),
             l_handle := h'\<lparr>h_conn_count := h_conn_count h' + 1\<rparr>\<rparr>)
         | ActShutdown \<Rightarrow> bind_io (shutdown os H)
             (\<lambda>_ s. (Err shutdown_error, s\<lparr>l_world := drop_stream os (l_world s) sk\<rparr>)) st1)"
  from fresh g have c: "c_socket c = Some sk" "c_local_addr c = la" "c_peer_addr c = pa"
    "slab_index (c_gfd c) = key mod 2 ^ 24" "event_loop_index (c_gfd c) = unat (l_id st)"
    "avail c = []" "concat (opt_list (c_out_buffer c)) = []" "c_codec c = None" "\<not> c_closed c"
    by (auto simp: fresh_conn_def conn_new_def conn_reset_def avail_def split: list.splits)
  have "a = ActNone \<and> l_connections st' = slab_insert key c' (l_connections st)
          \<and> h_conn_count (l_handle st') = h_conn_count (l_handle st) + 1 \<and> l_world st' = w3
       \<or> a = ActClose \<and> l_connections st' = l_connections st
          \<and> h_conn_count (l_handle st') = h_conn_count (l_handle st) \<and> l_world st' = drop_stream os w3 sk"
    using run eq st1 h by (cases a) (auto simp: handle_ext_def bind_io_def split: prod.splits outcome.splits)
  with reg vac c f show ?thesis by blast
qed

text \<open>A pooled connection that still holds bytes and queued chunks is clean when it is used again.\<close>

definition used_conn :: "unit conn" where
  "used_conn = sample_conn\<lparr>c_socket := None, c_in_buffer := Some [1, 2], c_io_buffer := Some [3],
     c_out_buffer := Some [[4, 5]], c_codec := Some ()\<rparr>"

definition pooled_loop :: "(sim, unit) eloop" where
  "pooled_loop = sample_loop sim0\<lparr>l_pool := [used_conn]\<rparr>"

lemma register_opens_clean_witness:
  "\<exists>st'. register_conn sim_os False default_handler (Tcp 9) (UnixAddr ''l'') (UnixAddr ''p'') pooled_loop = (Ok (), st')
    \<and> (\<exists>c. l_connections st' = [Some c] \<and> avail c = [] \<and> c_codec c = None \<and> c_socket c = Some (Tcp 9))
    \<and> h_conn_count (l_handle st') = 1"
proof -
  let ?reg = "register_conn sim_os False default_handler (Tcp 9) (UnixAddr ''l'') (UnixAddr ''p'')"
  have inv: "loop_inv pooled_loop"
    using sample_loop_inv [of sim0] by (simp add: pooled_loop_def loop_inv_def used_conn_def sample_loop_def)
  obtain r st' where run: "?reg pooled_loop = (r, st')" by fastforce
  then have r: "r = Ok ()" and conns: "length (l_connections st') = 1"
    by (auto simp: register_conn_def pooled_loop_def sample_loop_def sample_options_def default_options_def sim_os_def
        set_nodelay_def poller_register_def socket_register_def sim_registry_def sim0_def Gfd_new_def socket_fd_def
        default_handler_def slab_insert_def handle_new_def occupied_def Let_def)
  have empty: "l_connections pooled_loop = []" "h_conn_count (l_handle pooled_loop) = 0"
    by (simp_all add: pooled_loop_def sample_loop_def handle_new_def)
  have "\<exists>key c. l_connections st' = slab_insert key c [] \<and> avail c = []
      \<and> c_codec c = None \<and> c_socket c = Some (Tcp 9) \<and> h_conn_count (l_handle st') = 1"
    using register_opens_clean [OF sim_env_ok [OF default_handler_ok] inv run [unfolded r]] empty
    by (auto simp: default_handler_def)
  with conns run r show ?thesis
    by (auto simp: slab_insert_def)
qed

subsection \<open>Writing through a descriptor\<close>

text \<open>
  C10: an asynchronous write reaches the connection it is addressed to, or nobody. If the
  descriptor belongs to another loop, or its slot is vacant or holds a connection with another
  descriptor (the addressee was closed and its slot reused), the command changes nothing. If the
  slot holds the addressee, the data is appended to that connection's outbound stream and to no
  other socket's, or the connection is closed; every other slot is untouched.
\<close>

theorem async_write_addressee:
  fixes H :: "('w, 'k) handler"
  assumes env: "env_ok dbg os wire H" and inv: "loop_inv st"
  shows "(if event_loop_index g = unat (l_id st)
              \<and> (\<exists>c. slab_get (l_connections st) (slab_index g) = Some c \<and> c_gfd c = g)
          then \<exists>c sk c1 st1. slab_get (l_connections st) (slab_index g) = Some c \<and> c_socket c = Some sk
            \<and> same_but_slot (slab_index g) st st1 \<and> slab_get (l_connections st1) (slab_index g) = Some c1
            \<and> (\<forall>sk'. sk' \<noteq> sk \<longrightarrow> wire (l_world st1) sk' = wire (l_world st) sk')
            \<and> (async_write os H g data st = reregister os (slab_index g) st1
                 \<and> wire (l_world st1) sk @ concat (opt_list (c_out_buffer c1))
                     = wire (l_world st) sk @ concat (opt_list (c_out_buffer c)) @ data
               \<or> async_write os H g data st = close_connection os H (slab_index g) False st1
                 \<and> wire (l_world st1) sk = wire (l_world st) sk)
          else async_write os H g data st = (Ok (), st))"
proof (cases "event_loop_index g = unat (l_id st)
              \<and> (\<exists>c. slab_get (l_connections st) (slab_index g) = Some c \<and> c_gfd c = g)")
  case False
  then show ?thesis by (auto simp: async_write_def Let_def split: option.splits)
next
  case True
  then obtain c where c: "slab_get (l_connections st) (slab_index g) = Some c" "c_gfd c = g" by blast
  with inv have "conn_ok (l_id st) (h_idx (l_handle st)) (slab_index g) c" by (simp add: loop_inv_def)
  then obtain sk where sk: "c_socket c = Some sk" by (auto simp: conn_ok_def)
  obtain r c1 w1 where w: "conn_write os data (c, l_world st) = (r, (c1, w1))" by (metis surj_pair)
  have step: "sink_step wire sk data (c, l_world st) r (c1, w1)"
    using slice_sink.write_step [OF env_okD(1) [OF env] sk, of data "l_world st"] w by simp
  from on_conn_slot [where m = "conn_write os data", OF c(1) w] obtain st1 where
    1: "on_conn (slab_index g) (conn_write os data) st = (r, st1)" "slab_get (l_connections st1) (slab_index g) = Some c1"
      "l_world st1 = w1" "same_but_slot (slab_index g) st st1" by blast
  from 1(1) True c have run: "async_write os H g data st =
      (case r of Ok _ \<Rightarrow> reregister os (slab_index g) st1 | Err _ \<Rightarrow> close_connection os H (slab_index g) False st1
        | Panic \<Rightarrow> (Panic, st1) | Diverge \<Rightarrow> (Diverge, st1))"
    by (cases r) (simp_all add: async_write_def)
  have others: "\<forall>sk'. sk' \<noteq> sk \<longrightarrow> wire (l_world st1) sk' = wire (l_world st) sk'"
    using step 1(3) by (simp add: sink_step_def others_unchanged_def)
  have "async_write os H g data st = reregister os (slab_index g) st1
        \<and> wire (l_world st1) sk @ concat (opt_list (c_out_buffer c1))
            = wire (l_world st) sk @ concat (opt_list (c_out_buffer c)) @ data
      \<or> async_write os H g data st = close_connection os H (slab_index g) False st1
        \<and> wire (l_world st1) sk = wire (l_world st) sk"
    using step run 1(3) by (cases r) (auto simp: sink_step_def outstream_def)
  with c(1) sk 1(2,4) others show ?thesis unfolding if_P [OF True] by blast
qed

lemma async_write_addressee_witness:
  "async_write sim_os default_handler (sample_gfd\<lparr>g_seq := 0\<rparr>) [1, 2] (busy_loop sim0 sample_conn)
     = (Ok (), busy_loop sim0 sample_conn)"
  using async_write_addressee [where g = "sample_gfd\<lparr>g_seq := 0\<rparr>" and data = "[1, 2]", OF sim_env_ok [OF default_handler_ok]
      busy_loop_inv [where w = sim0, OF same_core_refl]]
  by (auto simp: busy_loop_def slab_get_def sample_gfd_def split: if_splits)

lemma trigger_urgent:
  assumes "h_connected h" and "length (h_urgent h) < 1024"
  shows "h_urgent (fst (snd (trigger os p cmd (h, w)))) = h_urgent h @ [cmd]"
proof (rule trigger_cases [of p cmd h os w])
  fix h' assume "enqueue p cmd h = (False, h')"
  with assms show ?thesis by (simp add: enqueue_def send_urgent_def send_common_def split: if_splits)
next
  fix h' w' b
  assume "enqueue p cmd h = (True, h')"
    "trigger os p cmd (h, w) = (Ok b, (h'\<lparr>h_waker := (h_waker h')\<lparr>awoken := True\<rparr>\<rparr>, w'))"
  with assms show ?thesis
    by (auto simp: enqueue_def send_urgent_def send_common_def MAX_POLL_EVENT_CAP_def split: if_splits)
qed

lemma conn_close_sends:
  "conn_close os c s = (Ok (), snd (trigger os Low (Close (slab_index (c_gfd c))) s))"
proof -
  obtain h w where s: "s = (h, w)" by fastforce
  obtain b where "fst (trigger os Low (Close (slab_index (c_gfd c))) (h, w)) = Ok b"
    using trigger_outcome [of os Low "Close (slab_index (c_gfd c))" h w] by blast
  then show ?thesis
    by (cases "trigger os Low (Close (slab_index (c_gfd c))) (h, w)") (simp add: s conn_close_def discard_result_def Let_def)
qed

text \<open>
  C39: the other commands are not checked. \<open>Close\<close>, \<open>Read\<close> and \<open>Write\<close> carry a slab key only, so
  when the connection that sent a \<open>Close\<close> is gone and its slot reused before the loop takes the
  command, the new connection, a stranger with another descriptor, is closed.
\<close>

theorem stale_close_kills_stranger:
  fixes H :: "('w, 'k) handler"
  assumes env: "env_ok dbg os wire H" and inv: "loop_inv st"
    and fin: "eintr_bounded os \<mu>" and dereg: "deregister_works os"
    and sent: "conn_close os old (h, w) = (Ok (), (h', w'))" and room: "h_connected h" "length (h_urgent h) < 1024"
    and reused: "slab_get (l_connections st) (slab_index (c_gfd old)) = Some c" "c_gfd c \<noteq> c_gfd old"
  shows "\<exists>cmd st' p. h_urgent h' = h_urgent h @ [cmd] \<and> run_command os dbg H cmd st = (Ok (), st')
    \<and> slab_get (l_connections st') (slab_index (c_gfd old)) = None
    \<and> l_pool st' = p # l_pool st \<and> c_gfd p = c_gfd c"
proof -
  let ?cmd = "Close (slab_index (c_gfd old))"
  have "h_urgent h' = h_urgent h @ [?cmd]"
    using trigger_urgent [OF room, of os Low ?cmd w] sent by (simp add: conn_close_sends)
  moreover from close_open [OF env inv fin dereg reused(1), of True] obtain st' p where
    "run_command os dbg H ?cmd st = (Ok (), st')" "slab_get (l_connections st') (slab_index (c_gfd old)) = None"
    "l_pool st' = p # l_pool st" "c_gfd p = c_gfd c" by auto
  ultimately show ?thesis by blast
qed

lemma stale_close_kills_stranger_witness:
  "\<exists>cmd st' p. h_urgent (fst (snd (conn_close steady_os (sample_conn\<lparr>c_gfd := sample_gfd\<lparr>g_seq := 0\<rparr>\<rparr>) (handle_new 0 7 1, sim0)))) = [cmd]
    \<and> run_command steady_os False default_handler cmd (busy_loop sim0 sample_conn) = (Ok (), st')
    \<and> slab_get (l_connections st') 0 = None \<and> l_pool st' = [p] \<and> c_gfd p = sample_gfd"
proof -
  let ?old = "sample_conn\<lparr>c_gfd := sample_gfd\<lparr>g_seq := 0\<rparr>\<rparr>"
  obtain r h' w' where sent: "conn_close steady_os ?old (handle_new 0 7 1, sim0) = (r, (h', w'))" by (metis surj_pair)
  have "r = Ok ()" using sent by (simp add: conn_close_sends)
  note stale_close_kills_stranger [OF steady_env_ok [OF default_handler_ok] busy_loop_inv [where w = sim0, OF same_core_refl]
      steady_eintr steady_deregister sent [unfolded this], of sample_conn]
  then show ?thesis using sent
    by (auto simp: handle_new_def busy_loop_def slab_get_def sample_gfd_def slab_index_def)
qed

subsection \<open>Shutting down\<close>

lemma close_all_vacates:
  fixes H :: "('w, 'k) handler"
  assumes env: "env_ok dbg os wire H" and fin: "eintr_bounded os \<mu>" and dereg: "deregister_works os"
  shows "loop_inv st \<Longrightarrow> \<exists>st'. close_all os H keys st = (Ok (), st') \<and> loop_inv st' \<and> l_listeners st' = l_listeners st
    \<and> (\<forall>k. slab_get (l_connections st') k = (if k \<in> set keys then None else slab_get (l_connections st) k))"
proof (induction keys arbitrary: st)
  case Nil
  then show ?case by (simp add: ret_def)
next
  case (Cons key keys)
  have "\<exists>st1. close_connection os H key True st = (Ok (), st1) \<and> l_listeners st1 = l_listeners st
      \<and> (\<forall>k. slab_get (l_connections st1) k = (if k = key then None else slab_get (l_connections st) k))"
  proof (cases "slab_get (l_connections st) key")
    case None
    then show ?thesis by (auto simp: close_connection_def)
  next
    case (Some c)
    from close_open [OF env Cons.prems fin dereg Some, of True] show ?thesis by auto
  qed
  then obtain st1 where 1: "close_connection os H key True st = (Ok (), st1)" "l_listeners st1 = l_listeners st"
    "\<forall>k. slab_get (l_connections st1) k = (if k = key then None else slab_get (l_connections st) k)" by blast
  from keepsD(2) [OF keeps_close [OF env] Cons.prems, of key True] 1(1) have "loop_inv st1" by simp
  from Cons.IH [OF this] obtain st2 where "close_all os H keys st1 = (Ok (), st2)" "loop_inv st2"
    "l_listeners st2 = l_listeners st1"
    "\<forall>k. slab_get (l_connections st2) k = (if k \<in> set keys then None else slab_get (l_connections st1) k)" by blast
  with 1 show ?case by (auto simp: bind_io_def discard_result_def)
qed

lemma deregister_all_ok:
  "\<exists>w'. deregister_all os ls st = (Ok (), st\<lparr>l_world := w'\<rparr>)"
proof (induction ls arbitrary: st)
  case Nil
  show ?case by (auto simp: ret_def intro: exI [of _ "l_world st"])
next
  case (Cons l ls)
  obtain r w1 where "poller_deregister (listener_deregister os) (l_world st) l = (r, w1)" by fastforce
  then have "discard_result (on_world (\<lambda>w. poller_deregister (listener_deregister os) w l)) st = (Ok (), st\<lparr>l_world := w1\<rparr>)"
    by (cases r) (simp_all add: discard_result_def on_world_def)
  with Cons.IH [of "st\<lparr>l_world := w1\<rparr>"] show ?case by (auto simp: bind_io_Ok)
qed

lemma shutdown_vacates:
  fixes H :: "('w, 'k) handler"
  assumes env: "env_ok dbg os wire H" and fin: "eintr_bounded os \<mu>" and dereg: "deregister_works os"
    and inv: "loop_inv st"
  shows "\<exists>st'. shutdown os H st = (Ok (), st') \<and> loop_inv st' \<and> l_listeners st' = None
    \<and> slab_keys (l_connections st') = []"
proof -
  have "\<exists>w1. (case l_listeners st of None \<Rightarrow> ret () | Some ls \<Rightarrow> deregister_all os ls) (st\<lparr>l_listeners := None\<rparr>)
      = (Ok (), st\<lparr>l_listeners := None, l_world := w1\<rparr>)"
  proof (cases "l_listeners st")
    case None
    then show ?thesis by (auto simp: ret_def intro: exI [of _ "l_world st"])
  next
    case (Some ls)
    with deregister_all_ok [of os ls "st\<lparr>l_listeners := None\<rparr>"] show ?thesis by simp
  qed
  then obtain w1 where 1: "(case l_listeners st of None \<Rightarrow> ret () | Some ls \<Rightarrow> deregister_all os ls) (st\<lparr>l_listeners := None\<rparr>)
      = (Ok (), st\<lparr>l_listeners := None, l_world := w1\<rparr>)" by blast
  have "loop_inv (st\<lparr>l_listeners := None, l_world := w1\<rparr>)" using inv by (simp add: loop_inv_def)
  from close_all_vacates [OF env fin dereg this, of "slab_keys (l_connections st)"] obtain st' where
    "close_all os H (slab_keys (l_connections st)) (st\<lparr>l_listeners := None, l_world := w1\<rparr>) = (Ok (), st')" "loop_inv st'"
    "l_listeners st' = None"
    "\<forall>k. slab_get (l_connections st') k = (if k \<in> set (slab_keys (l_connections st)) then None else slab_get (l_connections st) k)"
    by auto
  moreover from this(4) have "dom (slab_get (l_connections st')) = {}"
    by (auto simp: set_slab_keys)
  then have "slab_keys (l_connections st') = []" by (simp flip: set_slab_keys)
  ultimately show ?thesis using 1 by (simp add: shutdown_def bind_io_Ok)
qed

lemma process_command_first:
  assumes "next_command (l_handle st) = (Some cmd, h')"
  shows "process_command os dbg H st
    = bind_io (run_command os dbg H cmd) (\<lambda>_. process_commands os dbg H 255) (st\<lparr>l_handle := h'\<rparr>)"
proof -
  have max: "MAX_ASYNC_TASK_ONE_TIME = Suc 255" by (simp add: MAX_ASYNC_TASK_ONE_TIME_def)
  show ?thesis unfolding process_command_def max process_commands.simps assms by simp
qed

text \<open>
  C20: a shutdown ends the loop and leaves nothing open. In a loop without a ticker, when \<open>Shutdown\<close> is the
  first of the urgent commands, the next poll succeeds (other threads may add commands meanwhile), the
  kernel does not answer \<open>Interrupted\<close> forever and grants deregistrations, \<open>run\<close> returns \<open>Ok\<close> after that
  turn; every connection has been closed, \<open>conn_count\<close> is 0 and the listeners are gone.
\<close>

theorem run_shutdown:
  fixes H :: "('w, 'k) handler"
  assumes env: "env_ok dbg os wire H" and rx: "reactor_ok rx" and inv: "loop_inv st"
    and fin: "eintr_bounded os \<mu>" and dereg: "deregister_works os"
    and cmd: "h_urgent (l_handle st) = Shutdown # rest" and off: "\<not> ticker (l_options st)"
    and poll: "poll_wait rx (Some 0) (l_handle st, l_world st) = (Inr evs, h1, w1)"
  shows "\<exists>st'. run rx os dbg H st = (Ok (), st') \<and> slab_keys (l_connections st') = []
    \<and> h_conn_count (l_handle st') = 0 \<and> l_listeners st' = None"
proof -
  from rx poll have ext: "handle_ext (l_handle st) h1" unfolding reactor_ok_def by blast
  then obtain us where us: "h_urgent h1 = Shutdown # rest @ us" using cmd by (auto simp: handle_ext_def)
  let ?st1 = "st\<lparr>l_handle := h1, l_world := w1, l_handle := h1\<lparr>h_urgent := rest @ us\<rparr>\<rparr>"
  have "loop_inv ?st1" using inv ext by (simp add: loop_inv_def handle_ext_def)
  from shutdown_vacates [OF env fin dereg this] obtain st' where
    sd: "shutdown os H ?st1 = (Ok (), st')" "loop_inv st'" "l_listeners st' = None" "slab_keys (l_connections st') = []"
    by blast
  have "next_command h1 = (Some Shutdown, h1\<lparr>h_urgent := rest @ us\<rparr>)" by (simp add: next_command.simps us)
  then have "process_command os dbg H (st\<lparr>l_handle := h1, l_world := w1\<rparr>) = (Err shutdown_error, st')"
    using sd(1) process_command_first [of "st\<lparr>l_handle := h1, l_world := w1\<rparr>"]
    by (simp add: shutdown_and_stop_def bind_io_def raise_def)
  then have "loop_turn rx os dbg H None st = (Err shutdown_error, st')"
    using cmd poll by (simp add: loop_turn_def has_pending_def poll_timeout_def wait_events_def bind_io_def ret_def)
  then have "turns rx os dbg H None st = Some (Err shutdown_error, st')"
    by (subst turns.simps) simp
  with off have "run rx os dbg H st = (Ok (), st')"
    by (simp add: run_def run_loop_def first_tick_def run_turns_def bind_io_def shutdown_error_def)
  with sd show ?thesis by (simp add: loop_inv_def)
qed

lemma run_shutdown_witness:
  "\<exists>st'. run sim_reactor steady_os False default_handler
      (busy_loop sim0 sample_conn\<lparr>l_handle := (handle_new 0 7 1)\<lparr>h_urgent := [Shutdown]\<rparr>\<rparr>) = (Ok (), st')
    \<and> slab_keys (l_connections st') = [] \<and> h_conn_count (l_handle st') = 0 \<and> l_listeners st' = None"
proof (rule run_shutdown [OF steady_env_ok [OF default_handler_ok] sim_reactor_ok _ steady_eintr steady_deregister])
  show "loop_inv (busy_loop sim0 sample_conn\<lparr>l_handle := (handle_new 0 7 1)\<lparr>h_urgent := [Shutdown]\<rparr>\<rparr>)"
    using busy_loop_inv [where w = sim0, OF same_core_refl] by (simp add: busy_loop_def loop_inv_def handle_new_def)
qed (simp_all add: busy_loop_def sample_options_def default_options_def sim_reactor_def)

subsection \<open>The ticker\<close>

text \<open>A clock that does not go back, and a poll that answers no event only when its timeout is over.\<close>

definition keeps_time :: "'w reactor \<Rightarrow> ('w \<Rightarrow> nat) \<Rightarrow> bool" where
  "keeps_time rx time \<longleftrightarrow>
     (\<forall>w. fst (clock_now rx w) = time w \<and> time w \<le> time (snd (clock_now rx w)))
     \<and> (\<forall>t h w h' w'. poll_wait rx (Some t) (h, w) = (Inr [], h', w') \<longrightarrow> time w + t \<le> time w')"

lemma clock_at:
  assumes "keeps_time rx time"
  shows "clock rx st = (Ok (time (l_world st)), st\<lparr>l_world := snd (clock_now rx (l_world st))\<rparr>)"
proof -
  have "fst (clock_now rx (l_world st)) = time (l_world st)" using assms by (simp add: keeps_time_def)
  then show ?thesis by (cases "clock_now rx (l_world st)") (simp add: clock_def)
qed

lemma schedule_at:
  assumes "keeps_time rx time"
  shows "schedule rx delay st =
    (if delay = 0 then (Ok None, st)
     else (if time (l_world st) + delay < INSTANT_END then Ok (Some (time (l_world st) + delay)) else Panic,
           st\<lparr>l_world := snd (clock_now rx (l_world st))\<rparr>))"
  by (simp add: schedule_def ret_def bind_io_def clock_at [OF assms] instant_add_def)

lemma timeout_at:
  assumes "keeps_time rx time"
  shows "poll_timeout rx False (Some tick) st = (Ok (Some (tick - time (l_world st))), st\<lparr>l_world := snd (clock_now rx (l_world st))\<rparr>)"
  by (simp add: poll_timeout_def ret_def bind_io_def clock_at [OF assms])

text \<open>
  C40: ticks come on time. A loop that waits for its next tick, with no command pending, polls for
  exactly the time that is left, so when no event comes the tick is due in the same turn. Events that
  come before leave the tick where it is, without a call of \<open>on_tick\<close>. When the tick is due, \<open>on_tick\<close> is
  called once, after the events; its answer shuts the loop down, or turns the ticker off (a delay of zero),
  or sets the next tick at the time after the call plus the delay; if that is past the last \<open>Instant\<close>, the
  loop panics.
\<close>

theorem ticker_on_time:
  assumes rx: "keeps_time rx time" and quiet: "\<not> has_pending st"
    and poll: "poll_wait rx (Some (tick - time (l_world st))) (l_handle st, snd (clock_now rx (l_world st))) = (Inr events, h, w)"
    and served: "dispatch_events os dbg H events (st\<lparr>l_handle := h, l_world := w\<rparr>) = (Ok u, st1)"
    and asks: "on_tick H (l_connections st1) (l_handle st1, snd (clock_now rx (l_world st1))) = ((delay, a), conns, h2, w2)"
  shows "(events = [] \<longrightarrow> tick \<le> time (l_world st1))
    \<and> loop_turn rx os dbg H (Some tick) st =
       (if time (l_world st1) < tick then (Ok (Some tick), st1\<lparr>l_world := snd (clock_now rx (l_world st1))\<rparr>)
        else
          let st2 = st1\<lparr>l_connections := conns, l_handle := h2, l_world := w2\<rparr> in
          if a = ActShutdown then shutdown_and_stop os H st2
          else if delay = 0 then (Ok None, st2)
          else
            (if time w2 + delay < INSTANT_END then Ok (Some (time w2 + delay)) else Panic,
             st2\<lparr>l_world := snd (clock_now rx w2)\<rparr>))"
proof -
  have "tick \<le> time (l_world st1)" if "events = []"
  proof -
    have "time (l_world st) \<le> time (snd (clock_now rx (l_world st)))"
      "time (snd (clock_now rx (l_world st))) + (tick - time (l_world st)) \<le> time w"
      using rx poll that by (auto simp: keeps_time_def)
    with served that show ?thesis by (auto simp: ret_def)
  qed
  moreover have "wait_events rx (Some (tick - time (l_world st))) (st\<lparr>l_world := snd (clock_now rx (l_world st))\<rparr>)
      = (Ok (Inr events), st\<lparr>l_handle := h, l_world := w\<rparr>)"
    using poll by (simp add: wait_events_def)
  then have "loop_turn rx os dbg H (Some tick) st = tick_due rx os H (Some tick) st1"
    using quiet served by (simp add: loop_turn_def timeout_at [OF rx] bind_io_def ret_def)
  moreover have "tick_due rx os H (Some tick) st1 =
      (if time (l_world st1) < tick then (Ok (Some tick), st1\<lparr>l_world := snd (clock_now rx (l_world st1))\<rparr>)
       else (if a = ActShutdown then shutdown_and_stop os H else schedule rx delay) (st1\<lparr>l_connections := conns, l_handle := h2, l_world := w2\<rparr>))"
    using asks by (simp add: tick_due_def clock_at [OF rx] bind_io_def ret_def call_tick_def)
  ultimately show ?thesis by (simp add: schedule_at [OF rx] Let_def)
qed

text \<open>
  A world that is a clock. The tick at 7 is taken after the poll from 2 to 7, and again at 7 + 10; a delay
  of \<open>2 ^ 63\<close> seconds panics.
\<close>

definition clock_reactor :: "nat reactor" where
  "clock_reactor = \<lparr>poller_new = (\<lambda>w. (Inr (), w)), waker_new = (\<lambda>w. (Inr 0, w)), buffer_capacity = (\<lambda>n. n),
     poll_wait = (\<lambda>t (h, w). (Inr [], h, w + (case t of Some d \<Rightarrow> d | None \<Rightarrow> 0))), clock_now = (\<lambda>w. (w, w))\<rparr>"

definition ticking :: "nat \<Rightarrow> (nat, unit) handler" where
  "ticking delay = default_handler\<lparr>on_tick := (\<lambda>conns (h, w). ((delay, ActNone), conns, h, w))\<rparr>"

definition idle_loop :: "nat \<Rightarrow> (nat, unit) eloop" where
  "idle_loop w = \<lparr>l_id = 0, l_listeners = None, l_options = sample_options, l_connections = [], l_scratch = (0, 0),
     l_handle = handle_new 0 0 0, l_pool = [], l_mono = 0, l_world = w\<rparr>"

lemma ticker_on_time_witness:
  "(\<forall>os dbg. loop_turn clock_reactor os dbg (ticking 10) (Some 7) (idle_loop 2) = (Ok (Some 17), idle_loop 7))
    \<and> (\<forall>os dbg. loop_turn clock_reactor os dbg (ticking INSTANT_END) (Some 7) (idle_loop 2) = (Panic, idle_loop 7))"
proof -
  have rx: "keeps_time clock_reactor (\<lambda>w. w)" by (simp add: keeps_time_def clock_reactor_def)
  have quiet: "\<not> has_pending (idle_loop 2)" by (simp add: has_pending_def idle_loop_def handle_new_def)
  have "loop_turn clock_reactor os dbg (ticking delay) (Some 7) (idle_loop 2)
      = (if delay = 0 then Ok None else if 7 + delay < INSTANT_END then Ok (Some (7 + delay)) else Panic, idle_loop 7)" for os dbg delay
    using ticker_on_time [OF rx quiet, of 7 "[]" "handle_new 0 0 0" 7 os dbg "ticking delay" "()" "idle_loop 7"
        delay ActNone "[]" "handle_new 0 0 0" 7]
    by (simp add: clock_reactor_def idle_loop_def ticking_def ret_def Let_def)
  then show ?thesis by (simp add: INSTANT_END_def)
qed

end
