(* ===== verification/Inbound.thy ===== *)
theory Inbound
  imports Connection
begin

text \<open>
  Correctness of the inbound half of \<open>src/connection.rs\<close>: the contract of a readable byte stream
  as a locale, what a client of the contract may conclude, and the proof that the connection's
  operations meet it. The two receive buffers are one stream, \<open>avail\<close>.
\<close>

subsection \<open>Traces of inbound operations\<close>

text \<open>
  What an application does with the stream in any order, and what it sees: bytes handed over, a
  number of bytes skipped, bytes looked at, or a refusal.
\<close>

datatype in_op =
    InNext "nat option"
  | InVectored "nat option"
  | InPeek "nat option"
  | InDiscard "nat option"
  | InRead nat

datatype in_event = Got bytes | Skipped nat | Looked bytes | Refused

definition observe :: "('a \<Rightarrow> in_event) \<Rightarrow> ('a option, 's) prog \<Rightarrow> (in_event, 's) prog" where
  "observe ev m = bind_io m (\<lambda>x. ret (case x of None \<Rightarrow> Refused | Some a \<Rightarrow> ev a))"

fun in_step :: "in_op \<Rightarrow> (in_event, 'k conn) prog" where
  "in_step (InNext n) = observe Got (next_contiguous n)"
| "in_step (InVectored n) = observe (Got \<circ> concat) (next_vectored n)"
| "in_step (InPeek n) = observe (Looked \<circ> peek_deref) (peek n)"
| "in_step (InDiscard n) = observe Skipped (discard n)"
| "in_step (InRead len) = bind_io (conn_read len) (\<lambda>d. ret (Got d))"

fun in_run :: "in_op list \<Rightarrow> (in_event list, 'k conn) prog" where
  "in_run [] = ret []"
| "in_run (x # xs) = bind_io (in_step x) (\<lambda>e. bind_io (in_run xs) (\<lambda>es. ret (e # es)))"

text \<open>The stream left after an event, if the event is consistent with the stream.\<close>

fun after_event :: "in_event \<Rightarrow> bytes \<Rightarrow> bytes option" where
  "after_event (Got d) s = (if take (length d) s = d then Some (drop (length d) s) else None)"
| "after_event (Skipped k) s = (if k \<le> length s then Some (drop k s) else None)"
| "after_event (Looked d) s = (if take (length d) s = d then Some s else None)"
| "after_event Refused s = Some s"

fun after_events :: "in_event list \<Rightarrow> bytes \<Rightarrow> bytes option" where
  "after_events [] s = Some s"
| "after_events (e # es) s = Option.bind (after_event e s) (after_events es)"

subsection \<open>The contract\<close>

definition refused :: "bool \<Rightarrow> bytes \<Rightarrow> nat option \<Rightarrow> bool" where
  "refused ready s n \<longleftrightarrow> \<not> ready \<or> (\<exists>m. n = Some m \<and> length s < m)"

definition wanted :: "bytes \<Rightarrow> nat option \<Rightarrow> nat" where
  "wanted s n = (case n of Some m \<Rightarrow> m | None \<Rightarrow> length s)"

locale readable_stream =
  fixes stream_of :: "'s \<Rightarrow> bytes"
    and ready :: "'s \<Rightarrow> bool"
    and view :: "'v \<Rightarrow> bytes"
    and look :: "nat option \<Rightarrow> ('v option, 's) prog"
    and fetch :: "nat option \<Rightarrow> (bytes option, 's) prog"
    and skip :: "nat option \<Rightarrow> (nat option, 's) prog"
  assumes ready_data: "stream_of s \<noteq> [] \<Longrightarrow> ready s"
    and look_refused: "refused (ready s) (stream_of s) n \<Longrightarrow> look n s = (Ok None, s)"
    and look_data: "\<not> refused (ready s) (stream_of s) n \<Longrightarrow>
      \<exists>v. look n s = (Ok (Some v), s) \<and> view v = take (wanted (stream_of s) n) (stream_of s)"
    and fetch_refused: "refused (ready s) (stream_of s) n \<Longrightarrow> fetch n s = (Ok None, s)"
    and fetch_data: "\<not> refused (ready s) (stream_of s) n \<Longrightarrow>
      \<exists>s'. fetch n s = (Ok (Some (take (wanted (stream_of s) n) (stream_of s))), s')
         \<and> stream_of s' = drop (wanted (stream_of s) n) (stream_of s)"
    and skip_refused: "refused (ready s) (stream_of s) n \<Longrightarrow> skip n s = (Ok None, s)"
    and skip_data: "\<not> refused (ready s) (stream_of s) n \<Longrightarrow>
      \<exists>s'. skip n s = (Ok (Some (wanted (stream_of s) n)), s')
         \<and> stream_of s' = drop (wanted (stream_of s) n) (stream_of s)"
begin

text \<open>Looking and then fetching (or skipping) the same amount sees the same bytes.\<close>

lemma look_then_fetch:
  "\<exists>v d s'. look n s = (Ok v, s) \<and> fetch n s = (Ok d, s') \<and> d = map_option view v
     \<and> stream_of s = opt_list d @ stream_of s'"
proof (cases "refused (ready s) (stream_of s) n")
  case True
  then show ?thesis by (simp add: look_refused fetch_refused)
next
  case False
  from look_data [OF False] fetch_data [OF False] show ?thesis by auto
qed

lemma skip_like_fetch:
  "\<exists>d k s1 s2. fetch n s = (Ok d, s1) \<and> skip n s = (Ok k, s2) \<and> k = map_option length d
     \<and> stream_of s1 = stream_of s2"
proof (cases "refused (ready s) (stream_of s) n")
  case True
  then show ?thesis by (simp add: skip_refused fetch_refused)
next
  case False
  then have "wanted (stream_of s) n \<le> length (stream_of s)"
    by (auto simp: refused_def wanted_def split: option.splits)
  with skip_data [OF False] fetch_data [OF False] show ?thesis by (auto simp: min_def)
qed

text \<open>Two fetches in a row get what one fetch of the total gets.\<close>

lemma fetch_fetch:
  assumes "a + b \<le> length (stream_of s)" and "0 < b"
  shows "\<exists>d1 s1 d2 s2 s3. fetch (Some a) s = (Ok (Some d1), s1) \<and> fetch (Some b) s1 = (Ok (Some d2), s2)
     \<and> fetch (Some (a + b)) s = (Ok (Some (d1 @ d2)), s3) \<and> stream_of s2 = stream_of s3"
proof -
  have ready: "ready s" using assms by (intro ready_data) auto
  obtain s1 where s1: "fetch (Some a) s = (Ok (Some (take a (stream_of s))), s1)"
    "stream_of s1 = drop a (stream_of s)"
    using fetch_data [of s "Some a"] assms ready by (auto simp: refused_def wanted_def)
  have "stream_of s1 \<noteq> []" using s1(2) assms by simp
  then have "\<not> refused (ready s1) (stream_of s1) (Some b)"
    using assms s1(2) ready_data by (auto simp: refused_def)
  from fetch_data [OF this] obtain s2 where s2: "fetch (Some b) s1 = (Ok (Some (take b (stream_of s1))), s2)"
    "stream_of s2 = drop b (stream_of s1)"
    by (auto simp: wanted_def)
  obtain s3 where s3: "fetch (Some (a + b)) s = (Ok (Some (take (a + b) (stream_of s))), s3)"
    "stream_of s3 = drop (a + b) (stream_of s)"
    using fetch_data [of s "Some (a + b)"] assms ready by (auto simp: refused_def wanted_def)
  show ?thesis using s1 s2 s3 by (auto simp: take_add add.commute)
qed

end

subsection \<open>The connection's operations meet the contract\<close>

lemma buf_lens [simp]:
  "in_buf_len c = length (opt_list (c_in_buffer c))" "io_buf_len c = length (opt_list (c_io_buffer c))"
  by (simp_all add: in_buf_len_def io_buf_len_def opt_list_def split: option.splits)

lemma length_avail: "length (avail c) = in_buf_len c + io_buf_len c"
  by (simp add: avail_def)

lemma requested_iff:
  "requested n k = (if (\<exists>m. n = Some m \<and> k < m) then None else Some (case n of Some m \<Rightarrow> m | None \<Rightarrow> k))"
  by (auto simp: requested_def split: option.splits)

lemma same_but_inbound_refl [simp]: "same_but_inbound c c"
  by (simp add: same_but_inbound_def)

lemma same_but_inbound_update [simp]:
  "same_but_inbound c (c\<lparr>c_in_buffer := a\<rparr>)" "same_but_inbound c (c\<lparr>c_io_buffer := b\<rparr>)"
  "same_but_inbound c (c\<lparr>c_in_buffer := a, c_io_buffer := b\<rparr>)"
  by (simp_all add: same_but_inbound_def)

lemmas inbound_defs = refused_def wanted_def avail_def readable_def requested_iff split_to_def advance_def Let_def

lemma next_contiguous_refused:
  "refused (readable c) (avail c) n \<Longrightarrow> next_contiguous n c = (Ok None, c)"
  by (auto simp: next_contiguous_def inbound_defs split: option.splits)

lemma next_contiguous_data:
  assumes "\<not> refused (readable c) (avail c) n"
  shows "\<exists>c'. next_contiguous n c = (Ok (Some (take (wanted (avail c) n) (avail c))), c')
    \<and> avail c' = drop (wanted (avail c) n) (avail c) \<and> same_but_inbound c c'"
  using assms
  by (cases "c_in_buffer c"; cases "c_io_buffer c"; cases n)
     (auto simp: next_contiguous_def inbound_defs)

lemma peek_refused: "refused (readable c) (avail c) n \<Longrightarrow> peek n c = (Ok None, c)"
  by (auto simp: peek_def inbound_defs split: option.splits)

lemma peek_data:
  assumes "\<not> refused (readable c) (avail c) n"
  shows "\<exists>v. peek n c = (Ok (Some v), c) \<and> peek_deref v = take (wanted (avail c) n) (avail c)"
  using assms
  by (cases "c_in_buffer c"; cases "c_io_buffer c"; cases n) (auto simp: peek_def inbound_defs)

lemma discard_refused: "refused (readable c) (avail c) n \<Longrightarrow> discard n c = (Ok None, c)"
  by (auto simp: discard_def inbound_defs split: option.splits)

lemma discard_data:
  assumes "\<not> refused (readable c) (avail c) n"
  shows "\<exists>c'. discard n c = (Ok (Some (wanted (avail c) n)), c')
    \<and> avail c' = drop (wanted (avail c) n) (avail c) \<and> same_but_inbound c c'"
  using assms
  by (cases "c_in_buffer c"; cases "c_io_buffer c"; cases n) (auto simp: discard_def inbound_defs)

interpretation inbound: readable_stream avail readable peek_deref peek next_contiguous discard
proof
  fix c :: "'k conn" and n
  show "avail c \<noteq> [] \<Longrightarrow> readable c"
    by (auto simp: avail_def readable_def)
  show "refused (readable c) (avail c) n \<Longrightarrow> peek n c = (Ok None, c)" by (rule peek_refused)
  show "\<not> refused (readable c) (avail c) n \<Longrightarrow>
      \<exists>v. peek n c = (Ok (Some v), c) \<and> peek_deref v = take (wanted (avail c) n) (avail c)"
    by (rule peek_data)
  show "refused (readable c) (avail c) n \<Longrightarrow> next_contiguous n c = (Ok None, c)"
    by (rule next_contiguous_refused)
  show "\<not> refused (readable c) (avail c) n \<Longrightarrow>
      \<exists>s'. next_contiguous n c = (Ok (Some (take (wanted (avail c) n) (avail c))), s')
        \<and> avail s' = drop (wanted (avail c) n) (avail c)"
    using next_contiguous_data by blast
  show "refused (readable c) (avail c) n \<Longrightarrow> discard n c = (Ok None, c)" by (rule discard_refused)
  show "\<not> refused (readable c) (avail c) n \<Longrightarrow>
      \<exists>s'. discard n c = (Ok (Some (wanted (avail c) n)), s')
        \<and> avail s' = drop (wanted (avail c) n) (avail c)"
    using discard_data by blast
qed

text \<open>\<open>next_vectored\<close> refuses zero bytes and never needs a buffer to exist.\<close>

lemma next_vectored_spec:
  "(case n of Some m \<Rightarrow> m = 0 \<or> length (avail c) < m | None \<Rightarrow> False) \<and> next_vectored n c = (Ok None, c)
   \<or> \<not> (case n of Some m \<Rightarrow> m = 0 \<or> length (avail c) < m | None \<Rightarrow> False) \<and>
     (\<exists>ps c'. next_vectored n c = (Ok (Some ps), c') \<and> concat ps = take (wanted (avail c) n) (avail c)
        \<and> avail c' = drop (wanted (avail c) n) (avail c) \<and> same_but_inbound c c'
        \<and> length ps \<le> 2 \<and> [] \<notin> set ps)"
  by (cases "c_in_buffer c"; cases "c_io_buffer c"; cases n)
     (auto simp: next_vectored_def inbound_defs min_def not_less)

lemma conn_read_spec:
  "\<exists>c'. conn_read len c = (Ok (take len (avail c)), c') \<and> avail c' = drop len (avail c) \<and> same_but_inbound c c'"
  by (cases "c_in_buffer c"; cases "c_io_buffer c")
     (auto simp: conn_read_def avail_def Let_def min_def not_le)

lemma same_but_inbound_trans:
  "same_but_inbound c c' \<Longrightarrow> same_but_inbound c' c'' \<Longrightarrow> same_but_inbound c c''"
  by (cases c; cases c'; cases c'') (simp add: same_but_inbound_def)

lemma observe_Some: "m s = (Ok (Some a), s') \<Longrightarrow> observe ev m s = (Ok (ev a), s')"
  by (simp add: observe_def bind_io_Ok ret_def)

lemma observe_None: "m s = (Ok None, s') \<Longrightarrow> observe ev m s = (Ok Refused, s')"
  by (simp add: observe_def bind_io_Ok ret_def)

lemma wanted_le: "\<not> refused r s n \<Longrightarrow> wanted s n \<le> length s"
  by (auto simp: refused_def wanted_def split: option.splits)

lemma after_Got_take [simp]: "after_event (Got (take k s)) s = Some (drop k s)"
  by (cases "k \<le> length s") simp_all

lemma after_Looked_take [simp]: "after_event (Looked (take k s)) s = Some s"
  by (cases "k \<le> length s") simp_all

lemma in_step_spec:
  "\<exists>e c'. in_step x c = (Ok e, c') \<and> after_event e (avail c) = Some (avail c') \<and> same_but_inbound c c'"
proof (cases x)
  case (InNext n)
  show ?thesis
  proof (cases "refused (readable c) (avail c) n")
    case True
    from next_contiguous_refused [OF True] InNext show ?thesis by (simp add: observe_None)
  next
    case False
    from next_contiguous_data [OF False] InNext show ?thesis
      by (auto simp: observe_Some simp del: after_event.simps)
  qed
next
  case (InVectored n)
  consider "next_vectored n c = (Ok None, c)"
    | ps c' where "next_vectored n c = (Ok (Some ps), c')" "concat ps = take (wanted (avail c) n) (avail c)"
        "avail c' = drop (wanted (avail c) n) (avail c)" "same_but_inbound c c'"
    using next_vectored_spec [of c n] by blast
  then show ?thesis using InVectored
    by cases (auto simp: observe_None observe_Some simp del: after_event.simps(1))
next
  case (InPeek n)
  show ?thesis
  proof (cases "refused (readable c) (avail c) n")
    case True
    from peek_refused [OF True] InPeek show ?thesis by (simp add: observe_None)
  next
    case False
    from peek_data [OF False] InPeek show ?thesis
      by (auto simp: observe_Some simp del: after_event.simps)
  qed
next
  case (InDiscard n)
  show ?thesis
  proof (cases "refused (readable c) (avail c) n")
    case True
    from discard_refused [OF True] InDiscard show ?thesis by (simp add: observe_None)
  next
    case False
    from discard_data [OF False] wanted_le [OF False] InDiscard show ?thesis
      by (auto simp: observe_Some)
  qed
next
  case (InRead len)
  with conn_read_spec [of len c] show ?thesis
    by (auto simp: bind_io_Ok ret_def simp del: after_event.simps)
qed

subsection \<open>Properties\<close>

text \<open>
  \<open>next_contiguous\<close> implements the abstract stream. It never panics; it refuses, leaving the
  connection as it was, exactly when more than the available bytes are asked for or no buffer
  exists; otherwise it hands over the first bytes asked for (all of them for \<open>None\<close>), across the
  boundary of the two buffers, and leaves the rest of the stream and everything else alone.
\<close>

theorem next_contiguous_correct:
  "(if readable c \<and> wanted (avail c) n \<le> length (avail c)
    then \<exists>c'. next_contiguous n c = (Ok (Some (take (wanted (avail c) n) (avail c))), c')
        \<and> avail c = take (wanted (avail c) n) (avail c) @ avail c' \<and> same_but_inbound c c'
    else next_contiguous n c = (Ok None, c))"
proof (cases "refused (readable c) (avail c) n")
  case True
  from next_contiguous_refused [OF True] True show ?thesis by (auto simp: refused_def wanted_def)
next
  case False
  then have "readable c \<and> wanted (avail c) n \<le> length (avail c)"
    by (auto simp: refused_def wanted_def split: option.split)
  with next_contiguous_data [OF False] show ?thesis by auto
qed

text \<open>
  \<open>next_vectored\<close> hands over the same bytes in at most two non-empty pieces, without copying
  across the buffers; unlike \<open>next_contiguous\<close> it refuses a request for zero bytes.
\<close>

theorem next_vectored_correct:
  "(if n = Some 0 \<or> (\<exists>m. n = Some m \<and> length (avail c) < m) then next_vectored n c = (Ok None, c)
    else \<exists>ps c'. next_vectored n c = (Ok (Some ps), c') \<and> concat ps = take (wanted (avail c) n) (avail c)
        \<and> avail c = concat ps @ avail c' \<and> same_but_inbound c c' \<and> length ps \<le> 2 \<and> [] \<notin> set ps)"
  using next_vectored_spec [of c n] by (cases n) auto

text \<open>
  \<open>peek\<close> is a preview of \<open>next_contiguous\<close>, and \<open>discard\<close> a \<open>next_contiguous\<close> whose bytes are
  dropped: for every request the three agree on whether to refuse, on the bytes and on the stream
  that is left, and \<open>peek\<close> changes nothing.
\<close>

theorem peek_next_discard_agree:
  "\<exists>v d s1 s2. peek n c = (Ok v, c) \<and> next_contiguous n c = (Ok d, s1) \<and> d = map_option peek_deref v
     \<and> discard n c = (Ok (map_option length d), s2) \<and> avail s1 = avail s2 \<and> avail c = opt_list d @ avail s1"
  using inbound.look_then_fetch [of n c] inbound.skip_like_fetch [of n c] by force

text \<open>
  C13: no byte is lost, duplicated or reordered on the way in. Whatever sequence of \<open>next\<close>,
  \<open>next_vectored\<close>, \<open>peek\<close>, \<open>discard\<close> and \<open>read\<close> calls an application makes, with whatever sizes,
  none of them panics, what it gets, skips and looks at are consecutive pieces of the stream, and
  what remains is the rest of the stream.
\<close>

theorem inbound_stream_integrity:
  "\<exists>es c'. in_run ops c = (Ok es, c') \<and> length es = length ops
     \<and> after_events es (avail c) = Some (avail c') \<and> same_but_inbound c c'"
proof (induction ops arbitrary: c)
  case Nil
  then show ?case by (simp add: ret_def)
next
  case (Cons x xs)
  obtain e c1 where s1: "in_step x c = (Ok e, c1)" "after_event e (avail c) = Some (avail c1)"
    "same_but_inbound c c1"
    using in_step_spec [of x c] by blast
  obtain es c2 where s2: "in_run xs c1 = (Ok es, c2)" "length es = length xs"
    "after_events es (avail c1) = Some (avail c2)" "same_but_inbound c1 c2"
    using Cons.IH [of c1] by blast
  from s1 s2 show ?case
    by (auto simp: bind_io_Ok ret_def intro: same_but_inbound_trans)
qed

end
