(* ===== verification/LoopIO.thy ===== *)
theory LoopIO
  imports LoopTheorems Inbound
begin

text \<open>
  What the event loop does with data: reads are delivered in order and drained, writes are batched
  and yield, the registered interest follows the output queue, and the places where the code does
  not do so.
\<close>

subsection \<open>Reading\<close>

text \<open>
  \<open>got w sk\<close> is what the kernel has handed out on \<open>sk\<close>, \<open>seen w sk\<close> what the application has
  consumed from its connection. The kernel's part of the contract: a read extends \<open>got\<close> by what it
  answers. The application's: it consumes from the front, through the methods of theory \<open>Inbound\<close>.
\<close>

definition delivers :: "'w os \<Rightarrow> ('w \<Rightarrow> socket \<Rightarrow> bytes) \<Rightarrow> ('w \<Rightarrow> socket \<Rightarrow> bytes) \<Rightarrow> bool" where
  "delivers os got seen \<longleftrightarrow>
     (\<forall>w sk len r w'. socket_read os w sk len = (r, w') \<longrightarrow>
        seen w' sk = seen w sk \<and> got w' sk = got w sk @ (case r of Inl e \<Rightarrow> [] | Inr data \<Rightarrow> data))"

definition consumes :: "('w, 'k) handler \<Rightarrow> ('w \<Rightarrow> socket \<Rightarrow> bytes) \<Rightarrow> ('w \<Rightarrow> socket \<Rightarrow> bytes) \<Rightarrow> bool" where
  "consumes H got seen \<longleftrightarrow>
     (\<forall>c h w a c' h' w' sk. c_socket c = Some sk \<longrightarrow> on_traffic H c (h, w) = (a, c', h', w') \<longrightarrow>
        got w' sk = got w sk \<and> seen w' sk @ avail c' = seen w sk @ avail c)"

lemma deliversD:
  "delivers os got seen \<Longrightarrow> socket_read os w sk len = (r, w') \<Longrightarrow>
     seen w' sk = seen w sk \<and> got w' sk = got w sk @ (case r of Inl e \<Rightarrow> [] | Inr data \<Rightarrow> data)"
  unfolding delivers_def by blast

lemma consumesD:
  "consumes H got seen \<Longrightarrow> on_traffic H c (h, w) = (a, c', h', w') \<Longrightarrow> c_socket c = Some sk \<Longrightarrow>
     got w' sk = got w sk \<and> seen w' sk @ avail c' = seen w sk @ avail c"
  unfolding consumes_def by blast

text \<open>Between two reads the current buffer is empty, so the next read cannot overwrite data.\<close>

definition settled :: "'k conn \<Rightarrow> bool" where
  "settled c \<longleftrightarrow> opt_list (c_io_buffer c) = []"

lemma merge_io_avail: "avail (merge_io c) = avail c" and merge_io_settled: "settled (merge_io c)"
  by (auto simp: merge_io_def avail_def settled_def split: option.splits)

lemma avail_received: "settled c \<Longrightarrow> avail (c\<lparr>c_io_buffer := Some data\<rparr>) = avail c @ data"
  by (simp add: avail_def settled_def)

text \<open>
  One read and one call of the application. \<open>caught_up\<close>: what it has consumed and what it can still consume
  is what the kernel has handed out.
\<close>

definition caught_up :: "('w \<Rightarrow> socket \<Rightarrow> bytes) \<Rightarrow> ('w \<Rightarrow> socket \<Rightarrow> bytes) \<Rightarrow> socket \<Rightarrow> 'k conn \<Rightarrow> 'w \<Rightarrow> bool" where
  "caught_up got seen sk c w \<longleftrightarrow> c_socket c = Some sk \<and> seen w sk @ avail c = got w sk"

lemma read_nothing_caught_up:
  assumes del: "delivers os got seen" and "c_socket c = Some sk'" and read: "socket_read os w sk' len = (r, w')"
    and "\<forall>data. r = Inr data \<longrightarrow> data = []" and "caught_up got seen sk c w"
  shows "caught_up got seen sk c w' \<and> got w' sk = got w sk"
proof -
  from deliversD [OF del read] assms(4) have "seen w' sk' = seen w sk'" "got w' sk' = got w sk'"
    by (auto split: sum.splits)
  with assms(2,5) show ?thesis by (auto simp: caught_up_def)
qed

lemma read_some_caught_up:
  assumes env: "env_ok dbg os wire H" and del: "delivers os got seen" and con: "consumes H got seen"
    and c: "settled c" "caught_up got seen sk c w" "c_socket c = Some sk'"
    and read: "socket_read os w sk' len = (Inr data, w1)"
    and call: "on_traffic H (c\<lparr>c_io_buffer := Some data\<rparr>) (h, w1) = (a, c', h', w2)"
  shows "caught_up got seen sk c' w2 \<and> caught_up got seen sk (merge_io c') w2 \<and> got w2 sk = got w sk @ data"
proof -
  from c(2,3) have sk: "sk' = sk" by (simp add: caught_up_def)
  from deliversD [OF del read] have r: "seen w1 sk' = seen w sk'" "got w1 sk' = got w sk' @ data" by simp_all
  from consumesD [OF con call, of sk'] c(3)
  have f: "got w2 sk' = got w1 sk'" "seen w2 sk' @ avail c' = seen w1 sk' @ avail (c\<lparr>c_io_buffer := Some data\<rparr>)"
    by simp_all
  from callback_okD [OF env_okD(6) [OF env] call] c(3) have "c_socket c' = Some sk'" by (simp add: same_identity_def)
  moreover have "c_socket (merge_io c') = c_socket c'" using same_core_merge [of c'] by (simp add: same_core_def)
  ultimately show ?thesis using c sk r f by (auto simp: caught_up_def avail_received merge_io_avail)
qed


text \<open>An application that takes the input two bytes at a time and leaves the rest.\<close>

definition pairs_app :: "(sim, unit) handler" where
  "pairs_app = default_handler\<lparr>on_traffic := (\<lambda>c (h, w).
     case (next_contiguous (Some 2) c, c_socket c) of
       ((Ok (Some d), c'), Some sk) \<Rightarrow> (ActNone, c', h, w\<lparr>sim_seen := (sim_seen w)(sk := sim_seen w sk @ d)\<rparr>)
     | _ \<Rightarrow> (ActNone, c, h, w))\<rparr>"

lemma pairs_app_ok: "handler_ok pairs_app"
proof -
  have "same_identity c c'" if "next_contiguous (Some 2) c = (Ok (Some d), c')" for c c' :: "unit conn" and d
    using that
    by (auto simp: next_contiguous_def Let_def requested_def same_identity_def split: option.splits if_splits)
  then have "callback_ok (on_traffic pairs_app)"
    by (auto simp: callback_ok_def pairs_app_def split: option.splits outcome.splits prod.splits)
  moreover have "handler_ok (default_handler :: (sim, unit) handler)" by (rule default_handler_ok)
  ultimately show ?thesis by (simp add: handler_ok_def pairs_app_def)
qed

lemma pairs_app_consumes: "consumes pairs_app sim_got sim_seen"
proof -
  have "d @ avail c' = avail c" if "next_contiguous (Some 2) c = (Ok (Some d), c')" for c c' :: "unit conn" and d
  proof (cases "refused (readable c) (avail c) (Some 2)")
    case True
    with that show ?thesis by (simp add: next_contiguous_refused)
  next
    case False
    from inbound.fetch_data [OF this] that show ?thesis by (auto simp: wanted_def)
  qed
  then show ?thesis
    by (auto simp: consumes_def pairs_app_def default_handler_def split: option.splits outcome.splits prod.splits)
qed

lemma sim_delivers: "delivers sim_os sim_got sim_seen"
  by (auto simp: delivers_def sim_read_def split: list.splits sum.splits)

lemma busy_conn: "slab_get (l_connections (busy_loop w c)) 0 = Some c"
  by (simp add: busy_loop_def slab_get_def)


text \<open>
  An interrupted read ends the connection. \<open>flush\<close> and \<open>process_write\<close> try again when the kernel
  answers \<open>Interrupted\<close>; \<open>process_read\<close> does not: the error falls under \<open>Err(_)\<close> and the loop closes
  the connection, not gracefully, dropping whatever was queued for the peer.
\<close>

theorem interrupted_read_closes:
  fixes H :: "('w, 'k) handler"
  assumes env: "env_ok dbg os wire H" and inv: "loop_inv st"
    and fin: "eintr_bounded os \<mu>" and dereg: "deregister_works os"
    and c: "slab_get (l_connections st) key = Some c" "c_socket c = Some sk"
    and batch: "0 < max_batch_size (l_options st)"
    and eintr: "\<And>len. \<exists>w' m. socket_read os (l_world st) sk len = (Inl (IoError Interrupted m), w')"
  shows "\<exists>st'. read_socket os H key st = (Ok (), st') \<and> slab_get (l_connections st') key = None"
proof -
  have slot: "slot_inv key st" and open_c: "\<not> c_closed c" using inv c(1) by (auto simp: slot_inv_def loop_inv_def conn_ok_def)
  have "reserve_ok os" "fst (l_scratch st) \<le> snd (l_scratch st)"
    using env inv by (simp_all add: env_ok_def loop_inv_def)
  from prepare_scratch_safe [OF this] obtain len capacity where
    prep: "prepare_scratch os (unat (read_buffer_cap (l_options st))) (l_scratch st) = Some (len, capacity)" "len \<le> capacity"
    by blast
  obtain w' m where r: "socket_read os (l_world st) sk len = (Inl (IoError Interrupted m), w')" using eintr by blast
  let ?st1 = "st\<lparr>l_scratch := (len, capacity), l_world := w'\<rparr>"
  from batch have "\<not> unat (max_batch_size (l_options st)) \<le> 0" by (simp add: word_gt_0 unat_eq_0)
  with c open_c prep(1) r have "process_read os H key st = (Ok (IoClosed False), ?st1)"
    by (simp add: process_read_def read_loop.simps)
  moreover have "loop_inv ?st1" using inv prep(2) by (simp add: loop_inv_def)
  from close_open [OF env this fin dereg, of key c False] c(1) obtain st' where
    "close_connection os H key False ?st1 = (Ok (), st')" "slab_get (l_connections st') key = None" by auto
  ultimately show ?thesis by (simp add: read_socket_def bind_io_Ok)
qed

lemma interrupted_read_closes_witness:
  "\<exists>st'. read_socket steady_os default_handler 0
      (busy_loop (sim0\<lparr>sim_reads := [Inl (IoError Interrupted []), Inr [1, 2, 3]]\<rparr>) sample_conn) = (Ok (), st')
    \<and> slab_get (l_connections st') 0 = None"
  by (rule interrupted_read_closes [OF steady_env_ok [OF default_handler_ok] busy_loop_inv [OF same_core_refl] steady_eintr
        steady_deregister busy_conn])
     (auto simp: busy_loop_def sample_options_def sim_read_def)

subsection \<open>Writing\<close>

text \<open>What the kernel accepts of the first write of a batch stays accepted.\<close>

lemma first_write_accepted:
  assumes ok: "transport_ok os wire" and run: "write_loop os max_batch sk written q w = Some (status, q', w')"
    and some: "written < max_batch" "q \<noteq> []" and first: "socket_write_vectored os w sk (take IO_MAX q) = (Inr n, w1)"
  shows "length (wire w sk) + n \<le> length (wire w' sk)"
proof -
  have ct: "write_contract wire w sk (concat (take IO_MAX q)) (Inr n, w1)"
    using transport_write_vectored [OF ok, of w sk "take IO_MAX q"] first by simp
  from contract_Inr [OF ct] have len: "length (wire w1 sk) = length (wire w sk) + n" by simp
  show ?thesis
  proof (cases "n = 0")
    case True
    with write_loop_post [OF run ok] show ?thesis by (simp add: write_post_def)
  next
    case False
    have "write_loop os max_batch sk (written + n) (advance_queue n q) w1 = Some (status, q', w')"
      using run some first False by (subst (asm) write_loop.simps) simp
    from write_loop_post [OF this ok] len show ?thesis by (simp add: write_post_def)
  qed
qed

text \<open>
  C14: a write batch makes progress, preserves the stream and says truly why it stopped.
  \<open>process_write\<close> on an open connection returns; accepted bytes followed by queued bytes are what
  they were. It answers \<open>IoCompleted\<close> only with an empty queue or a kernel that would block on what is left,
  \<open>IoYield\<close> only after \<open>max_batch_size\<close> bytes with more to come, and otherwise asks for a close, not gracefully,
  because a write of what is left took nothing or failed in another way (\<open>failed_write\<close>). What the kernel is ready to take at
  once has been taken: with a queue and a batch size that are not empty, the \<open>n\<close> bytes that it
  accepts of the first vectored write are accepted for the peer.
\<close>

theorem process_write_correct:
  fixes st :: "('w, 'k) eloop"
  assumes ok: "transport_ok os wire" and fin: "eintr_bounded os \<mu>"
    and c: "slab_get (l_connections st) key = Some c" "c_socket c = Some sk"
  shows "\<exists>status st' c'. process_write os key st = (Ok status, st') \<and> slab_get (l_connections st') key = Some c'
    \<and> same_but_out c c' \<and> others_unchanged wire sk (l_world st) (l_world st')
    \<and> wire (l_world st') sk @ concat (opt_list (c_out_buffer c')) = wire (l_world st) sk @ concat (opt_list (c_out_buffer c))
    \<and> (case status of
         IoCompleted \<Rightarrow> opt_list (c_out_buffer c') = []
           \<or> (\<exists>w e. socket_write_vectored os w sk (take IO_MAX (opt_list (c_out_buffer c'))) = (Inl e, l_world st')
                \<and> err_kind e = WouldBlock)
       | IoYield \<Rightarrow> opt_list (c_out_buffer c') \<noteq> []
           \<and> unat (max_batch_size (l_options st)) \<le> length (wire (l_world st') sk) - length (wire (l_world st) sk)
       | IoClosed graceful \<Rightarrow> \<not> graceful \<and> failed_write os sk (opt_list (c_out_buffer c')) (l_world st')
       | IoShutdown \<Rightarrow> False)
    \<and> (\<forall>n w1. opt_list (c_out_buffer c) \<noteq> [] \<longrightarrow> 0 < unat (max_batch_size (l_options st)) \<longrightarrow>
         socket_write_vectored os (l_world st) sk (take IO_MAX (opt_list (c_out_buffer c))) = (Inr n, w1) \<longrightarrow>
         length (wire (l_world st) sk) + n \<le> length (wire (l_world st') sk))"
proof (cases "opt_list (c_out_buffer c) = []")
  case True
  then have "conn_write_batch os (unat (max_batch_size (l_options st))) (c, l_world st) = (Ok IoCompleted, (c, l_world st))"
    by (auto simp: conn_write_batch_def split: option.splits)
  from on_conn_slot [where m = "conn_write_batch os (unat (max_batch_size (l_options st)))", OF c(1) this] c True
  show ?thesis by (auto simp: process_write_def)
next
  case False
  then obtain q where q: "c_out_buffer c = Some q" "q \<noteq> []" by (cases "c_out_buffer c") auto
  from write_loop_returns [OF ok fin] obtain status q' w' where
    wl: "write_loop os (unat (max_batch_size (l_options st))) sk 0 q (l_world st) = Some (status, q', w')" by (metis surj_pair)
  from write_loop_post [OF wl ok] have post: "write_post os wire (unat (max_batch_size (l_options st))) sk 0 q (l_world st) (status, q', w')" .
  have progress: "length (wire (l_world st) sk) + n \<le> length (wire w' sk)"
    if "socket_write_vectored os (l_world st) sk (take IO_MAX q) = (Inr n, w1)" "0 < unat (max_batch_size (l_options st))" for n w1
    by (rule first_write_accepted [OF ok wl that(2) q(2) that(1)])
  have "conn_write_batch os (unat (max_batch_size (l_options st))) (c, l_world st)
      = (Ok status, (c\<lparr>c_out_buffer := Some q'\<rparr>, w'))"
    using q c(2) wl by (simp add: conn_write_batch_def)
  from on_conn_slot [where m = "conn_write_batch os (unat (max_batch_size (l_options st)))", OF c(1) this] obtain st' where
    st': "process_write os key st = (Ok status, st')" "slab_get (l_connections st') key = Some (c\<lparr>c_out_buffer := Some q'\<rparr>)"
      "l_world st' = w'" using c(1) by (auto simp: process_write_def)
  from post q(1) st'(3) have "case status of
         IoCompleted \<Rightarrow> q' = [] \<or> (\<exists>w e. socket_write_vectored os w sk (take IO_MAX q') = (Inl e, l_world st')
                \<and> err_kind e = WouldBlock)
       | IoYield \<Rightarrow> q' \<noteq> [] \<and> unat (max_batch_size (l_options st)) \<le> length (wire (l_world st') sk) - length (wire (l_world st) sk)
       | IoClosed graceful \<Rightarrow> \<not> graceful \<and> failed_write os sk q' (l_world st') | IoShutdown \<Rightarrow> False"
    by (cases status) (auto simp: write_post_def blocked_write_def)
  with post q(1) st' progress show ?thesis
    by (intro exI [of _ status] exI [of _ st'] exI [of _ "c\<lparr>c_out_buffer := Some q'\<rparr>"])
       (cases status; simp add: write_post_def)
qed

lemma process_write_correct_witness:
  "\<exists>status st' c'. process_write sim_os 0
      (busy_loop (sim0\<lparr>sim_writes := [Accept 2, Fail (IoError WouldBlock [])]\<rparr>) (sample_conn\<lparr>c_out_buffer := Some [[1, 2, 3], [4]]\<rparr>)) = (Ok status, st')
    \<and> slab_get (l_connections st') 0 = Some c'
    \<and> sim_sent (l_world st') (Tcp 3) @ concat (opt_list (c_out_buffer c')) = [1, 2, 3, 4]"
proof -
  let ?w = "sim0\<lparr>sim_writes := [Accept 2, Fail (IoError WouldBlock [])]\<rparr>"
  let ?c = "sample_conn\<lparr>c_out_buffer := Some [[1, 2, 3], [4]]\<rparr>"
  have sk: "c_socket ?c = Some (Tcp 3)" by simp
  from process_write_correct [OF sim_transport_ok sim_eintr_bounded busy_conn sk, of ?w] show ?thesis
    by (elim exE conjE) (intro exI conjI; simp add: busy_loop_def sim0_def)
qed

subsection \<open>Interest\<close>

text \<open>\<open>armed w sk\<close> is the interest the kernel has for a socket; a successful \<open>reregister\<close> sets it.\<close>

definition arms :: "'w os \<Rightarrow> ('w \<Rightarrow> socket \<Rightarrow> interest option) \<Rightarrow> bool" where
  "arms os armed \<longleftrightarrow>
     (\<forall>w sk token i w'. socket_reregister os w sk token i = (Inr (), w') \<longrightarrow> armed w' sk = Some i)"

lemma reregister_arms:
  assumes "arms os armed" and run: "reregister os key st = (Ok (), st')"
    and c: "slab_get (l_connections st') key = Some c" "c_socket c = Some sk"
  shows "armed (l_world st') sk = Some (if opt_list (c_out_buffer c) = [] then Readable else ReadableWritable)"
proof -
  from run have same: "l_connections st' = l_connections st"
    by (auto simp: reregister_def Let_def on_world_def split: option.splits if_splits prod.splits sum.splits)
  define i where "i = (if opt_list (c_out_buffer c) = [] then Readable else ReadableWritable)"
  from run c same have "\<exists>w'. socket_reregister os (l_world st) sk (of_nat key) i = (Inr (), w') \<and> l_world st' = w'"
    by (auto simp: reregister_def Let_def on_world_def enable_write_def disable_write_def i_def
        split: option.splits if_splits prod.splits sum.splits)
  with assms(1) show ?thesis unfolding arms_def i_def by blast
qed

text \<open>
  C15: the kernel is told to report writability exactly while output is queued. When an event for a
  connection, or an asynchronous write to it, has been handled and the connection is still open,
  the interest registered for its socket is read and write if its queue is not empty, read only
  if it is.
\<close>

theorem interest_follows_queue:
  fixes H :: "('w, 'k) handler"
  assumes env: "env_ok dbg os wire H" and inv: "loop_inv st" and reg: "arms os armed"
    and run: "m = process_io os H ev \<and> key = unat (ev_token ev)
      \<or> m = async_write os H g data \<and> key = slab_index g \<and> event_loop_index g = unat (l_id st)
          \<and> (\<exists>c. slab_get (l_connections st) key = Some c \<and> c_gfd c = g)"
    and ok: "m st = (Ok (), st')" and c: "slab_get (l_connections st') key = Some c" "c_socket c = Some sk"
  shows "armed (l_world st') sk = Some (if opt_list (c_out_buffer c) = [] then Readable else ReadableWritable)"
proof -
  have closed: False if "close_connection os H key gr st1 = (Ok (), st')" "loop_inv st1" for gr st1
    using tripleD [OF close_triple [OF env, of key gr] that(2,1)] c(1) by simp
  from run have "\<exists>st1. reregister os key st1 = (Ok (), st')"
  proof (elim disjE conjE)
    assume m: "m = process_io os H ev" "key = unat (ev_token ev)"
    show ?thesis
    proof (cases "(ev_error ev \<or> ev_read_closed ev) \<and> \<not> ev_readable ev \<and> \<not> ev_writable ev")
      case True
      with ok m have "close_connection os H key False st = (Ok (), st')" by (simp add: process_io_def Let_def)
      with closed [OF _ inv] show ?thesis by blast
    next
      case False
      with ok m show ?thesis unfolding process_io_def Let_def by (auto elim!: bind_io_OkE)
    qed
  next
    assume m: "m = async_write os H g data" "key = slab_index g" "event_loop_index g = unat (l_id st)"
      and "\<exists>c. slab_get (l_connections st) key = Some c \<and> c_gfd c = g"
    then obtain c0 where c0: "slab_get (l_connections st) key = Some c0" "c_gfd c0 = g" by blast
    obtain r st1 where w: "on_conn key (conn_write os data) st = (r, st1)" by fastforce
    have "fst (on_conn key (conn_write os data) st) \<noteq> Panic \<and> loop_inv (snd (on_conn key (conn_write os data) st))"
      by (rule keeps_on_conn [OF _ inv c0(1)]) (rule conn_write_core [OF env_okD(1) [OF env]])
    with w have "loop_inv st1" by simp
    with ok m c0 w closed [of False st1] show ?thesis
      by (cases r) (auto simp: async_write_def)
  qed
  then show ?thesis using reregister_arms [OF reg _ c] by blast
qed

definition sim_armed :: "sim \<Rightarrow> socket \<Rightarrow> interest option" where
  "sim_armed w sk = map_option snd (sim_interest w (source_of sk))"

lemma steady_arms: "arms steady_os sim_armed"
  by (auto simp: arms_def sim_armed_def socket_reregister_def source_of_def steady_os_def sim_set_interest_def
      split: socket.splits)

lemma steady_reserve [simp]: "reserve_capacity steady_os len additional = len + additional"
  by (simp add: steady_os_def sim_os_def)

lemma steady_socket_write [simp]: "socket_write steady_os w sk buf = sim_write w sk buf"
  by (cases sk) (simp_all add: socket_write_def steady_os_def sim_os_def)

lemma interest_follows_queue_witness:
  "\<exists>st' c. async_write steady_os default_handler sample_gfd [1, 2, 3]
      (busy_loop (sim0\<lparr>sim_writes := [Accept 1]\<rparr>) sample_conn) = (Ok (), st')
    \<and> slab_get (l_connections st') 0 = Some c \<and> c_out_buffer c = Some [[2, 3]]
    \<and> sim_armed (l_world st') (Tcp 3) = Some ReadableWritable"
proof -
  let ?st = "busy_loop (sim0\<lparr>sim_writes := [Accept 1]\<rparr>) sample_conn"
  let ?m = "async_write steady_os default_handler sample_gfd [1, 2, 3]"
  have "fst (?m ?st) = Ok ()
      \<and> slab_get (l_connections (snd (?m ?st))) 0 = Some (sample_conn\<lparr>c_out_buffer := Some [[2, 3]]\<rparr>)"
    by (simp add: async_write_def busy_loop_def event_loop_index_def slab_index_def sample_gfd_def slab_get_def on_conn_def
        conn_write_def out_busy_def sample_conn_def conn_new_def sim_write_def sim_accept_def push_out_def slab_insert_def
        reregister_def on_world_def enable_write_def socket_reregister_def Let_def)
       (simp add: steady_os_def sim_set_interest_def)
  then have "?m ?st = (Ok (), snd (?m ?st))
      \<and> slab_get (l_connections (snd (?m ?st))) 0 = Some (sample_conn\<lparr>c_out_buffer := Some [[2, 3]]\<rparr>)"
    by (metis prod.collapse)
  then obtain st' where run: "?m ?st = (Ok (), st')"
    and c: "slab_get (l_connections st') 0 = Some (sample_conn\<lparr>c_out_buffer := Some [[2, 3]]\<rparr>)" by blast
  have "sim_armed (l_world st') (Tcp 3) = Some (if opt_list (c_out_buffer (sample_conn\<lparr>c_out_buffer := Some [[2, 3]]\<rparr>)) = []
      then Readable else ReadableWritable)"
    by (rule interest_follows_queue [where m = ?m and g = sample_gfd and data = "[1, 2, 3]", OF steady_env_ok [OF default_handler_ok] busy_loop_inv [OF same_core_refl] steady_arms _ run c])
       (simp_all add: slab_index_def event_loop_index_def sample_gfd_def busy_loop_def slab_get_def)
  with run c show ?thesis by auto
qed

text \<open>An application that sends back what it receives.\<close>

definition echo_app :: "sim os \<Rightarrow> (sim, unit) handler" where
  "echo_app os = default_handler\<lparr>on_traffic := (\<lambda>c (h, w).
     case next_contiguous None c of
       (Ok (Some d), c') \<Rightarrow> (case conn_write os d (c', w) of (_, (c2, w2)) \<Rightarrow> (ActNone, c2, h, w2))
     | (_, c') \<Rightarrow> (ActNone, c', h, w))\<rparr>"

text \<open>Two bytes arrive, the kernel takes nothing of the answer.\<close>

definition echo_start :: "(sim, unit) eloop" where
  "echo_start = busy_loop (sim0\<lparr>sim_reads := [Inr [1, 2]], sim_writes := [Fail (IoError WouldBlock [])],
     sim_interest := (\<lambda>_. None)(TcpStreamSource 3 := Some (0, Readable))\<rparr>) sample_conn"

lemmas echo_eval = echo_start_def busy_loop_def slab_get_def read_socket_def process_read_def prepare_scratch_def
  sample_options_def callback_def echo_app_def default_handler_def sim_read_def sim0_def
  next_contiguous_def conn_write_def requested_def split_to_def in_buf_len_def io_buf_len_def
  merge_io_def slab_insert_def bind_io_def ret_def sample_conn_def conn_new_def out_busy_def push_out_def
  sim_write_def retryable_def Let_def

text \<open>
  A reply queued while a \<open>Read\<close> command runs is not armed. The command path calls
  \<open>read_socket\<close> without the \<open>reregister\<close> that ends \<open>process_io\<close>: after it the connection holds two
  bytes the kernel would not take, its registered interest is still read only and no \<open>Write\<close>
  command is pending, so nothing will send them before the peer speaks again.
\<close>

theorem read_command_leaves_reply_unarmed:
  "\<exists>st' c. run_command steady_os False (echo_app steady_os) (Read 0) echo_start = (Ok (), st')
    \<and> slab_get (l_connections st') 0 = Some c \<and> c_socket c = Some (Tcp 3)
    \<and> c_out_buffer c = Some [[1, 2]] \<and> sim_armed (l_world st') (Tcp 3) = Some Readable
    \<and> pending (l_handle st') = []"
  by (simp add: echo_eval read_loop.simps sim_armed_def source_of_def pending_def handle_new_def)

subsection \<open>Accepting\<close>

text \<open>
  Accepting never loses the listeners. They are taken out of the loop while it accepts and are
  back on every way out: no such listener, nothing more to accept, a failed accept, a failed
  registration, a shutdown asked for by \<open>on_open\<close>.
\<close>

theorem accept_keeps_listeners: "l_listeners (snd (accept_process os dbg H idx st)) = l_listeners st"
  by (auto simp: accept_process_def split: option.split prod.split)

end
