(* ===== verification/Balancer.thy ===== *)
theory Balancer
  imports Command Options
begin

text \<open>
  Model of \<open>src/balancer.rs\<close>: which worker a new connection goes to. A balancer sees the handles of
  the workers; the counter of \<open>RoundRobin\<close> is an atomic that wraps.
\<close>

subsection \<open>Balancers\<close>

datatype balancer = RoundRobin usize | LeastConnections

definition RoundRobin_new :: balancer where
  "RoundRobin_new = RoundRobin 0"

text \<open>The two \<open>Default\<close> instances.\<close>

definition round_robin_default :: balancer where
  [simp]: "round_robin_default = RoundRobin_new"

definition least_connections_default :: balancer where
  [simp]: "least_connections_default = LeastConnections"

declare RoundRobin_new_def [simp]

text \<open>\<open>todo!()\<close> panics.\<close>

definition Balancer_new :: "load_balancing \<Rightarrow> balancer outcome" where
  "Balancer_new opt =
     (case opt of
        LbRoundRobin \<Rightarrow> Ok round_robin_default
      | LbLeastConnections \<Rightarrow> Ok least_connections_default
      | LbSourceAddrHash \<Rightarrow> Panic)"

definition round_robin_select :: "usize \<Rightarrow> loop_handle list \<Rightarrow> nat \<times> usize" where
  "round_robin_select counter workers =
     (if workers = [] then (0, counter)
      else (unat counter mod length workers, counter + 1))"

text \<open>\<open>min_by_key\<close> keeps the first of several minima: a fold that replaces the best only by a smaller one.\<close>

fun min_by_count :: "nat \<times> usize \<Rightarrow> nat \<Rightarrow> loop_handle list \<Rightarrow> nat \<times> usize" where
  "min_by_count best idx [] = best"
| "min_by_count best idx (handle # workers) =
     min_by_count (if connection_count handle < snd best then (idx, connection_count handle) else best)
       (Suc idx) workers"

definition least_connections_select :: "loop_handle list \<Rightarrow> nat" where
  "least_connections_select workers =
     (case workers of
        [] \<Rightarrow> 0
      | handle # rest \<Rightarrow> fst (min_by_count (0, connection_count handle) 1 rest))"

definition balancer_select :: "balancer \<Rightarrow> loop_handle list \<Rightarrow> nat \<times> balancer" where
  "balancer_select b workers =
     (case b of
        RoundRobin counter \<Rightarrow> (case round_robin_select counter workers of (i, counter') \<Rightarrow> (i, RoundRobin counter'))
      | LeastConnections \<Rightarrow> (least_connections_select workers, LeastConnections))"

text \<open>A run of selections; the workers' counters may change in between.\<close>

fun selections :: "balancer \<Rightarrow> loop_handle list list \<Rightarrow> nat list" where
  "selections b [] = []"
| "selections b (workers # wss) = (case balancer_select b workers of (i, b') \<Rightarrow> i # selections b' wss)"

subsection \<open>The contract\<close>

text \<open>What the users of a balancer rely on: the answer is an index into a non-empty list of workers.\<close>

locale load_balancer =
  fixes select :: "'b \<Rightarrow> 'h list \<Rightarrow> nat \<times> 'b"
  assumes in_range: "workers \<noteq> [] \<Longrightarrow> fst (select b workers) < length workers"
begin

lemma chosen_worker:
  assumes "workers \<noteq> []"
  obtains i b' h where "select b workers = (i, b')" "i < length workers" "workers ! i = h" "h \<in> set workers"
  using in_range [OF assms, of b] that by (cases "select b workers") auto

lemma update_chosen:
  assumes "workers \<noteq> []"
  shows "length (workers[fst (select b workers) := h]) = length workers
    \<and> workers[fst (select b workers) := h] ! fst (select b workers) = h"
  using in_range [OF assms] by simp

end

subsection \<open>Both balancers meet it\<close>

lemma min_by_count_spec:
  assumes "snd best = connection_count (ws ! fst best)" and "fst best < idx" and "idx \<le> length ws"
    and "\<forall>j < idx. snd best \<le> connection_count (ws ! j)" and "\<forall>j < fst best. snd best < connection_count (ws ! j)"
  shows "let i = fst (min_by_count best idx (drop idx ws)) in
    i < length ws \<and> (\<forall>j < length ws. connection_count (ws ! i) \<le> connection_count (ws ! j))
    \<and> (\<forall>j < i. connection_count (ws ! i) < connection_count (ws ! j))"
  using assms
proof (induction "length ws - idx" arbitrary: best idx)
  case 0
  then have "idx = length ws" by simp
  with 0 show ?case by (auto simp: Let_def)
next
  case (Suc n)
  then have idx: "idx < length ws" by simp
  let ?h = "ws ! idx"
  let ?best = "if connection_count ?h < snd best then (idx, connection_count ?h) else best"
  have d: "drop idx ws = ?h # drop (Suc idx) ws" using idx by (simp add: Cons_nth_drop_Suc)
  have bound: "\<forall>j < idx. snd best \<le> connection_count (ws ! j)" by (rule Suc.prems(4))
  have "let i = fst (min_by_count ?best (Suc idx) (drop (Suc idx) ws)) in
    i < length ws \<and> (\<forall>j < length ws. connection_count (ws ! i) \<le> connection_count (ws ! j))
    \<and> (\<forall>j < i. connection_count (ws ! i) < connection_count (ws ! j))"
  proof (rule Suc.hyps(1))
    show "n = length ws - Suc idx" using Suc.hyps(2) by simp
    show "snd ?best = connection_count (ws ! fst ?best)" using Suc.prems(1) by simp
    show "fst ?best < Suc idx" using Suc.prems(2) by simp
    show "Suc idx \<le> length ws" using idx by simp
    show "\<forall>j < Suc idx. snd ?best \<le> connection_count (ws ! j)"
      using bound by (auto simp: less_Suc_eq not_less intro: less_imp_le order.strict_trans2)
    show "\<forall>j < fst ?best. snd ?best < connection_count (ws ! j)"
      using bound Suc.prems(5) by (auto intro: order.strict_trans2)
  qed
  then show ?case by (simp add: d)
qed

lemma least_connections_spec:
  assumes "workers \<noteq> []"
  shows "let i = least_connections_select workers in
    i < length workers \<and> (\<forall>j < length workers. connection_count (workers ! i) \<le> connection_count (workers ! j))
    \<and> (\<forall>j < i. connection_count (workers ! i) < connection_count (workers ! j))"
proof -
  from assms obtain h rest where w: "workers = h # rest" by (cases workers) auto
  have "let i = fst (min_by_count (0, connection_count h) 1 (drop 1 (h # rest))) in
    i < length (h # rest) \<and> (\<forall>j < length (h # rest). connection_count ((h # rest) ! i) \<le> connection_count ((h # rest) ! j))
    \<and> (\<forall>j < i. connection_count ((h # rest) ! i) < connection_count ((h # rest) ! j))"
    by (rule min_by_count_spec) simp_all
  with w show ?thesis by (simp add: least_connections_select_def)
qed

interpretation balancing: load_balancer balancer_select
proof
  fix workers :: "loop_handle list" and b
  assume ne: "workers \<noteq> []"
  show "fst (balancer_select b workers) < length workers"
  proof (cases b)
    case (RoundRobin s)
    with ne show ?thesis by (simp add: balancer_select_def round_robin_select_def)
  next
    case LeastConnections
    with least_connections_spec [OF ne] show ?thesis by (simp add: balancer_select_def Let_def)
  qed
qed

subsection \<open>Fairness\<close>

text \<open>The counter wraps; where the number of workers divides \<open>2 ^ 64\<close> that makes no difference.\<close>

lemma round_robin_selections:
  assumes "\<forall>ws \<in> set wss. length ws = n" and "0 < n" and "unat s + length wss \<le> 2 ^ 64 \<or> n dvd 2 ^ 64"
  shows "selections (RoundRobin s) wss = map (\<lambda>i. (unat s + i) mod n) [0..<length wss]"
  using assms
proof (induction wss arbitrary: s)
  case Nil
  then show ?case by simp
next
  case (Cons ws wss)
  show ?case
  proof (cases "wss = []")
    case True
    with Cons.prems show ?thesis by (auto simp: balancer_select_def round_robin_select_def)
  next
    case False
    have s1: "unat (s + 1) = (unat s + 1) mod 2 ^ 64" by (simp add: unat_word_ariths)
    have small: "(unat s + 1) mod 2 ^ 64 = unat s + 1" if "unat s + length (ws # wss) \<le> 2 ^ 64" using that False by (cases wss) simp_all
    have next_: "unat (s + 1) + length wss \<le> 2 ^ 64 \<or> n dvd 2 ^ 64" using Cons.prems(3) small s1 by auto
    have step: "(unat (s + 1) + i) mod n = (unat s + Suc i) mod n" for i
      using Cons.prems(3)
    proof
      assume "n dvd 2 ^ 64"
      then have "(unat s + 1) mod 2 ^ 64 mod n = (unat s + 1) mod n" by (rule mod_mod_cancel)
      then show ?thesis unfolding s1 by (metis add.assoc mod_add_left_eq plus_1_eq_Suc)
    qed (use small s1 in simp)
    have "selections (RoundRobin (s + 1)) wss = map (\<lambda>i. (unat (s + 1) + i) mod n) [0..<length wss]"
      by (rule Cons.IH) (use Cons.prems next_ in simp_all)
    moreover have "[0..<length (ws # wss)] = 0 # map Suc [0..<length wss]"
      by (simp add: upt_conv_Cons map_Suc_upt del: upt_Suc)
    moreover have "ws \<noteq> []" "length ws = n" using Cons.prems(1,2) by auto
    moreover have "map (\<lambda>i. (unat (s + 1) + i) mod n) [0..<length wss] = map (\<lambda>i. (unat s + Suc i) mod n) [0..<length wss]"
      by (simp only: step)
    ultimately show ?thesis
      by (simp add: balancer_select_def round_robin_select_def comp_def del: upt_Suc)
  qed
qed

text \<open>A block of \<open>n\<close> consecutive residues is a rotation of \<open>0, ..., n - 1\<close>.\<close>

lemma count_distinct: "distinct xs \<Longrightarrow> w \<in> set xs \<Longrightarrow> count_list xs w = 1"
  by (induction xs) auto

lemma residue_once:
  assumes "w < (n :: nat)"
  shows "count_list (map (\<lambda>i. (a + i) mod n) [0..<n]) w = 1"
proof -
  have "map (\<lambda>i. (a + i) mod n) [0..<n] = rotate a [0..<n]"
    by (rule nth_equalityI) (use assms in \<open>simp_all add: nth_rotate\<close>)
  with assms show ?thesis by (simp add: count_distinct)
qed

lemma residues_block:
  assumes "w < (n :: nat)"
  shows "count_list (map (\<lambda>i. (a + i) mod n) [0..<k * n + r]) w = k + count_list (map (\<lambda>i. (a + i) mod n) [0..<r]) w"
proof (induction k)
  case 0
  then show ?case by simp
next
  case (Suc k)
  have "[0..<Suc k * n + r] = [0..<n] @ map (\<lambda>i. n + i) [0..<k * n + r]"
    using upt_add_eq_append [of 0 n "k * n + r"] map_add_upt [of n "k * n + r"] by (simp add: add.assoc add.commute [of n])
  moreover have "(a + (n + i)) mod n = (a + i) mod n" for i by (metis add.left_commute mod_add_self1)
  ultimately have "map (\<lambda>i. (a + i) mod n) [0..<Suc k * n + r]
      = map (\<lambda>i. (a + i) mod n) [0..<n] @ map (\<lambda>i. (a + i) mod n) [0..<k * n + r]" by simp
  with Suc residue_once [OF assms] show ?case by simp
qed

lemma residues_balanced:
  assumes "w < (n :: nat)"
  shows "m div n \<le> count_list (map (\<lambda>i. (a + i) mod n) [0..<m]) w"
    and "count_list (map (\<lambda>i. (a + i) mod n) [0..<m]) w \<le> m div n + (if n dvd m then 0 else 1)"
proof -
  have "count_list (map (\<lambda>i. (a + i) mod n) [0..<m]) w
      = m div n + count_list (map (\<lambda>i. (a + i) mod n) [0..<m mod n]) w"
    using residues_block [OF assms, of a "m div n" "m mod n"] by simp
  moreover have "count_list (map (\<lambda>i. (a + i) mod n) [0..<m mod n]) w \<le> 1"
  proof -
    have "m mod n \<le> n" using assms by simp
    then have "[0..<n] = [0..<m mod n] @ [m mod n..<n]" using upt_add_eq_append [of 0 "m mod n" "n - m mod n"] by simp
    with residue_once [OF assms, of a] show ?thesis by simp
  qed
  ultimately show "m div n \<le> count_list (map (\<lambda>i. (a + i) mod n) [0..<m]) w"
    "count_list (map (\<lambda>i. (a + i) mod n) [0..<m]) w \<le> m div n + (if n dvd m then 0 else 1)"
    by (auto simp: dvd_eq_mod_eq_0)
qed

subsection \<open>Properties\<close>

text \<open>
  C35: round robin is fair. Of any \<open>m\<close> consecutive selections over \<open>n\<close> workers each worker gets \<open>m div n\<close>, or
  one more where \<open>n\<close> does not divide \<open>m\<close>, wherever the counter stands and however the workers' loads
  change, provided that the counter (a 64-bit word) does not wrap within these selections, or that \<open>n\<close>
  divides \<open>2 ^ 64\<close>, so that wrapping does not matter.
\<close>

theorem round_robin_fair:
  assumes "\<forall>ws \<in> set wss. length ws = n" and "unat s + length wss \<le> 2 ^ 64 \<or> n dvd 2 ^ 64" and "w < n"
  shows "length wss div n \<le> count_list (selections (RoundRobin s) wss) w
    \<and> count_list (selections (RoundRobin s) wss) w \<le> length wss div n + (if n dvd length wss then 0 else 1)"
  using round_robin_selections [OF assms(1) _ assms(2)] assms(3) residues_balanced [OF assms(3), where m = "length wss" and a = "unat s"]
  by simp

definition idle_handle :: "usize \<Rightarrow> loop_handle" where
  "idle_handle n = sample_handle\<lparr>h_conn_count := n\<rparr>"

text \<open>Seven selections over three workers, and five over two of which the counter wraps.\<close>

lemma round_robin_fair_witness:
  "2 \<le> count_list (selections (RoundRobin 5) (replicate 7 [idle_handle 0, idle_handle 1, idle_handle 2])) 1
    \<and> count_list (selections (RoundRobin 5) (replicate 7 [idle_handle 0, idle_handle 1, idle_handle 2])) 1 \<le> 3
    \<and> 2 \<le> count_list (selections (RoundRobin (- 2)) (replicate 5 [idle_handle 0, idle_handle 1])) 1"
proof -
  have "2 \<le> count_list (selections (RoundRobin (- 2)) (replicate 5 [idle_handle 0, idle_handle 1])) 1"
    using round_robin_fair [of "replicate 5 [idle_handle 0, idle_handle 1]" 2 "- 2" 1] by simp
  with round_robin_fair [of "replicate 7 [idle_handle 0, idle_handle 1, idle_handle 2]" 3 5 1] show ?thesis by simp
qed

text \<open>
  \<open>LeastConnections\<close> picks a worker that has the fewest connections, the first of them, and
  like \<open>RoundRobin\<close> never an index outside a non-empty list of workers.
\<close>

theorem least_connections_minimal:
  assumes "workers \<noteq> []"
  shows "fst (balancer_select b workers) < length workers
    \<and> (\<forall>j < length workers. connection_count (workers ! fst (balancer_select LeastConnections workers))
          \<le> connection_count (workers ! j))
    \<and> (\<forall>j < fst (balancer_select LeastConnections workers).
          connection_count (workers ! fst (balancer_select LeastConnections workers)) < connection_count (workers ! j))"
  using balancing.in_range [OF assms, of b] least_connections_spec [OF assms]
  by (simp add: balancer_select_def Let_def)

lemma least_connections_minimal_witness:
  "fst (balancer_select (RoundRobin 7) [idle_handle 3, idle_handle 1, idle_handle 1]) < 3
    \<and> connection_count ([idle_handle 3, idle_handle 1, idle_handle 1]
        ! fst (balancer_select LeastConnections [idle_handle 3, idle_handle 1, idle_handle 1])) \<le> 1"
  using least_connections_minimal [of "[idle_handle 3, idle_handle 1, idle_handle 1]" "RoundRobin 7"]
  by (auto simp: idle_handle_def connection_count_def)

end
