(* ===== verification/Acceptor.thy ===== *)
theory Acceptor
  imports Balancer EventLoop SimKernel
begin

text \<open>
  Model of \<open>src/acceptor.rs\<close>: the thread that accepts connections for the workers. The handles of
  the workers are shared with their loops; the state holds them as the acceptor sees them. Waiting
  for events is outside the repository: the argument \<open>wait\<close> answers the events and the state as the
  other threads left it.
\<close>

subsection \<open>State\<close>

record 'w acceptor =
  a_listeners :: "listener list"
  a_workers :: "loop_handle list"
  a_balancer :: balancer
  a_waker :: waker
  a_running :: bool
  a_world :: 'w

text \<open>\<open>Poll::new\<close> and the creation of the waker are the arguments.\<close>

definition Acceptor_new ::
  "('w \<Rightarrow> (io_error + unit) \<times> 'w) \<Rightarrow> ('w \<Rightarrow> (io_error + nat) \<times> 'w) \<Rightarrow> listener list \<Rightarrow> loop_handle list
    \<Rightarrow> balancer \<Rightarrow> ('w acceptor, 'w) prog" where
  "Acceptor_new poll_new waker_new listeners workers b w =
     (case poll_new w of
        (Inl e, w1) \<Rightarrow> (Err e, w1)
      | (Inr _, w1) \<Rightarrow>
          (case waker_new w1 of
             (Inl e, w2) \<Rightarrow> (Err e, w2)
           | (Inr wk, w2) \<Rightarrow>
               (Ok \<lparr>a_listeners = listeners, a_workers = workers, a_balancer = b,
                    a_waker = \<lparr>waker_id = wk, awoken = False\<rparr>, a_running = True, a_world = w2\<rparr>, w2)))"

definition acceptor_shutdown :: "'w os \<Rightarrow> (unit, 'w acceptor) prog" where
  "acceptor_shutdown os ac =
     (case discard_result (wake os) (a_waker ac, a_world ac) of
        (r, (wk, w')) \<Rightarrow> (r, ac\<lparr>a_running := False, a_waker := wk, a_world := w'\<rparr>))"

subsection \<open>Accepting\<close>

text \<open>
  One connection: the balancer chooses, the registration goes straight to the urgent channel of the
  chosen worker, which is woken. A connection that reaches nobody is dropped, so closed.
\<close>

definition dispatch_conn ::
  "'w os \<Rightarrow> network_address \<Rightarrow> socket \<Rightarrow> network_address \<Rightarrow> 'w acceptor \<Rightarrow> 'w acceptor" where
  "dispatch_conn os local_addr sk peer_addr ac =
     (case balancer_select (a_balancer ac) (a_workers ac) of
        (idx, b') \<Rightarrow>
          if idx < length (a_workers ac) then
            (case send_urgent (Register sk local_addr peer_addr) (a_workers ac ! idx) of
               (False, h') \<Rightarrow> ac\<lparr>a_balancer := b', a_world := drop_stream os (a_world ac) sk\<rparr>
             | (True, h') \<Rightarrow>
                 (case discard_result (wake_handle os) (h', a_world ac) of
                    (_, (h'', w')) \<Rightarrow>
                      ac\<lparr>a_balancer := b', a_workers := (a_workers ac)[idx := h''], a_world := w'\<rparr>))
          else ac\<lparr>a_balancer := b', a_world := drop_stream os (a_world ac) sk\<rparr>)"

text \<open>The loop ends with the first error of \<open>accept\<close>; \<open>None\<close> is a listener that never runs dry.\<close>

partial_function (option) accept_all ::
  "'w os \<Rightarrow> listener \<Rightarrow> network_address \<Rightarrow> 'w acceptor \<Rightarrow> 'w acceptor option" where
  "accept_all os l local_addr ac =
     (case listener_accept os (a_world ac) l of
        (Inl e, w') \<Rightarrow> Some (ac\<lparr>a_world := w'\<rparr>)
      | (Inr (sk, peer_addr), w') \<Rightarrow>
          accept_all os l local_addr (dispatch_conn os local_addr sk peer_addr (ac\<lparr>a_world := w'\<rparr>)))"

definition acceptor_accept_loop :: "'w os \<Rightarrow> nat \<Rightarrow> (unit, 'w acceptor) prog" where
  "acceptor_accept_loop os index ac =
     (if index < length (a_listeners ac) then
        (case listener_local_addr (a_listeners ac ! index) of
           Inl e \<Rightarrow> (Ok (), ac)
         | Inr local_addr \<Rightarrow>
             (case accept_all os (a_listeners ac ! index) local_addr ac of
                None \<Rightarrow> (Diverge, ac)
              | Some ac' \<Rightarrow> (Ok (), ac')))
      else (Panic, ac))"

subsection \<open>Running\<close>

fun register_listeners :: "'w os \<Rightarrow> bool \<Rightarrow> nat \<Rightarrow> listener list \<Rightarrow> (unit, 'w acceptor) prog" where
  "register_listeners os dbg idx [] = ret ()"
| "register_listeners os dbg idx (l # ls) =
     (case listener_token dbg (of_nat idx) of
        Ok token \<Rightarrow>
          (\<lambda>ac. case listener_register os (a_world ac) l token Readable of
             (Inl e, w') \<Rightarrow> (Err e, ac\<lparr>a_world := w'\<rparr>)
           | (Inr _, w') \<Rightarrow> register_listeners os dbg (Suc idx) ls (ac\<lparr>a_world := w'\<rparr>))
      | _ \<Rightarrow> (\<lambda>ac. (Panic, ac)))"

text \<open>The answer says whether the acceptor is to stop.\<close>

fun acceptor_events :: "'w os \<Rightarrow> event list \<Rightarrow> (bool, 'w acceptor) prog" where
  "acceptor_events os [] = ret False"
| "acceptor_events os (ev # evs) =
     (if ev_token ev = WAKE_TOKEN then
        (\<lambda>ac. if \<not> a_running ac then (Ok True, ac)
              else acceptor_events os evs (ac\<lparr>a_waker := reset_waker (a_waker ac)\<rparr>))
      else
        (case is_listener_token (ev_token ev) of
           Some idx \<Rightarrow> bind_io (acceptor_accept_loop os (unat idx)) (\<lambda>_. acceptor_events os evs)
         | None \<Rightarrow> acceptor_events os evs))"

definition acceptor_turn ::
  "'w os \<Rightarrow> ('w acceptor \<Rightarrow> (io_error + event list) \<times> 'w acceptor) \<Rightarrow> (bool, 'w acceptor) prog" where
  "acceptor_turn os wait ac =
     (if \<not> a_running ac then (Ok True, ac)
      else
        (case wait ac of
           (Inl e, ac') \<Rightarrow> if err_kind e = Interrupted then (Ok False, ac') else (Err e, ac')
         | (Inr evs, ac') \<Rightarrow> acceptor_events os evs ac'))"

partial_function (option) acceptor_turns ::
  "'w os \<Rightarrow> ('w acceptor \<Rightarrow> (io_error + event list) \<times> 'w acceptor) \<Rightarrow> 'w acceptor
    \<Rightarrow> (unit outcome \<times> 'w acceptor) option" where
  "acceptor_turns os wait ac =
     (case acceptor_turn os wait ac of
        (Ok stop, ac') \<Rightarrow> if stop then Some (Ok (), ac') else acceptor_turns os wait ac'
      | (Err e, ac') \<Rightarrow> Some (Err e, ac')
      | (Panic, ac') \<Rightarrow> Some (Panic, ac')
      | (Diverge, ac') \<Rightarrow> Some (Diverge, ac'))"

definition acceptor_run ::
  "'w os \<Rightarrow> bool \<Rightarrow> ('w acceptor \<Rightarrow> (io_error + event list) \<times> 'w acceptor) \<Rightarrow> (unit, 'w acceptor) prog" where
  "acceptor_run os dbg wait ac =
     bind_io (register_listeners os dbg 0 (a_listeners ac))
       (\<lambda>_ ac'. case acceptor_turns os wait ac' of None \<Rightarrow> (Diverge, ac') | Some res \<Rightarrow> res) ac"

subsection \<open>Where the connections go\<close>

text \<open>
  \<open>backlog w\<close> lists the connections that the listener will still hand out. Accepting takes the
  first of them; waking a worker and closing a stream do not change it.
\<close>

definition accept_queue :: "'w os \<Rightarrow> listener \<Rightarrow> ('w \<Rightarrow> (socket \<times> network_address) list) \<Rightarrow> bool" where
  "accept_queue os l backlog \<longleftrightarrow>
     (\<forall>w. case listener_accept os w l of
            (Inr x, w') \<Rightarrow> backlog w = x # backlog w'
          | (Inl e, w') \<Rightarrow> backlog w' = backlog w) \<and>
     (\<forall>w i. backlog (snd (waker_wake os w i)) = backlog w) \<and>
     (\<forall>w sk. backlog (drop_stream os w sk) = backlog w)"

text \<open>The registrations that worker \<open>j\<close> gets, in order.\<close>

definition registrations :: "network_address \<Rightarrow> nat list \<Rightarrow> (socket \<times> network_address) list \<Rightarrow> nat \<Rightarrow> command list" where
  "registrations la choices new j =
     map (\<lambda>(i, sk, pa). Register sk la pa) (filter (\<lambda>(i, x). i = j) (zip choices new))"

lemma registrations_simps [simp]:
  "registrations la [] [] j = []"
  "registrations la (i # is) ((sk, pa) # new) j = (if i = j then [Register sk la pa] else []) @ registrations la is new j"
  by (simp_all add: registrations_def)

lemma wake_handle_backlog:
  assumes "accept_queue os l backlog"
  shows "\<exists>wk w'. discard_result (wake_handle os) (h, w) = (Ok (), (h\<lparr>h_waker := wk\<rparr>, w')) \<and> awoken wk \<and> backlog w' = backlog w"
proof -
  obtain r w1 where ww: "waker_wake os w (waker_id (h_waker h)) = (r, w1)" by fastforce
  with assms have "backlog w1 = backlog w" unfolding accept_queue_def by (metis snd_conv)
  with ww show ?thesis
    by (cases r) (auto simp: discard_result_def wake_handle_def wake_def Let_def)
qed

lemma dispatch_conn_spec:
  assumes q: "accept_queue os l backlog" and ne: "a_workers ac \<noteq> []" and conn: "\<forall>h \<in> set (a_workers ac). h_connected h"
  shows "\<exists>i b' wk w'. balancer_select (a_balancer ac) (a_workers ac) = (i, b') \<and> i < length (a_workers ac)
    \<and> dispatch_conn os la sk pa ac = ac\<lparr>a_balancer := b',
         a_workers := (a_workers ac)[i := (a_workers ac ! i)\<lparr>h_urgent := h_urgent (a_workers ac ! i) @ [Register sk la pa], h_waker := wk\<rparr>],
         a_world := w'\<rparr>
    \<and> awoken wk \<and> backlog w' = backlog (a_world ac)"
proof -
  obtain i b' where b: "balancer_select (a_balancer ac) (a_workers ac) = (i, b')" by fastforce
  with balancing.in_range [OF ne, of "a_balancer ac"] have i: "i < length (a_workers ac)" by simp
  with conn have "h_connected (a_workers ac ! i)" by simp
  then have "send_urgent (Register sk la pa) (a_workers ac ! i)
      = (True, (a_workers ac ! i)\<lparr>h_urgent := h_urgent (a_workers ac ! i) @ [Register sk la pa]\<rparr>)"
    by (simp add: send_urgent_def)
  moreover obtain wk w' where "discard_result (wake_handle os)
      ((a_workers ac ! i)\<lparr>h_urgent := h_urgent (a_workers ac ! i) @ [Register sk la pa]\<rparr>, a_world ac)
      = (Ok (), ((a_workers ac ! i)\<lparr>h_urgent := h_urgent (a_workers ac ! i) @ [Register sk la pa], h_waker := wk\<rparr>, w'))"
    "awoken wk" "backlog w' = backlog (a_world ac)"
    using wake_handle_backlog [OF q] by blast
  ultimately show ?thesis using b i by (auto simp: dispatch_conn_def)
qed

lemma min_by_count_counts:
  "map connection_count ws' = map connection_count ws \<Longrightarrow> min_by_count best idx ws' = min_by_count best idx ws"
proof (induction ws arbitrary: ws' best idx)
  case Nil
  then show ?case by simp
next
  case (Cons h rest)
  from Cons.prems obtain h' rest' where ws': "ws' = h' # rest'" by (cases ws') simp_all
  with Cons.prems have "connection_count h' = connection_count h" and rest: "map connection_count rest' = map connection_count rest"
    by simp_all
  with Cons.IH [OF rest] show ?case by (simp add: ws')
qed

lemma least_connections_counts:
  assumes "map connection_count ws' = map connection_count ws"
  shows "least_connections_select ws' = least_connections_select ws"
proof (cases ws)
  case Nil
  with assms show ?thesis by simp
next
  case (Cons h rest)
  with assms obtain h' rest' where ws': "ws' = h' # rest'" by (cases ws') simp_all
  with assms Cons have "connection_count h' = connection_count h" "map connection_count rest' = map connection_count rest"
    by simp_all
  with min_by_count_counts [OF this(2)] Cons ws' show ?thesis by (simp add: least_connections_select_def)
qed

text \<open>The balancers look at the connection counts only, which dispatching does not change.\<close>

lemma balancer_counts:
  assumes "map connection_count ws' = map connection_count ws"
  shows "balancer_select b ws' = balancer_select b ws"
proof -
  have "length ws' = length ws" using assms by (metis length_map)
  then have "round_robin_select c ws' = round_robin_select c ws" for c by (auto simp: round_robin_select_def)
  with least_connections_counts [OF assms] show ?thesis by (cases b) (simp_all add: balancer_select_def)
qed

lemma selections_counts:
  assumes "map connection_count ws' = map connection_count ws"
  shows "selections b (replicate m ws') = selections b (replicate m ws)"
  by (induction m arbitrary: b) (simp_all only: replicate.simps selections.simps balancer_counts [OF assms])

lemma selections_least: "\<forall>i \<in> set (selections LeastConnections (replicate m ws)). i = least_connections_select ws"
  by (induction m) (simp_all add: balancer_select_def)

lemma accept_queueD:
  "accept_queue os l backlog \<Longrightarrow> listener_accept os w l = (Inr x, w') \<Longrightarrow> backlog w = x # backlog w'"
  "accept_queue os l backlog \<Longrightarrow> listener_accept os w l = (Inl e, w') \<Longrightarrow> backlog w' = backlog w"
  unfolding accept_queue_def by (elim conjE, drule spec [where x = w], simp)+

lemma accept_all_spec:
  assumes q: "accept_queue os l backlog"
  shows "a_workers ac \<noteq> [] \<Longrightarrow> \<forall>h \<in> set (a_workers ac). h_connected h \<Longrightarrow>
    \<exists>ac' new choices. accept_all os l la ac = Some ac' \<and> backlog (a_world ac) = new @ backlog (a_world ac')
      \<and> length choices = length new \<and> (\<forall>i \<in> set choices. i < length (a_workers ac))
      \<and> length (a_workers ac') = length (a_workers ac)
      \<and> (\<forall>j < length (a_workers ac).
           h_urgent (a_workers ac' ! j) = h_urgent (a_workers ac ! j) @ registrations la choices new j
           \<and> h_common (a_workers ac' ! j) = h_common (a_workers ac ! j)
           \<and> (j \<in> set choices \<longrightarrow> awoken (h_waker (a_workers ac' ! j)))
           \<and> (awoken (h_waker (a_workers ac ! j)) \<longrightarrow> awoken (h_waker (a_workers ac' ! j))))
      \<and> choices = selections (a_balancer ac) (replicate (length new) (a_workers ac))
      \<and> (\<exists>w e. listener_accept os w l = (Inl e, a_world ac'))"
proof (induction "length (backlog (a_world ac))" arbitrary: ac rule: less_induct)
  case less
  note ne = less.prems(1) and conn = less.prems(2)
  obtain r w1 where acc: "listener_accept os (a_world ac) l = (r, w1)" by fastforce
  show ?case
  proof (cases r)
    case (Inl e)
    from accept_queueD(2) [OF q acc [unfolded Inl]] Inl acc have "accept_all os l la ac = Some (ac\<lparr>a_world := w1\<rparr>) \<and> backlog (a_world ac) = [] @ backlog w1"
      by (simp add: accept_all.simps)
    moreover have "\<exists>w e. listener_accept os w l = (Inl e, w1)" using acc Inl by blast
    ultimately show ?thesis by (intro exI [of _ "ac\<lparr>a_world := w1\<rparr>"] exI [of _ "[]"]) simp
  next
    case (Inr x)
    obtain sk pa where x: "x = (sk, pa)" by fastforce
    from accept_queueD(1) [OF q acc [unfolded Inr]] have bl: "backlog (a_world ac) = x # backlog w1" .
    let ?ac1 = "ac\<lparr>a_world := w1\<rparr>"
    from dispatch_conn_spec [OF q, of ?ac1 la sk pa] ne conn obtain i b' wk w2 where
      sel: "balancer_select (a_balancer ac) (a_workers ac) = (i, b')" and i: "i < length (a_workers ac)"
      and d: "dispatch_conn os la sk pa ?ac1 = ac\<lparr>a_balancer := b',
         a_workers := (a_workers ac)[i := (a_workers ac ! i)\<lparr>h_urgent := h_urgent (a_workers ac ! i) @ [Register sk la pa], h_waker := wk\<rparr>],
         a_world := w2\<rparr>" and wk: "awoken wk" and w2: "backlog w2 = backlog w1"
      by (simp, blast)
    let ?h = "(a_workers ac ! i)\<lparr>h_urgent := h_urgent (a_workers ac ! i) @ [Register sk la pa], h_waker := wk\<rparr>"
    let ?ac2 = "ac\<lparr>a_balancer := b', a_workers := (a_workers ac)[i := ?h], a_world := w2\<rparr>"
    have lt: "length (backlog (a_world ?ac2)) < length (backlog (a_world ac))" using bl w2 by simp
    have ne2: "a_workers ?ac2 \<noteq> []" using ne by simp
    have "h_connected ?h" using conn i by simp
    with conn set_update_subset_insert [of "a_workers ac" i ?h]
    have conn2: "\<forall>h \<in> set (a_workers ?ac2). h_connected h" by auto
    from less.hyps [OF lt ne2 conn2] obtain ac' new choices where
      ih: "accept_all os l la ?ac2 = Some ac'" "backlog w2 = new @ backlog (a_world ac')" "length choices = length new"
        "\<forall>k \<in> set choices. k < length (a_workers ac)" "length (a_workers ac') = length (a_workers ac)"
        "\<forall>j < length (a_workers ac).
           h_urgent (a_workers ac' ! j) = h_urgent ((a_workers ac)[i := ?h] ! j) @ registrations la choices new j
           \<and> h_common (a_workers ac' ! j) = h_common ((a_workers ac)[i := ?h] ! j)
           \<and> (j \<in> set choices \<longrightarrow> awoken (h_waker (a_workers ac' ! j)))
           \<and> (awoken (h_waker ((a_workers ac)[i := ?h] ! j)) \<longrightarrow> awoken (h_waker (a_workers ac' ! j)))"
        "choices = selections b' (replicate (length new) ((a_workers ac)[i := ?h]))"
        "\<exists>w e. listener_accept os w l = (Inl e, a_world ac')"
      by (simp, blast)
    have "map connection_count ((a_workers ac)[i := ?h]) = map connection_count (a_workers ac)"
      using i by (intro nth_equalityI) (simp_all add: nth_list_update connection_count_def)
    then have same: "selections b' (replicate (length new) ((a_workers ac)[i := ?h])) = selections b' (replicate (length new) (a_workers ac))"
      by (rule selections_counts)
    have run: "accept_all os l la ac = Some ac'"
      using acc Inr x d ih(1) by (subst accept_all.simps) simp
    have all: "backlog (a_world ac) = (x # new) @ backlog (a_world ac')" using bl w2 ih(2) by simp
    have each: "\<forall>j < length (a_workers ac).
           h_urgent (a_workers ac' ! j) = h_urgent (a_workers ac ! j) @ registrations la (i # choices) (x # new) j
           \<and> h_common (a_workers ac' ! j) = h_common (a_workers ac ! j)
           \<and> (j \<in> set (i # choices) \<longrightarrow> awoken (h_waker (a_workers ac' ! j)))
           \<and> (awoken (h_waker (a_workers ac ! j)) \<longrightarrow> awoken (h_waker (a_workers ac' ! j)))"
      using ih(6) x wk i by (auto simp: nth_list_update)
    have chosen: "i # choices = selections (a_balancer ac) (replicate (length (x # new)) (a_workers ac))"
      using sel ih(7) same by simp
    have len: "length (i # choices) = length (x # new)" "\<forall>k \<in> set (i # choices). k < length (a_workers ac)" using ih(3,4) i by simp_all
    show ?thesis
      by (intro exI [of _ ac'] exI [of _ "x # new"] exI [of _ "i # choices"] conjI run all len ih(5) each chosen ih(8))
  qed
qed

lemma registrations_all:
  assumes "length choices = length new" and "\<forall>i \<in> set choices. i = k"
  shows "registrations la choices new j = (if j = k then map (\<lambda>(sk, pa). Register sk la pa) new else [])"
  using assms
proof (induction choices new rule: list_induct2)
  case Nil
  then show ?case by simp
next
  case (Cons i choices x new)
  then show ?case by (cases x) simp
qed

subsection \<open>Properties\<close>

text \<open>
  C25: every connection that waits is handed to exactly one worker, the one the balancer chose. With workers
  that are running, the accept loop returns, when the listener has nothing more to give: with a kernel that fails only then, the
  backlog is empty. The connections it took off the listener, in order, are the registrations that
  have been appended to the workers' urgent channels. Their workers are the successive choices of the
  balancer (round robin or least connections), the first from its state at the beginning;
  every chosen worker has been woken, and no worker's other commands have changed.
\<close>

theorem acceptor_dispatches:
  assumes q: "accept_queue os (a_listeners ac ! idx) backlog" and idx: "idx < length (a_listeners ac)"
    and ne: "a_workers ac \<noteq> []" and conn: "\<forall>h \<in> set (a_workers ac). h_connected h"
  shows "\<exists>ac' new choices. acceptor_accept_loop os idx ac = (Ok (), ac')
      \<and> backlog (a_world ac) = new @ backlog (a_world ac')
      \<and> (\<exists>w e. listener_accept os w (a_listeners ac ! idx) = (Inl e, a_world ac'))
      \<and> ((\<forall>w e w'. listener_accept os w (a_listeners ac ! idx) = (Inl e, w') \<longrightarrow> backlog w = []) \<longrightarrow> new = backlog (a_world ac))
      \<and> choices = selections (a_balancer ac) (replicate (length new) (a_workers ac))
      \<and> length choices = length new \<and> (\<forall>i \<in> set choices. i < length (a_workers ac))
      \<and> length (a_workers ac') = length (a_workers ac)
      \<and> (\<forall>j < length (a_workers ac).
           h_urgent (a_workers ac' ! j) = h_urgent (a_workers ac ! j)
             @ registrations (li_addr (a_listeners ac ! idx)) choices new j
           \<and> h_common (a_workers ac' ! j) = h_common (a_workers ac ! j)
           \<and> (j \<in> set choices \<longrightarrow> awoken (h_waker (a_workers ac' ! j))))"
proof -
  let ?l = "a_listeners ac ! idx"
  from accept_all_spec [OF q ne conn, of "li_addr ?l"] obtain ac' new choices where
    run: "accept_all os ?l (li_addr ?l) ac = Some ac'"
    and bl: "backlog (a_world ac) = new @ backlog (a_world ac')" and rest: "length choices = length new"
    "\<forall>i \<in> set choices. i < length (a_workers ac)" "length (a_workers ac') = length (a_workers ac)"
    "\<forall>j < length (a_workers ac).
           h_urgent (a_workers ac' ! j) = h_urgent (a_workers ac ! j) @ registrations (li_addr ?l) choices new j
           \<and> h_common (a_workers ac' ! j) = h_common (a_workers ac ! j)
           \<and> (j \<in> set choices \<longrightarrow> awoken (h_waker (a_workers ac' ! j)))"
    "choices = selections (a_balancer ac) (replicate (length new) (a_workers ac))"
    and stop: "\<exists>w e. listener_accept os w ?l = (Inl e, a_world ac')" by blast
  from stop obtain w e where fail: "listener_accept os w ?l = (Inl e, a_world ac')" by blast
  from accept_queueD(2) [OF q fail] have same: "backlog (a_world ac') = backlog w" .
  have "new = backlog (a_world ac)" if "\<forall>w e w'. listener_accept os w ?l = (Inl e, w') \<longrightarrow> backlog w = []"
  proof -
    have "backlog w = []" using that fail by blast
    with bl same show ?thesis by simp
  qed
  moreover have "acceptor_accept_loop os idx ac = (Ok (), ac')"
    using run idx by (simp add: acceptor_accept_loop_def listener_local_addr_def)
  ultimately show ?thesis using bl rest stop by blast
qed

definition sample_listener :: listener where
  "sample_listener = \<lparr>li_inner = TcpListener 5, li_addr = UnixAddr ''here'', li_options = default_options\<rparr>"

definition sim_backlog :: "sim \<Rightarrow> (socket \<times> network_address) list" where
  "sim_backlog w = map (\<lambda>(s, a). (Tcp s, TcpAddr a)) (sim_accepts w)"

lemma sim_accept_queue: "accept_queue sim_os sample_listener sim_backlog"
  by (auto simp: accept_queue_def listener_accept_def sample_listener_def sim_os_def sim_accept_conn_def sim_backlog_def
      split: list.split)

definition sample_acceptor :: "balancer \<Rightarrow> sim acceptor" where
  "sample_acceptor b =
     \<lparr>a_listeners = [sample_listener], a_workers = [idle_handle 1, idle_handle 0], a_balancer = b,
      a_waker = \<lparr>waker_id = 4, awoken = False\<rparr>, a_running = True,
      a_world = sim0\<lparr>sim_accepts := [(8, SocketAddrV4 [1, 1, 1, 1] 1), (9, SocketAddrV4 [1, 1, 1, 1] 2)]\<rparr>\<rparr>"

lemma sample_acceptor_ok:
  "a_workers (sample_acceptor b) \<noteq> []" "\<forall>h \<in> set (a_workers (sample_acceptor b)). h_connected h"
  "0 < length (a_listeners (sample_acceptor b))" "a_listeners (sample_acceptor b) ! 0 = sample_listener"
  by (simp_all add: sample_acceptor_def idle_handle_def sample_handle_def)

lemma sim_accepts_all: "listener_accept sim_os w sample_listener = (Inl e, w') \<Longrightarrow> sim_backlog w = []"
  by (auto simp: listener_accept_def sample_listener_def sim_os_def sim_accept_conn_def sim_backlog_def split: list.splits)

lemma acceptor_dispatches_witness:
  "\<exists>ac'. acceptor_accept_loop sim_os 0 (sample_acceptor (RoundRobin 0)) = (Ok (), ac') \<and> length (a_workers ac') = 2
      \<and> h_urgent (a_workers ac' ! 0) = [Wake, Register (Tcp 8) (UnixAddr ''here'') (TcpAddr (SocketAddrV4 [1, 1, 1, 1] 1))]
      \<and> h_urgent (a_workers ac' ! 1) = [Wake, Register (Tcp 9) (UnixAddr ''here'') (TcpAddr (SocketAddrV4 [1, 1, 1, 1] 2))]"
proof -
  let ?ac = "sample_acceptor (RoundRobin 0)"
  from acceptor_dispatches [of sim_os ?ac 0 sim_backlog, unfolded sample_acceptor_ok(4),
      OF sim_accept_queue sample_acceptor_ok(3,1,2)]
  obtain ac' new choices where out: "acceptor_accept_loop sim_os 0 ?ac = (Ok (), ac')
      \<and> sim_backlog (a_world ?ac) = new @ sim_backlog (a_world ac')
      \<and> (\<exists>w e. listener_accept sim_os w sample_listener = (Inl e, a_world ac'))
      \<and> ((\<forall>w e w'. listener_accept sim_os w sample_listener = (Inl e, w') \<longrightarrow> sim_backlog w = []) \<longrightarrow> new = sim_backlog (a_world ?ac))
      \<and> choices = selections (a_balancer ?ac) (replicate (length new) (a_workers ?ac))
      \<and> length choices = length new \<and> (\<forall>i \<in> set choices. i < length (a_workers ?ac))
      \<and> length (a_workers ac') = length (a_workers ?ac)
      \<and> (\<forall>j < length (a_workers ?ac).
           h_urgent (a_workers ac' ! j) = h_urgent (a_workers ?ac ! j) @ registrations (li_addr sample_listener) choices new j
           \<and> h_common (a_workers ac' ! j) = h_common (a_workers ?ac ! j)
           \<and> (j \<in> set choices \<longrightarrow> awoken (h_waker (a_workers ac' ! j))))"
    by (elim exE) (rule that)
  then have run: "acceptor_accept_loop sim_os 0 ?ac = (Ok (), ac')"
    and drained: "(\<forall>w e w'. listener_accept sim_os w sample_listener = (Inl e, w') \<longrightarrow> sim_backlog w = []) \<longrightarrow> new = sim_backlog (a_world ?ac)"
    and ch: "choices = selections (a_balancer ?ac) (replicate (length new) (a_workers ?ac))"
    and len: "length (a_workers ac') = length (a_workers ?ac)"
    and reg: "\<forall>j < length (a_workers ?ac). h_urgent (a_workers ac' ! j) = h_urgent (a_workers ?ac ! j)
        @ registrations (li_addr sample_listener) choices new j" by blast+
  from drained sim_accepts_all have new: "new = sim_backlog (a_world ?ac)" by blast
  have new': "new = [(Tcp 8, TcpAddr (SocketAddrV4 [1, 1, 1, 1] 1)), (Tcp 9, TcpAddr (SocketAddrV4 [1, 1, 1, 1] 2))]"
    using new by (simp add: sample_acceptor_def sim_backlog_def)
  have "choices = [0, 1]"
    using ch by (simp add: new' sample_acceptor_def numeral_2_eq_2 balancer_select_def round_robin_select_def)
  with run len reg show ?thesis
    by (simp add: new' sample_acceptor_def idle_handle_def sample_handle_def sample_listener_def)
qed

text \<open>
  Least-connections balancing does not spread a burst. The counters it compares change only when
  a worker handles a registration, so all connections that one run of the accept loop takes go to
  the one worker that was least loaded when it began; the others get none.
\<close>

theorem least_connections_burst:
  assumes q: "accept_queue os (a_listeners ac ! idx) backlog" and idx: "idx < length (a_listeners ac)"
    and ne: "a_workers ac \<noteq> []" and conn: "\<forall>h \<in> set (a_workers ac). h_connected h"
    and least: "a_balancer ac = LeastConnections"
  shows "\<exists>ac' new. acceptor_accept_loop os idx ac = (Ok (), ac')
      \<and> backlog (a_world ac) = new @ backlog (a_world ac')
      \<and> (\<forall>j < length (a_workers ac). h_urgent (a_workers ac' ! j) =
           (if j = least_connections_select (a_workers ac)
            then h_urgent (a_workers ac ! j) @ map (\<lambda>(sk, pa). Register sk (li_addr (a_listeners ac ! idx)) pa) new
            else h_urgent (a_workers ac ! j)))"
proof -
  let ?k = "least_connections_select (a_workers ac)"
  let ?la = "li_addr (a_listeners ac ! idx)"
  from accept_all_spec [OF q ne conn, of ?la] obtain ac' new choices where
    run: "accept_all os (a_listeners ac ! idx) ?la ac = Some ac'" "backlog (a_world ac) = new @ backlog (a_world ac')"
    and len: "length choices = length new" and ch: "choices = selections (a_balancer ac) (replicate (length new) (a_workers ac))"
    and reg: "\<forall>j < length (a_workers ac).
           h_urgent (a_workers ac' ! j) = h_urgent (a_workers ac ! j) @ registrations ?la choices new j" by blast
  have all: "\<forall>i \<in> set choices. i = ?k" unfolding ch least by (rule selections_least)
  from reg registrations_all [OF len all, of ?la] have
    "\<forall>j < length (a_workers ac). h_urgent (a_workers ac' ! j) =
           (if j = ?k then h_urgent (a_workers ac ! j) @ map (\<lambda>(sk, pa). Register sk ?la pa) new
            else h_urgent (a_workers ac ! j))" by simp
  with run idx show ?thesis by (auto simp: acceptor_accept_loop_def listener_local_addr_def)
qed

lemma least_connections_burst_witness:
  "\<exists>ac' new. acceptor_accept_loop sim_os 0 (sample_acceptor LeastConnections) = (Ok (), ac')
      \<and> sim_backlog (a_world (sample_acceptor LeastConnections)) = new @ sim_backlog (a_world ac')
      \<and> h_urgent (a_workers ac' ! 0) = [Wake]"
  using least_connections_burst [of sim_os "sample_acceptor LeastConnections" 0 sim_backlog, unfolded sample_acceptor_ok(4),
      OF sim_accept_queue sample_acceptor_ok(3,1,2)]
  by (fastforce simp: sample_acceptor_def idle_handle_def sample_handle_def least_connections_select_def connection_count_def)

end
