(* ===== verification/Engine.thy ===== *)
theory Engine
  imports Acceptor RunLoop
begin

text \<open>
  Model of \<open>src/engine.rs\<close>: the builder, the handle through which applications send commands and
  shut the engine down, and the start of the loops. The state of an \<open>EngineHandler\<close> is what its two
  \<open>OnceLock\<close>s hold: the shared parts of the acceptor (its waker and its flag) and the handles of the
  loops.
\<close>

subsection \<open>The builder\<close>

record engine_builder =
  b_addrs :: "network_address list option"
  b_lb_policy :: "balancer option"

record 'h engine =
  en_address :: "network_address list"
  en_options :: options
  en_handler :: 'h
  en_lb_policy :: "balancer option"

definition builder :: engine_builder where
  "builder = \<lparr>b_addrs = None, b_lb_policy = None\<rparr>"

definition builder_address :: "network_address list \<Rightarrow> engine_builder \<Rightarrow> engine_builder" where
  "builder_address addrs b = b\<lparr>b_addrs := Some addrs\<rparr>"

definition builder_load_balancer :: "balancer \<Rightarrow> engine_builder \<Rightarrow> engine_builder" where
  "builder_load_balancer policy b = b\<lparr>b_lb_policy := Some policy\<rparr>"

text \<open>\<open>init\<close> is the application's \<open>H::init\<close>. \<open>unwrap\<close> of missing addresses panics.\<close>

definition engine_build :: "(options \<Rightarrow> 'h \<times> action) \<Rightarrow> options \<Rightarrow> engine_builder \<Rightarrow> 'h engine outcome" where
  "engine_build init opts b =
     (case init opts of
        (handler, action) \<Rightarrow>
          if action = ActShutdown then Err (IoError OtherKind ''Engine init action is Shutdown'')
          else
            (case (if reuse_port opts then Ok None
                   else (case Balancer_new (lb opts) of Ok x \<Rightarrow> Ok (Some x) | _ \<Rightarrow> Panic)) of
               Ok lb_policy \<Rightarrow>
                 (case b_addrs b of
                    None \<Rightarrow> Panic
                  | Some addrs \<Rightarrow>
                      Ok \<lparr>en_address = addrs, en_options = opts, en_handler = handler, en_lb_policy = lb_policy\<rparr>)
             | _ \<Rightarrow> Panic))"

subsection \<open>The engine handle\<close>

record acceptor_handle =
  ah_waker :: waker
  ah_running :: bool

record engine_handler =
  e_acceptor :: "acceptor_handle option"
  e_loops :: "loop_handle list option"

definition engine_handler_new :: engine_handler where
  "engine_handler_new = \<lparr>e_acceptor = None, e_loops = None\<rparr>"

text \<open>\<open>OnceLock::set\<close> keeps the first value.\<close>

definition set_acceptor :: "acceptor_handle \<Rightarrow> engine_handler \<Rightarrow> engine_handler" where
  "set_acceptor a eh = (case e_acceptor eh of None \<Rightarrow> eh\<lparr>e_acceptor := Some a\<rparr> | Some _ \<Rightarrow> eh)"

definition set_workers :: "loop_handle list \<Rightarrow> engine_handler \<Rightarrow> engine_handler" where
  "set_workers hs eh = (case e_loops eh of None \<Rightarrow> eh\<lparr>e_loops := Some hs\<rparr> | Some _ \<Rightarrow> eh)"

text \<open>A call on the \<open>idx\<close>-th loop handle.\<close>

definition on_loop :: "nat \<Rightarrow> (unit, loop_handle \<times> 'w) prog \<Rightarrow> loop_handle list \<Rightarrow> (unit, engine_handler \<times> 'w) prog" where
  "on_loop idx m hs = (\<lambda>(eh, w).
     case m (hs ! idx, w) of (r, (h', w')) \<Rightarrow> (r, (eh\<lparr>e_loops := Some (hs[idx := h'])\<rparr>, w')))"

definition send_command :: "'w os \<Rightarrow> gfd \<Rightarrow> command \<Rightarrow> (unit, engine_handler \<times> 'w) prog" where
  "send_command os g cmd = (\<lambda>(eh, w).
     case e_loops eh of
       None \<Rightarrow> (Ok (), (eh, w))
     | Some hs \<Rightarrow>
         (let idx = event_loop_index g in
          if idx < length hs then on_loop idx (discard_result (trigger os (priority cmd) cmd)) hs (eh, w)
          else (Ok (), (eh, w))))"

text \<open>The loop over the handles; \<open>idx\<close> is the next one, \<open>n\<close> how many are left.\<close>

fun shutdown_loops :: "'w os \<Rightarrow> nat \<Rightarrow> nat \<Rightarrow> (unit, engine_handler \<times> 'w) prog" where
  "shutdown_loops os idx 0 s = (Ok (), s)"
| "shutdown_loops os idx (Suc n) (eh, w) =
     (case e_loops eh of
        None \<Rightarrow> (Ok (), (eh, w))
      | Some hs \<Rightarrow> bind_io (on_loop idx (handle_shutdown os) hs) (\<lambda>_. shutdown_loops os (Suc idx) n) (eh, w))"

definition shutdown_acceptor :: "'w os \<Rightarrow> (unit, engine_handler \<times> 'w) prog" where
  "shutdown_acceptor os = (\<lambda>(eh, w).
     case e_acceptor eh of
       None \<Rightarrow> (Ok (), (eh, w))
     | Some a \<Rightarrow>
         (case discard_result (wake os) (ah_waker a, w) of
            (r, (wk, w')) \<Rightarrow> (r, (eh\<lparr>e_acceptor := Some \<lparr>ah_waker = wk, ah_running = False\<rparr>\<rparr>, w'))))"

definition engine_shutdown :: "'w os \<Rightarrow> (unit, engine_handler \<times> 'w) prog" where
  "engine_shutdown os =
     bind_io (shutdown_acceptor os) (\<lambda>_ (eh, w).
       case e_loops eh of None \<Rightarrow> (Ok (), (eh, w)) | Some hs \<Rightarrow> shutdown_loops os 0 (length hs) (eh, w))"

subsection \<open>Starting the loops\<close>

text \<open>The loop over the cores: loop \<open>i\<close> gets the identifier \<open>i as u8\<close>. The answer is the loops.\<close>

fun new_loops :: "'w reactor \<Rightarrow> options \<Rightarrow> u32 \<Rightarrow> nat \<Rightarrow> nat \<Rightarrow> (('w, 'k) eloop list, 'w) prog" where
  "new_loops rx opts mono_seq i 0 = ret []"
| "new_loops rx opts mono_seq i (Suc n) =
     bind_io (eloop_new rx (of_nat i) opts 0 mono_seq) (\<lambda>el.
     bind_io (new_loops rx opts mono_seq (Suc i) n) (\<lambda>els. ret (el # els)))"

subsection \<open>Lemmas\<close>

lemma trigger_ok_result: "discard_result (trigger os p cmd) s = (Ok (), snd (trigger os p cmd s))"
proof -
  obtain h w where s: "s = (h, w)" by fastforce
  obtain b where "fst (trigger os p cmd (h, w)) = Ok b" using trigger_outcome [of os p cmd h w] by blast
  then show ?thesis by (cases "trigger os p cmd (h, w)") (simp add: s discard_result_def)
qed

lemma trigger_pending:
  assumes "h_connected h"
  shows "cmd \<in> set (pending (fst (snd (trigger os p cmd (h, w)))))
    \<and> set (pending h) \<subseteq> set (pending (fst (snd (trigger os p cmd (h, w)))))
    \<and> awoken (h_waker (fst (snd (trigger os p cmd (h, w)))))"
proof (rule trigger_cases [of p cmd h os w])
  fix h' assume "enqueue p cmd h = (False, h')"
  with enqueue_open [OF assms, of p cmd] show ?thesis by auto
next
  fix h' w' b
  assume e: "enqueue p cmd h = (True, h')"
    and t: "trigger os p cmd (h, w) = (Ok b, (h'\<lparr>h_waker := (h_waker h')\<lparr>awoken := True\<rparr>\<rparr>, w'))"
  from enqueue_open [OF assms, of p cmd] e obtain xs ys where "pending h = xs @ ys" "pending h' = xs @ cmd # ys" by auto
  with t show ?thesis by (auto simp: pending_def)
qed

lemma new_loops_handles:
  fixes els :: "('w, 'k) eloop list"
  shows "fst (new_loops rx opts mono_seq i n w) = Ok els \<Longrightarrow>
     length els = n \<and> (\<forall>j < n. l_id (els ! j) = of_nat (i + j) \<and> h_connected (l_handle (els ! j))
       \<and> pending (l_handle (els ! j)) = [] \<and> l_handle (els ! j) = handle_new (unat (of_nat (i + j) :: u8)) (waker_id (h_waker (l_handle (els ! j)))) 0)"
proof (induction n arbitrary: i w els)
  case 0
  then show ?case by (simp add: ret_def)
next
  case (Suc n)
  obtain r :: "('w, 'k) eloop list outcome" and sf where "new_loops rx opts mono_seq i (Suc n) w = (r, sf)" by fastforce
  with Suc.prems have run: "new_loops rx opts mono_seq i (Suc n) w = (Ok els, sf)" by simp
  obtain el w1 where e: "eloop_new rx (of_nat i) opts 0 mono_seq w = (Ok el, w1)"
    and "bind_io (new_loops rx opts mono_seq (Suc i) n) (\<lambda>els. ret (el # els)) w1 = (Ok els, sf)"
    using run unfolding new_loops.simps by (rule bind_io_OkE)
  from this(2) obtain els' w2 where n: "new_loops rx opts mono_seq (Suc i) n w1 = (Ok els', w2)"
    and "ret (el # els') w2 = (Ok els, sf)" by (rule bind_io_OkE)
  from this(2) have els': "els = el # els'" by (simp add: ret_def)
  from Suc.IH [of "Suc i" w1 els'] n els' have ih: "length els' = n"
    "\<forall>j < n. l_id (els' ! j) = of_nat (Suc i + j) \<and> h_connected (l_handle (els' ! j))
       \<and> pending (l_handle (els' ! j)) = [] \<and> l_handle (els' ! j) = handle_new (unat (of_nat (Suc i + j) :: u8)) (waker_id (h_waker (l_handle (els' ! j)))) 0"
    by simp_all
  from e have "l_id el = of_nat i" "h_connected (l_handle el)" "pending (l_handle el) = []"
    "l_handle el = handle_new (unat (of_nat i :: u8)) (waker_id (h_waker (l_handle el))) 0"
    by (auto simp: eloop_new_def handle_new_def pending_def split: prod.splits sum.splits)
  with ih els' show ?case by (auto simp: nth_Cons ac_simps split: nat.split)
qed

lemma send_command_index:
  assumes "e_loops eh = Some hs" and "event_loop_index g < length hs" and "h_connected (hs ! event_loop_index g)"
  shows "\<exists>eh' w' hs'. send_command os g cmd (eh, w) = (Ok (), (eh', w')) \<and> e_loops eh' = Some hs'
    \<and> length hs' = length hs \<and> (\<forall>i. i \<noteq> event_loop_index g \<longrightarrow> hs' ! i = hs ! i)
    \<and> cmd \<in> set (pending (hs' ! event_loop_index g)) \<and> set (pending (hs ! event_loop_index g)) \<subseteq> set (pending (hs' ! event_loop_index g))
    \<and> awoken (h_waker (hs' ! event_loop_index g))"
proof -
  obtain r h' w' where t: "trigger os (priority cmd) cmd (hs ! event_loop_index g, w) = (r, (h', w'))" by (metis surj_pair)
  from trigger_pending [OF assms(3), of cmd os "priority cmd" w] t
  have "cmd \<in> set (pending h')" "set (pending (hs ! event_loop_index g)) \<subseteq> set (pending h')" "awoken (h_waker h')" by simp_all
  with assms(1,2) t trigger_ok_result [of os "priority cmd" cmd "(hs ! event_loop_index g, w)"] show ?thesis
    by (simp add: send_command_def on_loop_def)
qed

lemma shutdown_loops_spec:
  assumes "e_loops eh = Some hs" and "idx + n = length hs" and "\<forall>h \<in> set hs. h_connected h"
  shows "\<exists>eh' w' hs'. shutdown_loops os idx n (eh, w) = (Ok (), (eh', w')) \<and> e_loops eh' = Some hs' \<and> length hs' = length hs
    \<and> e_acceptor eh' = e_acceptor eh \<and> (\<forall>i < idx. hs' ! i = hs ! i)
    \<and> (\<forall>i. idx \<le> i \<and> i < length hs \<longrightarrow> Shutdown \<in> set (pending (hs' ! i)) \<and> awoken (h_waker (hs' ! i)))"
  using assms
proof (induction n arbitrary: idx eh hs w)
  case 0
  then show ?case by auto
next
  case (Suc n)
  obtain r h' w' where t: "trigger os (priority Shutdown) Shutdown (hs ! idx, w) = (r, (h', w'))" by (metis surj_pair)
  have idx: "idx < length hs" using Suc.prems(2) by simp
  with Suc.prems(3) have conn: "h_connected (hs ! idx)" by simp
  from trigger_pending [OF conn, of Shutdown os "priority Shutdown" w] t
  have h': "Shutdown \<in> set (pending h')" "awoken (h_waker h')" by simp_all
  from trigger_ext [of "hs ! idx" os "priority Shutdown" Shutdown w] t conn have "h_connected h'" by (simp add: handle_ext_def)
  with Suc.prems(3) set_update_subset_insert [of hs idx h'] have conn': "\<forall>h \<in> set (hs[idx := h']). h_connected h" by auto
  let ?eh = "eh\<lparr>e_loops := Some (hs[idx := h'])\<rparr>"
  have step: "on_loop idx (handle_shutdown os) hs (eh, w) = (Ok (), (?eh, w'))"
    using t trigger_ok_result [of os "priority Shutdown" Shutdown "(hs ! idx, w)"]
    by (simp add: on_loop_def handle_shutdown_def)
  have "e_loops ?eh = Some (hs[idx := h'])" "Suc idx + n = length (hs[idx := h'])" using Suc.prems(2) by simp_all
  from Suc.IH [OF this conn', of w'] obtain eh' w2 hs' where
    ih: "shutdown_loops os (Suc idx) n (?eh, w') = (Ok (), (eh', w2))" "e_loops eh' = Some hs'" "length hs' = length hs"
      "e_acceptor eh' = e_acceptor eh" "\<forall>i < Suc idx. hs' ! i = hs[idx := h'] ! i"
      "\<forall>i. Suc idx \<le> i \<and> i < length hs \<longrightarrow> Shutdown \<in> set (pending (hs' ! i)) \<and> awoken (h_waker (hs' ! i))"
    by (simp, blast)
  have "Shutdown \<in> set (pending (hs' ! i)) \<and> awoken (h_waker (hs' ! i))" if "idx \<le> i" "i < length hs" for i
    using that ih(5,6) h' idx by (cases "i = idx") auto
  moreover have "\<forall>i < idx. hs' ! i = hs ! i" using ih(5) by simp
  moreover have "shutdown_loops os idx (Suc n) (eh, w) = (Ok (), (eh', w2))"
    using Suc.prems(1) step ih(1) by (simp add: bind_io_Ok)
  ultimately show ?case using ih(2-4) by (intro exI [of _ eh'] exI [of _ w2] exI [of _ hs']) simp
qed

subsection \<open>Properties\<close>

text \<open>
  C24: a command sent through the engine reaches the loop that issued the descriptor. For an engine
  of up to 256 loops and a descriptor that loop \<open>j\<close> has made, \<open>send_command\<close> puts the command into
  the channels of loop \<open>j\<close>, loses none that was there, sets its wake flag and touches no other loop.
\<close>

theorem send_command_routes:
  assumes loops: "fst (new_loops rx opts seq 0 n w0) = Ok els" and n: "n \<le> 256" and j: "j < n"
    and g: "Gfd_new dbg fd (l_id (els ! j)) t s = (Ok g, s')"
    and hs: "e_loops eh = Some hs" "length hs = n" and conn: "h_connected (hs ! j)"
  shows "\<exists>eh' w' hs'. send_command os g cmd (eh, w) = (Ok (), (eh', w')) \<and> e_loops eh' = Some hs' \<and> length hs' = n
    \<and> (\<forall>i. i \<noteq> j \<longrightarrow> hs' ! i = hs ! i)
    \<and> cmd \<in> set (pending (hs' ! j)) \<and> set (pending (hs ! j)) \<subseteq> set (pending (hs' ! j)) \<and> awoken (h_waker (hs' ! j))"
proof -
  from new_loops_handles [OF loops] j have "l_id (els ! j) = of_nat j" by simp
  with Gfd_new_fields(1) [OF g] n j have "event_loop_index g = j" by (simp add: unat_of_nat)
  with send_command_index [OF hs(1), where g = g and cmd = cmd] hs(2) j conn show ?thesis by simp
qed

definition two_loops :: engine_handler where
  "two_loops = \<lparr>e_acceptor = None, e_loops = Some [handle_new 0 7 0, handle_new 1 8 0]\<rparr>"

definition sim_reactor2 :: "sim reactor" where
  "sim_reactor2 = \<lparr>poller_new = (\<lambda>w. (Inr (), w)), waker_new = (\<lambda>w. (Inr 7, w)), buffer_capacity = (\<lambda>n. n),
     poll_wait = (\<lambda>t (h, w). (Inr [], h, w)), clock_now = (\<lambda>w. (0, w))\<rparr>"

lemma sim_new_loops:
  "\<exists>els :: (sim, unit) eloop list. fst (new_loops sim_reactor2 opts seq i n w) = Ok els"
proof (induction n arbitrary: i w)
  case 0
  then show ?case by (simp add: ret_def)
next
  case (Suc n)
  obtain el :: "(sim, unit) eloop" where el: "eloop_new sim_reactor2 (of_nat i) opts 0 seq w = (Ok el, w)"
    by (simp add: eloop_new_def sim_reactor2_def)
  from Suc.IH [of "Suc i" w] obtain els w2 where
    "new_loops sim_reactor2 opts seq (Suc i) n w = (Ok (els :: (sim, unit) eloop list), w2)" by (metis prod.collapse)
  with el show ?case by (simp add: bind_io_def ret_def)
qed

lemma send_command_routes_witness:
  "\<exists>eh' w' hs'. send_command sim_os \<lparr>g_seq = 5, g_index_info = 0x1000003, g_fd = 9\<rparr> Wake (two_loops, sim0) = (Ok (), (eh', w'))
    \<and> e_loops eh' = Some hs' \<and> hs' ! 0 = handle_new 0 7 0 \<and> Wake \<in> set (pending (hs' ! 1)) \<and> awoken (h_waker (hs' ! 1))"
proof -
  obtain r :: "(sim, unit) eloop list outcome" and w1 where nl: "new_loops sim_reactor2 default_options 0 0 2 sim0 = (r, w1)" by fastforce
  then obtain els where r: "r = Ok els" and id: "l_id (els ! 1) = 1"
    by (auto simp: numeral_2_eq_2 eloop_new_def sim_reactor2_def bind_io_def ret_def)
  have g: "Gfd_new False 9 (l_id (els ! 1)) 3 5 = (Ok \<lparr>g_seq = 5, g_index_info = 0x1000003, g_fd = 9\<rparr>, 6)"
    by (simp add: Gfd_new_def id [unfolded One_nat_def])
  from send_command_routes [of sim_reactor2 default_options 0 2 sim0 els 1 False 9 3 5 _ 6 two_loops "[handle_new 0 7 0, handle_new 1 8 0]",
      OF _ _ _ g, of sim_os Wake sim0] nl r
  show ?thesis by (simp add: two_loops_def handle_new_def) fastforce
qed

text \<open>
  The 257th loop is out of reach. The identifier of a loop is its index cut to eight bits, so
  the descriptors of loop \<open>j \<ge> 256\<close> name loop \<open>j mod 256\<close>: a command sent to them goes to that loop,
  and the loop that owns the connection sees nothing.
\<close>

theorem loop_256_misrouted:
  assumes loops: "fst (new_loops rx opts seq 0 n w0) = Ok els" and j: "256 \<le> j" "j < n"
    and g: "Gfd_new dbg fd (l_id (els ! j)) t s = (Ok g, s')"
    and hs: "e_loops eh = Some hs" "length hs = n" and conn: "h_connected (hs ! (j mod 256))"
  shows "\<exists>eh' w' hs'. send_command os g cmd (eh, w) = (Ok (), (eh', w')) \<and> e_loops eh' = Some hs'
    \<and> hs' ! j = hs ! j \<and> cmd \<in> set (pending (hs' ! (j mod 256)))"
proof -
  from new_loops_handles [OF loops] j have "l_id (els ! j) = of_nat j" by simp
  with Gfd_new_fields(1) [OF g] have i: "event_loop_index g = j mod 256" by (simp add: unat_of_nat)
  have "j mod 256 < length hs" "j mod 256 \<noteq> j" using j hs(2) mod_less_divisor [of 256 j] by linarith+
  with send_command_index [OF hs(1), where g = g and cmd = cmd] i conn show ?thesis by metis
qed

definition many_loops :: engine_handler where
  "many_loops = \<lparr>e_acceptor = None, e_loops = Some (map (\<lambda>i. handle_new i 7 0) [0..<257])\<rparr>"

lemma loop_256_misrouted_witness:
  "\<exists>eh' w' hs'. send_command sim_os \<lparr>g_seq = 5, g_index_info = 3, g_fd = 9\<rparr> Wake (many_loops, sim0) = (Ok (), (eh', w'))
    \<and> e_loops eh' = Some hs' \<and> hs' ! 256 = handle_new 256 7 0 \<and> Wake \<in> set (pending (hs' ! 0))"
proof -
  obtain els :: "(sim, unit) eloop list" where nl: "fst (new_loops sim_reactor2 default_options 0 0 257 sim0) = Ok els"
    using sim_new_loops by blast
  let ?hs = "map (\<lambda>i. handle_new i 7 0) [0..<257]"
  have "l_id (els ! 256) = 0" using new_loops_handles [OF nl] by simp
  then have g: "Gfd_new False 9 (l_id (els ! 256)) 3 5 = (Ok \<lparr>g_seq = 5, g_index_info = 3, g_fd = 9\<rparr>, 6)"
    by (simp add: Gfd_new_def)
  have hs: "e_loops many_loops = Some ?hs" "length ?hs = 257" "h_connected (?hs ! (256 mod 256))" "?hs ! 256 = handle_new 256 7 0"
    by (simp_all add: many_loops_def handle_new_def del: upt_rec_numeral)
  from loop_256_misrouted [OF nl _ _ g hs(1-3), of sim_os Wake sim0] hs(4) show ?thesis by (simp del: upt_rec_numeral)
qed

text \<open>
  Shutting the engine down reaches everyone. After \<open>EngineHandler::shutdown\<close> the flag of the
  acceptor is down and its waker set, and every loop has a \<open>Shutdown\<close> command in its channels and
  its wake flag set.
\<close>

theorem engine_shutdown_reaches_all:
  assumes "e_loops eh = Some hs" and "\<forall>h \<in> set hs. h_connected h" and "e_acceptor eh = Some a"
  shows "\<exists>eh' w' hs' a'. engine_shutdown os (eh, w) = (Ok (), (eh', w'))
    \<and> e_acceptor eh' = Some a' \<and> \<not> ah_running a' \<and> awoken (ah_waker a')
    \<and> e_loops eh' = Some hs' \<and> length hs' = length hs
    \<and> (\<forall>h \<in> set hs'. Shutdown \<in> set (pending h) \<and> awoken (h_waker h))"
proof -
  obtain r wk w1 where wake: "wake os (ah_waker a, w) = (r, (wk, w1))" by (metis surj_pair)
  from wake_outcome [of os "(ah_waker a, w)"] wake_state [of os "ah_waker a" w] wake
  have r: "r \<noteq> Panic" "r \<noteq> Diverge" "awoken wk" by simp_all
  let ?eh = "eh\<lparr>e_acceptor := Some \<lparr>ah_waker = wk, ah_running = False\<rparr>\<rparr>"
  have acc: "shutdown_acceptor os (eh, w) = (Ok (), (?eh, w1))"
    using wake r assms(3) by (cases r) (simp_all add: shutdown_acceptor_def discard_result_def)
  have "e_loops ?eh = Some hs" "0 + length hs = length hs" using assms(1) by simp_all
  from shutdown_loops_spec [OF this assms(2), where os = os and w = w1] show ?thesis
  proof (elim exE conjE)
    fix eh' w' hs'
    assume sl: "shutdown_loops os 0 (length hs) (?eh, w1) = (Ok (), (eh', w'))" "e_loops eh' = Some hs'" "length hs' = length hs"
        "e_acceptor eh' = e_acceptor ?eh"
        "\<forall>i. 0 \<le> i \<and> i < length hs \<longrightarrow> Shutdown \<in> set (pending (hs' ! i)) \<and> awoken (h_waker (hs' ! i))"
    have "\<forall>h \<in> set hs'. Shutdown \<in> set (pending h) \<and> awoken (h_waker h)"
      unfolding all_set_conv_all_nth using sl(3,5) by simp
    moreover have "engine_shutdown os (eh, w) = (Ok (), (eh', w'))"
      using acc sl(1) assms(1) by (simp add: engine_shutdown_def bind_io_Ok)
    moreover have "e_acceptor eh' = Some \<lparr>ah_waker = wk, ah_running = False\<rparr>" using sl(4) by simp
    ultimately show ?thesis using sl(2,3) r(3)
      by (intro exI [of _ eh'] exI [of _ w'] exI [of _ hs'] exI [of _ "\<lparr>ah_waker = wk, ah_running = False\<rparr>"]) simp
  qed
qed

lemma engine_shutdown_reaches_all_witness:
  "\<exists>eh' w' hs'. engine_shutdown sim_os (two_loops\<lparr>e_acceptor := Some \<lparr>ah_waker = \<lparr>waker_id = 4, awoken = False\<rparr>, ah_running = True\<rparr>\<rparr>, sim0) = (Ok (), (eh', w'))
    \<and> e_loops eh' = Some hs' \<and> length hs' = 2 \<and> (\<forall>h \<in> set hs'. Shutdown \<in> set (pending h) \<and> awoken (h_waker h))"
proof -
  let ?a = "\<lparr>ah_waker = \<lparr>waker_id = 4, awoken = False\<rparr>, ah_running = True\<rparr>"
  have "e_loops (two_loops\<lparr>e_acceptor := Some ?a\<rparr>) = Some [handle_new 0 7 0, handle_new 1 8 0]"
    "\<forall>h \<in> set [handle_new 0 7 0, handle_new 1 8 0]. h_connected h"
    "e_acceptor (two_loops\<lparr>e_acceptor := Some ?a\<rparr>) = Some ?a"
    by (simp_all add: two_loops_def handle_new_def)
  from engine_shutdown_reaches_all [OF this, of sim_os sim0] show ?thesis by auto
qed

end
