(* ===== verification/Framing.thy ===== *)
theory Framing
  imports Prelude
begin

text \<open>
  Messages in a byte stream. A framing says how a message is written and how the first message is
  taken off a buffer; the law is that a framed message is taken off as it was, and that a buffer
  that ends inside a frame yields nothing. From the law: however the stream is cut into reads, a
  receiver that takes all complete messages after each read gets the messages that were sent.
\<close>

subsection \<open>Receiving\<close>

text \<open>All complete messages of a buffer (\<open>n\<close> bounds their number), and what is left.\<close>

fun deframe :: "(bytes \<Rightarrow> ('m \<times> bytes) option) \<Rightarrow> nat \<Rightarrow> bytes \<Rightarrow> 'm list \<times> bytes" where
  "deframe unframe 0 s = ([], s)"
| "deframe unframe (Suc n) s =
     (case unframe s of
        None \<Rightarrow> ([], s)
      | Some (m, rest) \<Rightarrow> (case deframe unframe n rest of (ms, rest') \<Rightarrow> (m # ms, rest')))"

text \<open>A receiver with a buffer, fed one read after the other.\<close>

fun feed :: "(bytes \<Rightarrow> ('m \<times> bytes) option) \<Rightarrow> bytes \<Rightarrow> bytes list \<Rightarrow> 'm list \<times> bytes" where
  "feed unframe buf [] = ([], buf)"
| "feed unframe buf (chunk # chunks) =
     (case deframe unframe (length (buf @ chunk)) (buf @ chunk) of
        (ms, rest) \<Rightarrow> (case feed unframe rest chunks of (ms', rest') \<Rightarrow> (ms @ ms', rest')))"

subsection \<open>The law\<close>

locale framing =
  fixes frame :: "'m \<Rightarrow> bytes"
    and unframe :: "bytes \<Rightarrow> ('m \<times> bytes) option"
    and sendable :: "'m \<Rightarrow> bool"
  assumes unframe_frame: "sendable m \<Longrightarrow> unframe (frame m @ rest) = Some (m, rest)"
    and unframe_inside: "sendable m \<Longrightarrow> frame m = p @ q \<Longrightarrow> q \<noteq> [] \<Longrightarrow> unframe p = None"
    and unframe_shorter: "unframe s = Some (m, rest) \<Longrightarrow> length rest < length s"
begin

lemma unframe_Nil: "unframe [] = None"
  using unframe_shorter [of "[]"] by (cases "unframe []") auto

lemma frame_nonempty: "sendable m \<Longrightarrow> frame m \<noteq> []"
  using unframe_frame [of m "[]"] unframe_Nil by auto

text \<open>The bound on the number of messages does not matter once it is the length of the buffer.\<close>

lemma deframe_bound: "length s \<le> n \<Longrightarrow> length s \<le> n' \<Longrightarrow> deframe unframe n s = deframe unframe n' s"
proof (induction n arbitrary: n' s)
  case 0
  then show ?case by (cases n') (simp_all add: unframe_Nil)
next
  case (Suc n)
  show ?case
  proof (cases "unframe s")
    case None
    then show ?thesis by (cases n') simp_all
  next
    case (Some mr)
    then obtain m rest where mr: "unframe s = Some (m, rest)" by (cases mr) simp
    then have "length rest < length s" by (rule unframe_shorter)
    with Suc.prems obtain k where "n' = Suc k" "length rest \<le> n" "length rest \<le> k" by (cases n') auto
    with Suc.IH [of rest k] mr show ?thesis by simp
  qed
qed

text \<open>A buffer that ends inside a frame, or between two.\<close>

lemma deframe_stream:
  assumes "\<forall>m \<in> set ms. sendable m" and "unframe p = None" and "length ms \<le> n"
  shows "deframe unframe n (concat (map frame ms) @ p) = (ms, p)"
  using assms
proof (induction ms arbitrary: n)
  case Nil
  then show ?case by (cases n) simp_all
next
  case (Cons m ms)
  then obtain n' where "n = Suc n'" by (cases n) simp_all
  with Cons show ?case by (simp add: unframe_frame)
qed

lemma length_stream: "\<forall>m \<in> set ms. sendable m \<Longrightarrow> length ms \<le> length (concat (map frame ms))"
proof (induction ms)
  case (Cons m ms)
  then have "frame m \<noteq> []" by (simp add: frame_nonempty)
  then have "1 \<le> length (frame m)" by (cases "frame m") simp_all
  moreover have "length ms \<le> length (concat (map frame ms))" using Cons by simp
  ultimately show ?case by simp
qed simp

lemma prefix_split:
  assumes "\<forall>m \<in> set ms. sendable m" and "s @ t = concat (map frame ms) @ p"
    and tail: "p = [] \<or> (\<exists>m q. sendable m \<and> frame m = p @ q \<and> q \<noteq> [])"
  shows "\<exists>ms1 ms2 p1. ms = ms1 @ ms2 \<and> s = concat (map frame ms1) @ p1 \<and> p1 @ t = concat (map frame ms2) @ p
    \<and> unframe p1 = None"
  using assms(1,2)
proof (induction ms arbitrary: s)
  case Nil
  then have st: "p = s @ t" by simp
  have "unframe s = None"
  proof (cases "p = []")
    case True
    with st show ?thesis by (simp add: unframe_Nil)
  next
    case False
    with tail obtain m q where "sendable m" "frame m = p @ q" "q \<noteq> []" by blast
    with st unframe_inside [of m s "t @ q"] show ?thesis by simp
  qed
  with Nil show ?case by (intro exI [of _ "[]"] exI [of _ s]) simp
next
  case (Cons m ms)
  from Cons.prems(2) have "s @ t = frame m @ (concat (map frame ms) @ p)" by simp
  then consider us where "s = frame m @ us" "us @ t = concat (map frame ms) @ p"
    | us where "frame m = s @ us" "us \<noteq> []" "us @ (concat (map frame ms) @ p) = t"
    by (auto simp: append_eq_append_conv2)
       (metis append_Nil append_Nil2)
  then show ?case
  proof cases
    case 1
    from Cons.IH [OF _ 1(2)] Cons.prems(1) obtain ms1 ms2 p1 where "ms = ms1 @ ms2"
      "us = concat (map frame ms1) @ p1" "p1 @ t = concat (map frame ms2) @ p" "unframe p1 = None" by auto
    with 1(1) show ?thesis by (intro exI [of _ "m # ms1"] exI [of _ ms2] exI [of _ p1]) simp
  next
    case 2
    with Cons.prems(1) have "unframe s = None" by (auto intro: unframe_inside)
    with 2 show ?thesis by (intro exI [of _ "[]"] exI [of _ "m # ms"] exI [of _ s]) (auto simp flip: append_assoc)
  qed
qed

text \<open>Cutting the stream differently makes no difference.\<close>

lemma feed_stream:
  assumes "\<forall>m \<in> set ms. sendable m" and "buf @ concat chunks = concat (map frame ms) @ p" and "unframe buf = None"
    and tail: "p = [] \<or> (\<exists>m q. sendable m \<and> frame m = p @ q \<and> q \<noteq> [])"
  shows "feed unframe buf chunks = (ms, p)"
  using assms(1-3)
proof (induction chunks arbitrary: buf ms)
  case Nil
  have "unframe p = None" using tail unframe_Nil unframe_inside by blast
  from deframe_stream [OF Nil.prems(1) this order.refl] Nil.prems(2)
  have "deframe unframe (length ms) buf = (ms, p)" by simp
  moreover have "deframe unframe (length ms) buf = ([], buf)"
    using Nil.prems(3) by (cases "length ms") simp_all
  ultimately show ?case by simp
next
  case (Cons chunk chunks)
  from Cons.prems(2) have "(buf @ chunk) @ concat chunks = concat (map frame ms) @ p" by simp
  from prefix_split [OF Cons.prems(1) this tail] obtain ms1 ms2 p1 where
    split: "ms = ms1 @ ms2" "buf @ chunk = concat (map frame ms1) @ p1" "p1 @ concat chunks = concat (map frame ms2) @ p"
      "unframe p1 = None" by blast
  have ok: "\<forall>m \<in> set ms1. sendable m" "\<forall>m \<in> set ms2. sendable m" using Cons.prems(1) split(1) by auto
  have "length ms1 \<le> length (buf @ chunk)"
    using length_stream [OF ok(1)] by (simp add: split(2) del: length_append) simp
  from deframe_stream [OF ok(1) split(4) this] split(2)
  have "deframe unframe (length (buf @ chunk)) (buf @ chunk) = (ms1, p1)" by simp
  with Cons.IH [OF ok(2) split(3,4)] split(1) show ?case by simp
qed

end

end
