(* ===== verification/Codec.thy ===== *)
theory Codec
  imports Handler Framing Outbound Inbound
begin

text \<open>
  Model of \<open>src/codec.rs\<close>, of \<open>next_message\<close> and \<open>send\<close> of \<open>src/connection.rs\<close>, and of the codec and
  the handler of \<open>examples/json-codec.rs\<close>. A codec is an object of user code with a state \<open>'k\<close>; the
  record holds its two methods. A message is a \<open>Box<dyn Any>\<close>: the types that the code downcasts to
  are constructors of \<open>any_msg\<close>. The \<open>serde_json\<close> functions are a parameter.
\<close>

subsection \<open>Codecs\<close>

datatype 'v any_msg = AnyBytes bytes | AnyValue 'v

record ('k, 'm) codec =
  codec_decode :: "'k \<Rightarrow> bytes \<Rightarrow> (io_error + 'm option) \<times> 'k \<times> bytes"
  codec_encode :: "'k \<Rightarrow> 'm \<Rightarrow> bytes \<Rightarrow> (io_error + unit) \<times> 'k \<times> bytes"

definition raw_decode :: "unit \<Rightarrow> bytes \<Rightarrow> (io_error + 'v any_msg option) \<times> unit \<times> bytes" where
  "raw_decode k src = (if src = [] then (Inr None, k, src) else (Inr (Some (AnyBytes src)), k, []))"

definition raw_encode :: "unit \<Rightarrow> 'v any_msg \<Rightarrow> bytes \<Rightarrow> (io_error + unit) \<times> unit \<times> bytes" where
  "raw_encode k msg dst =
     (case msg of
        AnyBytes b \<Rightarrow> (Inr (), k, dst @ b)
      | AnyValue v \<Rightarrow> (Inl (IoError InvalidInput ''RawCodec expects BytesMut message''), k, dst))"

definition RawCodec :: "(unit, 'v any_msg) codec" where
  "RawCodec = \<lparr>codec_decode = raw_decode, codec_encode = raw_encode\<rparr>"

subsection \<open>Messages of a connection\<close>

definition set_codec :: "'k \<Rightarrow> 'k conn \<Rightarrow> 'k conn" where
  "set_codec codec c = c\<lparr>c_codec := Some codec\<rparr>"

definition next_message :: "('k, 'm) codec \<Rightarrow> ('m option, 'k conn) prog" where
  "next_message cd c =
     (case c_codec c of
        None \<Rightarrow> (Ok None, c)
      | Some k \<Rightarrow>
          (case c_in_buffer c of
             None \<Rightarrow> (Ok None, c)
           | Some inb \<Rightarrow>
               (case codec_decode cd k inb of
                  (Inl e, k', inb') \<Rightarrow> (Err e, c\<lparr>c_codec := Some k', c_in_buffer := Some inb'\<rparr>)
                | (Inr m, k', inb') \<Rightarrow> (Ok m, c\<lparr>c_codec := Some k', c_in_buffer := Some inb'\<rparr>))))"

definition conn_send :: "('k, 'm) codec \<Rightarrow> 'w os \<Rightarrow> 'm \<Rightarrow> (unit, 'k conn \<times> 'w) prog" where
  "conn_send cd os msg = (\<lambda>(c, w).
     case c_codec c of
       None \<Rightarrow> (Err (IoError OtherKind ''No codec set''), (c, w))
     | Some k \<Rightarrow>
         (case codec_encode cd k msg [] of
            (Inl e, k', buf) \<Rightarrow> (Err e, (c\<lparr>c_codec := Some k'\<rparr>, w))
          | (Inr _, k', buf) \<Rightarrow> bind_io (write_bytes os buf) (\<lambda>_. ret ()) (c\<lparr>c_codec := Some k'\<rparr>, w)))"

subsection \<open>Length-prefixed JSON\<close>

definition HEAD_SIZE :: nat where
  "HEAD_SIZE = 4"

text \<open>\<open>put_u32\<close> and \<open>from_be_bytes\<close>.\<close>

definition put_u32 :: "u32 \<Rightarrow> bytes" where
  "put_u32 n = [ucast (drop_bit 24 n), ucast (drop_bit 16 n), ucast (drop_bit 8 n), ucast n]"

definition from_be_bytes :: "byte \<Rightarrow> byte \<Rightarrow> byte \<Rightarrow> byte \<Rightarrow> u32" where
  "from_be_bytes a b c d = push_bit 24 (ucast a) OR push_bit 16 (ucast b) OR push_bit 8 (ucast c) OR ucast d"

record 'v json_lib =
  to_vec :: "'v \<Rightarrow> string + bytes"
  from_slice :: "bytes \<Rightarrow> string + 'v"

definition json_decode :: "'v json_lib \<Rightarrow> unit \<Rightarrow> bytes \<Rightarrow> (io_error + 'v any_msg option) \<times> unit \<times> bytes" where
  "json_decode lib k src =
     (if length src < HEAD_SIZE then (Inr None, k, src)
      else
        (let len = unat (from_be_bytes (src ! 0) (src ! 1) (src ! 2) (src ! 3)) in
         if length src < HEAD_SIZE + len then (Inr None, k, src)
         else
           (let body = take len (drop HEAD_SIZE src); src' = drop len (drop HEAD_SIZE src) in
            case from_slice lib body of
              Inl e \<Rightarrow> (Inl (IoError InvalidData e), k, src')
            | Inr val \<Rightarrow> (Inr (Some (AnyValue val)), k, src'))))"

definition json_encode :: "'v json_lib \<Rightarrow> unit \<Rightarrow> 'v any_msg \<Rightarrow> bytes \<Rightarrow> (io_error + unit) \<times> unit \<times> bytes" where
  "json_encode lib k msg dst =
     (case msg of
        AnyBytes b \<Rightarrow> (Inl (IoError InvalidInput ''JsonCodec expects serde_json::Value''), k, dst)
      | AnyValue val \<Rightarrow>
          (case to_vec lib val of
             Inl e \<Rightarrow> (Inl (IoError InvalidData e), k, dst)
           | Inr body \<Rightarrow> (Inr (), k, dst @ put_u32 (of_nat (length body)) @ body)))"

definition JsonCodec :: "'v json_lib \<Rightarrow> (unit, 'v any_msg) codec" where
  "JsonCodec lib = \<lparr>codec_decode = json_decode lib, codec_encode = json_encode lib\<rparr>"

text \<open>\<open>on_traffic\<close> of the example: answer every message that can be decoded; a failed send is reported only.\<close>

lemma json_decode_shorter:
  "json_decode lib k src = (Inr (Some m), k', src') \<Longrightarrow> length src' < length src"
  by (auto simp: json_decode_def HEAD_SIZE_def Let_def split: if_splits sum.splits)

lemma next_message_shorter:
  "next_message (JsonCodec lib) c = (Ok (Some m), c') \<Longrightarrow>
     length (opt_list (c_in_buffer c')) < length (opt_list (c_in_buffer c))"
  by (auto simp: next_message_def JsonCodec_def split: option.splits prod.splits sum.splits
      dest: json_decode_shorter)

lemma write_bytes_in_buffer: "c_in_buffer (fst (snd (write_bytes os buf (c, w)))) = c_in_buffer c"
  by (auto simp: write_bytes_def push_out_def split: option.splits prod.splits sum.splits)

lemma conn_send_in_buffer:
  assumes "conn_send cd os m (c, w) = (r, (c', w'))"
  shows "c_in_buffer c' = c_in_buffer c"
proof (cases "c_codec c")
  case None
  with assms show ?thesis by (simp add: conn_send_def)
next
  case (Some k)
  obtain r1 k1 buf where e: "codec_encode cd k m [] = (r1, k1, buf)" by (metis surj_pair)
  obtain r2 c2 w2 where wb: "write_bytes os buf (c\<lparr>c_codec := Some k1\<rparr>, w) = (r2, (c2, w2))" by (metis surj_pair)
  with write_bytes_in_buffer [of os buf "c\<lparr>c_codec := Some k1\<rparr>" w] have "c_in_buffer c2 = c_in_buffer c" by simp
  with assms Some e wb show ?thesis
    by (cases r1; cases r2) (auto simp: conn_send_def bind_io_def ret_def)
qed

text \<open>\<open>on_open\<close> installs the codec, which has no state of its own.\<close>

definition json_open :: "unit conn \<Rightarrow> action \<times> unit conn" where
  "json_open c = (ActNone, set_codec () c)"

function json_traffic :: "'w os \<Rightarrow> 'v json_lib \<Rightarrow> unit conn \<Rightarrow> 'w \<Rightarrow> unit outcome \<times> unit conn \<times> 'w" where
  "json_traffic os lib c w =
     (case next_message (JsonCodec lib) c of
        (Ok (Some (AnyValue val)), c') \<Rightarrow>
          (case conn_send (JsonCodec lib) os (AnyValue val) (c', w) of
             (Ok _, (c2, w2)) \<Rightarrow> json_traffic os lib c2 w2
           | (Err _, (c2, w2)) \<Rightarrow> json_traffic os lib c2 w2
           | (Panic, s) \<Rightarrow> (Panic, s)
           | (Diverge, s) \<Rightarrow> (Diverge, s))
      | (Ok (Some (AnyBytes _)), c') \<Rightarrow> json_traffic os lib c' w
      | (Panic, c') \<Rightarrow> (Panic, (c', w))
      | (Diverge, c') \<Rightarrow> (Diverge, (c', w))
      | (_, c') \<Rightarrow> (Ok (), (c', w)))"
  by pat_completeness auto
termination
proof (relation "measure (\<lambda>(os, lib, c, w). length (opt_list (c_in_buffer c)))")
qed (auto dest!: next_message_shorter [OF sym] conn_send_in_buffer [OF sym] conn_send_in_buffer)

declare json_traffic.simps [simp del]

subsection \<open>The framing\<close>

definition frame32 :: "bytes \<Rightarrow> bytes" where
  "frame32 body = put_u32 (of_nat (length body)) @ body"

definition unframe32 :: "bytes \<Rightarrow> (bytes \<times> bytes) option" where
  "unframe32 s =
     (if length s < HEAD_SIZE then None
      else
        (let len = unat (from_be_bytes (s ! 0) (s ! 1) (s ! 2) (s ! 3)) in
         if length s < HEAD_SIZE + len then None
         else Some (take len (drop HEAD_SIZE s), drop len (drop HEAD_SIZE s))))"

lemma be_roundtrip:
  "from_be_bytes (ucast (drop_bit 24 n)) (ucast (drop_bit 16 n)) (ucast (drop_bit 8 n)) (ucast n) = n"
  unfolding from_be_bytes_def
proof (rule bit_word_eqI)
  fix i assume "i < LENGTH(32)"
  then have i: "i < 32" by simp
  show "bit (push_bit 24 (ucast (ucast (drop_bit 24 n) :: byte) :: u32) OR push_bit 16 (ucast (ucast (drop_bit 16 n) :: byte))
      OR push_bit 8 (ucast (ucast (drop_bit 8 n) :: byte)) OR ucast (ucast n :: byte)) i = bit n i"
  proof -
    from i consider "i < 8" | "8 \<le> i" "i < 16" | "16 \<le> i" "i < 24" | "24 \<le> i" "i < 32" by linarith
    then show ?thesis by cases (auto simp: bit_simps)
  qed
qed

lemma length_put_u32 [simp]: "length (put_u32 n) = 4"
  by (simp add: put_u32_def)

lemma put_u32_head:
  "from_be_bytes ((put_u32 n @ s) ! 0) ((put_u32 n @ s) ! 1) ((put_u32 n @ s) ! 2) ((put_u32 n @ s) ! 3) = n"
  by (simp add: put_u32_def be_roundtrip nth_append)

interpretation length_prefixed: framing frame32 unframe32 "\<lambda>body. length body < 2 ^ 32"
proof
  fix body rest :: bytes
  assume len: "length body < 2 ^ 32"
  then have n: "unat (of_nat (length body) :: u32) = length body" by (simp add: unat_of_nat)
  show "unframe32 (frame32 body @ rest) = Some (body, rest)"
    using put_u32_head [of "of_nat (length body)" "body @ rest"] n
    by (simp add: unframe32_def frame32_def HEAD_SIZE_def Let_def)
  fix p q :: bytes
  assume f: "frame32 body = p @ q" and q: "q \<noteq> []"
  show "unframe32 p = None"
  proof (cases "length p < 4")
    case True
    then show ?thesis by (simp add: unframe32_def HEAD_SIZE_def)
  next
    case False
    then have "take 4 p = take 4 (frame32 body)" using f by simp
    then have "take 4 p = put_u32 (of_nat (length body))" by (simp add: frame32_def)
    then have p: "p = put_u32 (of_nat (length body)) @ drop 4 p" by (metis append_take_drop_id)
    have "length p < 4 + length body" using arg_cong [OF f, of length] q by (cases q) (simp_all add: frame32_def)
    with put_u32_head [of "of_nat (length body)" "drop 4 p"] n show ?thesis
      unfolding p [symmetric] by (simp add: unframe32_def HEAD_SIZE_def Let_def)
  qed
next
  fix s rest :: bytes and body
  assume "unframe32 s = Some (body, rest)"
  then show "length rest < length s" by (auto simp: unframe32_def HEAD_SIZE_def Let_def split: if_splits)
qed

text \<open>The codec is the framing with the JSON library on the bodies.\<close>

lemma json_decode_frame:
  "json_decode lib k src =
     (case unframe32 src of
        None \<Rightarrow> (Inr None, k, src)
      | Some (body, rest) \<Rightarrow>
          (case from_slice lib body of
             Inl e \<Rightarrow> (Inl (IoError InvalidData e), k, rest)
           | Inr val \<Rightarrow> (Inr (Some (AnyValue val)), k, rest)))"
  by (simp add: json_decode_def unframe32_def Let_def split: sum.split)

subsection \<open>Answering\<close>

text \<open>What is documented of the JSON library: a value that has been printed is read back.\<close>

definition json_prints :: "'v json_lib \<Rightarrow> 'v \<Rightarrow> bytes \<Rightarrow> bool" where
  "json_prints lib v b \<longleftrightarrow> to_vec lib v = Inr b \<and> from_slice lib b = Inr v \<and> length b < 2 ^ 32"

lemma write_bytes_sends:
  assumes ok: "transport_ok os wire" and sk: "c_socket c = Some sk"
    and soft: "\<forall>w buf e w'. socket_write os w sk buf = (Inl e, w') \<longrightarrow> retryable e"
  shows "\<exists>c' w'. write_bytes os buf (c, w) = (Ok (length buf), (c', w')) \<and> same_but_out c c'
    \<and> outstream wire sk (c', w') = outstream wire sk (c, w) @ buf"
proof (rule bytes_sink.write_cases [OF ok sk, of buf w])
  fix c' w' assume "write_bytes os buf (c, w) = (Ok (length buf), (c', w'))"
    "outstream wire sk (c', w') = outstream wire sk (c, w) @ buf" "same_but_out c c'"
  then show ?thesis by blast
next
  fix e w' assume e: "write_bytes os buf (c, w) = (Err e, (c, w'))" "\<not> retryable e" "\<not> out_busy c"
  obtain r w1 where r: "socket_write os w sk buf = (r, w1)" by fastforce
  with e sk have "r = Inl e" by (cases r) (auto simp: write_bytes_def split: if_splits)
  with soft r e(2) show ?thesis by blast
qed

lemma same_but_out_codec: "same_but_out c c' \<Longrightarrow> c_codec c' = c_codec c"
  by (cases c; cases c') (simp add: same_but_out_def)

lemma conn_send_value:
  assumes ok: "transport_ok os wire" and sk: "c_socket c = Some sk" and k: "c_codec c = Some k"
    and soft: "\<forall>w buf e w'. socket_write os w sk buf = (Inl e, w') \<longrightarrow> retryable e" and v: "json_prints lib v b"
  shows "\<exists>c' w'. conn_send (JsonCodec lib) os (AnyValue v) (c, w) = (Ok (), (c', w')) \<and> same_but_out c c'
    \<and> outstream wire sk (c', w') = outstream wire sk (c, w) @ frame32 b"
proof -
  have eq: "c\<lparr>c_codec := Some ()\<rparr> = c" using k by (cases c) simp
  have e: "codec_encode (JsonCodec lib) k (AnyValue v) [] = (Inr (), (), frame32 b)"
    using v by (simp add: JsonCodec_def json_encode_def json_prints_def frame32_def)
  from write_bytes_sends [OF ok sk soft, of "frame32 b" w] obtain c' w' where
    "write_bytes os (frame32 b) (c, w) = (Ok (length (frame32 b)), (c', w'))" "same_but_out c c'"
    "outstream wire sk (c', w') = outstream wire sk (c, w) @ frame32 b" by blast
  moreover have "conn_send (JsonCodec lib) os (AnyValue v) (c, w) = bind_io (write_bytes os (frame32 b)) (\<lambda>_. ret ()) (c, w)"
    using k e by (simp add: conn_send_def, simp only: eq)
  ultimately show ?thesis by (auto simp: bind_io_def ret_def)
qed

lemma next_message_frame:
  assumes "c_codec c = Some k" and "c_in_buffer c = Some (frame32 b @ rest)" and "json_prints lib v b"
  shows "next_message (JsonCodec lib) c = (Ok (Some (AnyValue v)), c\<lparr>c_in_buffer := Some rest\<rparr>)"
  using assms length_prefixed.unframe_frame [of b rest]
  by (simp add: next_message_def JsonCodec_def json_decode_frame json_prints_def)

text \<open>
  The JSON server answers every complete message, in order. With complete messages in the
  left-over buffer, followed by an incomplete one or none, and a kernel that never refuses a write
  for good, \<open>on_traffic\<close> returns; the answers appended to the outbound stream are exactly those
  messages, framed again, and the incomplete one stays in the buffer.
\<close>

theorem json_server_answers:
  assumes ok: "transport_ok os wire" and sk: "c_socket c = Some sk" and k: "c_codec c = Some k"
    and soft: "\<forall>w buf e w'. socket_write os w sk buf = (Inl e, w') \<longrightarrow> retryable e"
    and vs: "list_all2 (json_prints lib) vs bodies"
    and buf: "c_in_buffer c = Some (concat (map frame32 bodies) @ p)" and p: "unframe32 p = None"
  shows "\<exists>c' w'. json_traffic os lib c w = (Ok (), (c', w')) \<and> c_in_buffer c' = Some p
    \<and> wire w' sk @ concat (opt_list (c_out_buffer c'))
        = wire w sk @ concat (opt_list (c_out_buffer c)) @ concat (map frame32 bodies)"
  using vs sk k buf
proof (induction vs bodies arbitrary: c w rule: list_all2_induct)
  case Nil
  then have "next_message (JsonCodec lib) c = (Ok None, c)"
    using p by (simp add: next_message_def JsonCodec_def json_decode_frame)
  with Nil show ?case by (simp add: json_traffic.simps)
next
  case (Cons v vs b bodies)
  let ?rest = "concat (map frame32 bodies) @ p"
  let ?c1 = "c\<lparr>c_in_buffer := Some ?rest\<rparr>"
  have nm: "next_message (JsonCodec lib) c = (Ok (Some (AnyValue v)), ?c1)"
    using Cons.prems Cons.hyps by (intro next_message_frame) simp_all
  have c1: "c_socket ?c1 = Some sk" "c_codec ?c1 = Some k" using Cons.prems by simp_all
  from conn_send_value [OF ok c1 soft Cons.hyps(1), of w] obtain c2 w2 where
    sent: "conn_send (JsonCodec lib) os (AnyValue v) (?c1, w) = (Ok (), (c2, w2))" "same_but_out ?c1 c2"
      "outstream wire sk (c2, w2) = outstream wire sk (?c1, w) @ frame32 b" by blast
  from same_but_outD [OF sent(2)] same_but_out_codec [OF sent(2)] c1
  have c2: "c_socket c2 = Some sk" "c_codec c2 = Some k" "c_in_buffer c2 = Some ?rest" by simp_all
  from Cons.IH [OF c2, of w2] nm sent show ?case
    by (auto simp: json_traffic.simps [of os lib c w] outstream_def)
qed

lemma list_lib_prints: "length b < 2 ^ 32 \<Longrightarrow> json_prints \<lparr>to_vec = Inr, from_slice = Inr\<rparr> b b"
  by (simp add: json_prints_def)

lemma sim_soft_writes:
  "\<forall>w buf e w'. socket_write (sim_os\<lparr>tcp_write := \<lambda>w s buf. sim_accept 2 w (Tcp s) buf\<rparr>) w (Tcp 3) buf = (Inl e, w') \<longrightarrow> retryable e"
  by (simp add: socket_write_def sim_accept_def Let_def)

text \<open>A kernel that takes two bytes of each write; the JSON values are byte lists.\<close>

lemma json_server_answers_witness:
  "\<exists>c' w'. json_traffic (sim_os\<lparr>tcp_write := \<lambda>w s buf. sim_accept 2 w (Tcp s) buf\<rparr>) \<lparr>to_vec = Inr, from_slice = Inr\<rparr>
      (sample_conn\<lparr>c_codec := Some (), c_in_buffer := Some (frame32 [1, 2] @ frame32 [] @ [0, 0])\<rparr>) sim0 = (Ok (), (c', w'))
    \<and> c_in_buffer c' = Some [0, 0]
    \<and> sim_sent w' (Tcp 3) @ concat (opt_list (c_out_buffer c')) = [0, 0, 0, 2, 1, 2, 0, 0, 0, 0]"
proof -
  let ?os = "sim_os\<lparr>tcp_write := \<lambda>w s buf. sim_accept 2 w (Tcp s) buf\<rparr>"
  let ?c = "sample_conn\<lparr>c_codec := Some (), c_in_buffer := Some (frame32 [1, 2] @ frame32 [] @ [0, 0])\<rparr>"
  have ok: "transport_ok ?os sim_sent"
    using sim_transport_ok sim_accept_contract by (simp add: transport_ok_def)
  have vs: "list_all2 (json_prints \<lparr>to_vec = Inr, from_slice = Inr\<rparr>) [[1, 2], []] [[1, 2], []]"
    by (simp add: list_lib_prints)
  have "\<exists>c' w'. json_traffic ?os \<lparr>to_vec = Inr, from_slice = Inr\<rparr> ?c sim0 = (Ok (), (c', w')) \<and> c_in_buffer c' = Some [0, 0]
      \<and> sim_sent w' (Tcp 3) @ concat (opt_list (c_out_buffer c'))
          = sim_sent sim0 (Tcp 3) @ concat (opt_list (c_out_buffer ?c)) @ concat (map frame32 [[1, 2], []])"
    by (rule json_server_answers [OF ok _ _ sim_soft_writes vs]) (simp_all add: unframe32_def HEAD_SIZE_def)
  then show ?thesis by (simp add: sim0_def frame32_def put_u32_def)
qed

text \<open>
  A sender that encodes one message after the other into one buffer, and what a receiver gets from one
  call of \<open>decode\<close>: nothing yet, or a message or an error, with the rest of the buffer.
\<close>

fun encode_all :: "('k, 'm) codec \<Rightarrow> 'k \<Rightarrow> 'm list \<Rightarrow> bytes \<Rightarrow> (io_error + unit) \<times> 'k \<times> bytes" where
  "encode_all cd k [] dst = (Inr (), k, dst)"
| "encode_all cd k (m # ms) dst =
     (case codec_encode cd k m dst of
        (Inl e, k', dst') \<Rightarrow> (Inl e, k', dst')
      | (Inr _, k', dst') \<Rightarrow> encode_all cd k' ms dst')"

definition decoded :: "(unit, 'm) codec \<Rightarrow> bytes \<Rightarrow> ((io_error + 'm) \<times> bytes) option" where
  "decoded cd s =
     (case codec_decode cd () s of
        (Inl e, _, rest) \<Rightarrow> Some (Inl e, rest)
      | (Inr (Some m), _, rest) \<Rightarrow> Some (Inr m, rest)
      | (Inr None, _, rest) \<Rightarrow> None)"

definition encoded :: "(unit, 'm) codec \<Rightarrow> io_error + 'm \<Rightarrow> bytes" where
  "encoded cd x = (case x of Inl e \<Rightarrow> [] | Inr m \<Rightarrow> snd (snd (codec_encode cd () m [])))"

definition prints_value :: "'v json_lib \<Rightarrow> io_error + 'v any_msg \<Rightarrow> bool" where
  "prints_value lib x \<longleftrightarrow> (\<exists>v b. x = Inr (AnyValue v) \<and> json_prints lib v b)"

lemma json_encode_prints:
  "json_prints lib v b \<Longrightarrow> codec_encode (JsonCodec lib) k (AnyValue v) dst = (Inr (), k, dst @ frame32 b)"
  by (simp add: JsonCodec_def json_encode_def json_prints_def frame32_def)

lemma encoded_prints: "json_prints lib v b \<Longrightarrow> encoded (JsonCodec lib) (Inr (AnyValue v)) = frame32 b"
  by (simp add: encoded_def json_encode_prints)

lemma decoded_frame:
  "decoded (JsonCodec lib) s =
     (case unframe32 s of None \<Rightarrow> None
      | Some (body, rest) \<Rightarrow> Some (case from_slice lib body of Inl e \<Rightarrow> Inl (IoError InvalidData e) | Inr v \<Rightarrow> Inr (AnyValue v), rest))"
  by (simp add: decoded_def JsonCodec_def json_decode_frame split: option.split sum.split)

text \<open>The codec is a framing of the values that the JSON library prints.\<close>

interpretation json_codec: framing "encoded (JsonCodec lib)" "decoded (JsonCodec lib)" "prints_value lib" for lib
proof
  fix m rest assume "prints_value lib m"
  then obtain v b where m: "m = Inr (AnyValue v)" "json_prints lib v b" by (auto simp: prints_value_def)
  then have b: "length b < 2 ^ 32" "from_slice lib b = Inr v" by (simp_all add: json_prints_def)
  show "decoded (JsonCodec lib) (encoded (JsonCodec lib) m @ rest) = Some (m, rest)"
    using length_prefixed.unframe_frame [OF b(1), of rest] by (simp add: m encoded_prints [OF m(2)] decoded_frame b(2))
next
  fix m p q assume "prints_value lib m" and f: "encoded (JsonCodec lib) m = p @ q" and q: "q \<noteq> []"
  then obtain v b where m: "m = Inr (AnyValue v)" "json_prints lib v b" by (auto simp: prints_value_def)
  then have b: "length b < 2 ^ 32" by (simp add: json_prints_def)
  have "frame32 b = p @ q" using f by (simp add: m encoded_prints [OF m(2)])
  from length_prefixed.unframe_inside [OF b this q] show "decoded (JsonCodec lib) p = None" by (simp add: decoded_frame)
next
  fix s m rest assume "decoded (JsonCodec lib) s = Some (m, rest)"
  then show "length rest < length s"
    by (auto simp: decoded_frame dest: length_prefixed.unframe_shorter split: option.splits)
qed

lemma encode_all_json:
  "\<forall>v \<in> set vs. \<exists>b. json_prints lib v b \<Longrightarrow>
     encode_all (JsonCodec lib) k (map AnyValue vs) dst
       = (Inr (), k, dst @ concat (map (encoded (JsonCodec lib)) (map (\<lambda>v. Inr (AnyValue v)) vs)))"
proof (induction vs arbitrary: dst)
  case (Cons v vs)
  from Cons.prems obtain b where b: "json_prints lib v b" by auto
  from Cons show ?case by (simp add: json_encode_prints [OF b] encoded_prints [OF b])
qed simp


text \<open>The JSON values of the witness are byte lists, which print as themselves.\<close>

definition plain_lib :: "bytes json_lib" where
  "plain_lib = \<lparr>to_vec = Inr, from_slice = Inr\<rparr>"


text \<open>
  A message that arrives in one read is not delivered by that read. \<open>next_message\<close> decodes the
  left-over buffer only, while a handler runs with the new bytes still in the current one: with an
  empty left-over buffer and a whole frame in the current buffer, the codec would decode the
  readable bytes, yet \<open>on_traffic\<close> finds no message and answers nothing until more bytes come.
\<close>

theorem message_waits_for_next_read:
  assumes "c_in_buffer c = None" and "c_io_buffer c = Some (frame32 b)" and "json_prints lib v b"
  shows "json_decode lib k (avail c) = (Inr (Some (AnyValue v)), k, [])
    \<and> next_message (JsonCodec lib) c = (Ok None, c) \<and> json_traffic os lib c w = (Ok (), (c, w))"
proof -
  have "next_message (JsonCodec lib) c = (Ok None, c)"
    using assms(1) by (simp add: next_message_def split: option.split)
  moreover have "json_decode lib k (avail c) = (Inr (Some (AnyValue v)), k, [])"
    using assms length_prefixed.unframe_frame [of b "[]"] by (simp add: avail_def json_decode_frame json_prints_def)
  ultimately show ?thesis by (simp add: json_traffic.simps)
qed

lemma message_waits_for_next_read_witness:
  "json_traffic sim_os \<lparr>to_vec = Inr, from_slice = Inr\<rparr> (sample_conn\<lparr>c_codec := Some (), c_io_buffer := Some (frame32 [5])\<rparr>) sim0
    = (Ok (), (sample_conn\<lparr>c_codec := Some (), c_io_buffer := Some (frame32 [5])\<rparr>, sim0))"
  using message_waits_for_next_read [where c = "sample_conn\<lparr>c_codec := Some (), c_io_buffer := Some (frame32 [5])\<rparr>"
      and b = "[5]" and v = "[5]" and lib = "\<lparr>to_vec = Inr, from_slice = Inr\<rparr>" and os = sim_os and w = sim0 and k = "()"]
  by (simp add: list_lib_prints) (simp add: sample_conn_def conn_new_def)

end
