(* ===== verification/Text.thy ===== *)
theory Text
  imports Prelude "HOL-Library.Char_ord"
begin

text \<open>
  The string operations of the standard library that the code uses: printing and reading numbers in
  decimal and hexadecimal, \<open>str::parse::<i32>\<close>, \<open>trim\<close>, \<open>split_once\<close> and \<open>Path::display\<close>. A string is the list of its
  bytes; white space is the ASCII white space (files under \<open>/proc\<close> and \<open>/sys\<close> hold no other).
\<close>

subsection \<open>Digits\<close>

definition digit :: "nat \<Rightarrow> char" where
  "digit n = char_of (if n < 10 then 48 + n else 87 + n)"

text \<open>\<open>char::to_digit\<close> for the radix 10 or 16.\<close>

definition to_digit :: "nat \<Rightarrow> char \<Rightarrow> nat option" where
  "to_digit radix c =
     (let v = of_char c :: nat;
          d = (if 48 \<le> v \<and> v \<le> 57 then v - 48 else if 97 \<le> v \<and> v \<le> 102 then v - 87
               else if 65 \<le> v \<and> v \<le> 70 then v - 55 else 16)
      in if d < radix then Some d else None)"

fun show_radix :: "nat \<Rightarrow> nat \<Rightarrow> string" where
  "show_radix r n = (if n < r \<or> r < 2 then [digit n] else show_radix r (n div r) @ [digit (n mod r)])"

declare show_radix.simps [simp del]

abbreviation show_nat :: "nat \<Rightarrow> string" where
  "show_nat \<equiv> show_radix 10"

text \<open>The longest prefix of digits: how many, their value, and the rest.\<close>

fun read_digits :: "nat \<Rightarrow> nat \<Rightarrow> nat \<Rightarrow> string \<Rightarrow> nat \<times> nat \<times> string" where
  "read_digits r k acc [] = (k, acc, [])"
| "read_digits r k acc (c # cs) =
     (case to_digit r c of
        None \<Rightarrow> (k, acc, c # cs)
      | Some d \<Rightarrow> read_digits r (Suc k) (r * acc + d) cs)"

subsection \<open>Integers\<close>

definition strip_sign :: "string \<Rightarrow> int \<times> string" where
  "strip_sign s = (case s of c # cs \<Rightarrow> if c = CHR ''-'' then (-1, cs) else if c = CHR ''+'' then (1, cs) else (1, s) | [] \<Rightarrow> (1, []))"

definition parse_i32 :: "string \<Rightarrow> int option" where
  "parse_i32 s =
     (case strip_sign s of
        (sg, body) \<Rightarrow>
          (case read_digits 10 0 0 body of
             (k, n, rest) \<Rightarrow>
               if k = 0 \<or> rest \<noteq> [] then None
               else (let v = sg * int n in if - (2 ^ 31) \<le> v \<and> v < 2 ^ 31 then Some v else None)))"

text \<open>\<open>str::parse\<close> for an unsigned type with \<open>limit\<close> values: a plus sign is allowed.\<close>

definition parse_uint :: "nat \<Rightarrow> string \<Rightarrow> nat option" where
  "parse_uint limit s =
     (case read_digits 10 0 0 (if take 1 s = ''+'' then drop 1 s else s) of
        (k, n, rest) \<Rightarrow> if k = 0 \<or> rest \<noteq> [] \<or> limit \<le> n then None else Some n)"

subsection \<open>Trimming and splitting\<close>

definition is_space :: "char \<Rightarrow> bool" where
  "is_space c \<longleftrightarrow> of_char c \<in> {9, 10, 11, 12, 13, 32 :: nat}"

definition trim :: "string \<Rightarrow> string" where
  "trim s = rev (dropWhile is_space (rev (dropWhile is_space s)))"

fun split_once :: "string \<Rightarrow> string \<Rightarrow> (string \<times> string) option" where
  "split_once sep s =
     (if take (length sep) s = sep then Some ([], drop (length sep) s)
      else (case s of
              [] \<Rightarrow> None
            | c # cs \<Rightarrow> (case split_once sep cs of None \<Rightarrow> None | Some (a, b) \<Rightarrow> Some (c # a, b))))"

declare split_once.simps [simp del]

subsection \<open>UTF-8\<close>

text \<open>
  \<open>Path::display\<close> prints the bytes of a path as UTF-8: it takes one sequence after the other off
  the front and writes U+FFFD for every piece that cannot be continued to a sequence. \<open>utf8_tail n P s\<close>
  is how many of the \<open>n\<close> bytes that a first byte asks for are there; \<open>P\<close> is what the next one must satisfy.
\<close>

definition utf8_width :: "nat \<Rightarrow> nat" where
  "utf8_width b =
     (if b < 0x80 then 1 else if 0xC2 \<le> b \<and> b \<le> 0xDF then 2 else if 0xE0 \<le> b \<and> b \<le> 0xEF then 3
      else if 0xF0 \<le> b \<and> b \<le> 0xF4 then 4 else 0)"

definition second_byte :: "nat \<Rightarrow> char \<Rightarrow> bool" where
  "second_byte b c \<longleftrightarrow>
     (if b = 0xE0 then 0xA0 else if b = 0xF0 then 0x90 else 0x80) \<le> (of_char c :: nat)
     \<and> (of_char c :: nat) \<le> (if b = 0xED then 0x9F else if b = 0xF4 then 0x8F else 0xBF)"

fun utf8_tail :: "nat \<Rightarrow> (char \<Rightarrow> bool) \<Rightarrow> string \<Rightarrow> nat" where
  "utf8_tail 0 P s = 0"
| "utf8_tail (Suc n) P [] = 0"
| "utf8_tail (Suc n) P (c # cs) = (if P c then Suc (utf8_tail n (second_byte 0x80) cs) else 0)"

definition REPLACEMENT_CHARACTER :: string where
  "REPLACEMENT_CHARACTER = [CHR 0xEF, CHR 0xBF, CHR 0xBD]"

fun display :: "string \<Rightarrow> string" where
  "display [] = []"
| "display (c # cs) =
     (let n = utf8_width (of_char c); k = utf8_tail (n - 1) (second_byte (of_char c)) cs in
      (if n \<noteq> 0 \<and> k = n - 1 then c # take k cs else REPLACEMENT_CHARACTER) @ display (drop k cs))"

text \<open>The strings that are UTF-8.\<close>

fun utf8_ok :: "string \<Rightarrow> bool" where
  "utf8_ok [] \<longleftrightarrow> True"
| "utf8_ok (c # cs) \<longleftrightarrow>
     (let n = utf8_width (of_char c); k = utf8_tail (n - 1) (second_byte (of_char c)) cs in
      n \<noteq> 0 \<and> k = n - 1 \<and> utf8_ok (drop k cs))"

declare display.simps(2) [simp del] utf8_ok.simps(2) [simp del]

subsection \<open>Lemmas\<close>

text \<open>The two radices in use.\<close>

definition radix_ok :: "nat \<Rightarrow> bool" where
  "radix_ok r \<longleftrightarrow> r = 10 \<or> r = 16"

lemma radix_ok_simps [simp]: "radix_ok 10" "radix_ok 16"
  by (simp_all add: radix_ok_def)

lemma to_digit_digit [simp]: "radix_ok r \<Longrightarrow> n < r \<Longrightarrow> to_digit r (digit n) = Some n"
  by (auto simp: to_digit_def digit_def radix_ok_def Let_def)

lemma show_radix_nonempty [simp]: "show_radix r n \<noteq> []"
  by (subst show_radix.simps) simp

lemma show_radix_small: "n < r \<Longrightarrow> show_radix r n = [digit n]"
  by (subst show_radix.simps) simp

lemma show_radix_big: "radix_ok r \<Longrightarrow> \<not> n < r \<Longrightarrow> show_radix r n = show_radix r (n div r) @ [digit (n mod r)]"
  by (subst show_radix.simps) (auto simp: radix_ok_def)

lemma show_radix_digits: "radix_ok r \<Longrightarrow> set (show_radix r n) \<subseteq> digit ` {0..<r}"
proof (induction r n rule: show_radix.induct)
  case (1 r n)
  then have "0 < r" by (auto simp: radix_ok_def)
  with 1 show ?case by (subst show_radix.simps) (auto simp: image_iff radix_ok_def)
qed

lemma show_radix_head: "radix_ok r \<Longrightarrow> 0 < n \<Longrightarrow> \<exists>d cs. show_radix r n = digit d # cs \<and> 0 < d \<and> d < r"
proof (induction r n rule: show_radix.induct)
  case (1 r n)
  show ?case
  proof (cases "n < r")
    case True
    with 1(2,3) show ?thesis by (intro exI [of _ n] exI [of _ "[]"]) (simp add: show_radix_small)
  next
    case False
    with 1 have "0 < n div r" "\<not> (n < r \<or> r < 2)" by (auto simp: radix_ok_def div_greater_zero_iff)
    with 1 False show ?thesis by (auto simp: show_radix_big)
  qed
qed

lemma length_show_radix: "radix_ok r \<Longrightarrow> n < r ^ Suc k \<Longrightarrow> length (show_radix r n) \<le> Suc k"
proof (induction k arbitrary: n)
  case 0
  then show ?case by (simp add: show_radix_small)
next
  case (Suc k)
  show ?case
  proof (cases "n < r")
    case True
    then show ?thesis by (simp add: show_radix_small)
  next
    case False
    have "n div r < r ^ Suc k" using Suc.prems by (simp add: less_mult_imp_div_less mult.commute)
    with Suc.IH [OF Suc.prems(1) this] Suc.prems(1) False show ?thesis by (simp add: show_radix_big)
  qed
qed

lemma read_digits_append:
  assumes "radix_ok r" and "set ds \<subseteq> digit ` {0..<r}"
  shows "read_digits r k acc (ds @ s) = (case read_digits r k acc ds of (k', acc', _) \<Rightarrow> read_digits r k' acc' s)"
  using assms(2)
proof (induction ds arbitrary: k acc)
  case (Cons c ds)
  then obtain d where "c = digit d" "d < r" by auto
  with Cons assms(1) show ?case by simp
qed simp

lemma read_show_radix: "radix_ok r \<Longrightarrow> read_digits r k 0 (show_radix r n) = (k + length (show_radix r n), n, [])"
proof (induction r n arbitrary: k rule: show_radix.induct)
  case (1 r n)
  show ?case
  proof (cases "n < r")
    case True
    with 1 show ?thesis by (simp add: show_radix_small)
  next
    case False
    with 1 have "read_digits r k 0 (show_radix r (n div r)) = (k + length (show_radix r (n div r)), n div r, [])" "0 < r"
      by (auto simp: radix_ok_def)
    with 1(2) False show ?thesis by (simp add: show_radix_big read_digits_append show_radix_digits)
  qed
qed

text \<open>What is printed is read back, as long as it is followed by something that is not a digit.\<close>

lemma read_shown:
  assumes "radix_ok r" and "s = [] \<or> to_digit r (hd s) = None"
  shows "read_digits r 0 0 (show_radix r n @ s) = (length (show_radix r n), n, s)"
proof -
  have "read_digits r k n s = (k, n, s)" for k using assms(2) by (cases s) simp_all
  with read_show_radix [OF assms(1), of 0 n] show ?thesis by (simp add: read_digits_append [OF assms(1) show_radix_digits [OF assms(1)]])
qed

lemma parse_uint_show:
  assumes "n < limit"
  shows "parse_uint limit (show_nat n) = Some n"
proof -
  obtain c cs where s: "show_nat n = c # cs" by (cases "show_nat n") simp_all
  with show_radix_digits [of 10 n] obtain d where "c = digit d" "d < 10" by auto
  then have "c \<noteq> CHR ''+''" using to_digit_digit [of 10 d] by (auto simp: to_digit_def)
  with s have "take 1 (show_nat n) \<noteq> ''+''" by simp
  moreover have "read_digits 10 0 0 (show_nat n) = (length (show_nat n), n, [])" using read_show_radix [of 10 0 n] by simp
  ultimately show ?thesis using assms by (simp add: parse_uint_def)
qed

lemma parse_uint_bound: "parse_uint limit s = Some n \<Longrightarrow> n < limit"
  by (auto simp: parse_uint_def split: prod.splits if_splits)

lemma parse_i32_show:
  assumes "n < 2 ^ 31"
  shows "parse_i32 (show_nat n) = Some (int n)"
proof -
  obtain c cs where s: "show_nat n = c # cs" by (cases "show_nat n") simp_all
  with show_radix_digits [of 10 n] obtain d where "c = digit d" "d < 10" by auto
  then have "c \<noteq> CHR ''-''" "c \<noteq> CHR ''+''" using to_digit_digit [of 10 d] by (auto simp: to_digit_def)
  with s have "strip_sign (show_nat n) = (1, show_nat n)" by (simp add: strip_sign_def)
  moreover have "read_digits 10 0 0 (show_nat n) = (length (show_nat n), n, [])" using read_show_radix [of 10 0 n] by simp
  moreover have "int n < 2 ^ 31" using assms by (metis of_nat_less_iff of_nat_numeral of_nat_power)
  ultimately show ?thesis by (simp add: parse_i32_def)
qed

lemma trim_id: "s = [] \<or> \<not> is_space (hd s) \<and> \<not> is_space (last s) \<Longrightarrow> trim s = s"
  using dropWhile_eq_self_iff [of is_space s] dropWhile_eq_self_iff [of is_space "rev s"]
  by (auto simp: trim_def hd_rev)

lemma show_nat_no_space:
  assumes "c \<in> set (show_nat n)"
  shows "\<not> is_space c"
proof -
  from assms show_radix_digits [of 10 n] obtain d where "c = digit d" "d < 10" by auto
  then show ?thesis by (simp add: is_space_def digit_def)
qed

text \<open>A number on a line of its own.\<close>

lemma trim_show_line: "trim (show_nat n @ [CHR 0x0A]) = show_nat n"
proof -
  obtain c cs where s: "show_nat n = c # cs" by (cases "show_nat n") simp_all
  obtain l ls where r: "rev (show_nat n) = l # ls" by (cases "rev (show_nat n)") simp_all
  from r have "l \<in> set (show_nat n)" by (metis list.set_intros(1) set_rev)
  then have "\<not> is_space l" by (rule show_nat_no_space)
  moreover have "\<not> is_space c" using show_nat_no_space [of c n] s by simp
  moreover have "is_space (CHR 0x0A)" by (simp add: is_space_def)
  ultimately have "dropWhile is_space (rev (show_nat n @ [CHR 0x0A])) = rev (show_nat n)"
    "dropWhile is_space (show_nat n @ [CHR 0x0A]) = show_nat n @ [CHR 0x0A]"
    using s r by simp_all
  then show ?thesis by (simp add: trim_def)
qed

subsection \<open>What is printed of a path\<close>

lemma utf8_tail_full:
  "utf8_tail n P s = n \<Longrightarrow> n \<le> length s \<and> utf8_tail n P (take n s @ t) = n"
  by (induction n P s rule: utf8_tail.induct) (auto split: if_splits)

lemma display_utf8: "utf8_ok s \<Longrightarrow> display s = s"
proof (induction s rule: utf8_ok.induct)
  case (2 c cs)
  from 2(1) [OF refl refl] 2(2) show ?case by (auto simp: display.simps(2) utf8_ok.simps(2) Let_def)
qed simp

lemma utf8_ok_replacement: "utf8_ok (REPLACEMENT_CHARACTER @ s) = utf8_ok s"
  by (simp add: REPLACEMENT_CHARACTER_def utf8_ok.simps(2) Let_def utf8_width_def second_byte_def numeral_eq_Suc)

lemma utf8_ok_sequence:
  assumes "n = utf8_width (of_char c)" and "n \<noteq> 0" and "utf8_tail (n - 1) (second_byte (of_char c)) cs = n - 1"
  shows "utf8_ok (c # take (n - 1) cs @ s) = utf8_ok s"
  using utf8_tail_full [OF assms(3), of s] assms(1,2) by (simp add: utf8_ok.simps(2) Let_def)

lemma display_utf8_ok: "utf8_ok (display s)"
proof (induction s rule: display.induct)
  case (2 c cs)
  let ?n = "utf8_width (of_char c)" and ?k = "utf8_tail (utf8_width (of_char c) - 1) (second_byte (of_char c)) cs"
  note IH = 2 [OF refl refl]
  show ?case
  proof (cases "?n \<noteq> 0 \<and> ?k = ?n - 1")
    case True
    then have "display (c # cs) = c # take (?n - 1) cs @ display (drop ?k cs)" by (simp add: display.simps(2) Let_def)
    with IH True utf8_ok_sequence [OF refl, of c cs "display (drop ?k cs)"] show ?thesis by simp
  next
    case False
    then have "display (c # cs) = REPLACEMENT_CHARACTER @ display (drop ?k cs)" by (simp only: display.simps(2) Let_def if_False)
    with IH show ?thesis by (simp only: utf8_ok_replacement)
  qed
qed simp

lemma display_faithful: "display s = s \<longleftrightarrow> utf8_ok s"
  using display_utf8 [of s] display_utf8_ok [of s] by auto

lemma display_nonempty: "s \<noteq> [] \<Longrightarrow> display s \<noteq> []"
  by (cases s) (simp_all add: display.simps(2) Let_def REPLACEMENT_CHARACTER_def)

lemma utf8_ok_ascii [simp]: "(of_char c :: nat) < 0x80 \<Longrightarrow> utf8_ok (c # s) = utf8_ok s"
  by (simp add: utf8_ok.simps(2) utf8_width_def)

lemma display_ascii [simp]: "(of_char c :: nat) < 0x80 \<Longrightarrow> display (c # s) = c # display s"
  by (simp add: display.simps(2) utf8_width_def)

end
