(* ===== verification/OptionsBuilder.thy ===== *)
theory OptionsBuilder
  imports Options Text "HOL-Library.Log_Nat" "HOL-Library.Sublist"
begin

text \<open>
  Model of the rest of \<open>src/options.rs\<close>: the builder with its setters, the normalisation of sizes to
  powers of two, and the choice of the cores the loops run on. \<open>core_affinity\<close> and the topology files
  of Linux are outside the program: the list of cores and the function that reads a file are
  parameters.
\<close>

subsection \<open>Sizes\<close>

text \<open>
  \<open>usize::next_power_of_two\<close>: past \<open>2 ^ 63\<close> it panics with overflow checks (\<open>dbg\<close>) and wraps to 0
  without them.
\<close>

definition next_power_of_two :: "bool \<Rightarrow> usize \<Rightarrow> usize outcome" where
  "next_power_of_two dbg n =
     (let p = 2 ^ ceillog2 (unat n) in
      if p < (2 :: nat) ^ 64 then Ok (of_nat p) else if dbg then Panic else Ok 0)"

definition ceil_to_power_of_two :: "bool \<Rightarrow> usize \<Rightarrow> usize outcome" where
  "ceil_to_power_of_two dbg n = (if n \<le> 2 then Ok 2 else next_power_of_two dbg n)"

definition normalize_buffer_size :: "bool \<Rightarrow> usize \<Rightarrow> usize outcome" where
  "normalize_buffer_size dbg sz =
     (if sz \<le> 0 then Ok MAX_STREAM_BUFFER_CAP
      else if sz \<le> DEFAULT_BUFFER_SIZE then Ok DEFAULT_BUFFER_SIZE
      else ceil_to_power_of_two dbg sz)"

subsection \<open>The builder\<close>

record options_builder =
  ob_base_options :: "options option"
  ob_lb :: "load_balancing option"
  ob_reuse_addr :: "bool option"
  ob_reuse_port :: "bool option"
  ob_bind_to_device :: "string option"
  ob_num_event_loop :: "usize option"
  ob_read_buffer_cap :: "usize option"
  ob_write_buffer_cap :: "usize option"
  ob_lock_os_thread :: "bool option"
  ob_ticker :: "bool option"
  ob_tcp_keepalive :: "nat option"
  ob_tcp_keep_interval :: "nat option"
  ob_tcp_keep_count :: "u32 option"
  ob_tcp_no_delay :: "tcp_socket_opt option"
  ob_socket_recv_buffer :: "usize option"
  ob_socket_send_buffer :: "usize option"
  ob_edge_triggered_io_chunk :: "usize option"
  ob_log_path :: "string option"
  ob_log_level :: "level option"

definition builder_new :: options_builder where
  "builder_new =
     \<lparr>ob_base_options = None, ob_lb = None, ob_reuse_addr = None, ob_reuse_port = None, ob_bind_to_device = None, ob_num_event_loop = None, ob_read_buffer_cap = None, ob_write_buffer_cap = None, ob_lock_os_thread = None, ob_ticker = None, ob_tcp_keepalive = None, ob_tcp_keep_interval = None, ob_tcp_keep_count = None, ob_tcp_no_delay = None, ob_socket_recv_buffer = None, ob_socket_send_buffer = None, ob_edge_triggered_io_chunk = None, ob_log_path = None, ob_log_level = None\<rparr>"

definition with_options :: "options \<Rightarrow> options_builder \<Rightarrow> options_builder" where
  "with_options opts b = b\<lparr>ob_base_options := Some opts\<rparr>"

definition builder_lb :: "load_balancing \<Rightarrow> options_builder \<Rightarrow> options_builder" where
  "builder_lb val b = b\<lparr>ob_lb := Some val\<rparr>"

definition builder_reuse_addr :: "bool \<Rightarrow> options_builder \<Rightarrow> options_builder" where
  "builder_reuse_addr val b = b\<lparr>ob_reuse_addr := Some val\<rparr>"

definition builder_reuse_port :: "bool \<Rightarrow> options_builder \<Rightarrow> options_builder" where
  "builder_reuse_port val b = b\<lparr>ob_reuse_port := Some val\<rparr>"

definition builder_bind_to_device :: "string \<Rightarrow> options_builder \<Rightarrow> options_builder" where
  "builder_bind_to_device val b = b\<lparr>ob_bind_to_device := Some val\<rparr>"

definition builder_num_event_loop :: "usize \<Rightarrow> options_builder \<Rightarrow> options_builder" where
  "builder_num_event_loop val b = b\<lparr>ob_num_event_loop := Some val\<rparr>"

definition builder_read_buffer_cap :: "usize \<Rightarrow> options_builder \<Rightarrow> options_builder" where
  "builder_read_buffer_cap val b = b\<lparr>ob_read_buffer_cap := Some val\<rparr>"

definition builder_write_buffer_cap :: "usize \<Rightarrow> options_builder \<Rightarrow> options_builder" where
  "builder_write_buffer_cap val b = b\<lparr>ob_write_buffer_cap := Some val\<rparr>"

definition builder_lock_os_thread :: "bool \<Rightarrow> options_builder \<Rightarrow> options_builder" where
  "builder_lock_os_thread val b = b\<lparr>ob_lock_os_thread := Some val\<rparr>"

definition builder_ticker :: "bool \<Rightarrow> options_builder \<Rightarrow> options_builder" where
  "builder_ticker val b = b\<lparr>ob_ticker := Some val\<rparr>"

definition builder_tcp_keepalive :: "nat \<Rightarrow> options_builder \<Rightarrow> options_builder" where
  "builder_tcp_keepalive val b = b\<lparr>ob_tcp_keepalive := Some val\<rparr>"

definition builder_tcp_keepinterval :: "nat \<Rightarrow> options_builder \<Rightarrow> options_builder" where
  "builder_tcp_keepinterval val b = b\<lparr>ob_tcp_keep_interval := Some val\<rparr>"

definition builder_tcp_keepcount :: "u32 \<Rightarrow> options_builder \<Rightarrow> options_builder" where
  "builder_tcp_keepcount val b = b\<lparr>ob_tcp_keep_count := Some val\<rparr>"

definition builder_tcp_no_delay :: "tcp_socket_opt \<Rightarrow> options_builder \<Rightarrow> options_builder" where
  "builder_tcp_no_delay val b = b\<lparr>ob_tcp_no_delay := Some val\<rparr>"

definition builder_socket_recv_buffer :: "usize \<Rightarrow> options_builder \<Rightarrow> options_builder" where
  "builder_socket_recv_buffer val b = b\<lparr>ob_socket_recv_buffer := Some val\<rparr>"

definition builder_socket_send_buffer :: "usize \<Rightarrow> options_builder \<Rightarrow> options_builder" where
  "builder_socket_send_buffer val b = b\<lparr>ob_socket_send_buffer := Some val\<rparr>"

definition builder_edge_triggered_io_chunk :: "usize \<Rightarrow> options_builder \<Rightarrow> options_builder" where
  "builder_edge_triggered_io_chunk val b = b\<lparr>ob_edge_triggered_io_chunk := Some val\<rparr>"

definition builder_log_path :: "string \<Rightarrow> options_builder \<Rightarrow> options_builder" where
  "builder_log_path val b = b\<lparr>ob_log_path := Some val\<rparr>"

definition builder_log_level :: "level \<Rightarrow> options_builder \<Rightarrow> options_builder" where
  "builder_log_level val b = b\<lparr>ob_log_level := Some val\<rparr>"

text \<open>\<open>if let Some(v) = self.f { opts.f = v; }\<close>, for an optional field and for a plain one.\<close>

definition override :: "'a option \<Rightarrow> 'a \<Rightarrow> 'a" where
  "override v x = (case v of None \<Rightarrow> x | Some y \<Rightarrow> y)"

definition override_opt :: "'a option \<Rightarrow> 'a option \<Rightarrow> 'a option" where
  "override_opt v x = (case v of None \<Rightarrow> x | Some y \<Rightarrow> Some y)"

definition requested_options :: "options_builder \<Rightarrow> options" where
  "requested_options b =
     (let opts = (case ob_base_options b of None \<Rightarrow> default_options | Some base \<Rightarrow> base) in
      opts\<lparr>lb := override (ob_lb b) (lb opts),
           reuse_addr := override (ob_reuse_addr b) (reuse_addr opts),
           reuse_port := override (ob_reuse_port b) (reuse_port opts),
           bind_to_device := override (ob_bind_to_device b) (bind_to_device opts),
           num_event_loop := override (ob_num_event_loop b) (num_event_loop opts),
           read_buffer_cap := override (ob_read_buffer_cap b) (read_buffer_cap opts),
           write_buffer_cap := override (ob_write_buffer_cap b) (write_buffer_cap opts),
           lock_os_thread := override (ob_lock_os_thread b) (lock_os_thread opts),
           ticker := override (ob_ticker b) (ticker opts),
           tcp_keepalive := override_opt (ob_tcp_keepalive b) (tcp_keepalive opts),
           tcp_keep_interval := override_opt (ob_tcp_keep_interval b) (tcp_keep_interval opts),
           tcp_keep_count := override_opt (ob_tcp_keep_count b) (tcp_keep_count opts),
           tcp_no_delay := override (ob_tcp_no_delay b) (tcp_no_delay opts),
           socket_recv_buffer := override (ob_socket_recv_buffer b) (socket_recv_buffer opts),
           socket_send_buffer := override (ob_socket_send_buffer b) (socket_send_buffer opts),
           max_batch_size := override (ob_edge_triggered_io_chunk b) (max_batch_size opts),
           log_path := override_opt (ob_log_path b) (log_path opts),
           log_level := override (ob_log_level b) (log_level opts)\<rparr>)"

definition options_build :: "bool \<Rightarrow> options_builder \<Rightarrow> options outcome" where
  "options_build dbg b =
     (let opts = requested_options b in
      case (if 0 < max_batch_size opts then ceil_to_power_of_two dbg (max_batch_size opts) else Ok (push_bit 20 1)) of
        Ok batch \<Rightarrow>
          (case normalize_buffer_size dbg (read_buffer_cap opts) of
             Ok rcap \<Rightarrow>
               (case normalize_buffer_size dbg (write_buffer_cap opts) of
                  Ok wcap \<Rightarrow> Ok (opts\<lparr>read_buffer_cap := rcap, write_buffer_cap := wcap, max_batch_size := batch\<rparr>)
                | _ \<Rightarrow> Panic)
           | _ \<Rightarrow> Panic)
      | _ \<Rightarrow> Panic)"

subsection \<open>Cores\<close>

record topo_key =
  tk_socket :: string
  tk_core :: string

definition get_linux_topology_key :: "(string \<Rightarrow> string option) \<Rightarrow> nat \<Rightarrow> topo_key" where
  "get_linux_topology_key read_to_string cpu_id =
     (let base = ''/sys/devices/system/cpu/cpu'' @ show_nat cpu_id @ ''/topology'' in
      \<lparr>tk_socket = trim (case read_to_string (base @ ''/physical_package_id'') of Some s \<Rightarrow> s | None \<Rightarrow> ''0''),
       tk_core = trim (case read_to_string (base @ ''/core_id'') of Some s \<Rightarrow> s | None \<Rightarrow> show_nat cpu_id)\<rparr>)"

text \<open>The loop over the cores, with the keys seen so far and the cores selected so far.\<close>

fun select_cores :: "(nat \<Rightarrow> topo_key) \<Rightarrow> nat \<Rightarrow> topo_key set \<Rightarrow> nat list \<Rightarrow> nat list \<Rightarrow> nat list" where
  "select_cores key target seen selected [] = selected"
| "select_cores key target seen selected (core # cores) =
     (if target \<le> length selected then selected
      else if key core \<in> seen then select_cores key target seen selected cores
      else select_cores key target (insert (key core) seen) (selected @ [core]) cores)"

definition get_core_ids :: "(string \<Rightarrow> string option) \<Rightarrow> nat list option \<Rightarrow> usize option \<Rightarrow> nat list" where
  "get_core_ids read_to_string available limit =
     (let all_cores = (case available of None \<Rightarrow> [] | Some cs \<Rightarrow> cs) in
      case limit of
        None \<Rightarrow> all_cores
      | Some target_count \<Rightarrow>
          if target_count = 0 then all_cores
          else select_cores (get_linux_topology_key read_to_string) (unat target_count) {} [] all_cores)"

subsection \<open>Lemmas\<close>

text \<open>The least power of two that is at least \<open>n\<close>.\<close>

definition least_power :: "nat \<Rightarrow> nat \<Rightarrow> bool" where
  "least_power n p \<longleftrightarrow> (\<exists>k. p = 2 ^ k) \<and> n \<le> p \<and> p < 2 * n"

lemma next_power_of_two_ok:
  assumes "0 < unat n" and "unat n \<le> 2 ^ 63"
  shows "\<exists>p. next_power_of_two dbg n = Ok p \<and> least_power (unat n) (unat p)"
proof -
  let ?k = "ceillog2 (unat n)"
  have "?k \<le> 63" using assms by (simp add: ceillog2_le_iff)
  then have lt: "(2 :: nat) ^ ?k < 2 ^ 64" by (intro power_strict_increasing) simp_all
  have le: "unat n \<le> 2 ^ ?k" by (rule le_two_power_ceillog2)
  have gt: "2 ^ ?k < 2 * unat n" using two_power_ceillog2_gt [of "unat n"] assms(1) by simp
  have w: "unat (of_nat (2 ^ ?k) :: usize) = 2 ^ ?k" using lt by (simp add: unat_of_nat del: of_nat_power)
  have "next_power_of_two dbg n = Ok (of_nat (2 ^ ?k))" using lt by (simp only: next_power_of_two_def Let_def if_True)
  with w le gt show ?thesis unfolding least_power_def by (intro exI [of _ "of_nat (2 ^ ?k)"]) auto
qed

lemma least_power_unique:
  assumes "least_power n p" and "least_power n q"
  shows "p = q"
proof -
  from assms obtain i j where ij: "p = 2 ^ i" "q = 2 ^ j" "n \<le> p" "p < 2 * n" "n \<le> q" "q < 2 * n"
    by (auto simp: least_power_def)
  then have "(2 :: nat) ^ i < 2 ^ Suc j" "(2 :: nat) ^ j < 2 ^ Suc i" by simp_all
  then have "i < Suc j" "j < Suc i"
    using power_less_imp_less_exp [of "2 :: nat" i "Suc j"] power_less_imp_less_exp [of "2 :: nat" j "Suc i"] by simp_all
  with ij show ?thesis by simp
qed

lemma least_power_self: "least_power n p \<Longrightarrow> 0 < n \<Longrightarrow> least_power p p"
  by (auto simp: least_power_def)

lemma ceil_to_power_of_two_ok:
  assumes "unat n \<le> 2 ^ 63"
  shows "\<exists>p. ceil_to_power_of_two dbg n = Ok p \<and> least_power (max 2 (unat n)) (unat p)"
proof (cases "n \<le> 2")
  case True
  then have "max 2 (unat n) = 2" by (simp add: word_le_nat_alt)
  moreover have "least_power 2 2" by (auto simp: least_power_def intro: exI [of _ 1])
  ultimately show ?thesis using True by (auto simp: ceil_to_power_of_two_def)
next
  case False
  then have n: "2 < unat n" by (simp add: word_le_nat_alt)
  with next_power_of_two_ok [of n dbg] assms False show ?thesis by (auto simp: ceil_to_power_of_two_def max_def)
qed

lemma ceil_to_power_of_two_fixed:
  assumes "least_power (max 2 n) (unat p)" and "unat p \<le> 2 ^ 63"
  shows "ceil_to_power_of_two dbg p = Ok p"
proof -
  from assms(1) have p: "2 \<le> unat p" "least_power (unat p) (unat p)"
    using least_power_self by (auto simp: least_power_def)
  with ceil_to_power_of_two_ok [OF assms(2), of dbg] obtain q where
    q: "ceil_to_power_of_two dbg p = Ok q" "least_power (unat p) (unat q)" by (auto simp: max_def)
  with least_power_unique [OF p(2) q(2)] have "p = q" by (simp add: word_unat_eq_iff)
  with q(1) show ?thesis by simp
qed

text \<open>What a requested size becomes.\<close>

definition sized :: "usize \<Rightarrow> usize \<Rightarrow> bool" where
  "sized n p \<longleftrightarrow> (if n = 0 then p = MAX_STREAM_BUFFER_CAP else least_power (max 1024 (unat n)) (unat p))"

definition batch_sized :: "usize \<Rightarrow> usize \<Rightarrow> bool" where
  "batch_sized n p \<longleftrightarrow> (if n = 0 then p = 2 ^ 20 else least_power (max 2 (unat n)) (unat p))"

lemma least_power_bound:
  assumes "least_power n (unat (p :: usize))"
  shows "unat p \<le> 2 ^ 63"
proof -
  from assms obtain k where k: "unat p = 2 ^ k" by (auto simp: least_power_def)
  have "unat p < 2 ^ 64" using unsigned_less [of p] by simp
  with k have "k < 64" using power_less_imp_less_exp [of "2 :: nat" k 64] by simp
  then have "(2 :: nat) ^ k \<le> 2 ^ 63" by (intro power_increasing) simp_all
  with k show ?thesis by simp
qed

lemma normalize_buffer_size_ok:
  assumes "unat n \<le> 2 ^ 63"
  shows "\<exists>p. normalize_buffer_size dbg n = Ok p \<and> sized n p"
proof -
  consider "n = 0" | "n \<noteq> 0" "n \<le> 1024" | "1024 < n" by force
  then show ?thesis
  proof cases
    case 1
    then show ?thesis by (simp add: normalize_buffer_size_def sized_def)
  next
    case 2
    then have "max 1024 (unat n) = 1024" by (simp add: word_le_nat_alt)
    moreover have "least_power 1024 1024" by (auto simp: least_power_def intro: exI [of _ 10])
    ultimately show ?thesis using 2 by (simp add: normalize_buffer_size_def sized_def DEFAULT_BUFFER_SIZE_def)
  next
    case 3
    then have n: "1024 < unat n" by (simp add: word_less_nat_alt)
    from ceil_to_power_of_two_ok [OF assms, of dbg] obtain p where
      p: "ceil_to_power_of_two dbg n = Ok p" "least_power (max 2 (unat n)) (unat p)" by blast
    from 3 n p(1) have "normalize_buffer_size dbg n = Ok p"
      by (auto simp: normalize_buffer_size_def DEFAULT_BUFFER_SIZE_def)
    with p(2) n 3 show ?thesis by (auto simp: sized_def max_def)
  qed
qed

lemma normalize_buffer_size_fixed:
  assumes "sized n p"
  shows "normalize_buffer_size dbg p = Ok p"
proof (cases "n = 0")
  case True
  have "normalize_buffer_size dbg MAX_STREAM_BUFFER_CAP = Ok MAX_STREAM_BUFFER_CAP"
  proof -
    have "least_power (max 2 65536) (unat MAX_STREAM_BUFFER_CAP)"
      by (auto simp: least_power_def MAX_STREAM_BUFFER_CAP_def intro: exI [of _ 16])
    from ceil_to_power_of_two_fixed [OF this, of dbg]
    show ?thesis by (simp add: normalize_buffer_size_def MAX_STREAM_BUFFER_CAP_def DEFAULT_BUFFER_SIZE_def)
  qed
  with assms True show ?thesis by (simp add: sized_def)
next
  case False
  with assms have lp: "least_power (max 1024 (unat n)) (unat p)" by (simp add: sized_def)
  then have "1024 \<le> unat p" by (simp add: least_power_def)
  moreover from this have "least_power (max 2 (unat p)) (unat p)" using least_power_self [OF lp] by (simp add: max_def)
  then have "ceil_to_power_of_two dbg p = Ok p" using ceil_to_power_of_two_fixed least_power_bound [OF lp] by blast
  moreover have "p = 1024" if "p \<le> 1024"
    using that \<open>1024 \<le> unat p\<close> by (simp add: word_le_nat_alt word_unat_eq_iff)
  ultimately show ?thesis by (auto simp: normalize_buffer_size_def DEFAULT_BUFFER_SIZE_def)
qed

lemma batch_size_ok:
  assumes "unat n \<le> 2 ^ 63"
  shows "\<exists>p. (if 0 < n then ceil_to_power_of_two dbg n else Ok (push_bit 20 1)) = Ok p \<and> batch_sized n p"
proof (cases "n = 0")
  case True
  then show ?thesis by (simp add: batch_sized_def push_bit_eq_mult)
next
  case False
  with ceil_to_power_of_two_ok [OF assms, of dbg] show ?thesis by (simp add: batch_sized_def word_gt_0)
qed

lemma batch_size_fixed:
  assumes "batch_sized n p"
  shows "0 < p \<and> ceil_to_power_of_two dbg p = Ok p"
proof (cases "n = 0")
  case True
  then have p: "p = 2 ^ 20" using assms by (simp add: batch_sized_def)
  have "least_power (max 2 (2 ^ 20)) (unat (2 ^ 20 :: usize))"
    by (auto simp: least_power_def intro: exI [of _ 20])
  from ceil_to_power_of_two_fixed [OF this, of dbg] p show ?thesis by simp
next
  case False
  with assms have lp: "least_power (max 2 (unat n)) (unat p)" by (simp add: batch_sized_def)
  then have "2 \<le> unat p" by (simp add: least_power_def)
  then have "0 < p" by (simp add: word_less_nat_alt)
  with ceil_to_power_of_two_fixed [OF lp least_power_bound [OF lp]] show ?thesis by simp
qed

lemma requested_base: "requested_options (with_options opts builder_new) = opts"
  by (simp add: requested_options_def with_options_def builder_new_def override_def override_opt_def)

subsection \<open>Properties\<close>

text \<open>
  C33: building options succeeds for every requested size up to \<open>2 ^ 63\<close>, changes the three sizes and
  nothing else that was requested, makes every size the least power of two that serves the request
  (1024 at least for the buffers, 64 KiB and 1 MiB for the request 0), and building again from the
  result changes nothing.
\<close>

theorem options_build_normalises:
  assumes "unat (read_buffer_cap (requested_options b)) \<le> 2 ^ 63"
    and "unat (write_buffer_cap (requested_options b)) \<le> 2 ^ 63"
    and "unat (max_batch_size (requested_options b)) \<le> 2 ^ 63"
  shows "\<exists>rcap wcap batch opts.
    options_build dbg b = Ok opts
    \<and> opts = requested_options b\<lparr>read_buffer_cap := rcap, write_buffer_cap := wcap, max_batch_size := batch\<rparr>
    \<and> sized (read_buffer_cap (requested_options b)) rcap \<and> sized (write_buffer_cap (requested_options b)) wcap
    \<and> batch_sized (max_batch_size (requested_options b)) batch
    \<and> options_build dbg (with_options opts builder_new) = Ok opts"
proof -
  let ?o = "requested_options b"
  from normalize_buffer_size_ok [OF assms(1), of dbg] obtain rcap where
    r: "normalize_buffer_size dbg (read_buffer_cap ?o) = Ok rcap" "sized (read_buffer_cap ?o) rcap" by blast
  from normalize_buffer_size_ok [OF assms(2), of dbg] obtain wcap where
    w: "normalize_buffer_size dbg (write_buffer_cap ?o) = Ok wcap" "sized (write_buffer_cap ?o) wcap" by blast
  from batch_size_ok [OF assms(3), of dbg] obtain batch where
    b: "(if 0 < max_batch_size ?o then ceil_to_power_of_two dbg (max_batch_size ?o) else Ok (push_bit 20 1)) = Ok batch"
      "batch_sized (max_batch_size ?o) batch" by blast
  let ?opts = "?o\<lparr>read_buffer_cap := rcap, write_buffer_cap := wcap, max_batch_size := batch\<rparr>"
  have "options_build dbg b = Ok ?opts" by (simp only: options_build_def Let_def r(1) w(1) b(1) outcome.case)
  moreover have "options_build dbg (with_options ?opts builder_new) = Ok ?opts"
    using batch_size_fixed [OF b(2), of dbg] normalize_buffer_size_fixed [OF r(2), of dbg] normalize_buffer_size_fixed [OF w(2), of dbg]
    by (simp add: options_build_def requested_base)
  ultimately show ?thesis using r(2) w(2) b(2) by blast
qed

lemma options_build_normalises_witness:
  "\<exists>rcap opts. options_build True (builder_read_buffer_cap 4097 (builder_ticker True builder_new)) = Ok opts
    \<and> sized 4097 rcap \<and> read_buffer_cap opts = rcap \<and> ticker opts"
proof -
  let ?b = "builder_read_buffer_cap 4097 (builder_ticker True builder_new)"
  have o: "requested_options ?b = default_options\<lparr>read_buffer_cap := 4097, ticker := True\<rparr>"
    by (simp add: requested_options_def builder_read_buffer_cap_def builder_ticker_def builder_new_def override_def override_opt_def default_options_def)
  from options_build_normalises [of ?b True] o show ?thesis
    by (auto simp: default_options_def MAX_STREAM_BUFFER_CAP_def)
qed

lemma huge_size_overflows:
  assumes "2 ^ 63 < unat n"
  shows "normalize_buffer_size dbg n = (if dbg then Panic else Ok 0)"
proof -
  have "\<not> ceillog2 (unat n) \<le> 63" using assms by (simp add: ceillog2_le_iff)
  then have "(2 :: nat) ^ 64 \<le> 2 ^ ceillog2 (unat n)" by (intro power_increasing) simp_all
  then have "\<not> (2 :: nat) ^ ceillog2 (unat n) < 2 ^ 64" by simp
  moreover have "\<not> n \<le> 1024" "n \<noteq> 0" "\<not> n \<le> 2" using assms by (auto simp: word_le_nat_alt)
  ultimately show ?thesis
    by (simp add: normalize_buffer_size_def ceil_to_power_of_two_def next_power_of_two_def DEFAULT_BUFFER_SIZE_def)
qed

lemma select_cores_spec:
  "\<exists>added. select_cores key target seen selected cores = selected @ added \<and> subseq added cores
    \<and> distinct (map key added) \<and> key ` set added \<inter> seen = {}
    \<and> (length selected \<le> target \<longrightarrow> length selected + length added \<le> target)
    \<and> (length selected + length added < target \<longrightarrow> key ` set cores \<subseteq> seen \<union> key ` set added)"
proof (induction key target seen selected cores rule: select_cores.induct)
  case (1 key target seen selected)
  show ?case by (intro exI [of _ "[]"]) simp
next
  case (2 key target seen selected core cores)
  consider "target \<le> length selected" | "length selected < target" "key core \<in> seen"
    | "length selected < target" "key core \<notin> seen" by force
  then show ?case
  proof cases
    case 1
    then show ?thesis by (intro exI [of _ "[]"]) simp
  next
    case 2
    with "2.IH"(1) obtain added where "select_cores key target seen selected cores = selected @ added" "subseq added cores"
      "distinct (map key added)" "key ` set added \<inter> seen = {}" "length selected + length added \<le> target"
      "length selected + length added < target \<longrightarrow> key ` set cores \<subseteq> seen \<union> key ` set added" by auto
    with 2 show ?thesis by (intro exI [of _ added]) auto
  next
    case 3
    with "2.IH"(2) obtain added where
      "select_cores key target (insert (key core) seen) (selected @ [core]) cores = (selected @ [core]) @ added" "subseq added cores"
      "distinct (map key added)" "key ` set added \<inter> insert (key core) seen = {}" "Suc (length selected) + length added \<le> target"
      "Suc (length selected) + length added < target \<longrightarrow> key ` set cores \<subseteq> insert (key core) seen \<union> key ` set added" by auto
    with 3 show ?thesis by (intro exI [of _ "core # added"]) auto
  qed
qed

text \<open>
  C34: the loops get physically distinct cores. Limited to \<open>n > 0\<close>, \<open>get_core_ids\<close> answers at most \<open>n\<close>
  of the available cores, in their order, no two with the same socket and core number, and fewer than
  \<open>n\<close> only when every physical core is already taken.
\<close>

theorem cores_physically_distinct:
  assumes "0 < n"
  shows "length (get_core_ids rd (Some cores) (Some n)) \<le> unat n
    \<and> subseq (get_core_ids rd (Some cores) (Some n)) cores
    \<and> distinct (map (get_linux_topology_key rd) (get_core_ids rd (Some cores) (Some n)))
    \<and> (length (get_core_ids rd (Some cores) (Some n)) < unat n \<longrightarrow>
         get_linux_topology_key rd ` set (get_core_ids rd (Some cores) (Some n)) = get_linux_topology_key rd ` set cores)"
proof -
  let ?key = "get_linux_topology_key rd"
  from select_cores_spec [of ?key "unat n" "{}" "[]" cores] obtain added where
    a: "select_cores ?key (unat n) {} [] cores = added" "subseq added cores" "distinct (map ?key added)" "length added \<le> unat n"
      "length added < unat n \<longrightarrow> ?key ` set cores \<subseteq> ?key ` set added" by auto
  have "get_core_ids rd (Some cores) (Some n) = added" using assms a(1) by (auto simp: get_core_ids_def)
  moreover have "set added \<subseteq> set cores" using a(2) by (metis PowI subseqs_powset in_set_subseqs image_eqI PowD)
  ultimately show ?thesis using a(2-5) by blast
qed

text \<open>Two hardware threads on each of two cores: two loops get cores 0 and 2.\<close>

definition smt_files :: "string \<Rightarrow> string option" where
  "smt_files path =
     (if path \<in> {''/sys/devices/system/cpu/cpu0/topology/core_id'', ''/sys/devices/system/cpu/cpu1/topology/core_id''} then Some ''0\<newline>''
      else if path \<in> {''/sys/devices/system/cpu/cpu2/topology/core_id'', ''/sys/devices/system/cpu/cpu3/topology/core_id''} then Some ''1\<newline>''
      else None)"

lemma cores_physically_distinct_witness:
  "distinct (map (get_linux_topology_key smt_files) (get_core_ids smt_files (Some [0, 1, 2, 3]) (Some 4)))
    \<and> get_core_ids smt_files (Some [0, 1, 2, 3]) (Some 4) = [0, 2]"
proof
  show "distinct (map (get_linux_topology_key smt_files) (get_core_ids smt_files (Some [0, 1, 2, 3]) (Some 4)))"
    using cores_physically_distinct [of 4 smt_files "[0, 1, 2, 3]"] by simp
  show "get_core_ids smt_files (Some [0, 1, 2, 3]) (Some 4) = [0, 2]"
    by code_simp
qed

end
