(* ===== verification/Worker.thy ===== *)
theory Worker
  imports Prelude
begin

text \<open>
  Model of \<open>src/worker.rs\<close>: the pool of threads that runs closures off the event loops. A closure is
  a value of the type \<open>'task\<close>; running it is one step that begins and one that ends. A channel is its
  queue, whether a sender of it is alive, and where the worker thread that owns its receiver stands.
  Threads interleave freely: the program is the step relation \<open>pool_step\<close>, whose labels record which
  task entered which channel and which task a worker has finished.
\<close>

subsection \<open>State\<close>

datatype 'task phase = AtRecv | AtTryRecv | InTask 'task | Exited

record 'task channel =
  ch_queue :: "'task list"
  ch_senders :: bool
  ch_worker :: "'task phase"

text \<open>
  \<open>global_senders\<close> is \<open>GLOBAL_SENDERS\<close>: for each shard the channel its sender belongs to.
  \<open>blocked\<close> are the calls of \<open>submit\<close> that wait in \<open>send\<close> on a full channel; they hold the read lock.
\<close>

record 'task pool_state =
  global_senders :: "nat list option"
  channels :: "'task channel list"
  blocked :: "(nat \<times> 'task) list"

datatype 'task label = Silent | Sent nat 'task | Finished nat 'task

definition CHANNEL_CAP :: nat where
  "CHANNEL_CAP = 10000"

definition no_pool :: "'task pool_state" where
  "no_pool = \<lparr>global_senders = None, channels = [], blocked = []\<rparr>"

subsection \<open>Submitting\<close>

text \<open>
  \<open>Sender::send\<close> on a bounded channel: an error when the receiver is gone (the task is dropped), a
  wait when the channel is full.
\<close>

definition channel_send :: "nat \<Rightarrow> 'task \<Rightarrow> 'task pool_state \<Rightarrow> 'task label \<times> 'task pool_state" where
  "channel_send i task s =
     (let c = channels s ! i in
      if ch_worker c = Exited then (Silent, s)
      else if length (ch_queue c) < CHANNEL_CAP
      then (Sent i task, s\<lparr>channels := (channels s)[i := c\<lparr>ch_queue := ch_queue c @ [task]\<rparr>]\<rparr>)
      else (Silent, s\<lparr>blocked := blocked s @ [(i, task)]\<rparr>))"

definition submit :: "'task \<Rightarrow> nat \<Rightarrow> ('task label, 'task pool_state) prog" where
  "submit f shard_idx s =
     (case global_senders s of
        None \<Rightarrow> (Ok Silent, s)
      | Some senders \<Rightarrow>
          if length senders = 0 then (Panic, s)
          else (case channel_send (senders ! (shard_idx mod length senders)) f s of (lab, s') \<Rightarrow> (Ok lab, s')))"

text \<open>A waiting \<open>send\<close> tries again.\<close>

definition resume_send :: "nat \<Rightarrow> 'task pool_state \<Rightarrow> 'task label \<times> 'task pool_state" where
  "resume_send k s =
     (case blocked s ! k of
        (i, task) \<Rightarrow> channel_send i task (s\<lparr>blocked := take k (blocked s) @ drop (Suc k) (blocked s)\<rparr>))"

subsection \<open>The worker thread\<close>

text \<open>
  One step of the nested loops \<open>while let Ok(task) = rx.recv() { run; while let Ok(next) = rx.try_recv() { run } }\<close>;
  \<open>None\<close> when the thread waits or has ended.
\<close>

definition worker_step :: "nat \<Rightarrow> 'task pool_state \<Rightarrow> ('task label \<times> 'task pool_state) option" where
  "worker_step i s =
     (let c = channels s ! i; put = (\<lambda>c'. s\<lparr>channels := (channels s)[i := c']\<rparr>) in
      case ch_worker c of
        AtRecv \<Rightarrow>
          (case ch_queue c of
             task # rest \<Rightarrow> Some (Silent, put (c\<lparr>ch_queue := rest, ch_worker := InTask task\<rparr>))
           | [] \<Rightarrow> if ch_senders c then None else Some (Silent, put (c\<lparr>ch_worker := Exited\<rparr>)))
      | InTask task \<Rightarrow> Some (Finished i task, put (c\<lparr>ch_worker := AtTryRecv\<rparr>))
      | AtTryRecv \<Rightarrow>
          (case ch_queue c of
             task # rest \<Rightarrow> Some (Silent, put (c\<lparr>ch_queue := rest, ch_worker := InTask task\<rparr>))
           | [] \<Rightarrow> Some (Silent, put (c\<lparr>ch_worker := AtRecv\<rparr>)))
      | Exited \<Rightarrow> None)"

subsection \<open>Starting and stopping\<close>

text \<open>
  \<open>WorkerPool::new\<close>: the answer is the pool, the channels of its workers. When a pool exists already
  the new senders are dropped, which disconnects the new channels.
\<close>

definition WorkerPool_new :: "nat \<Rightarrow> 'task pool_state \<Rightarrow> nat list \<times> 'task pool_state" where
  "WorkerPool_new worker_count s =
     (let ids = [length (channels s)..<length (channels s) + worker_count];
          fresh = (global_senders s = None);
          new = replicate worker_count \<lparr>ch_queue = [], ch_senders = fresh, ch_worker = AtRecv\<rparr> in
      (ids, s\<lparr>global_senders := (if fresh then Some ids else global_senders s), channels := channels s @ new\<rparr>))"

text \<open>
  \<open>WorkerPool::shutdown\<close>: under the write lock, so no \<open>submit\<close> is under way, the senders are taken and
  dropped; then the workers are joined.
\<close>

definition take_senders :: "'task pool_state \<Rightarrow> 'task pool_state" where
  "take_senders s =
     (case global_senders s of
        None \<Rightarrow> s
      | Some senders \<Rightarrow>
          s\<lparr>global_senders := None,
            channels := map (\<lambda>i. if i \<in> set senders then (channels s ! i)\<lparr>ch_senders := False\<rparr> else channels s ! i)
              [0..<length (channels s)]\<rparr>)"

definition joined :: "nat list \<Rightarrow> 'task pool_state \<Rightarrow> bool" where
  "joined workers s \<longleftrightarrow> (\<forall>i \<in> set workers. ch_worker (channels s ! i) = Exited)"

subsection \<open>Interleavings\<close>

inductive pool_step :: "'task pool_state \<Rightarrow> 'task label \<Rightarrow> 'task pool_state \<Rightarrow> bool" where
  step_submit: "submit f shard_idx s = (Ok lab, s') \<Longrightarrow> pool_step s lab s'"
| step_resume: "k < length (blocked s) \<Longrightarrow> resume_send k s = (lab, s') \<Longrightarrow> pool_step s lab s'"
| step_worker: "i < length (channels s) \<Longrightarrow> worker_step i s = Some (lab, s') \<Longrightarrow> pool_step s lab s'"
| step_new: "WorkerPool_new n s = (ids, s') \<Longrightarrow> pool_step s Silent s'"
| step_shutdown: "blocked s = [] \<Longrightarrow> pool_step s Silent (take_senders s)"

inductive pool_run :: "'task pool_state \<Rightarrow> 'task label list \<Rightarrow> 'task pool_state \<Rightarrow> bool" where
  run_start: "pool_run s [] s"
| run_step: "pool_run s tr s' \<Longrightarrow> pool_step s' lab s'' \<Longrightarrow> pool_run s (tr @ [lab]) s''"

inductive worker_run :: "'task pool_state \<Rightarrow> 'task label list \<Rightarrow> 'task pool_state \<Rightarrow> bool" where
  work_start: "worker_run s [] s"
| work_step: "worker_run s tr s' \<Longrightarrow> i < length (channels s') \<Longrightarrow> worker_step i s' = Some (lab, s'')
    \<Longrightarrow> worker_run s (tr @ [lab]) s''"

text \<open>What a trace says about channel \<open>i\<close>.\<close>

definition sent_to :: "nat \<Rightarrow> 'task label list \<Rightarrow> 'task list" where
  "sent_to i tr = concat (map (\<lambda>l. case l of Sent j t \<Rightarrow> if j = i then [t] else [] | _ \<Rightarrow> []) tr)"

definition finished_by :: "nat \<Rightarrow> 'task label list \<Rightarrow> 'task list" where
  "finished_by i tr = concat (map (\<lambda>l. case l of Finished j t \<Rightarrow> if j = i then [t] else [] | _ \<Rightarrow> []) tr)"

definition in_hand :: "'task channel \<Rightarrow> 'task list" where
  "in_hand c = (case ch_worker c of InTask t \<Rightarrow> [t] | _ \<Rightarrow> [])"

subsection \<open>Invariant\<close>

definition channel_ok :: "'task label list \<Rightarrow> nat \<Rightarrow> 'task channel \<Rightarrow> bool" where
  "channel_ok tr i c \<longleftrightarrow>
     sent_to i tr = finished_by i tr @ in_hand c @ ch_queue c
     \<and> length (ch_queue c) \<le> CHANNEL_CAP
     \<and> (ch_worker c = Exited \<longrightarrow> \<not> ch_senders c \<and> ch_queue c = [])"

definition pool_ok :: "'task label list \<Rightarrow> 'task pool_state \<Rightarrow> bool" where
  "pool_ok tr s \<longleftrightarrow>
     (\<forall>i < length (channels s). channel_ok tr i (channels s ! i))
     \<and> (\<forall>i. length (channels s) \<le> i \<longrightarrow> sent_to i tr = [] \<and> finished_by i tr = [])
     \<and> (\<forall>i < length (channels s). ch_senders (channels s ! i) \<longleftrightarrow> i \<in> set (opt_list (global_senders s)))
     \<and> (\<forall>i \<in> set (opt_list (global_senders s)). i < length (channels s))
     \<and> (\<forall>i \<in> fst ` set (blocked s). i \<in> set (opt_list (global_senders s)))"

lemma trace_simps [simp]:
  "sent_to i [] = []" "finished_by i [] = []"
  "sent_to i (tr @ tr') = sent_to i tr @ sent_to i tr'"
  "finished_by i (tr @ tr') = finished_by i tr @ finished_by i tr'"
  "sent_to i [Silent] = []" "finished_by i [Silent] = []"
  "sent_to i [Sent j t] = (if j = i then [t] else [])" "finished_by i [Sent j t] = []"
  "finished_by i [Finished j t] = (if j = i then [t] else [])" "sent_to i [Finished j t] = []"
  by (simp_all add: sent_to_def finished_by_def)

lemma pool_okI:
  assumes "\<And>i. i < length (channels s) \<Longrightarrow> channel_ok tr i (channels s ! i)"
    and "\<And>i. length (channels s) \<le> i \<Longrightarrow> sent_to i tr = [] \<and> finished_by i tr = []"
    and "\<And>i. i < length (channels s) \<Longrightarrow> ch_senders (channels s ! i) \<longleftrightarrow> i \<in> set (opt_list (global_senders s))"
    and "\<And>i. i \<in> set (opt_list (global_senders s)) \<Longrightarrow> i < length (channels s)"
    and "\<And>i. i \<in> fst ` set (blocked s) \<Longrightarrow> i \<in> set (opt_list (global_senders s))"
  shows "pool_ok tr s"
  unfolding pool_ok_def using assms by blast

lemma pool_okD:
  assumes "pool_ok tr s"
  shows "i < length (channels s) \<Longrightarrow> channel_ok tr i (channels s ! i)"
    and "length (channels s) \<le> i \<Longrightarrow> sent_to i tr = [] \<and> finished_by i tr = []"
    and "i < length (channels s) \<Longrightarrow> ch_senders (channels s ! i) \<longleftrightarrow> i \<in> set (opt_list (global_senders s))"
    and "i \<in> set (opt_list (global_senders s)) \<Longrightarrow> i < length (channels s)"
    and "i \<in> fst ` set (blocked s) \<Longrightarrow> i \<in> set (opt_list (global_senders s))"
  using assms unfolding pool_ok_def by blast+

text \<open>One channel changes and keeps its senders; a waiting \<open>send\<close> may end.\<close>

lemma pool_ok_update:
  assumes ok: "pool_ok tr s" and i: "i < length (channels s)" and senders: "ch_senders c' = ch_senders (channels s ! i)"
    and c': "channel_ok (tr @ [lab]) i c'"
    and others: "\<And>j. j \<noteq> i \<Longrightarrow> sent_to j [lab] = [] \<and> finished_by j [lab] = []"
    and bl: "fst ` set bl \<subseteq> set (opt_list (global_senders s))"
  shows "pool_ok (tr @ [lab]) (s\<lparr>channels := (channels s)[i := c'], blocked := bl\<rparr>)"
proof (rule pool_okI)
  fix j assume j: "j < length (channels (s\<lparr>channels := (channels s)[i := c'], blocked := bl\<rparr>))"
  then show "channel_ok (tr @ [lab]) j (channels (s\<lparr>channels := (channels s)[i := c'], blocked := bl\<rparr>) ! j)"
    using c' others [of j] pool_okD(1) [OF ok, of j] by (cases "j = i") (simp_all add: channel_ok_def)
  show "ch_senders (channels (s\<lparr>channels := (channels s)[i := c'], blocked := bl\<rparr>) ! j)
      \<longleftrightarrow> j \<in> set (opt_list (global_senders (s\<lparr>channels := (channels s)[i := c'], blocked := bl\<rparr>)))"
    using j senders pool_okD(3) [OF ok, of j] by (cases "j = i") simp_all
next
  fix j assume "length (channels (s\<lparr>channels := (channels s)[i := c'], blocked := bl\<rparr>)) \<le> j"
  with i others [of j] pool_okD(2) [OF ok, of j]
  show "sent_to j (tr @ [lab]) = [] \<and> finished_by j (tr @ [lab]) = []" by auto
qed (use pool_okD(4) [OF ok] bl in auto)

lemma pool_ok_silent: "pool_ok tr s \<Longrightarrow> pool_ok (tr @ [Silent]) s"
  by (simp add: pool_ok_def channel_ok_def)

text \<open>A call of \<open>send\<close> through a sender that is alive.\<close>

lemma channel_send_ok:
  assumes ok: "pool_ok tr s" and i: "i \<in> set (opt_list (global_senders s))"
    and e: "channel_send i task s = (lab, s')"
  shows "pool_ok (tr @ [lab]) s'"
proof -
  let ?c = "channels s ! i"
  have il: "i < length (channels s)" and alive: "ch_senders ?c" using pool_okD(3,4) [OF ok, of i] i by blast+
  have chan: "channel_ok tr i ?c" by (rule pool_okD(1) [OF ok il])
  with alive have run: "ch_worker ?c \<noteq> Exited" by (auto simp: channel_ok_def)
  show ?thesis
  proof (cases "length (ch_queue ?c) < CHANNEL_CAP")
    case True
    with e run have r: "lab = Sent i task" "s' = s\<lparr>channels := (channels s)[i := ?c\<lparr>ch_queue := ch_queue ?c @ [task]\<rparr>], blocked := blocked s\<rparr>"
      by (auto simp: channel_send_def Let_def)
    show ?thesis unfolding r
    proof (rule pool_ok_update [OF ok il])
      show "channel_ok (tr @ [Sent i task]) i (?c\<lparr>ch_queue := ch_queue ?c @ [task]\<rparr>)"
        using chan True run by (auto simp: channel_ok_def in_hand_def)
      show "fst ` set (blocked s) \<subseteq> set (opt_list (global_senders s))" using pool_okD(5) [OF ok] by blast
    qed simp_all
  next
    case False
    with e run have r: "lab = Silent" "s' = s\<lparr>blocked := blocked s @ [(i, task)]\<rparr>"
      by (auto simp: channel_send_def Let_def)
    show ?thesis unfolding r
      using pool_ok_silent [OF ok] i by (auto simp: pool_ok_def)
  qed
qed

lemma submit_ok:
  assumes ok: "pool_ok tr s" and e: "submit f shard_idx s = (Ok lab, s')"
  shows "pool_ok (tr @ [lab]) s'"
proof (cases "global_senders s")
  case None
  with e ok show ?thesis by (auto simp: submit_def intro: pool_ok_silent)
next
  case (Some senders)
  with e have ne: "senders \<noteq> []" and s: "channel_send (senders ! (shard_idx mod length senders)) f s = (lab, s')"
    by (auto simp: submit_def split: if_splits prod.splits)
  from ne have "senders ! (shard_idx mod length senders) \<in> set senders" by (intro nth_mem) simp
  with channel_send_ok [OF ok _ s] Some show ?thesis by simp
qed

lemma resume_ok:
  assumes ok: "pool_ok tr s" and k: "k < length (blocked s)" and e: "resume_send k s = (lab, s')"
  shows "pool_ok (tr @ [lab]) s'"
proof -
  obtain i task where it: "blocked s ! k = (i, task)" by fastforce
  let ?s = "s\<lparr>blocked := take k (blocked s) @ drop (Suc k) (blocked s)\<rparr>"
  have i: "i \<in> set (opt_list (global_senders s))"
    using pool_okD(5) [OF ok, of i] nth_mem [OF k] it by force
  have "pool_ok tr ?s"
    using ok by (auto simp: pool_ok_def dest: in_set_takeD in_set_dropD)
  moreover have "channel_send i task ?s = (lab, s')" using e it by (simp add: resume_send_def)
  ultimately show ?thesis using channel_send_ok [of tr ?s i task] i by simp
qed

lemma worker_step_ok:
  assumes ok: "pool_ok tr s" and i: "i < length (channels s)" and e: "worker_step i s = Some (lab, s')"
  shows "pool_ok (tr @ [lab]) s'"
proof -
  let ?c = "channels s ! i"
  have chan: "channel_ok tr i ?c" by (rule pool_okD(1) [OF ok i])
  have bl: "fst ` set (blocked s) \<subseteq> set (opt_list (global_senders s))" using pool_okD(5) [OF ok] by blast
  have "\<exists>c'. s' = s\<lparr>channels := (channels s)[i := c'], blocked := blocked s\<rparr> \<and> ch_senders c' = ch_senders ?c
      \<and> channel_ok (tr @ [lab]) i c' \<and> (lab = Silent \<or> (\<exists>t. lab = Finished i t))"
    using e chan
    by (auto simp: worker_step_def Let_def channel_ok_def in_hand_def split: phase.splits list.splits if_splits)
  then obtain c' where c': "s' = s\<lparr>channels := (channels s)[i := c'], blocked := blocked s\<rparr>" "ch_senders c' = ch_senders ?c"
      "channel_ok (tr @ [lab]) i c'" "lab = Silent \<or> (\<exists>t. lab = Finished i t)" by blast
  show ?thesis unfolding c'(1)
    by (rule pool_ok_update [OF ok i c'(2,3) _ bl]) (use c'(4) in auto)
qed

lemma new_ok:
  assumes ok: "pool_ok tr s" and e: "WorkerPool_new n s = (ids, s')"
  shows "pool_ok (tr @ [Silent]) s'"
proof -
  have gs: "global_senders s' = (if global_senders s = None then Some [length (channels s)..<length (channels s) + n] else global_senders s)"
    and ch: "channels s' = channels s @ replicate n \<lparr>ch_queue = [], ch_senders = (global_senders s = None), ch_worker = AtRecv\<rparr>"
    and bl: "blocked s' = blocked s"
    using e by (auto simp: WorkerPool_new_def Let_def)
  show ?thesis
  proof (rule pool_okI)
    show "channel_ok (tr @ [Silent]) j (channels s' ! j)" if "j < length (channels s')" for j
      using that pool_okD(1,2) [OF ok, of j] unfolding ch
      by (cases "j < length (channels s)") (simp_all add: nth_append channel_ok_def in_hand_def)
    show "j < length (channels s')" if "j \<in> set (opt_list (global_senders s'))" for j
      using that pool_okD(4) [OF ok, of j] by (cases "global_senders s") (auto simp: gs ch)
    show "j \<in> set (opt_list (global_senders s'))" if "j \<in> fst ` set (blocked s')" for j
      using that pool_okD(5) [OF ok, of j] by (cases "global_senders s") (auto simp: gs bl)
  qed (use pool_okD(2-4) [OF ok] in \<open>auto simp: gs ch nth_append dest: leI\<close>)
qed

lemma shutdown_ok:
  assumes ok: "pool_ok tr s" and bl: "blocked s = []"
  shows "pool_ok (tr @ [Silent]) (take_senders s)"
proof (cases "global_senders s")
  case None
  with ok show ?thesis by (simp add: take_senders_def pool_ok_silent)
next
  case (Some senders)
  show ?thesis
  proof (rule pool_okI)
    fix j assume j: "j < length (channels (take_senders s))"
    then show "channel_ok (tr @ [Silent]) j (channels (take_senders s) ! j)"
      using pool_okD(1) [OF ok, of j] Some by (auto simp: take_senders_def channel_ok_def in_hand_def)
    show "ch_senders (channels (take_senders s) ! j) \<longleftrightarrow> j \<in> set (opt_list (global_senders (take_senders s)))"
      using j pool_okD(3) [OF ok, of j] Some by (auto simp: take_senders_def)
  qed (use pool_okD(2) [OF ok] bl Some in \<open>auto simp: take_senders_def\<close>)
qed

theorem pool_step_ok: "pool_step s lab s' \<Longrightarrow> pool_ok tr s \<Longrightarrow> pool_ok (tr @ [lab]) s'"
  by (induction rule: pool_step.induct) (auto intro: submit_ok resume_ok worker_step_ok new_ok shutdown_ok)

theorem pool_run_ok:
  assumes "pool_run no_pool tr s"
  shows "pool_ok tr s"
proof -
  have "s0 = no_pool \<Longrightarrow> pool_ok tr s" if "pool_run s0 tr s" for s0
    using that
  proof induction
    case (run_start s)
    then show ?case by (simp add: pool_ok_def no_pool_def)
  next
    case (run_step s tr s' lab s'')
    then show ?case by (blast intro: pool_step_ok)
  qed
  with assms show ?thesis by blast
qed

lemma worker_run_extends: "worker_run s' tr' s'' \<Longrightarrow> pool_run s tr s' \<Longrightarrow> pool_run s (tr @ tr') s''"
proof (induction rule: worker_run.induct)
  case (work_step s tr1 s1 i lab s2)
  then have "pool_run s0 (tr @ tr1) s1 \<Longrightarrow> pool_run s0 ((tr @ tr1) @ [lab]) s2" for s0
    by (blast intro: run_step step_worker)
  with work_step show ?case by simp
qed simp

subsection \<open>Progress\<close>

definition channel_work :: "'task channel \<Rightarrow> nat" where
  "channel_work c = 3 * length (ch_queue c) + (case ch_worker c of AtRecv \<Rightarrow> 1 | AtTryRecv \<Rightarrow> 2 | InTask _ \<Rightarrow> 3 | Exited \<Rightarrow> 0)"

definition work_left :: "'task pool_state \<Rightarrow> nat" where
  "work_left s = sum_list (map channel_work (channels s))"

lemma worker_step_work:
  assumes i: "i < length (channels s)" and e: "worker_step i s = Some (lab, s')"
  shows "work_left s' < work_left s \<and> global_senders s' = global_senders s \<and> sent_to j [lab] = []"
proof -
  have "s' = s\<lparr>channels := (channels s)[i := channels s' ! i]\<rparr> \<and> channel_work (channels s' ! i) < channel_work (channels s ! i)
      \<and> (lab = Silent \<or> (\<exists>t. lab = Finished i t))"
    using e i by (auto simp: worker_step_def Let_def channel_work_def split: phase.splits list.splits if_splits)
  then obtain c' where c': "s' = s\<lparr>channels := (channels s)[i := c']\<rparr>" "channel_work c' < channel_work (channels s ! i)"
      "lab = Silent \<or> (\<exists>t. lab = Finished i t)" by blast
  have "channel_work (channels s ! i) \<le> sum_list (map channel_work (channels s))"
    by (rule member_le_sum_list) (use i in auto)
  then have "work_left s' < work_left s"
    using i c'(1,2) by (simp add: work_left_def map_update sum_list_update)
  with c'(1,3) show ?thesis by auto
qed

lemma worker_run_work:
  "worker_run s tr s' \<Longrightarrow> length tr + work_left s' \<le> work_left s \<and> global_senders s' = global_senders s \<and> sent_to j tr = []"
proof (induction rule: worker_run.induct)
  case (work_step s tr s' i lab s'')
  with worker_step_work [OF work_step(2,3), of j] show ?case by simp
qed simp

lemma idle_worker:
  assumes "worker_step i s = None" and "\<not> ch_senders (channels s ! i)"
  shows "ch_worker (channels s ! i) = Exited"
  using assms by (auto simp: worker_step_def Let_def split: phase.splits list.splits)

subsection \<open>Properties\<close>

text \<open>
  C12: whatever the interleaving of \<open>submit\<close>, workers, pool creation and shutdown, each shard runs its
  tasks in the order in which they were sent, each exactly once: sent are the finished ones, then the one
  in hand, then the queue, which never exceeds its capacity. A worker ends only when it has finished
  everything that was sent to it.
\<close>

theorem shard_runs_in_order:
  assumes "pool_run no_pool tr s" and "i < length (channels s)"
  shows "sent_to i tr = finished_by i tr @ in_hand (channels s ! i) @ ch_queue (channels s ! i)
    \<and> length (ch_queue (channels s ! i)) \<le> CHANNEL_CAP
    \<and> (ch_worker (channels s ! i) = Exited \<longrightarrow> finished_by i tr = sent_to i tr)"
  using pool_okD(1) [OF pool_run_ok [OF assms(1)] assms(2)] by (auto simp: channel_ok_def in_hand_def)

text \<open>
  C19: a shutdown drains. Once the senders are taken the workers take at most \<open>work_left\<close> steps in any
  order, and when none can take another all have ended and have finished every task ever sent: the
  joins return and no submitted task is lost.
\<close>

theorem shutdown_drains:
  assumes "pool_run no_pool tr s" and "global_senders s = None" and "worker_run s tr' s'"
  shows "length tr' \<le> work_left s
    \<and> ((\<forall>i < length (channels s'). worker_step i s' = None) \<longrightarrow>
         joined [0..<length (channels s')] s'
         \<and> (\<forall>i < length (channels s'). finished_by i (tr @ tr') = sent_to i tr))"
proof (intro conjI impI)
  from worker_run_work [OF assms(3)] have run: "length tr' + work_left s' \<le> work_left s" "global_senders s' = None"
    and no_sends: "sent_to i tr' = []" for i using assms(2) by simp_all
  then show "length tr' \<le> work_left s" by simp
  note ok = pool_run_ok [OF worker_run_extends [OF assms(3,1)]]
  assume idle: "\<forall>i < length (channels s'). worker_step i s' = None"
  have exited: "ch_worker (channels s' ! i) = Exited" if "i < length (channels s')" for i
    using that idle pool_okD(3) [OF ok that] run(2) by (simp add: idle_worker)
  then show "joined [0..<length (channels s')] s'" by (simp add: joined_def)
  show "\<forall>i < length (channels s'). finished_by i (tr @ tr') = sent_to i tr"
    using pool_okD(1) [OF ok] exited no_sends by (auto simp: channel_ok_def in_hand_def)
qed

text \<open>A pool of two workers; one task goes to shard 1, which runs it; then the pool is shut down.\<close>

definition two_workers :: "char pool_state" where
  "two_workers = \<lparr>global_senders = Some [0, 1],
     channels = [\<lparr>ch_queue = [], ch_senders = True, ch_worker = AtRecv\<rparr>, \<lparr>ch_queue = [CHR ''x''], ch_senders = True, ch_worker = AtRecv\<rparr>],
     blocked = []\<rparr>"

lemma two_workers_run: "pool_run no_pool [Silent, Sent 1 (CHR ''x'')] two_workers"
proof -
  let ?s = "\<lparr>global_senders = Some [0, 1], channels = [\<lparr>ch_queue = [], ch_senders = True, ch_worker = AtRecv\<rparr>, \<lparr>ch_queue = [], ch_senders = True, ch_worker = AtRecv\<rparr>], blocked = []\<rparr>"
  have "pool_step no_pool Silent ?s"
    by (rule step_new [where n = 2 and ids = "[0, 1]"]) (simp add: WorkerPool_new_def no_pool_def numeral_2_eq_2 Let_def)
  moreover have "pool_step ?s (Sent 1 (CHR ''x'')) two_workers"
    by (rule step_submit [where f = "CHR ''x''" and shard_idx = 1])
       (simp add: submit_def channel_send_def two_workers_def CHANNEL_CAP_def Let_def)
  ultimately show ?thesis using run_step [OF run_step [OF run_start]] by fastforce
qed

lemma shard_runs_in_order_witness:
  "sent_to 1 [Silent, Sent 1 (CHR ''x'')] = finished_by 1 [Silent, Sent 1 (CHR ''x'')] @ in_hand (channels two_workers ! 1) @ ch_queue (channels two_workers ! 1)"
  using shard_runs_in_order [OF two_workers_run, of 1] by (simp add: two_workers_def)

lemma shutdown_drains_witness:
  "\<exists>s'. worker_run (take_senders two_workers) [Silent] s' \<and> length [Silent :: char label] \<le> work_left (take_senders two_workers)"
proof -
  have run: "pool_run no_pool ([Silent, Sent 1 (CHR ''x'')] @ [Silent]) (take_senders two_workers)"
    by (rule run_step [OF two_workers_run], rule step_shutdown) (simp add: two_workers_def)
  have "\<exists>s'. worker_step 1 (take_senders two_workers) = Some (Silent, s')"
    by (simp add: worker_step_def take_senders_def two_workers_def upt_rec)
  then obtain s' where "worker_step 1 (take_senders two_workers) = Some (Silent, s')" by blast
  moreover have "1 < length (channels (take_senders two_workers))" by (simp add: take_senders_def two_workers_def)
  ultimately have w: "worker_run (take_senders two_workers) ([] @ [Silent]) s'" by (rule work_step [OF work_start, rotated])
  moreover have "global_senders (take_senders two_workers) = None" by (simp add: take_senders_def two_workers_def)
  ultimately show ?thesis using shutdown_drains [OF run _ w] by auto
qed

lemma submit_without_workers:
  assumes "global_senders s = Some []"
  shows "submit f shard_idx s = (Panic, s)"
  using assms by (simp add: submit_def)

end
