(* ===== verification/Wakeup.thy ===== *)
theory Wakeup
  imports RunLoop
begin

text \<open>
  The protocol between the threads that send commands and the loop that sleeps in \<open>poll\<close>:
  \<open>EventLoopHandle::trigger\<close> and \<open>Waker::wake\<close> on one side, the head of \<open>run_loop\<close> and \<open>process_command\<close>
  on the other, cut into the steps that are atomic in the code (a channel operation, a load, store or
  swap of the flag, a system call) and interleaved freely. The handle is the one of theory \<open>Command\<close>.
\<close>

subsection \<open>States\<close>

text \<open>
  A sender is idle, has sent its command and is about to swap the flag, or has found the flag clear and
  is about to write to the wake-up descriptor. The loop is before the test for pending commands, in
  \<open>poll\<close> (with a zero timeout when commands were pending), taking commands (how many it may still take,
  and whether the poll delivered the wake-up event, yet to be handled), or about to reset the flag.
\<close>

datatype sender_pc = Idle | Pushed | Swapped

datatype loop_pc = AtCheck | AtPoll bool | Taking nat bool | AtReset

record sys =
  s_handle :: loop_handle
  s_event :: bool
  s_senders :: "nat \<Rightarrow> sender_pc"
  s_loop :: loop_pc

definition sys_start :: "loop_handle \<Rightarrow> sys" where
  "sys_start h = \<lparr>s_handle = h, s_event = False, s_senders = (\<lambda>_. Idle), s_loop = AtCheck\<rparr>"

definition quiet :: "sys \<Rightarrow> bool" where
  "quiet s \<longleftrightarrow> s_loop s = AtPoll False \<and> \<not> s_event s \<and> (\<forall>t. s_senders s t = Idle)"

subsection \<open>The sender\<close>

text \<open>\<open>urgent_sender.send\<close> or \<open>common_sender.send\<close>; without a receiver \<open>trigger\<close> returns at once.\<close>

definition sender_push :: "nat \<Rightarrow> command \<Rightarrow> sys \<Rightarrow> sys" where
  "sender_push t cmd s =
     (case enqueue (priority cmd) cmd (s_handle s) of
        (False, h) \<Rightarrow> s\<lparr>s_handle := h\<rparr>
      | (True, h) \<Rightarrow> s\<lparr>s_handle := h, s_senders := (s_senders s)(t := Pushed)\<rparr>)"

text \<open>\<open>awoken.swap(true)\<close>, then the system call only when the flag was clear.\<close>

definition sender_swap :: "nat \<Rightarrow> sys \<Rightarrow> sys" where
  "sender_swap t s =
     (let wk = h_waker (s_handle s) in
      s\<lparr>s_handle := (s_handle s)\<lparr>h_waker := wk\<lparr>awoken := True\<rparr>\<rparr>,
        s_senders := (s_senders s)(t := if awoken wk then Idle else Swapped)\<rparr>)"

definition sender_write :: "bool \<Rightarrow> nat \<Rightarrow> sys \<Rightarrow> sys" where
  "sender_write ok t s = s\<lparr>s_event := s_event s \<or> ok, s_senders := (s_senders s)(t := Idle)\<rparr>"

subsection \<open>The loop\<close>

definition loop_check :: "sys \<Rightarrow> sys" where
  "loop_check s = s\<lparr>s_loop := AtPoll (h_urgent (s_handle s) \<noteq> [] \<or> h_common (s_handle s) \<noteq> [])\<rparr>"

definition after_commands :: "bool \<Rightarrow> loop_pc" where
  "after_commands woken = (if woken then AtReset else AtCheck)"

text \<open>
  \<open>poll\<close> takes the wake-up event if there is one. It may return for other reasons (another event, a
  tick, a signal); it must return only for a zero timeout or for an event.
\<close>

definition poll_returns :: "bool \<Rightarrow> sys \<Rightarrow> sys" where
  "poll_returns pending_commands s =
     s\<lparr>s_event := False,
       s_loop := (if pending_commands then Taking MAX_ASYNC_TASK_ONE_TIME (s_event s) else after_commands (s_event s))\<rparr>"

definition take_command :: "nat \<Rightarrow> bool \<Rightarrow> sys \<Rightarrow> sys" where
  "take_command n woken s =
     (case n of
        0 \<Rightarrow> s\<lparr>s_loop := after_commands woken\<rparr>
      | Suc m \<Rightarrow>
          (case next_command (s_handle s) of
             (None, h) \<Rightarrow> s\<lparr>s_handle := h, s_loop := after_commands woken\<rparr>
           | (Some cmd, h) \<Rightarrow> s\<lparr>s_handle := h, s_loop := Taking m woken\<rparr>))"

definition loop_reset :: "sys \<Rightarrow> sys" where
  "loop_reset s =
     s\<lparr>s_handle := (s_handle s)\<lparr>h_waker := reset_waker (h_waker (s_handle s))\<rparr>, s_loop := Taking MAX_ASYNC_TASK_ONE_TIME False\<rparr>"

subsection \<open>Interleavings\<close>

text \<open>\<open>faulty\<close>: the system call of the waker may fail.\<close>

inductive sys_step :: "bool \<Rightarrow> sys \<Rightarrow> sys \<Rightarrow> bool" for faulty where
  push: "s_senders s t = Idle \<Longrightarrow> sys_step faulty s (sender_push t cmd s)"
| swap: "s_senders s t = Pushed \<Longrightarrow> sys_step faulty s (sender_swap t s)"
| signal: "s_senders s t = Swapped \<Longrightarrow> sys_step faulty s (sender_write True t s)"
| signal_fails: "faulty \<Longrightarrow> s_senders s t = Swapped \<Longrightarrow> sys_step faulty s (sender_write False t s)"
| check: "s_loop s = AtCheck \<Longrightarrow> sys_step faulty s (loop_check s)"
| polled: "s_loop s = AtPoll p \<Longrightarrow> sys_step faulty s (poll_returns p s)"
| taken: "s_loop s = Taking n woken \<Longrightarrow> sys_step faulty s (take_command n woken s)"
| reset: "s_loop s = AtReset \<Longrightarrow> sys_step faulty s (loop_reset s)"

inductive sys_reach :: "bool \<Rightarrow> sys \<Rightarrow> sys \<Rightarrow> bool" for faulty where
  here: "sys_reach faulty s s"
| more: "sys_reach faulty s s' \<Longrightarrow> sys_step faulty s' s'' \<Longrightarrow> sys_reach faulty s s''"

subsection \<open>Invariant\<close>

text \<open>
  A raised flag has a cause that is still on its way; and a loop that went to sleep on empty channels
  has every command sent since announced by an event or by a sender that is not done.
\<close>

definition flag_caused :: "sys \<Rightarrow> bool" where
  "flag_caused s \<longleftrightarrow>
     (awoken (h_waker (s_handle s)) \<longrightarrow>
        s_event s \<or> (\<exists>t. s_senders s t = Swapped) \<or> s_loop s = AtReset \<or> (\<exists>n. s_loop s = Taking n True))"

definition sleep_announced :: "sys \<Rightarrow> bool" where
  "sleep_announced s \<longleftrightarrow>
     (s_loop s = AtPoll False \<and> pending (s_handle s) \<noteq> [] \<longrightarrow> s_event s \<or> (\<exists>t. s_senders s t \<noteq> Idle))"

definition sys_ok :: "sys \<Rightarrow> bool" where
  "sys_ok s \<longleftrightarrow> flag_caused s \<and> sleep_announced s"

lemmas sys_ok_defs = sys_ok_def flag_caused_def sleep_announced_def

lemma enqueue_waker: "enqueue p c h = (b, h') \<Longrightarrow> h_waker h' = h_waker h"
  by (auto simp: enqueue_def send_urgent_def send_common_def split: if_splits)

lemma enqueue_refused: "enqueue p c h = (False, h') \<Longrightarrow> h' = h"
  by (auto simp: enqueue_def send_urgent_def send_common_def split: if_splits)

lemma next_command_waker: "next_command h = (r, h') \<Longrightarrow> h_waker h' = h_waker h"
  by (auto simp: next_command.simps split: list.splits)

lemma swapped_upd: "f u = Swapped \<Longrightarrow> f t \<noteq> Swapped \<Longrightarrow> \<exists>v. (f(t := x)) v = Swapped"
  by (rule exI [of _ u]) auto

lemma flag_caused_upd:
  assumes "flag_caused s" and "s_senders s t \<noteq> Swapped" and "h_waker h = h_waker (s_handle s)"
  shows "flag_caused (s\<lparr>s_handle := h, s_senders := (s_senders s)(t := x)\<rparr>)"
  unfolding flag_caused_def
proof (intro impI)
  assume "awoken (h_waker (s_handle (s\<lparr>s_handle := h, s_senders := (s_senders s)(t := x)\<rparr>)))"
  with assms(1,3) consider "s_event s" | u where "s_senders s u = Swapped" | "s_loop s = AtReset" | n where "s_loop s = Taking n True"
    by (auto simp: flag_caused_def)
  then show "s_event (s\<lparr>s_handle := h, s_senders := (s_senders s)(t := x)\<rparr>)
      \<or> (\<exists>u. s_senders (s\<lparr>s_handle := h, s_senders := (s_senders s)(t := x)\<rparr>) u = Swapped)
      \<or> s_loop (s\<lparr>s_handle := h, s_senders := (s_senders s)(t := x)\<rparr>) = AtReset
      \<or> (\<exists>n. s_loop (s\<lparr>s_handle := h, s_senders := (s_senders s)(t := x)\<rparr>) = Taking n True)"
    by cases (use swapped_upd [where f = "s_senders s" and t = t, OF _ assms(2)] in simp_all)
qed

lemma push_ok:
  assumes ok: "sys_ok s" and t: "s_senders s t = Idle"
  shows "sys_ok (sender_push t cmd s)"
proof (cases "enqueue (priority cmd) cmd (s_handle s)")
  case (Pair sent h)
  show ?thesis
  proof (cases sent)
    case False
    with Pair ok enqueue_refused [of "priority cmd" cmd "s_handle s" h] show ?thesis
      by (simp add: sender_push_def)
  next
    case True
    let ?s = "s\<lparr>s_handle := h, s_senders := (s_senders s)(t := Pushed)\<rparr>"
    have "flag_caused ?s" using ok t enqueue_waker [OF Pair] by (intro flag_caused_upd) (simp_all add: sys_ok_def)
    moreover have "sleep_announced ?s" by (auto simp: sleep_announced_def intro!: exI [of _ t])
    moreover have "sender_push t cmd s = ?s" using True Pair by (simp add: sender_push_def)
    ultimately show ?thesis by (simp add: sys_ok_def)
  qed
qed

lemma swap_ok:
  assumes ok: "sys_ok s" and t: "s_senders s t = Pushed"
  shows "sys_ok (sender_swap t s)"
proof (cases "awoken (h_waker (s_handle s))")
  case True
  let ?s = "s\<lparr>s_handle := s_handle s, s_senders := (s_senders s)(t := Idle)\<rparr>"
  have fc: "flag_caused ?s" using ok t by (intro flag_caused_upd) (simp_all add: sys_ok_def)
  moreover have "sleep_announced ?s"
    unfolding sleep_announced_def
  proof (intro impI)
    assume "s_loop ?s = AtPoll False \<and> pending (s_handle ?s) \<noteq> []"
    with fc True have "s_event ?s \<or> (\<exists>u. s_senders ?s u = Swapped)" by (simp add: flag_caused_def)
    then show "s_event ?s \<or> (\<exists>u. s_senders ?s u \<noteq> Idle)" by (metis sender_pc.distinct(3))
  qed
  moreover have "sender_swap t s = ?s" using True by (simp add: sender_swap_def Let_def)
  ultimately show ?thesis by (simp add: sys_ok_def)
next
  case False
  then have "s_senders (sender_swap t s) t = Swapped" by (simp add: sender_swap_def Let_def)
  then show ?thesis unfolding sys_ok_defs by (metis sender_pc.distinct(3))
qed

lemma signal_ok: "sys_ok (sender_write True t s)"
  by (simp add: sender_write_def sys_ok_defs)

lemma check_ok: "sys_ok s \<Longrightarrow> s_loop s = AtCheck \<Longrightarrow> sys_ok (loop_check s)"
  by (auto simp: loop_check_def sys_ok_defs pending_def)

lemma polled_ok: "sys_ok s \<Longrightarrow> s_loop s = AtPoll p \<Longrightarrow> sys_ok (poll_returns p s)"
  by (auto simp: poll_returns_def sys_ok_defs after_commands_def)

lemma taken_ok:
  assumes "sys_ok s" and "s_loop s = Taking n woken"
  shows "sys_ok (take_command n woken s)"
  using assms
  by (auto simp: take_command_def sys_ok_defs after_commands_def split: nat.split prod.split option.split
      dest: next_command_waker)

lemma reset_ok: "sys_ok (loop_reset s)"
  by (simp add: loop_reset_def sys_ok_defs reset_waker_def)

lemma sys_step_ok: "sys_step False s s' \<Longrightarrow> sys_ok s \<Longrightarrow> sys_ok s'"
  by (induction rule: sys_step.induct) (simp_all add: push_ok swap_ok signal_ok check_ok polled_ok taken_ok reset_ok)

lemma sys_reach_ok:
  assumes "sys_reach False s s'" and "sys_ok s"
  shows "sys_ok s'"
  using assms by (induction rule: sys_reach.induct) (auto intro: sys_step_ok)

lemma sys_reach_trans:
  assumes "sys_reach faulty s s'" and "sys_reach faulty s' s''"
  shows "sys_reach faulty s s''"
  using assms(2,1) by (induction rule: sys_reach.induct) (auto intro: more)

lemma sys_start_ok: "\<not> awoken (h_waker h) \<Longrightarrow> sys_ok (sys_start h)"
  by (simp add: sys_start_def sys_ok_defs)

lemma loop_check_has_pending: "s_handle s = l_handle st \<Longrightarrow> s_loop (loop_check s) = AtPoll (has_pending st)"
  by (simp add: loop_check_def has_pending_def)

subsection \<open>The steps of a sender are \<open>trigger\<close>\<close>

definition sender_runs :: "bool \<Rightarrow> nat \<Rightarrow> command \<Rightarrow> sys \<Rightarrow> sys" where
  "sender_runs ok t cmd s =
     (let s1 = sender_push t cmd s in
      if s_senders s1 t \<noteq> Pushed then s1
      else (let s2 = sender_swap t s1 in if s_senders s2 t \<noteq> Swapped then s2 else sender_write ok t s2))"

lemma sender_runs_trigger:
  assumes "s_senders s t = Idle"
  shows "s_handle (sender_runs ok t cmd s) = fst (snd (trigger os (priority cmd) cmd (s_handle s, w)))
    \<and> s_senders (sender_runs ok t cmd s) t = Idle"
proof (rule trigger_cases [of "priority cmd" cmd "s_handle s" os w])
  fix h' assume "enqueue (priority cmd) cmd (s_handle s) = (False, h')"
    "trigger os (priority cmd) cmd (s_handle s, w) = (Ok False, (h', w))"
  then show ?thesis using assms by (simp add: sender_runs_def sender_push_def)
next
  fix h' w' b
  assume "enqueue (priority cmd) cmd (s_handle s) = (True, h')"
    "trigger os (priority cmd) cmd (s_handle s, w) = (Ok b, (h'\<lparr>h_waker := (h_waker h')\<lparr>awoken := True\<rparr>\<rparr>, w'))"
  then show ?thesis
    by (simp add: sender_runs_def sender_push_def sender_swap_def sender_write_def Let_def)
qed

lemma sender_runs_reach:
  assumes s: "s_senders s t = Idle" and ok: "\<not> ok \<longrightarrow> faulty"
  shows "sys_reach faulty s (sender_runs ok t cmd s)"
proof -
  let ?s1 = "sender_push t cmd s"
  let ?s2 = "sender_swap t ?s1"
  have 1: "sys_reach faulty s ?s1" by (rule more [OF here push [OF s]])
  have 2: "sys_reach faulty s ?s2" if "s_senders ?s1 t = Pushed" by (rule more [OF 1 swap [OF that]])
  have 3: "sys_reach faulty s (sender_write ok t ?s2)" if "s_senders ?s1 t = Pushed" "s_senders ?s2 t = Swapped"
  proof (cases ok)
    case True
    with more [OF 2 [OF that(1)] signal [OF that(2)]] show ?thesis by simp
  next
    case False
    with ok have f: faulty by simp
    with more [OF 2 [OF that(1)] signal_fails [OF f that(2)]] False show ?thesis by simp
  qed
  show ?thesis using 1 2 3 by (simp add: sender_runs_def Let_def)
qed

subsection \<open>Properties\<close>

text \<open>
  C7: no wake-up is lost. Whatever threads send and in whatever order their steps and the loop's fall,
  as long as the kernel takes the wake-up writes: when the loop sleeps in a \<open>poll\<close> without a pending
  event while no sender is in the middle of a \<open>trigger\<close>, both channels are empty. And whenever it sleeps
  with a command waiting, an event is pending or a sender is still about to raise one.
\<close>

theorem no_lost_wakeup:
  assumes "sys_reach False (sys_start h) s" and "\<not> awoken (h_waker h)" and "s_loop s = AtPoll False"
  shows "(quiet s \<longrightarrow> h_urgent (s_handle s) = [] \<and> h_common (s_handle s) = [])
    \<and> (pending (s_handle s) \<noteq> [] \<longrightarrow> s_event s \<or> (\<exists>t. s_senders s t \<noteq> Idle))"
proof -
  have "sys_ok s" using sys_reach_ok [OF assms(1)] assms(2) by (simp add: sys_start_ok)
  with assms(3) show ?thesis by (auto simp: sys_ok_def sleep_announced_def quiet_def pending_def)
qed

text \<open>An idle loop goes to sleep; a \<open>trigger\<close> of thread 3 leaves the event pending.\<close>

definition idle_loop :: loop_handle where
  "idle_loop = \<lparr>h_idx = 0, h_urgent = [], h_common = [], h_connected = True,
     h_waker = \<lparr>waker_id = 7, awoken = False\<rparr>, h_conn_count = 0\<rparr>"

definition asleep :: sys where
  "asleep = loop_check (sys_start idle_loop)"

lemma asleep_reach: "sys_reach faulty (sys_start idle_loop) asleep"
  unfolding asleep_def by (rule more [OF here check]) (simp add: sys_start_def)

lemma no_lost_wakeup_witness:
  "s_event (sender_runs True 3 Shutdown asleep) \<or> (\<exists>t. s_senders (sender_runs True 3 Shutdown asleep) t \<noteq> Idle)"
proof -
  have idle: "s_senders asleep 3 = Idle" by (simp add: asleep_def loop_check_def sys_start_def)
  have reach: "sys_reach False (sys_start idle_loop) (sender_runs True 3 Shutdown asleep)"
    using sender_runs_reach [OF idle, of True False Shutdown] asleep_reach [of False]
    by (rule sys_reach_trans [rotated]) simp
  show ?thesis
    using no_lost_wakeup [OF reach]
    by (auto simp: sender_runs_def sender_push_def sender_swap_def sender_write_def asleep_def loop_check_def
        sys_start_def idle_loop_def enqueue_def send_urgent_def Let_def less_prioity_def)
qed

text \<open>
  A refused wake-up strands the loop. Once a system call of the waker has failed, the loop can sleep
  with commands waiting, no event pending and no sender active; and every later \<open>trigger\<close> finds the flag
  up, makes no system call and leaves the loop asleep.
\<close>

theorem failed_wake_strands:
  shows "\<exists>s. sys_reach True (sys_start idle_loop) s \<and> quiet s \<and> pending (s_handle s) \<noteq> []
    \<and> (\<forall>t cmd ok. quiet (sender_runs ok t cmd s) \<and> pending (s_handle (sender_runs ok t cmd s)) \<noteq> [])"
proof -
  let ?s = "sender_runs False 3 Shutdown asleep"
  have idle: "s_senders asleep 3 = Idle" by (simp add: asleep_def loop_check_def sys_start_def)
  have "sys_reach True (sys_start idle_loop) ?s"
    using sender_runs_reach [OF idle, of False True Shutdown] asleep_reach [of True]
    by (rule sys_reach_trans [rotated]) simp
  moreover have s: "?s = \<lparr>s_handle = idle_loop\<lparr>h_urgent := [Shutdown], h_waker := \<lparr>waker_id = 7, awoken = True\<rparr>\<rparr>,
      s_event = False, s_senders = (\<lambda>_. Idle), s_loop = AtPoll False\<rparr>"
    by (auto simp: sender_runs_def sender_push_def sender_swap_def sender_write_def asleep_def loop_check_def
        sys_start_def idle_loop_def enqueue_def send_urgent_def Let_def less_prioity_def)
  moreover have "quiet (sender_runs ok t cmd ?s) \<and> pending (s_handle (sender_runs ok t cmd ?s)) \<noteq> []" for t cmd ok
    unfolding s
    by (auto simp: sender_runs_def sender_push_def sender_swap_def quiet_def pending_def idle_loop_def
        enqueue_def send_urgent_def send_common_def Let_def)
  ultimately show ?thesis by (intro exI [of _ ?s]) (simp add: quiet_def pending_def)
qed

end
