(* ===== verification/Bind.thy ===== *)
theory Bind
  imports Listener Text SimKernel
begin

text \<open>
  Model of the rest of \<open>src/listener.rs\<close>: how a listener is bound and configured. What \<open>socket2\<close> is
  asked is a value of \<open>s2_request\<close>, and the operating system answers each request; the file system is
  part of the outside world too. A listener is named by the number of the socket it was made from.
\<close>

subsection \<open>Requests to a socket\<close>

definition s2_new :: "'w os \<Rightarrow> s2_domain \<Rightarrow> (nat, 'w) prog" where
  "s2_new os d w = (case s2_socket os w d of (Inl e, w') \<Rightarrow> (Err e, w') | (Inr s, w') \<Rightarrow> (Ok s, w'))"

definition s2_ask :: "'w os \<Rightarrow> nat \<Rightarrow> s2_request \<Rightarrow> (unit, 'w) prog" where
  "s2_ask os s r w = (case s2_call os w s r of (Inl e, w') \<Rightarrow> (Err e, w') | (Inr _, w') \<Rightarrow> (Ok (), w'))"

definition when_io :: "bool \<Rightarrow> (unit, 'w) prog \<Rightarrow> (unit, 'w) prog" where
  "when_io b m = (if b then m else ret ())"

definition configure_socket :: "'w os \<Rightarrow> nat \<Rightarrow> options \<Rightarrow> (unit, 'w) prog" where
  "configure_socket os s opts =
     bind_io (when_io (reuse_addr opts) (s2_ask os s SetReuseAddress)) (\<lambda>_.
     bind_io (when_io (reuse_port opts) (s2_ask os s SetReusePort)) (\<lambda>_.
     bind_io (when_io (0 < socket_recv_buffer opts) (s2_ask os s (SetRecvBufferSize (socket_recv_buffer opts)))) (\<lambda>_.
     bind_io (when_io (0 < socket_send_buffer opts) (s2_ask os s (SetSendBufferSize (socket_send_buffer opts)))) (\<lambda>_.
     when_io (bind_to_device opts \<noteq> []) (s2_ask os s (BindDevice (bind_to_device opts)))))))"

subsection \<open>Creating listeners\<close>

fun is_ipv4 :: "socket_addr \<Rightarrow> bool" where
  "is_ipv4 (SocketAddrV4 _ _) = True"
| "is_ipv4 (SocketAddrV6 _ _ _ _) = False"

definition keep_alive :: "'w os \<Rightarrow> nat \<Rightarrow> options \<Rightarrow> (unit, 'w) prog" where
  "keep_alive os s opts =
     (case tcp_keepalive opts of
        None \<Rightarrow> ret ()
      | Some keepalive_time \<Rightarrow>
          bind_io (s2_ask os s SetKeepalive) (\<lambda>_.
            (let interval = (case tcp_keep_interval opts of Some i \<Rightarrow> i | None \<Rightarrow> keepalive_time div 5);
                 retries = (case tcp_keep_count opts of Some n \<Rightarrow> n | None \<Rightarrow> 5)
             in s2_ask os s (SetTcpKeepalive keepalive_time interval retries))))"

definition create_mio_tcp_listener :: "'w os \<Rightarrow> socket_addr \<Rightarrow> options \<Rightarrow> 32 word \<Rightarrow> (nat, 'w) prog" where
  "create_mio_tcp_listener os addr opts backlog =
     bind_io (s2_new os (if is_ipv4 addr then DomainIpv4 else DomainIpv6)) (\<lambda>s.
     bind_io (configure_socket os s opts) (\<lambda>_.
     bind_io (s2_ask os s (BindAddr (TcpAddr addr))) (\<lambda>_.
     bind_io (s2_ask os s (Listen backlog)) (\<lambda>_.
     bind_io (s2_ask os s SetNonblocking) (\<lambda>_.
     bind_io (when_io (tcp_no_delay opts = NoDelay) (s2_ask os s SetTcpNodelay)) (\<lambda>_.
     bind_io (keep_alive os s opts) (\<lambda>_. ret s)))))))"

text \<open>
  The result of removing a stale socket file is ignored. \<open>SockAddr::unix\<close> refuses a path that does not
  fit; that answer is the one to \<open>BindAddr\<close>.
\<close>

definition remove_stale :: "'w os \<Rightarrow> string \<Rightarrow> (unit, 'w) prog" where
  "remove_stale os path w = (if path_exists os w path then (Ok (), snd (remove_file os w path)) else (Ok (), w))"

definition create_mio_unix_listener :: "'w os \<Rightarrow> string \<Rightarrow> options \<Rightarrow> 32 word \<Rightarrow> (nat, 'w) prog" where
  "create_mio_unix_listener os path opts backlog =
     bind_io (s2_new os DomainUnix) (\<lambda>s.
     bind_io (configure_socket os s opts) (\<lambda>_.
     bind_io (remove_stale os path) (\<lambda>_.
     bind_io (s2_ask os s (BindAddr (UnixAddr path))) (\<lambda>_.
     bind_io (s2_ask os s (Listen backlog)) (\<lambda>_.
     bind_io (s2_ask os s SetNonblocking) (\<lambda>_. ret s))))))"

definition get_max_listen_backlog :: "'w os \<Rightarrow> 'w \<Rightarrow> 32 word" where
  "get_max_listen_backlog os w =
     (case read_to_string os w ''/proc/sys/net/core/somaxconn'' of
        None \<Rightarrow> 128
      | Some s \<Rightarrow>
          (case parse_i32 (trim s) of
             None \<Rightarrow> 128
           | Some n \<Rightarrow> of_int (if 65535 < n then 65535 else n)))"

definition inner_local_addr :: "'w os \<Rightarrow> 'w \<Rightarrow> listener_inner \<Rightarrow> io_error + network_address" where
  "inner_local_addr os w l =
     (case l of
        TcpListener n \<Rightarrow> (case tcp_listener_addr os w n of Inl e \<Rightarrow> Inl e | Inr a \<Rightarrow> Inr (TcpAddr a))
      | UnixListener n \<Rightarrow>
          (case unix_listener_addr os w n of
             Inl e \<Rightarrow> Inl e
           | Inr None \<Rightarrow> Inl (IoError AddrNotAvailable ''unix socket is not bound to a filesystem path (abstract or unnamed)'')
           | Inr (Some path) \<Rightarrow> Inr (UnixAddr path)))"

text \<open>The address of a TCP listener is the one the kernel gave it (the port may have been 0).\<close>

definition listener_bind :: "'w os \<Rightarrow> network_address \<Rightarrow> options \<Rightarrow> (listener, 'w) prog" where
  "listener_bind os addr opts w =
     (let backlog = get_max_listen_backlog os w in
      case addr of
        TcpAddr socket_addr \<Rightarrow>
          bind_io (create_mio_tcp_listener os socket_addr opts backlog) (\<lambda>s w'.
            case tcp_listener_addr os w' s of
              Inl e \<Rightarrow> (Err e, w')
            | Inr local_addr \<Rightarrow> (Ok \<lparr>li_inner = TcpListener s, li_addr = TcpAddr local_addr, li_options = opts\<rparr>, w')) w
      | UnixAddr path \<Rightarrow>
          bind_io (create_mio_unix_listener os path opts backlog) (\<lambda>s.
            ret \<lparr>li_inner = UnixListener s, li_addr = UnixAddr path, li_options = opts\<rparr>) w)"

definition network :: "listener \<Rightarrow> string" where
  "network l = (case li_addr l of TcpAddr a \<Rightarrow> if is_ipv4 a then ''tcp4'' else ''tcp6'' | UnixAddr _ \<Rightarrow> ''unix'')"

subsection \<open>The requests of a listener\<close>

text \<open>What a listener with given options must ask, in order.\<close>

fun ask_all :: "'w os \<Rightarrow> nat \<Rightarrow> s2_request list \<Rightarrow> (unit, 'w) prog" where
  "ask_all os s [] = ret ()"
| "ask_all os s (r # rs) = bind_io (s2_ask os s r) (\<lambda>_. ask_all os s rs)"

definition option_requests :: "options \<Rightarrow> s2_request list" where
  "option_requests opts =
     [r. (b, r) \<leftarrow>
        [(reuse_addr opts, SetReuseAddress), (reuse_port opts, SetReusePort),
         (0 < socket_recv_buffer opts, SetRecvBufferSize (socket_recv_buffer opts)),
         (0 < socket_send_buffer opts, SetSendBufferSize (socket_send_buffer opts)),
         (bind_to_device opts \<noteq> [], BindDevice (bind_to_device opts))], b]"

definition keepalive_requests :: "options \<Rightarrow> s2_request list" where
  "keepalive_requests opts =
     (case tcp_keepalive opts of
        None \<Rightarrow> []
      | Some t \<Rightarrow>
          [SetKeepalive,
           SetTcpKeepalive t (case tcp_keep_interval opts of Some i \<Rightarrow> i | None \<Rightarrow> t div 5)
             (case tcp_keep_count opts of Some n \<Rightarrow> n | None \<Rightarrow> 5)])"

fun listen_requests :: "network_address \<Rightarrow> options \<Rightarrow> 32 word \<Rightarrow> s2_request list" where
  "listen_requests (TcpAddr addr) opts backlog =
     option_requests opts @ [BindAddr (TcpAddr addr), Listen backlog, SetNonblocking]
     @ [r. r \<leftarrow> [SetTcpNodelay], tcp_no_delay opts = NoDelay] @ keepalive_requests opts"
| "listen_requests (UnixAddr path) opts backlog =
     option_requests opts @ [BindAddr (UnixAddr path), Listen backlog, SetNonblocking]"

text \<open>A kernel that keeps a log of the requests it has granted.\<close>

definition keeps_log :: "'w os \<Rightarrow> ('w \<Rightarrow> (nat \<times> s2_request) list) \<Rightarrow> bool" where
  "keeps_log os calls \<longleftrightarrow>
     (\<forall>w s r w'. s2_call os w s r = (Inr (), w') \<longrightarrow> calls w' = calls w @ [(s, r)])
     \<and> (\<forall>w d. calls (snd (s2_socket os w d)) = calls w)
     \<and> (\<forall>w path. calls (snd (remove_file os w path)) = calls w)"

subsection \<open>Lemmas\<close>

lemma bind_io_assoc: "bind_io (bind_io m f) g = bind_io m (\<lambda>x. bind_io (f x) g)"
  by (rule ext) (auto simp: bind_io_def split: prod.splits outcome.splits)

lemma bind_io_ret_left: "bind_io (ret x) f = f x"
  by (rule ext) simp

lemma bind_io_ret_right: "bind_io m ret = m"
  by (rule ext) (auto simp: bind_io_def ret_def split: prod.splits outcome.splits)

lemma ask_all_append: "ask_all os s (rs @ rs') = bind_io (ask_all os s rs) (\<lambda>_. ask_all os s rs')"
  by (induction rs) (simp_all add: bind_io_assoc bind_io_ret_left)

lemma when_ask: "when_io b (s2_ask os s r) = ask_all os s (if b then [r] else [])"
  by (simp add: when_io_def bind_io_ret_right)

lemma configure_asks: "configure_socket os s opts = ask_all os s (option_requests opts)"
proof -
  have "option_requests opts = (if reuse_addr opts then [SetReuseAddress] else [])
      @ (if reuse_port opts then [SetReusePort] else [])
      @ (if 0 < socket_recv_buffer opts then [SetRecvBufferSize (socket_recv_buffer opts)] else [])
      @ (if 0 < socket_send_buffer opts then [SetSendBufferSize (socket_send_buffer opts)] else [])
      @ (if bind_to_device opts \<noteq> [] then [BindDevice (bind_to_device opts)] else [])"
    by (simp add: option_requests_def)
  then show ?thesis by (simp only: configure_socket_def when_ask ask_all_append)
qed

lemma keep_alive_asks: "keep_alive os s opts = ask_all os s (keepalive_requests opts)"
  by (simp add: keep_alive_def keepalive_requests_def Let_def bind_io_ret_right split: option.split)

lemma create_tcp_asks:
  "create_mio_tcp_listener os addr opts backlog =
     bind_io (s2_new os (if is_ipv4 addr then DomainIpv4 else DomainIpv6)) (\<lambda>s.
     bind_io (ask_all os s (listen_requests (TcpAddr addr) opts backlog)) (\<lambda>_. ret s))"
  by (simp add: create_mio_tcp_listener_def configure_asks keep_alive_asks when_ask ask_all_append bind_io_assoc
      bind_io_ret_left)

text \<open>What a granted sequence of requests leaves in the log.\<close>

lemma ask_all_log:
  assumes log: "keeps_log os calls"
  shows "ask_all os s rs w = (Ok u, w') \<Longrightarrow> calls w' = calls w @ map (Pair s) rs"
proof (induction rs arbitrary: w)
  case Nil
  then show ?case by (simp add: ret_def)
next
  case (Cons r rs)
  from Cons.prems obtain x w1 where w1: "s2_ask os s r w = (Ok x, w1)" and rest: "ask_all os s rs w1 = (Ok u, w')"
    by (auto elim: bind_io_OkE)
  from w1 have "s2_call os w s r = (Inr (), w1)" by (auto simp: s2_ask_def split: prod.splits sum.splits)
  with log have "calls w1 = calls w @ [(s, r)]" by (simp add: keeps_log_def)
  with Cons.IH [OF rest] show ?case by simp
qed

lemma ask_all_outcome: "fst (ask_all os s rs w) \<noteq> Panic \<and> fst (ask_all os s rs w) \<noteq> Diverge"
proof (induction rs arbitrary: w)
  case (Cons r rs)
  show ?case
  proof (cases "s2_call os w s r")
    case (Pair x w1)
    with Cons [of w1] show ?thesis by (cases x) (simp_all add: s2_ask_def bind_io_def)
  qed
qed (simp add: ret_def)

lemma s2_new_log:
  assumes "keeps_log os calls" and "s2_new os d w = (Ok s, w')"
  shows "calls w' = calls w"
proof -
  from assms(2) have "w' = snd (s2_socket os w d)" by (auto simp: s2_new_def split: prod.splits sum.splits)
  with assms(1) show ?thesis by (simp add: keeps_log_def)
qed

lemma remove_stale_log:
  assumes "keeps_log os calls"
  shows "calls (snd (remove_stale os path w)) = calls w" and "fst (remove_stale os path w) = Ok ()"
  using assms by (simp_all add: remove_stale_def keeps_log_def)

lemma create_tcp_log:
  assumes log: "keeps_log os calls" and ok: "create_mio_tcp_listener os addr opts backlog w = (Ok s, w')"
  shows "calls w' = calls w @ map (Pair s) (listen_requests (TcpAddr addr) opts backlog)"
proof -
  from ok [unfolded create_tcp_asks] obtain s1 w1 where new: "s2_new os (if is_ipv4 addr then DomainIpv4 else DomainIpv6) w = (Ok s1, w1)"
    and "bind_io (ask_all os s1 (listen_requests (TcpAddr addr) opts backlog)) (\<lambda>_. ret s1) w1 = (Ok s, w')"
    by (rule bind_io_OkE)
  from this(2) obtain u w2 where "ask_all os s1 (listen_requests (TcpAddr addr) opts backlog) w1 = (Ok u, w2)" "ret s1 w2 = (Ok s, w')"
    by (rule bind_io_OkE)
  with ask_all_log [OF log this(1)] s2_new_log [OF log new] show ?thesis by (simp add: ret_def)
qed

lemma create_unix_log:
  assumes log: "keeps_log os calls" and ok: "create_mio_unix_listener os path opts backlog w = (Ok s, w')"
  shows "calls w' = calls w @ map (Pair s) (listen_requests (UnixAddr path) opts backlog)"
proof -
  let ?tail = "[BindAddr (UnixAddr path), Listen backlog, SetNonblocking]"
  have unix: "create_mio_unix_listener os path opts backlog =
      bind_io (s2_new os DomainUnix) (\<lambda>s. bind_io (ask_all os s (option_requests opts)) (\<lambda>_.
        bind_io (remove_stale os path) (\<lambda>_. bind_io (ask_all os s ?tail) (\<lambda>_. ret s))))"
    by (simp add: create_mio_unix_listener_def configure_asks bind_io_assoc bind_io_ret_left)
  from ok [unfolded unix] obtain s1 w1 where new: "s2_new os DomainUnix w = (Ok s1, w1)"
    and "bind_io (ask_all os s1 (option_requests opts)) (\<lambda>_. bind_io (remove_stale os path) (\<lambda>_. bind_io (ask_all os s1 ?tail) (\<lambda>_. ret s1))) w1 = (Ok s, w')"
    by (rule bind_io_OkE)
  from this(2) obtain u w2 where cfg: "ask_all os s1 (option_requests opts) w1 = (Ok u, w2)"
    and "bind_io (remove_stale os path) (\<lambda>_. bind_io (ask_all os s1 ?tail) (\<lambda>_. ret s1)) w2 = (Ok s, w')"
    by (rule bind_io_OkE)
  from this(2) obtain u3 w3 where stale: "remove_stale os path w2 = (Ok u3, w3)"
    and "bind_io (ask_all os s1 ?tail) (\<lambda>_. ret s1) w3 = (Ok s, w')" by (rule bind_io_OkE)
  from this(2) obtain u4 w4 where rest: "ask_all os s1 ?tail w3 = (Ok u4, w4)" and "ret s1 w4 = (Ok s, w')"
    by (rule bind_io_OkE)
  from this(2) have s: "s1 = s" "w4 = w'" by (simp_all add: ret_def)
  from ask_all_log [OF log rest] remove_stale_log(1) [OF log, of path w2] stale ask_all_log [OF log cfg] s2_new_log [OF log new] s
  show ?thesis by simp
qed

subsection \<open>Properties\<close>

definition listener_fd :: "listener \<Rightarrow> nat" where
  "listener_fd l = (case li_inner l of TcpListener n \<Rightarrow> n | UnixListener n \<Rightarrow> n)"

text \<open>
  C32: a bound listener was configured as its options say. When \<open>Listener::bind\<close> answers a listener,
  the kernel has granted exactly the requests the options ask for, in order: every option before
  \<open>bind\<close>, then \<open>bind\<close>, \<open>listen\<close> with the system's backlog and non-blocking mode, and for TCP the
  delay and keep-alive settings. A Unix listener keeps the address asked for, a TCP one reports the
  address the kernel chose.
\<close>

theorem bind_grants_requests:
  assumes log: "keeps_log os calls" and ok: "listener_bind os addr opts w = (Ok l, w')"
  shows "calls w' = calls w @ map (Pair (listener_fd l)) (listen_requests addr opts (get_max_listen_backlog os w))
    \<and> li_options l = opts
    \<and> (case addr of UnixAddr path \<Rightarrow> li_addr l = addr
        | TcpAddr _ \<Rightarrow> \<exists>a. li_addr l = TcpAddr a \<and> tcp_listener_addr os w' (listener_fd l) = Inr a)"
proof (cases addr)
  case (TcpAddr a)
  with ok obtain s w1 where s: "create_mio_tcp_listener os a opts (get_max_listen_backlog os w) w = (Ok s, w1)"
    and l: "(case tcp_listener_addr os w1 s of Inl e \<Rightarrow> (Err e, w1)
        | Inr local_addr \<Rightarrow> (Ok \<lparr>li_inner = TcpListener s, li_addr = TcpAddr local_addr, li_options = opts\<rparr>, w1)) = (Ok l, w')"
    by (auto simp: listener_bind_def Let_def elim: bind_io_OkE)
  with create_tcp_log [OF log s] TcpAddr show ?thesis by (auto simp: listener_fd_def split: sum.splits)
next
  case (UnixAddr path)
  with ok obtain s w1 where s: "create_mio_unix_listener os path opts (get_max_listen_backlog os w) w = (Ok s, w1)"
    and l: "ret \<lparr>li_inner = UnixListener s, li_addr = UnixAddr path, li_options = opts\<rparr> w1 = (Ok l, w')"
    by (auto simp: listener_bind_def Let_def elim: bind_io_OkE)
  with create_unix_log [OF log s] UnixAddr show ?thesis by (auto simp: listener_fd_def ret_def)
qed

lemma sim_keeps_log: "keeps_log sim_os sim_calls"
  by (simp add: keeps_log_def sim_os_def)

lemma bind_grants_requests_witness:
  "\<exists>l w'. listener_bind sim_os (TcpAddr (SocketAddrV4 [0, 0, 0, 0] 0)) (default_options\<lparr>reuse_addr := True\<rparr>) sim0 = (Ok l, w')
    \<and> map snd (sim_calls w') = [SetReuseAddress, BindAddr (TcpAddr (SocketAddrV4 [0, 0, 0, 0] 0)), Listen 128, SetNonblocking, SetTcpNodelay]
    \<and> li_addr l = TcpAddr (SocketAddrV4 [127, 0, 0, 1] 9000)"
proof -
  let ?addr = "TcpAddr (SocketAddrV4 [0, 0, 0, 0] 0)" and ?opts = "default_options\<lparr>reuse_addr := True\<rparr>"
  have "\<exists>l w'. listener_bind sim_os ?addr ?opts sim0 = (Ok l, w') \<and> li_addr l = TcpAddr (SocketAddrV4 [127, 0, 0, 1] 9000)"
    by (simp add: listener_bind_def create_mio_tcp_listener_def configure_socket_def keep_alive_def when_io_def s2_new_def s2_ask_def
        bind_io_def ret_def sim_os_def default_options_def Let_def)
  then obtain l w' where l: "listener_bind sim_os ?addr ?opts sim0 = (Ok l, w')" "li_addr l = TcpAddr (SocketAddrV4 [127, 0, 0, 1] 9000)" by blast
  have "get_max_listen_backlog sim_os sim0 = 128" by (simp add: get_max_listen_backlog_def sim_os_def)
  with bind_grants_requests [OF sim_keeps_log l(1)] l show ?thesis
    by (simp add: option_requests_def keepalive_requests_def default_options_def sim0_def o_def)
qed

lemma i32_of_int: "- (2 ^ 31) \<le> v \<Longrightarrow> v < 2 ^ 31 \<Longrightarrow> sint (of_int v :: 32 word) = v"
  by (simp add: signed_of_int signed_take_bit_int_eq_self)

lemma parse_i32_range: "parse_i32 s = Some v \<Longrightarrow> - (2 ^ 31) \<le> v \<and> v < 2 ^ 31"
  by (auto simp: parse_i32_def Let_def split: prod.splits if_splits)

text \<open>
  The backlog is what the system allows, up to 65535. It never exceeds 65535; a limit of \<open>n\<close>
  in the kernel's file gives the smaller of \<open>n\<close> and 65535; without a readable file it is 128.
\<close>

theorem backlog_bounds:
  "sint (get_max_listen_backlog os w) \<le> 65535
    \<and> (read_to_string os w ''/proc/sys/net/core/somaxconn'' = None \<longrightarrow> get_max_listen_backlog os w = 128)
    \<and> (\<forall>n < 2 ^ 31. read_to_string os w ''/proc/sys/net/core/somaxconn'' = Some (show_nat n @ [CHR 0x0A]) \<longrightarrow>
         sint (get_max_listen_backlog os w) = int (min n 65535))"
proof (intro conjI allI impI)
  show "sint (get_max_listen_backlog os w) \<le> 65535"
  proof (cases "read_to_string os w ''/proc/sys/net/core/somaxconn''")
    case None
    then show ?thesis by (simp add: get_max_listen_backlog_def)
  next
    case (Some s)
    show ?thesis
    proof (cases "parse_i32 (trim s)")
      case None
      with Some show ?thesis by (simp add: get_max_listen_backlog_def)
    next
      case (Some v)
      with parse_i32_range [OF this] i32_of_int [of "if 65535 < v then 65535 else v"]
        \<open>read_to_string os w ''/proc/sys/net/core/somaxconn'' = Some s\<close>
      show ?thesis by (simp add: get_max_listen_backlog_def split: if_splits)
    qed
  qed
next
  fix n :: nat
  assume n: "n < 2 ^ 31" and rd: "read_to_string os w ''/proc/sys/net/core/somaxconn'' = Some (show_nat n @ [CHR 0x0A])"
  have "parse_i32 (trim (show_nat n @ [CHR 0x0A])) = Some (int n)" by (simp add: trim_show_line parse_i32_show [OF n])
  moreover have "sint (of_int (if 65535 < int n then 65535 else int n) :: 32 word) = (if 65535 < int n then 65535 else int n)"
    using n by (intro i32_of_int) (auto simp: less_imp_le)
  ultimately show "sint (get_max_listen_backlog os w) = int (min n 65535)"
    using rd by (simp add: get_max_listen_backlog_def min_def split: if_splits)
qed (simp add: get_max_listen_backlog_def)

lemma backlog_bounds_witness:
  "sint (get_max_listen_backlog (sim_os\<lparr>read_to_string := (\<lambda>w p. Some (show_nat 4096 @ [CHR 0x0A]))\<rparr>) sim0) = 4096"
  using backlog_bounds [of "sim_os\<lparr>read_to_string := (\<lambda>w p. Some (show_nat 4096 @ [CHR 0x0A]))\<rparr>" sim0] by simp

end
