(* ===== verification/EngineRun.thy ===== *)
theory EngineRun
  imports Engine Bind OptionsBuilder Worker
begin

text \<open>
  Model of \<open>Engine::run\<close> in \<open>src/engine.rs\<close>: which parts are created, in which order, and how they
  are connected, up to the moment at which the calling thread joins the threads it has spawned; and the
  shutdown of the worker pool after the joins. What the spawned threads do is the subject of the theories
  of the parts: a spawned loop or acceptor is its state, ready to run. Failing to pin a thread to a core is
  only reported, so cores are numbers.
\<close>

subsection \<open>State\<close>

record ('w, 't) engine_env =
  v_handle :: engine_handler
  v_pool :: "'t pool_state"
  v_world :: 'w

record ('w, 'k) threads =
  t_loops :: "('w, 'k) eloop list"
  t_acceptor :: "'w acceptor option"
  t_workers :: "nat list"

definition in_world :: "('a, 'w) prog \<Rightarrow> ('a, ('w, 't) engine_env) prog" where
  "in_world m v = (case m (v_world v) of (r, w) \<Rightarrow> (r, v\<lparr>v_world := w\<rparr>))"

definition on_engine_handle :: "(engine_handler \<Rightarrow> engine_handler) \<Rightarrow> (unit, ('w, 't) engine_env) prog" where
  "on_engine_handle f v = (Ok (), v\<lparr>v_handle := f (v_handle v)\<rparr>)"

definition start_pool :: "nat \<Rightarrow> (nat list, ('w, 't) engine_env) prog" where
  "start_pool worker_count v =
     (case WorkerPool_new worker_count (v_pool v) of (workers, p) \<Rightarrow> (Ok workers, v\<lparr>v_pool := p\<rparr>))"

subsection \<open>Listeners\<close>

fun bind_all :: "'w os \<Rightarrow> options \<Rightarrow> network_address list \<Rightarrow> (listener list, 'w) prog" where
  "bind_all os opts [] = ret []"
| "bind_all os opts (a # as) =
     bind_io (listener_bind os a opts) (\<lambda>l. bind_io (bind_all os opts as) (\<lambda>ls. ret (l # ls)))"

subsection \<open>One acceptor for all loops\<close>

text \<open>
  Up to the spawn of the acceptor; then the worker pool. By then the loops and the acceptor are
  running. \<open>lb_policy.take().unwrap()\<close> panics without a policy.
\<close>

definition user_lb_threads ::
  "'w reactor \<Rightarrow> 'w os \<Rightarrow> u32 \<Rightarrow> 'h engine \<Rightarrow> nat list
    \<Rightarrow> (('w, 'k) eloop list \<times> 'w acceptor, ('w, 't) engine_env) prog" where
  "user_lb_threads rx os mono_seq en cores =
     bind_io (in_world (bind_all os (en_options en) (en_address en))) (\<lambda>listeners.
     bind_io (in_world (new_loops rx (en_options en) mono_seq 0 (length cores))) (\<lambda>els.
     bind_io (on_engine_handle (set_workers (map l_handle els))) (\<lambda>_.
       case en_lb_policy en of
         None \<Rightarrow> (\<lambda>v. (Panic, v))
       | Some policy \<Rightarrow>
           bind_io (in_world (Acceptor_new (poller_new rx) (waker_new rx) listeners (map l_handle els) policy)) (\<lambda>ac.
           bind_io (on_engine_handle (set_acceptor \<lparr>ah_waker = a_waker ac, ah_running = a_running ac\<rparr>)) (\<lambda>_.
           ret (els, ac))))))"

definition run_user_lb ::
  "'w reactor \<Rightarrow> 'w os \<Rightarrow> u32 \<Rightarrow> 'h engine \<Rightarrow> nat list \<Rightarrow> (('w, 'k) threads, ('w, 't) engine_env) prog" where
  "run_user_lb rx os mono_seq en cores =
     bind_io (user_lb_threads rx os mono_seq en cores) (\<lambda>(els, ac).
     bind_io (start_pool (length cores)) (\<lambda>workers.
     ret \<lparr>t_loops = els, t_acceptor = Some ac, t_workers = workers\<rparr>))"

subsection \<open>Listeners in every loop\<close>

definition build_loop :: "'w os \<Rightarrow> bool \<Rightarrow> listener list \<Rightarrow> ('w, 'k) eloop \<Rightarrow> (('w, 'k) eloop, 'w) prog" where
  "build_loop os dbg listeners el w =
     (case eloop_build os dbg ((set_listeners listeners el)\<lparr>l_world := w\<rparr>) of
        (Ok _, el') \<Rightarrow> (Ok el', l_world el')
      | (Err e, el') \<Rightarrow> (Err e, l_world el')
      | (Panic, el') \<Rightarrow> (Panic, l_world el')
      | (Diverge, el') \<Rightarrow> (Diverge, l_world el'))"

fun pending_loops ::
  "'w reactor \<Rightarrow> 'w os \<Rightarrow> bool \<Rightarrow> options \<Rightarrow> network_address list \<Rightarrow> u32 \<Rightarrow> nat \<Rightarrow> nat
    \<Rightarrow> (('w, 'k) eloop list, 'w) prog" where
  "pending_loops rx os dbg opts addrs mono_seq i 0 = ret []"
| "pending_loops rx os dbg opts addrs mono_seq i (Suc n) =
     bind_io (bind_all os opts addrs) (\<lambda>listeners.
     bind_io (eloop_new rx (of_nat i) opts 0 mono_seq) (\<lambda>el.
     bind_io (build_loop os dbg listeners el) (\<lambda>el'.
     bind_io (pending_loops rx os dbg opts addrs mono_seq (Suc i) n) (\<lambda>els. ret (el' # els)))))"

definition run_reuse_port ::
  "'w reactor \<Rightarrow> 'w os \<Rightarrow> bool \<Rightarrow> u32 \<Rightarrow> 'h engine \<Rightarrow> nat list \<Rightarrow> (('w, 'k) threads, ('w, 't) engine_env) prog" where
  "run_reuse_port rx os dbg mono_seq en cores =
     bind_io (in_world (pending_loops rx os dbg (en_options en) (en_address en) mono_seq 0 (length cores))) (\<lambda>els.
     bind_io (on_engine_handle (set_workers (map l_handle els))) (\<lambda>_.
     bind_io (start_pool (length cores)) (\<lambda>workers.
     ret \<lparr>t_loops = els, t_acceptor = None, t_workers = workers\<rparr>)))"

subsection \<open>The engine\<close>

text \<open>\<open>available\<close> is the answer of \<open>core_affinity::get_core_ids\<close>.\<close>

definition engine_run ::
  "'w reactor \<Rightarrow> 'w os \<Rightarrow> bool \<Rightarrow> u32 \<Rightarrow> nat list option \<Rightarrow> 'h engine \<Rightarrow> (('w, 'k) threads, ('w, 't) engine_env) prog" where
  "engine_run rx os dbg mono_seq available en v =
     (let cores = get_core_ids (read_to_string os (v_world v)) available (Some (num_event_loop (en_options en))) in
      if reuse_port (en_options en) then run_reuse_port rx os dbg mono_seq en cores v
      else run_user_lb rx os mono_seq en cores v)"

text \<open>After the joins.\<close>

definition engine_stop :: "('w, 't) engine_env \<Rightarrow> ('w, 't) engine_env" where
  "engine_stop v = v\<lparr>v_pool := take_senders (v_pool v)\<rparr>"

subsection \<open>Lemmas\<close>

lemma in_world_Ok: "in_world m v = (Ok x, v') \<Longrightarrow> \<exists>w. m (v_world v) = (Ok x, w) \<and> v' = v\<lparr>v_world := w\<rparr>"
  by (auto simp: in_world_def split: prod.splits)

lemma listener_bind_options: "listener_bind os a opts w = (Ok l, w') \<Longrightarrow> li_options l = opts"
  by (auto simp: listener_bind_def Let_def ret_def elim!: bind_io_OkE split: network_address.splits sum.splits)

lemma bind_all_listeners: "bind_all os opts as w = (Ok ls, w') \<Longrightarrow> length ls = length as \<and> (\<forall>l \<in> set ls. li_options l = opts)"
proof (induction "as" arbitrary: w ls w')
  case Nil
  then show ?case by (simp add: ret_def)
next
  case (Cons a "as")
  from Cons.prems obtain l w1 where l: "listener_bind os a opts w = (Ok l, w1)"
    and "bind_io (bind_all os opts as) (\<lambda>ls. ret (l # ls)) w1 = (Ok ls, w')" by (auto elim: bind_io_OkE)
  from this(2) obtain ls' w2 where ls': "bind_all os opts as w1 = (Ok ls', w2)" and "ret (l # ls') w2 = (Ok ls, w')"
    by (rule bind_io_OkE)
  from this(2) Cons.IH [of w1 ls' w2] ls' listener_bind_options [OF l] show ?case by (auto simp: ret_def)
qed

lemma build_listeners_world: "\<exists>w. snd (build_listeners os dbg i ls st) = st\<lparr>l_world := w\<rparr>"
proof (induction ls arbitrary: i st)
  case Nil
  have "st = st\<lparr>l_world := l_world st\<rparr>" by simp
  then show ?case by (metis build_listeners.simps(1) ret_def snd_conv)
next
  case (Cons l ls)
  show ?case
  proof (cases "listener_token dbg (of_nat i)")
    case (Ok token)
    obtain x w1 where p: "poller_register (listener_register os) (l_world st) l token = (x, w1)" by fastforce
    with Cons [of "Suc i" "st\<lparr>l_world := w1\<rparr>"] Ok show ?thesis
      by (cases x) (auto simp: bind_io_def on_world_def)
  qed (auto intro: exI [of _ "l_world st"])
qed

lemma build_loop_keeps:
  assumes "build_loop os dbg listeners el w = (Ok el', w')"
  shows "l_id el' = l_id el \<and> l_listeners el' = Some listeners \<and> l_handle el' = l_handle el
    \<and> l_connections el' = l_connections el \<and> l_pool el' = l_pool el \<and> l_scratch el' = l_scratch el"
proof -
  from build_listeners_world [of os dbg 0 listeners "(set_listeners listeners el)\<lparr>l_world := w\<rparr>"] assms
  show ?thesis
    by (auto simp: build_loop_def eloop_build_def set_listeners_def split: prod.splits outcome.splits)
qed

text \<open>A loop as the constructor leaves it.\<close>

definition fresh_loop :: "nat \<Rightarrow> ('w, 'k) eloop \<Rightarrow> bool" where
  "fresh_loop i el \<longleftrightarrow> l_id el = of_nat i \<and> h_connected (l_handle el) \<and> pending (l_handle el) = []
     \<and> l_connections el = [] \<and> l_pool el = [] \<and> h_conn_count (l_handle el) = 0 \<and> fst (l_scratch el) = 0"

lemma eloop_new_fresh: "eloop_new rx (of_nat i) opts 0 mono_seq w = (Ok el, w') \<Longrightarrow> fresh_loop i el"
  by (auto simp: fresh_loop_def eloop_new_def handle_new_def pending_def split: prod.splits sum.splits)

lemma new_loops_fresh:
  fixes els :: "('w, 'k) eloop list"
  shows "new_loops rx opts mono_seq i n w = (Ok els, w') \<Longrightarrow> length els = n \<and> (\<forall>j < n. fresh_loop (i + j) (els ! j))"
proof (induction n arbitrary: i w els w')
  case (Suc n)
  obtain el :: "('w, 'k) eloop" and w1 where el: "eloop_new rx (of_nat i) opts 0 mono_seq w = (Ok el, w1)"
    and "bind_io (new_loops rx opts mono_seq (Suc i) n) (\<lambda>els. ret (el # els)) w1 = (Ok els, w')"
    using Suc.prems unfolding new_loops.simps by (rule bind_io_OkE)
  from this(2) obtain els' w2 where els': "new_loops rx opts mono_seq (Suc i) n w1 = (Ok els', w2)" "els = el # els'"
    by (auto simp: ret_def elim!: bind_io_OkE)
  with Suc.IH [OF els'(1)] eloop_new_fresh [OF el] show ?case by (auto simp: nth_Cons split: nat.split)
qed (simp add: ret_def)

lemma pending_loops_spec:
  fixes els :: "('w, 'k) eloop list"
  shows "pending_loops rx os dbg opts addrs mono_seq i n w = (Ok els, w') \<Longrightarrow>
     length els = n \<and> (\<forall>j < n. fresh_loop (i + j) (els ! j)
       \<and> (\<exists>ls. l_listeners (els ! j) = Some ls \<and> length ls = length addrs \<and> (\<forall>l \<in> set ls. li_options l = opts)))"
proof (induction n arbitrary: i w els w')
  case 0
  then show ?case by (simp add: ret_def)
next
  case (Suc n)
  obtain listeners w1 where ls: "bind_all os opts addrs w = (Ok listeners, w1)"
    and "bind_io (eloop_new rx (of_nat i) opts 0 mono_seq) (\<lambda>el. bind_io (build_loop os dbg listeners el) (\<lambda>el'.
        bind_io (pending_loops rx os dbg opts addrs mono_seq (Suc i) n) (\<lambda>els. ret (el' # els)))) w1 = (Ok els, w')"
    using Suc.prems unfolding pending_loops.simps by (rule bind_io_OkE)
  from this(2) obtain el w2 where el: "eloop_new rx (of_nat i) opts 0 mono_seq w1 = (Ok el, w2)"
    and "bind_io (build_loop os dbg listeners el) (\<lambda>el'.
        bind_io (pending_loops rx os dbg opts addrs mono_seq (Suc i) n) (\<lambda>els. ret (el' # els))) w2 = (Ok els, w')"
    by (rule bind_io_OkE)
  from this(2) obtain el' w3 where el': "build_loop os dbg listeners el w2 = (Ok el', w3)"
    and "bind_io (pending_loops rx os dbg opts addrs mono_seq (Suc i) n) (\<lambda>els. ret (el' # els)) w3 = (Ok els, w')"
    by (rule bind_io_OkE)
  from this(2) obtain els' w4 where rest: "pending_loops rx os dbg opts addrs mono_seq (Suc i) n w3 = (Ok els', w4)"
    and "ret (el' # els') w4 = (Ok els, w')" by (rule bind_io_OkE)
  from this(2) have els: "els = el' # els'" by (simp add: ret_def)
  have "fresh_loop i el'" using eloop_new_fresh [OF el] build_loop_keeps [OF el'] by (simp add: fresh_loop_def)
  moreover have "l_listeners el' = Some listeners" using build_loop_keeps [OF el'] by simp
  moreover note bind_all_listeners [OF ls] Suc.IH [OF rest]
  ultimately show ?case unfolding els by (auto simp: nth_Cons split: nat.split)
qed

lemma engine_run_user_lb:
  "\<not> reuse_port (en_options en) \<Longrightarrow> engine_run rx os dbg mono_seq available en v
     = run_user_lb rx os mono_seq en (get_core_ids (read_to_string os (v_world v)) available (Some (num_event_loop (en_options en)))) v"
  by (simp add: engine_run_def Let_def)

lemma engine_run_reuse_port:
  "reuse_port (en_options en) \<Longrightarrow> engine_run rx os dbg mono_seq available en v
     = run_reuse_port rx os dbg mono_seq en (get_core_ids (read_to_string os (v_world v)) available (Some (num_event_loop (en_options en)))) v"
  by (simp add: engine_run_def Let_def)

lemma Acceptor_new_fields:
  "Acceptor_new pn wn ls hs b w = (Ok ac, w') \<Longrightarrow>
     a_listeners ac = ls \<and> a_workers ac = hs \<and> a_balancer ac = b \<and> a_running ac"
  by (auto simp: Acceptor_new_def split: prod.splits sum.splits)

lemma start_pool_fields:
  assumes "start_pool n v = (Ok ids, v')" and "global_senders (v_pool v) = None"
  shows "length ids = n \<and> global_senders (v_pool v') = Some ids \<and> v_handle v' = v_handle v"
  using assms by (auto simp: start_pool_def WorkerPool_new_def Let_def)

lemma user_lb_threads_spec:
  assumes run: "user_lb_threads rx os mono_seq en cores v = (Ok (els, ac), v')"
    and new: "e_loops (v_handle v) = None" "e_acceptor (v_handle v) = None"
  shows "length els = length cores \<and> (\<forall>j < length cores. fresh_loop j (els ! j))
    \<and> e_loops (v_handle v') = Some (map l_handle els)
    \<and> a_workers ac = map l_handle els \<and> length (a_listeners ac) = length (en_address en)
    \<and> (\<forall>l \<in> set (a_listeners ac). li_options l = en_options en) \<and> en_lb_policy en = Some (a_balancer ac) \<and> a_running ac
    \<and> e_acceptor (v_handle v') = Some \<lparr>ah_waker = a_waker ac, ah_running = True\<rparr>
    \<and> v_pool v' = v_pool v"
proof -
  from run [unfolded user_lb_threads_def] obtain ls v1 where ls: "in_world (bind_all os (en_options en) (en_address en)) v = (Ok ls, v1)"
    and r1: "bind_io (in_world (new_loops rx (en_options en) mono_seq 0 (length cores))) (\<lambda>els.
      bind_io (on_engine_handle (set_workers (map l_handle els))) (\<lambda>_.
       case en_lb_policy en of
         None \<Rightarrow> (\<lambda>v. (Panic, v))
       | Some policy \<Rightarrow>
           bind_io (in_world (Acceptor_new (poller_new rx) (waker_new rx) ls (map l_handle els) policy)) (\<lambda>ac.
           bind_io (on_engine_handle (set_acceptor \<lparr>ah_waker = a_waker ac, ah_running = a_running ac\<rparr>)) (\<lambda>_.
           ret (els, ac))))) v1 = (Ok (els, ac), v')" by (rule bind_io_OkE)
  from r1 obtain els1 v2 where els1: "in_world (new_loops rx (en_options en) mono_seq 0 (length cores)) v1 = (Ok els1, v2)"
    and r2: "bind_io (on_engine_handle (set_workers (map l_handle els1))) (\<lambda>_.
       case en_lb_policy en of
         None \<Rightarrow> (\<lambda>v. (Panic, v))
       | Some policy \<Rightarrow>
           bind_io (in_world (Acceptor_new (poller_new rx) (waker_new rx) ls (map l_handle els1) policy)) (\<lambda>ac.
           bind_io (on_engine_handle (set_acceptor \<lparr>ah_waker = a_waker ac, ah_running = a_running ac\<rparr>)) (\<lambda>_.
           ret (els1, ac)))) v2 = (Ok (els, ac), v')" by (rule bind_io_OkE)
  from r2 obtain v3 where v3: "v3 = v2\<lparr>v_handle := set_workers (map l_handle els1) (v_handle v2)\<rparr>"
    and r3: "(case en_lb_policy en of
         None \<Rightarrow> (\<lambda>v. (Panic, v))
       | Some policy \<Rightarrow>
           bind_io (in_world (Acceptor_new (poller_new rx) (waker_new rx) ls (map l_handle els1) policy)) (\<lambda>ac.
           bind_io (on_engine_handle (set_acceptor \<lparr>ah_waker = a_waker ac, ah_running = a_running ac\<rparr>)) (\<lambda>_.
           ret (els1, ac)))) v3 = (Ok (els, ac), v')"
    by (auto simp: on_engine_handle_def elim: bind_io_OkE)
  then obtain policy where pol: "en_lb_policy en = Some policy"
    and r4: "bind_io (in_world (Acceptor_new (poller_new rx) (waker_new rx) ls (map l_handle els1) policy)) (\<lambda>ac.
           bind_io (on_engine_handle (set_acceptor \<lparr>ah_waker = a_waker ac, ah_running = a_running ac\<rparr>)) (\<lambda>_.
           ret (els1, ac))) v3 = (Ok (els, ac), v')" by (cases "en_lb_policy en") auto
  from r4 obtain ac1 v4 where ac1: "in_world (Acceptor_new (poller_new rx) (waker_new rx) ls (map l_handle els1) policy) v3 = (Ok ac1, v4)"
    and r5: "bind_io (on_engine_handle (set_acceptor \<lparr>ah_waker = a_waker ac1, ah_running = a_running ac1\<rparr>)) (\<lambda>_. ret (els1, ac1)) v4
      = (Ok (els, ac), v')" by (rule bind_io_OkE)
  from r5 have v': "v' = v4\<lparr>v_handle := set_acceptor \<lparr>ah_waker = a_waker ac1, ah_running = a_running ac1\<rparr> (v_handle v4)\<rparr>"
      "els1 = els" "ac1 = ac" by (auto simp: on_engine_handle_def bind_io_def ret_def)
  from in_world_Ok [OF ls] obtain w1 where w1: "bind_all os (en_options en) (en_address en) (v_world v) = (Ok ls, w1)" "v1 = v\<lparr>v_world := w1\<rparr>" by blast
  from in_world_Ok [OF els1] obtain w2 where w2: "new_loops rx (en_options en) mono_seq 0 (length cores) (v_world v1) = (Ok els1, w2)" "v2 = v1\<lparr>v_world := w2\<rparr>" by blast
  from in_world_Ok [OF ac1] obtain w4 where w4: "Acceptor_new (poller_new rx) (waker_new rx) ls (map l_handle els1) policy (v_world v3) = (Ok ac1, w4)" "v4 = v3\<lparr>v_world := w4\<rparr>" by blast
  from new_loops_fresh [OF w2(1)] bind_all_listeners [OF w1(1)] Acceptor_new_fields [OF w4(1)] new pol v3 v' w1(2) w2(2) w4(2)
  show ?thesis by (simp add: set_workers_def set_acceptor_def)
qed

lemma run_user_lb_pool:
  assumes "run_user_lb rx os mono_seq en cores v = (Ok t, v')"
  shows "\<exists>els ac v1 ids. user_lb_threads rx os mono_seq en cores v = (Ok (els, ac), v1)
    \<and> start_pool (length cores) v1 = (Ok ids, v') \<and> t = \<lparr>t_loops = els, t_acceptor = Some ac, t_workers = ids\<rparr>"
proof -
  obtain x v1 where x: "user_lb_threads rx os mono_seq en cores v = (Ok x, v1)"
    and r: "(case x of (els, ac) \<Rightarrow> bind_io (start_pool (length cores)) (\<lambda>workers.
       ret \<lparr>t_loops = els, t_acceptor = Some ac, t_workers = workers\<rparr>)) v1 = (Ok t, v')"
    using assms unfolding run_user_lb_def by (rule bind_io_OkE)
  obtain els ac where "x = (els, ac)" by fastforce
  with r obtain ids v2 where "start_pool (length cores) v1 = (Ok ids, v2)"
    "ret \<lparr>t_loops = els, t_acceptor = Some ac, t_workers = ids\<rparr> v2 = (Ok t, v')" by (auto elim: bind_io_OkE)
  with x \<open>x = (els, ac)\<close> show ?thesis by (auto simp: ret_def)
qed

lemma run_reuse_port_spec:
  assumes run: "run_reuse_port rx os dbg mono_seq en cores v = (Ok t, v')"
    and new: "e_loops (v_handle v) = None" "global_senders (v_pool v) = None"
  shows "length (t_loops t) = length cores
    \<and> (\<forall>j < length cores. fresh_loop j (t_loops t ! j)
       \<and> (\<exists>ls. l_listeners (t_loops t ! j) = Some ls \<and> length ls = length (en_address en) \<and> (\<forall>l \<in> set ls. li_options l = en_options en)))
    \<and> e_loops (v_handle v') = Some (map l_handle (t_loops t)) \<and> e_acceptor (v_handle v') = e_acceptor (v_handle v)
    \<and> t_acceptor t = None \<and> length (t_workers t) = length cores \<and> global_senders (v_pool v') = Some (t_workers t)"
proof -
  from run [unfolded run_reuse_port_def] obtain els v1 where
    els: "in_world (pending_loops rx os dbg (en_options en) (en_address en) mono_seq 0 (length cores)) v = (Ok els, v1)"
    and r1: "bind_io (on_engine_handle (set_workers (map l_handle els))) (\<lambda>_.
     bind_io (start_pool (length cores)) (\<lambda>workers.
     ret \<lparr>t_loops = els, t_acceptor = None, t_workers = workers\<rparr>)) v1 = (Ok t, v')" by (rule bind_io_OkE)
  from r1 obtain ids v2 where
    pool: "start_pool (length cores) (v1\<lparr>v_handle := set_workers (map l_handle els) (v_handle v1)\<rparr>) = (Ok ids, v2)"
    and "ret \<lparr>t_loops = els, t_acceptor = None, t_workers = ids\<rparr> v2 = (Ok t, v')"
    by (auto simp: on_engine_handle_def elim!: bind_io_OkE)
  then have t: "t = \<lparr>t_loops = els, t_acceptor = None, t_workers = ids\<rparr>" "v2 = v'" by (simp_all add: ret_def)
  from in_world_Ok [OF els] obtain w1 where w1:
    "pending_loops rx os dbg (en_options en) (en_address en) mono_seq 0 (length cores) (v_world v) = (Ok els, w1)" "v1 = v\<lparr>v_world := w1\<rparr>" by blast
  from pending_loops_spec [OF w1(1)] start_pool_fields [OF pool] new t w1(2) show ?thesis
    by (simp add: set_workers_def)
qed

subsection \<open>Properties\<close>

text \<open>
  C22: a started engine is wired completely. When \<open>Engine::run\<close> reaches its joins there is one loop per
  chosen core, loop \<open>j\<close> with identifier \<open>j\<close>, an open handle and no pending command; the engine handle
  knows exactly these loops; the worker pool has one shard per core. With \<open>reuse_port\<close> every loop has one
  listener per address; otherwise one acceptor has them, the handles of all loops and the engine's
  balancer, and the engine handle can stop it. Every listener was bound with the engine's options.
\<close>

theorem engine_starts_wired:
  assumes run: "engine_run rx os dbg mono_seq available en v = (Ok t, v')"
    and new: "e_loops (v_handle v) = None" "e_acceptor (v_handle v) = None" "global_senders (v_pool v) = None"
    and cores: "cores = get_core_ids (read_to_string os (v_world v)) available (Some (num_event_loop (en_options en)))"
  shows "length (t_loops t) = length cores \<and> (\<forall>j < length cores. fresh_loop j (t_loops t ! j))
    \<and> e_loops (v_handle v') = Some (map l_handle (t_loops t))
    \<and> length (t_workers t) = length cores \<and> global_senders (v_pool v') = Some (t_workers t)
    \<and> (if reuse_port (en_options en)
       then t_acceptor t = None \<and> e_acceptor (v_handle v') = None
         \<and> (\<forall>el \<in> set (t_loops t). \<exists>ls. l_listeners el = Some ls \<and> length ls = length (en_address en)
              \<and> (\<forall>l \<in> set ls. li_options l = en_options en))
       else (\<exists>ac. t_acceptor t = Some ac \<and> a_workers ac = map l_handle (t_loops t)
         \<and> length (a_listeners ac) = length (en_address en) \<and> (\<forall>l \<in> set (a_listeners ac). li_options l = en_options en)
         \<and> en_lb_policy en = Some (a_balancer ac) \<and> a_running ac
         \<and> e_acceptor (v_handle v') = Some \<lparr>ah_waker = a_waker ac, ah_running = True\<rparr>))"
proof (cases "reuse_port (en_options en)")
  case True
  with run cores have "run_reuse_port rx os dbg mono_seq en cores v = (Ok t, v')" by (simp add: engine_run_reuse_port)
  from run_reuse_port_spec [OF this new(1,3)] new(2) True show ?thesis by (auto simp: all_set_conv_all_nth)
next
  case False
  with run cores have "run_user_lb rx os mono_seq en cores v = (Ok t, v')" by (simp add: engine_run_user_lb)
  from run_user_lb_pool [OF this] obtain els ac v1 ids where
    th: "user_lb_threads rx os mono_seq en cores v = (Ok (els, ac), v1)" and pool: "start_pool (length cores) v1 = (Ok ids, v')"
    and t: "t = \<lparr>t_loops = els, t_acceptor = Some ac, t_workers = ids\<rparr>" by blast
  note spec = user_lb_threads_spec [OF th new(1,2)]
  with new(3) have "global_senders (v_pool v1) = None" by simp
  from start_pool_fields [OF pool this] spec t False show ?thesis by simp
qed

definition demo_engine :: "unit engine" where
  "demo_engine = \<lparr>en_address = [TcpAddr (SocketAddrV4 [0, 0, 0, 0] 0)], en_options = default_options\<lparr>num_event_loop := 2\<rparr>,
     en_handler = (), en_lb_policy = Some (RoundRobin 0)\<rparr>"

definition demo_env :: "(sim, char) engine_env" where
  "demo_env = \<lparr>v_handle = engine_handler_new, v_pool = no_pool, v_world = sim0\<rparr>"

lemma demo_cores: "get_core_ids (\<lambda>_. None) (Some [0, 1, 2, 3]) (Some 2) = [0, 1]"
  by code_simp

text \<open>In the scripted world every TCP address can be bound, and any engine with one such address starts.\<close>

lemma sim_asks [simp]: "s2_ask sim_os s r w = (Ok (), w\<lparr>sim_calls := sim_calls w @ [(s, r)]\<rparr>)"
  by (simp add: s2_ask_def sim_os_def)

lemma sim_binds: "\<exists>l w'. listener_bind sim_os (TcpAddr a) opts w = (Ok l, w')"
proof -
  have c: "\<exists>w'. configure_socket sim_os s opts w = (Ok (), w')" for s w
    by (simp add: configure_socket_def when_io_def bind_io_def ret_def)
  have k: "\<exists>w'. keep_alive sim_os s opts w = (Ok (), w')" for s w
    by (simp add: keep_alive_def bind_io_def ret_def split: option.split)
  have s: "s2_new sim_os d w = (Ok (length (sim_calls w)), w)" for d w
    by (simp add: s2_new_def sim_os_def)
  have "\<exists>sk w'. create_mio_tcp_listener sim_os a opts backlog w = (Ok sk, w')" for backlog
    using c k by (auto simp: create_mio_tcp_listener_def bind_io_def s when_io_def ret_def split: prod.split outcome.split) (metis fst_conv outcome.distinct outcome.inject prod.inject)+
  then obtain sk w' where "create_mio_tcp_listener sim_os a opts (get_max_listen_backlog sim_os w) w = (Ok sk, w')" by blast
  then show ?thesis by (simp add: listener_bind_def Let_def bind_io_def) (simp add: sim_os_def)
qed

lemma sim_threads:
  assumes "en_address en = [TcpAddr a]" and "en_lb_policy en = Some policy"
    and "e_loops (v_handle v) = None" and "e_acceptor (v_handle v) = None"
  shows "\<exists>els ac v'. user_lb_threads sim_reactor2 sim_os 0 en cores v
     = (Ok (els :: (sim, unit) eloop list, ac), v' :: (sim, 't) engine_env)"
proof -
  obtain l w1 where l: "listener_bind sim_os (TcpAddr a) (en_options en) (v_world v) = (Ok l, w1)" using sim_binds by blast
  obtain els :: "(sim, unit) eloop list" and w2 where
    els: "new_loops sim_reactor2 (en_options en) 0 0 (length cores) w1 = (Ok els, w2)"
    using sim_new_loops [of "en_options en" 0 0 "length cores" w1] by (metis prod.collapse)
  from l els assms show ?thesis
    by (simp add: user_lb_threads_def in_world_def bind_io_def ret_def on_engine_handle_def Acceptor_new_def sim_reactor2_def)
qed

lemma sim_run_user_lb:
  fixes v :: "(sim, 't) engine_env"
  assumes "en_address en = [TcpAddr a]" and "en_lb_policy en = Some policy" and lb: "\<not> reuse_port (en_options en)"
    and "e_loops (v_handle v) = None" and "e_acceptor (v_handle v) = None"
  shows "\<exists>t v'. engine_run sim_reactor2 sim_os dbg 0 available en v = (Ok (t :: (sim, unit) threads), v')"
proof -
  let ?cores = "get_core_ids (read_to_string sim_os (v_world v)) available (Some (num_event_loop (en_options en)))"
  from sim_threads [OF assms(1,2,4,5), of ?cores] obtain els :: "(sim, unit) eloop list" and ac v1 where
    "user_lb_threads sim_reactor2 sim_os 0 en ?cores v = (Ok (els, ac), v1)" by blast
  then show ?thesis unfolding engine_run_user_lb [OF lb]
    by (simp add: run_user_lb_def bind_io_def start_pool_def ret_def WorkerPool_new_def Let_def)
qed

lemma demo_threads:
  "\<exists>els ac v. user_lb_threads sim_reactor2 sim_os 0 demo_engine [0, 1] demo_env
     = (Ok (els :: (sim, unit) eloop list, ac), v :: (sim, char) engine_env)"
  by (rule sim_threads [where policy = "RoundRobin 0"]) (simp_all add: demo_engine_def demo_env_def engine_handler_new_def)

lemma engine_starts_wired_witness:
  "\<exists>t v'. engine_run sim_reactor2 sim_os True 0 (Some [0, 1, 2, 3]) demo_engine demo_env
      = (Ok (t :: (sim, unit) threads), v')
    \<and> length (t_loops t) = 2 \<and> e_loops (v_handle v') = Some (map l_handle (t_loops t)) \<and> t_acceptor t \<noteq> None"
proof -
  have cores: "[0, 1] = get_core_ids (read_to_string sim_os (v_world demo_env)) (Some [0, 1, 2, 3]) (Some (num_event_loop (en_options demo_engine)))"
    using demo_cores by (simp add: sim_os_def demo_engine_def)
  have lb: "\<not> reuse_port (en_options demo_engine)" by (simp add: demo_engine_def default_options_def)
  have "\<exists>t v'. engine_run sim_reactor2 sim_os True 0 (Some [0, 1, 2, 3]) demo_engine demo_env = (Ok (t :: (sim, unit) threads), v')"
    by (rule sim_run_user_lb [where policy = "RoundRobin 0"]) (simp_all add: demo_engine_def demo_env_def engine_handler_new_def default_options_def)
  then obtain t :: "(sim, unit) threads" and v' where
    run: "engine_run sim_reactor2 sim_os True 0 (Some [0, 1, 2, 3]) demo_engine demo_env = (Ok t, v')" by blast
  have "e_loops (v_handle demo_env) = None" "e_acceptor (v_handle demo_env) = None" "global_senders (v_pool demo_env) = None"
    by (simp_all add: demo_env_def engine_handler_new_def no_pool_def)
  from engine_starts_wired [OF run this cores] lb run show ?thesis by auto
qed

text \<open>
  With a user-space balancer the loops and the acceptor run before there is a worker pool. When the
  acceptor thread has been spawned, \<open>submit\<close> still finds no pool and drops the task of any handler that
  is called by then; only the next step of \<open>run_user_lb\<close> creates the pool.
\<close>

theorem early_task_dropped:
  fixes els :: "('w, 'k) eloop list"
  assumes "user_lb_threads rx os mono_seq en cores v = (Ok (els, ac), v1)"
    and "e_loops (v_handle v) = None" "e_acceptor (v_handle v) = None" "global_senders (v_pool v) = None"
  shows "e_acceptor (v_handle v1) \<noteq> None \<and> e_loops (v_handle v1) = Some (map l_handle els)
    \<and> submit f shard_idx (v_pool v1) = (Ok Silent, v_pool v1)
    \<and> (\<exists>(t :: ('w, 'k) threads) v2. run_user_lb rx os mono_seq en cores v = (Ok t, v2) \<and> global_senders (v_pool v2) = Some (t_workers t))"
proof -
  note spec = user_lb_threads_spec [OF assms(1-3)]
  then have none: "global_senders (v_pool v1) = None" using assms(4) by simp
  obtain ids v2 where pool: "start_pool (length cores) v1 = (Ok ids, v2)"
    by (cases "WorkerPool_new (length cores) (v_pool v1)") (auto simp: start_pool_def)
  have "run_user_lb rx os mono_seq en cores v = (Ok \<lparr>t_loops = els, t_acceptor = Some ac, t_workers = ids\<rparr>, v2)"
    using assms(1) pool by (simp add: run_user_lb_def bind_io_def ret_def)
  moreover have "global_senders (v_pool v2) = Some ids" using start_pool_fields [OF pool none] by simp
  ultimately have "\<exists>(t :: ('w, 'k) threads) v2. run_user_lb rx os mono_seq en cores v = (Ok t, v2) \<and> global_senders (v_pool v2) = Some (t_workers t)"
    by (intro exI [of _ "\<lparr>t_loops = els, t_acceptor = Some ac, t_workers = ids\<rparr>"] exI [of _ v2]) simp
  with spec none show ?thesis by (simp add: submit_def)
qed

lemma early_task_dropped_witness:
  "\<exists>els ac v1. user_lb_threads sim_reactor2 sim_os 0 demo_engine [0, 1] demo_env
      = (Ok (els :: (sim, unit) eloop list, ac), v1)
    \<and> submit (CHR ''x'') 0 (v_pool v1) = (Ok Silent, v_pool v1)"
proof -
  from demo_threads obtain els :: "(sim, unit) eloop list" and ac v1 where
    th: "user_lb_threads sim_reactor2 sim_os 0 demo_engine [0, 1] demo_env = (Ok (els, ac), v1)" by blast
  have "e_loops (v_handle demo_env) = None" "e_acceptor (v_handle demo_env) = None" "global_senders (v_pool demo_env) = None"
    by (simp_all add: demo_env_def engine_handler_new_def no_pool_def)
  from early_task_dropped [OF th this] th show ?thesis by blast
qed

end
