(* ===== verification/ChatRoom.thy ===== *)
theory ChatRoom
  imports Inbound Framing Engine Worker "HOL-Library.Multiset"
begin

text \<open>
  Model of \<open>examples/chat-room.rs\<close>, an application that uses most of the library: it cuts lines out of
  the receive buffers, hands each to the worker pool, and the task sends the line to every other client
  through the engine. A shard of clients is a \<open>HashSet\<close>; the order in which it is iterated is the
  argument \<open>elems\<close>. A task of the pool is the line and its sender.
\<close>

subsection \<open>Clients\<close>

type_synonym clients = "gfd set list"

definition chat_new :: "options \<Rightarrow> clients" where
  "chat_new opts = replicate (unat (num_event_loop opts)) {}"

definition chat_open :: "gfd \<Rightarrow> clients \<Rightarrow> clients outcome" where
  "chat_open g clients =
     (let idx = event_loop_index g in
      if idx < length clients then Ok (clients[idx := insert g (clients ! idx)]) else Panic)"

text \<open>After the client is removed the connection is asked to close, although it is being closed.\<close>

definition chat_close :: "'w os \<Rightarrow> 'k conn \<Rightarrow> (unit, clients \<times> loop_handle \<times> 'w) prog" where
  "chat_close os c = (\<lambda>(clients, s).
     let idx = event_loop_index (c_gfd c) in
     if idx < length clients then
       (case conn_close os c s of (r, s') \<Rightarrow> (r, (clients[idx := clients ! idx - {c_gfd c}], s')))
     else (Panic, (clients, s)))"

subsection \<open>Lines\<close>

definition newline :: byte where
  "newline = 10"

fun position :: "byte \<Rightarrow> bytes \<Rightarrow> nat option" where
  "position b [] = None"
| "position b (x # xs) = (if x = b then Some 0 else map_option Suc (position b xs))"

record chat_task =
  ct_msg :: bytes
  ct_sender :: gfd

lemma position_split:
  "position b s = Some n \<Longrightarrow> n < length s \<and> s = take n s @ b # drop (Suc n) s \<and> b \<notin> set (take n s)"
  by (induction s arbitrary: n) (auto split: if_splits)

lemma position_None: "position b s = None \<longleftrightarrow> b \<notin> set s"
  by (induction s) auto

lemma position_append: "b \<notin> set xs \<Longrightarrow> position b (xs @ b # ys) = Some (length xs)"
  by (induction xs) auto

lemma avail_shrinks:
  assumes p: "peek None c = (Ok (Some d), c1)" and n: "position newline (peek_deref d) = Some pos"
  shows "\<exists>c2. next_contiguous (Some (pos + 1)) c1 = (Ok (Some (take (pos + 1) (avail c))), c2)
    \<and> avail c2 = drop (pos + 1) (avail c) \<and> same_but_inbound c c2 \<and> peek_deref d = avail c \<and> pos < length (avail c)"
proof -
  have nr: "\<not> refused (readable c) (avail c) None" using p peek_refused [of c None] by auto
  from peek_data [OF nr] p have d: "c1 = c" "peek_deref d = avail c" by (auto simp: wanted_def)
  with n position_split have pos: "pos < length (avail c)" by metis
  with nr have "\<not> refused (readable c) (avail c) (Some (pos + 1))" by (simp add: refused_def)
  from next_contiguous_data [OF this] d pos show ?thesis by (auto simp: wanted_def)
qed

text \<open>\<open>on_traffic\<close>: the loop over the complete lines, with the pool whose shard the loop number picks.\<close>

function chat_traffic ::
  "'k conn \<Rightarrow> chat_task pool_state \<Rightarrow> chat_task label list outcome \<times> 'k conn \<times> chat_task pool_state" where
  "chat_traffic c s =
     (case peek None c of
        (Ok (Some data), c1) \<Rightarrow>
          (case position newline (peek_deref data) of
             None \<Rightarrow> (Ok [], c1, s)
           | Some pos \<Rightarrow>
               (case next_contiguous (Some (pos + 1)) c1 of
                  (Ok (Some msg), c2) \<Rightarrow>
                    (case submit \<lparr>ct_msg = msg, ct_sender = c_gfd c2\<rparr> (event_loop_index (c_gfd c2)) s of
                       (Ok lab, s2) \<Rightarrow>
                         (case chat_traffic c2 s2 of
                            (Ok labs, c3, s3) \<Rightarrow> (Ok (lab # labs), c3, s3)
                          | r \<Rightarrow> r)
                     | (Err e, s2) \<Rightarrow> (Err e, c2, s2)
                     | (Panic, s2) \<Rightarrow> (Panic, c2, s2)
                     | (Diverge, s2) \<Rightarrow> (Diverge, c2, s2))
                | (Ok None, c2) \<Rightarrow> chat_traffic c2 s
                | (Err e, c2) \<Rightarrow> (Err e, c2, s)
                | (Panic, c2) \<Rightarrow> (Panic, c2, s)
                | (Diverge, c2) \<Rightarrow> (Diverge, c2, s)))
      | (Ok None, c1) \<Rightarrow> (Ok [], c1, s)
      | (Err e, c1) \<Rightarrow> (Err e, c1, s)
      | (Panic, c1) \<Rightarrow> (Panic, c1, s)
      | (Diverge, c1) \<Rightarrow> (Diverge, c1, s))"
  by pat_completeness auto
termination
  by (relation "measure (\<lambda>(c, s). length (avail c))") (auto dest: avail_shrinks [OF sym])

declare chat_traffic.simps [simp del]

subsection \<open>Broadcast\<close>

text \<open>The task: every client of every shard but the sender gets the line.\<close>

fun send_each :: "'w os \<Rightarrow> chat_task \<Rightarrow> gfd list \<Rightarrow> (unit, engine_handler \<times> 'w) prog" where
  "send_each os t [] = ret ()"
| "send_each os t (g # gs) =
     bind_io (if g \<noteq> ct_sender t then send_command os g (AsyncWrite g (ct_msg t)) else ret ()) (\<lambda>_. send_each os t gs)"

definition broadcast :: "'w os \<Rightarrow> (gfd set \<Rightarrow> gfd list) \<Rightarrow> clients \<Rightarrow> chat_task \<Rightarrow> (unit, engine_handler \<times> 'w) prog" where
  "broadcast os elems clients t = send_each os t (concat (map elems clients))"

subsection \<open>The heartbeat\<close>

text \<open>The answer of \<open>on_tick\<close>: five seconds, and an action.\<close>

fun heartbeat :: "'w os \<Rightarrow> bytes \<Rightarrow> 'k conn slab \<Rightarrow> 'w \<Rightarrow> unit outcome \<times> 'k conn slab \<times> 'w" where
  "heartbeat os msg [] w = (Ok (), [], w)"
| "heartbeat os msg (None # cs) w = (case heartbeat os msg cs w of (r, cs', w') \<Rightarrow> (r, None # cs', w'))"
| "heartbeat os msg (Some c # cs) w =
     (case discard_result (write_bytes os msg) (c, w) of
        (Ok _, (c', w1)) \<Rightarrow> (case heartbeat os msg cs w1 of (r, cs', w') \<Rightarrow> (r, Some c' # cs', w'))
      | (r, (c', w1)) \<Rightarrow> (r, Some c' # cs, w1))"

definition chat_tick :: "'w os \<Rightarrow> 'k conn slab \<Rightarrow> 'w \<Rightarrow> (nat \<times> action) outcome \<times> 'k conn slab \<times> 'w" where
  "chat_tick os cs w =
     (case heartbeat os (map of_char ''Server heartbeat\<newline>'') cs w of
        (Ok _, cs', w') \<Rightarrow> (Ok (5 * 10 ^ 9, ActNone), cs', w')
      | (Err e, cs', w') \<Rightarrow> (Err e, cs', w')
      | (Panic, cs', w') \<Rightarrow> (Panic, cs', w')
      | (Diverge, cs', w') \<Rightarrow> (Diverge, cs', w'))"

subsection \<open>The framing\<close>

definition line :: "bytes \<Rightarrow> bytes" where
  "line m = m @ [newline]"

definition unline :: "bytes \<Rightarrow> (bytes \<times> bytes) option" where
  "unline s = (case position newline s of None \<Rightarrow> None | Some n \<Rightarrow> Some (take n s, drop (Suc n) s))"

lemma unline_simps:
  "position newline s = None \<Longrightarrow> unline s = None"
  "position newline s = Some k \<Longrightarrow> unline s = Some (take k s, drop (Suc k) s)"
  by (simp_all add: unline_def)

interpretation lines: framing line unline "\<lambda>m. newline \<notin> set m"
proof
  fix m rest p q s :: bytes
  show "newline \<notin> set m \<Longrightarrow> unline (line m @ rest) = Some (m, rest)"
    by (simp add: unline_def line_def position_append)
  show "newline \<notin> set m \<Longrightarrow> line m = p @ q \<Longrightarrow> q \<noteq> [] \<Longrightarrow> unline p = None"
    by (cases q rule: rev_cases) (auto simp: unline_def line_def position_None [THEN iffD2])
  show "unline s = Some (m, rest) \<Longrightarrow> length rest < length s"
    by (auto simp: unline_def split: option.splits dest: position_split)
qed

lemma deframe_parts:
  "length s \<le> n \<Longrightarrow> deframe unline n s = (ms, rest) \<Longrightarrow>
     s = concat (map line ms) @ rest \<and> newline \<notin> set rest \<and> (\<forall>m \<in> set ms. newline \<notin> set m)"
proof (induction n arbitrary: s ms rest)
  case 0
  then show ?case by simp
next
  case (Suc n)
  show ?case
  proof (cases "position newline s")
    case None
    with Suc.prems show ?thesis by (auto simp: unline_simps position_None)
  next
    case (Some k)
    obtain ms' rest' where d: "deframe unline n (drop (Suc k) s) = (ms', rest')" by fastforce
    with Some Suc.prems(2) have ms: "ms = take k s # ms'" "rest = rest'" by (simp_all add: unline_simps)
    from position_split [OF Some] Suc.prems(1) have "length (drop (Suc k) s) \<le> n" by simp
    from Suc.IH [OF this d] position_split [OF Some] ms show ?thesis
      by (simp add: line_def)
  qed
qed

subsection \<open>Lines become tasks\<close>

text \<open>What the handler is for: one task per line, submitted in order.\<close>

fun submit_all :: "nat \<Rightarrow> 'task list \<Rightarrow> ('task label list, 'task pool_state) prog" where
  "submit_all shard [] = ret []"
| "submit_all shard (t # ts) = bind_io (submit t shard) (\<lambda>lab. bind_io (submit_all shard ts) (\<lambda>labs. ret (lab # labs)))"

lemma submit_returns:
  assumes "global_senders s \<noteq> Some []"
  shows "\<exists>lab s'. submit t shard s = (Ok lab, s') \<and> global_senders s' = global_senders s"
  using assms
  by (auto simp: submit_def channel_send_def Let_def split: option.split prod.split)

lemma chat_traffic_lines:
  assumes "global_senders s \<noteq> Some []" and "deframe unline (length (avail c)) (avail c) = (ms, rest)"
  shows "\<exists>labs c' s'. chat_traffic c s = (Ok labs, c', s')
    \<and> submit_all (event_loop_index (c_gfd c)) (map (\<lambda>m. \<lparr>ct_msg = line m, ct_sender = c_gfd c\<rparr>) ms) s = (Ok labs, s')
    \<and> avail c' = rest \<and> same_but_inbound c c'"
  using assms
proof (induction "length (avail c)" arbitrary: c s ms rest rule: less_induct)
  case less
  show ?case
  proof (cases "refused (readable c) (avail c) None \<or> position newline (avail c) = None")
    case True
    have "position newline (avail c) = None"
    proof (cases "refused (readable c) (avail c) None")
      case True
      then have "avail c = []" by (auto simp: refused_def readable_def avail_def opt_list_def split: option.splits)
      then show ?thesis by simp
    qed (use True in simp)
    then have ms: "ms = []" "rest = avail c" using less.prems(2)
      by (cases "length (avail c)"; simp add: unline_simps)+
    have "chat_traffic c s = (Ok [], c, s)"
    proof (cases "refused (readable c) (avail c) None")
      case True
      then show ?thesis by (subst chat_traffic.simps) (simp add: peek_refused)
    next
      case False
      from peek_data [OF False] obtain v where "peek None c = (Ok (Some v), c)" "peek_deref v = avail c" by (auto simp: wanted_def)
      with \<open>position newline (avail c) = None\<close> show ?thesis by (subst chat_traffic.simps) simp
    qed
    with ms show ?thesis by (simp add: ret_def)
  next
    case False
    then obtain k where nr: "\<not> refused (readable c) (avail c) None" and k: "position newline (avail c) = Some k" by auto
    from peek_data [OF nr] obtain v where v: "peek None c = (Ok (Some v), c)" "peek_deref v = avail c" by (auto simp: wanted_def)
    from avail_shrinks [OF v(1)] k v(2) obtain c2 where c2: "next_contiguous (Some (k + 1)) c = (Ok (Some (take (k + 1) (avail c))), c2)"
      "avail c2 = drop (k + 1) (avail c)" "same_but_inbound c c2" "k < length (avail c)" by auto
    have gfd: "c_gfd c2 = c_gfd c" using c2(3) by (cases c; cases c2) (simp add: same_but_inbound_def)
    have l: "take (k + 1) (avail c) = line (take k (avail c))"
      using position_split [OF k] by (simp add: line_def take_Suc_conv_app_nth) (metis nth_append_length length_take min.absorb4)
    obtain n where n: "length (avail c) = Suc n" using c2(4) by (cases "length (avail c)") simp_all
    obtain ms' rest' where d: "deframe unline (length (avail c2)) (avail c2) = (ms', rest')" by fastforce
    have "ms = take k (avail c) # ms'" "rest = rest'"
      using less.prems(2) d lines.deframe_bound [of "avail c2" n "length (avail c2)"] n c2(2,4) k
      by (simp_all add: unline_simps)
    note ms = this
    obtain lab s2 where sub: "submit \<lparr>ct_msg = line (take k (avail c)), ct_sender = c_gfd c\<rparr> (event_loop_index (c_gfd c)) s = (Ok lab, s2)"
      "global_senders s2 = global_senders s" using submit_returns [OF less.prems(1)] by blast
    have "length (avail c2) < length (avail c)" using c2(2,4) by simp
    from less.hyps [OF this _ d, of s2] sub(2) less.prems(1) gfd obtain labs c' s' where
      ih: "chat_traffic c2 s2 = (Ok labs, c', s')"
      "submit_all (event_loop_index (c_gfd c)) (map (\<lambda>m. \<lparr>ct_msg = line m, ct_sender = c_gfd c\<rparr>) ms') s2 = (Ok labs, s')"
      "avail c' = rest'" "same_but_inbound c2 c'" by auto
    have "chat_traffic c s = (Ok (lab # labs), c', s')"
      using v k c2(1) l gfd sub(1) ih(1) by (subst chat_traffic.simps) simp
    moreover have "submit_all (event_loop_index (c_gfd c)) (map (\<lambda>m. \<lparr>ct_msg = line m, ct_sender = c_gfd c\<rparr>) ms) s = (Ok (lab # labs), s')"
      using ms(1) sub(1) ih(2) by (simp add: bind_io_def ret_def)
    ultimately show ?thesis using ih(3,4) ms(2) same_but_inbound_trans [OF c2(3)] by blast
  qed
qed

lemma trigger_pending_mset:
  assumes "h_connected h"
  shows "\<exists>h' w'. discard_result (trigger os p cmd) (h, w) = (Ok (), (h', w')) \<and> h_connected h'
    \<and> mset (pending h') = add_mset cmd (mset (pending h)) \<and> awoken (h_waker h')"
proof (rule trigger_cases [of p cmd h os w])
  fix h' assume "enqueue p cmd h = (False, h')"
  with enqueue_open [OF assms, of p cmd] show ?thesis by auto
next
  fix h' w' b
  assume e: "enqueue p cmd h = (True, h')"
    and t: "trigger os p cmd (h, w) = (Ok b, (h'\<lparr>h_waker := (h_waker h')\<lparr>awoken := True\<rparr>\<rparr>, w'))"
  from enqueue_open [OF assms, of p cmd] e obtain xs ys where "pending h = xs @ ys" "pending h' = xs @ cmd # ys" by auto
  then have "mset (pending (h'\<lparr>h_waker := (h_waker h')\<lparr>awoken := True\<rparr>\<rparr>)) = add_mset cmd (mset (pending h))"
    by (simp add: pending_def)
  moreover have "h_connected h'" using enqueue_ext [OF e] assms by (simp add: handle_ext_def)
  ultimately show ?thesis using t by (simp add: discard_result_def)
qed

text \<open>What one \<open>send_command\<close> of the task does to the handles.\<close>

definition loops_open :: "engine_handler \<Rightarrow> bool" where
  "loops_open eh \<longleftrightarrow> (\<exists>hs. e_loops eh = Some hs \<and> (\<forall>h \<in> set hs. h_connected h))"

definition mail :: "engine_handler \<Rightarrow> nat \<Rightarrow> command multiset" where
  "mail eh i = (case e_loops eh of Some hs \<Rightarrow> if i < length hs then mset (pending (hs ! i)) else {#} | None \<Rightarrow> {#})"

definition loop_count :: "engine_handler \<Rightarrow> nat" where
  "loop_count eh = (case e_loops eh of Some hs \<Rightarrow> length hs | None \<Rightarrow> 0)"

lemma send_command_mail:
  assumes "loops_open eh"
  shows "\<exists>eh' w'. send_command os g cmd (eh, w) = (Ok (), (eh', w')) \<and> loops_open eh' \<and> loop_count eh' = loop_count eh
    \<and> (\<forall>i. mail eh' i = mail eh i + (if i = event_loop_index g \<and> i < loop_count eh then {#cmd#} else {#}))"
proof -
  obtain hs where hs: "e_loops eh = Some hs" "\<forall>h \<in> set hs. h_connected h" using assms by (auto simp: loops_open_def)
  let ?i = "event_loop_index g"
  show ?thesis
  proof (cases "?i < length hs")
    case True
    with hs(2) trigger_pending_mset [of "hs ! ?i" os "priority cmd" cmd w] obtain h' w' where
      t: "discard_result (trigger os (priority cmd) cmd) (hs ! ?i, w) = (Ok (), (h', w'))" "h_connected h'"
        "mset (pending h') = add_mset cmd (mset (pending (hs ! ?i)))" by auto
    have "send_command os g cmd (eh, w) = (Ok (), (eh\<lparr>e_loops := Some (hs[?i := h'])\<rparr>, w'))"
      using hs(1) t(1) True by (simp add: send_command_def on_loop_def Let_def)
    moreover have "loops_open (eh\<lparr>e_loops := Some (hs[?i := h'])\<rparr>)"
      using hs(2) t(2) set_update_subset_insert [of hs ?i h'] by (auto simp: loops_open_def)
    ultimately show ?thesis
      using hs(1) t(3) True by (auto simp: mail_def loop_count_def nth_list_update)
  next
    case False
    with hs assms show ?thesis by (auto simp: send_command_def Let_def mail_def loop_count_def)
  qed
qed

text \<open>The commands for loop \<open>i\<close> among the writes of message \<open>m\<close> to the clients \<open>gs\<close>.\<close>

definition writes_to :: "nat \<Rightarrow> chat_task \<Rightarrow> gfd list \<Rightarrow> command list" where
  "writes_to i t gs = map (\<lambda>g. AsyncWrite g (ct_msg t)) (filter (\<lambda>g. g \<noteq> ct_sender t \<and> event_loop_index g = i) gs)"

lemma send_each_mail:
  assumes "loops_open eh"
  shows "\<exists>eh' w'. send_each os t gs (eh, w) = (Ok (), (eh', w')) \<and> loops_open eh' \<and> loop_count eh' = loop_count eh
    \<and> (\<forall>i. mail eh' i = mail eh i + (if i < loop_count eh then mset (writes_to i t gs) else {#}))"
  using assms
proof (induction gs arbitrary: eh w)
  case Nil
  then show ?case by (simp add: ret_def writes_to_def)
next
  case (Cons g gs)
  show ?case
  proof (cases "g = ct_sender t")
    case True
    then have "writes_to i t (g # gs) = writes_to i t gs" for i by (simp add: writes_to_def)
    with True Cons.IH [OF Cons.prems, of w] show ?thesis by (simp add: bind_io_ret cong: if_cong)
  next
    case False
    from send_command_mail [OF Cons.prems, of os g "AsyncWrite g (ct_msg t)" w] obtain eh1 w1 where
      s: "send_command os g (AsyncWrite g (ct_msg t)) (eh, w) = (Ok (), (eh1, w1))" "loops_open eh1" "loop_count eh1 = loop_count eh"
      "\<forall>i. mail eh1 i = mail eh i + (if i = event_loop_index g \<and> i < loop_count eh then {#AsyncWrite g (ct_msg t)#} else {#})" by blast
    from Cons.IH [OF s(2), of w1] obtain eh' w' where
      r: "send_each os t gs (eh1, w1) = (Ok (), (eh', w'))" "loops_open eh'" "loop_count eh' = loop_count eh1"
      "\<forall>i. mail eh' i = mail eh1 i + (if i < loop_count eh1 then mset (writes_to i t gs) else {#})" by blast
    have "send_each os t (g # gs) (eh, w) = (Ok (), (eh', w'))" using False s(1) r(1) by (simp add: bind_io_Ok)
    moreover have "mail eh' i = mail eh i + (if i < loop_count eh then mset (writes_to i t (g # gs)) else {#})" for i
      using r(4) s(3,4) False by (simp add: writes_to_def)
    ultimately show ?thesis using r(2,3) s(3) by auto
  qed
qed

text \<open>Every client is in the shard of its loop; \<open>on_open\<close> and \<open>on_close\<close> keep it so.\<close>

definition sharded :: "clients \<Rightarrow> bool" where
  "sharded clients \<longleftrightarrow> (\<forall>i < length clients. \<forall>g \<in> clients ! i. event_loop_index g = i)"

lemma sharded_new: "sharded (chat_new opts)"
  by (simp add: sharded_def chat_new_def)

lemma sharded_open: "sharded clients \<Longrightarrow> chat_open g clients = Ok clients' \<Longrightarrow> sharded clients'"
  by (auto simp: sharded_def chat_open_def Let_def nth_list_update split: if_splits)

lemma sharded_close: "sharded clients \<Longrightarrow> chat_close os c (clients, s) = (r, (clients', s')) \<Longrightarrow> sharded clients'"
  by (auto simp: sharded_def chat_close_def Let_def nth_list_update split: if_splits prod.splits)

lemma sharded_snoc:
  assumes "sharded (xs @ [x])"
  shows "sharded xs" and "g \<in> x \<Longrightarrow> event_loop_index g = length xs"
proof -
  have "\<forall>u \<in> (xs @ [x]) ! i. event_loop_index u = i" if "i < length xs" for i
    using assms that by (simp add: sharded_def)
  then show "sharded xs" by (simp add: sharded_def nth_append)
  have "\<forall>u \<in> (xs @ [x]) ! length xs. event_loop_index u = length xs"
    using assms unfolding sharded_def by (metis length_append_singleton lessI)
  then show "g \<in> x \<Longrightarrow> event_loop_index g = length xs" by simp
qed

lemma sharded_distinct:
  assumes "sharded clients" and "\<forall>shard \<in> set clients. set (elems shard) = shard \<and> distinct (elems shard)"
  shows "distinct (concat (map elems clients)) \<and> set (concat (map elems clients)) = \<Union> (set clients)
    \<and> (\<forall>g \<in> \<Union> (set clients). event_loop_index g < length clients)"
  using assms
proof (induction clients rule: rev_induct)
  case (snoc x xs)
  note sh = sharded_snoc [OF snoc.prems(1)]
  from snoc.IH [OF sh(1)] snoc.prems(2) have ih: "distinct (concat (map elems xs))"
    "set (concat (map elems xs)) = \<Union> (set xs)" "\<forall>g \<in> \<Union> (set xs). event_loop_index g < length xs" by simp_all
  have x: "set (elems x) = x" "distinct (elems x)" using snoc.prems(2) by simp_all
  have "\<Union> (set xs) \<inter> x = {}" using ih(3) sh(2) by fastforce
  with ih x sh(2) show ?case by (auto simp: less_Suc_eq)
qed simp

subsection \<open>Properties\<close>

text \<open>
  C30: the chat server cuts the stream into lines. Whatever the two receive buffers hold, \<open>on_traffic\<close>
  returns, and it has submitted one task per complete line, in order, each with its newline and the
  descriptor of the sender; what is left unread is the incomplete last line, and lines and rest together
  are exactly the bytes that were there.
\<close>

theorem chat_takes_lines:
  assumes "global_senders s \<noteq> Some []"
  shows "\<exists>ms labs c' s'. chat_traffic c s = (Ok labs, c', s')
    \<and> submit_all (event_loop_index (c_gfd c)) (map (\<lambda>m. \<lparr>ct_msg = m @ [newline], ct_sender = c_gfd c\<rparr>) ms) s = (Ok labs, s')
    \<and> avail c = concat (map (\<lambda>m. m @ [newline]) ms) @ avail c' \<and> (\<forall>m \<in> set ms. newline \<notin> set m) \<and> newline \<notin> set (avail c')
    \<and> same_but_inbound c c'"
proof -
  obtain ms rest where d: "deframe unline (length (avail c)) (avail c) = (ms, rest)" by fastforce
  from chat_traffic_lines [OF assms d] deframe_parts [OF order.refl d] show ?thesis
    unfolding line_def by metis
qed

definition chat_conn :: "unit conn" where
  "chat_conn = (conn_new \<lparr>g_seq = 1, g_index_info = 0x1000000, g_fd = 9\<rparr> (Tcp 9) default_options
     (UnixAddr ''a'') (UnixAddr ''b'') 0)\<lparr>c_io_buffer := Some [105, 10, 111], c_in_buffer := Some [104]\<rparr>"

lemma chat_takes_lines_witness:
  "\<exists>ms labs c' s'. chat_traffic chat_conn no_pool = (Ok labs, c', s')
    \<and> concat (map (\<lambda>m. m @ [newline]) ms) @ avail c' = [104, 105, 10, 111] \<and> newline \<notin> set (avail c')"
proof -
  have "global_senders (no_pool :: chat_task pool_state) \<noteq> Some []" by (simp add: no_pool_def)
  from chat_takes_lines [OF this, of chat_conn] show ?thesis
    by (elim exE conjE) (auto simp: chat_conn_def conn_new_def avail_def)
qed

text \<open>
  A line reaches everyone else, once. In whatever order the shards' sets are iterated, running the
  task adds to the commands of each loop exactly one \<open>AsyncWrite\<close> of the line for each client that is not
  the sender and that this loop owns; no command that was waiting is lost or repeated, and nothing is
  addressed to the sender.
\<close>

theorem broadcast_reaches_others:
  assumes "loops_open eh" and "sharded clients"
    and "\<forall>shard \<in> set clients. set (elems shard) = shard \<and> distinct (elems shard)"
  shows "\<exists>eh' w'. broadcast os elems clients t (eh, w) = (Ok (), (eh', w')) \<and> loops_open eh' \<and> loop_count eh' = loop_count eh
    \<and> (\<forall>i < loop_count eh. mail eh' i = mail eh i
         + image_mset (\<lambda>g. AsyncWrite g (ct_msg t)) (mset_set {g \<in> \<Union> (set clients). g \<noteq> ct_sender t \<and> event_loop_index g = i}))"
proof -
  let ?gs = "concat (map elems clients)"
  note d = sharded_distinct [OF assms(2,3)]
  have "mset (filter P ?gs) = mset_set {g \<in> \<Union> (set clients). P g}" for P
    using d distinct_filter [of ?gs P] mset_set_set [of "filter P ?gs"] by simp
  then have w: "mset (writes_to i t ?gs) = image_mset (\<lambda>g. AsyncWrite g (ct_msg t))
      (mset_set {g \<in> \<Union> (set clients). g \<noteq> ct_sender t \<and> event_loop_index g = i})" for i
    by (simp add: writes_to_def)
  from send_each_mail [OF assms(1), of os t ?gs w] w show ?thesis unfolding broadcast_def by auto
qed

lemma broadcast_reaches_others_witness:
  "\<exists>eh' w'. broadcast sim_os (\<lambda>shard. if shard = {} then [] else [\<lparr>g_seq = 5, g_index_info = 0x1000003, g_fd = 9\<rparr>])
      [{}, {\<lparr>g_seq = 5, g_index_info = 0x1000003, g_fd = 9\<rparr>}] \<lparr>ct_msg = [104, 10], ct_sender = \<lparr>g_seq = 6, g_index_info = 0, g_fd = 8\<rparr>\<rparr>
      (two_loops, sim0) = (Ok (), (eh', w'))
    \<and> mail eh' 0 = {#} \<and> mail eh' 1 = {#AsyncWrite \<lparr>g_seq = 5, g_index_info = 0x1000003, g_fd = 9\<rparr> [104, 10]#}"
proof -
  let ?g = "\<lparr>g_seq = 5, g_index_info = 0x1000003, g_fd = 9\<rparr>" and ?t = "\<lparr>ct_msg = [104, 10 :: byte], ct_sender = \<lparr>g_seq = 6, g_index_info = 0, g_fd = 8\<rparr>\<rparr>"
  let ?elems = "\<lambda>shard. if shard = {} then [] else [?g]"
  have idx: "event_loop_index ?g = 1" by (simp add: event_loop_index_def)
  have open_loops: "loops_open two_loops" by (simp add: loops_open_def two_loops_def handle_new_def)
  have sh: "sharded [{}, {?g}]" using idx by (simp add: sharded_def less_Suc_eq)
  have el: "\<forall>shard \<in> set [{}, {?g}]. set (?elems shard) = shard \<and> distinct (?elems shard)" by simp
  from broadcast_reaches_others [OF open_loops sh el, of sim_os ?t sim0] obtain eh' w' where
    r: "broadcast sim_os ?elems [{}, {?g}] ?t (two_loops, sim0) = (Ok (), (eh', w'))"
    "\<forall>i < loop_count two_loops. mail eh' i = mail two_loops i
         + image_mset (\<lambda>g. AsyncWrite g (ct_msg ?t)) (mset_set {g \<in> \<Union> (set [{}, {?g}]). g \<noteq> ct_sender ?t \<and> event_loop_index g = i})"
    by blast
  have m: "mail two_loops 0 = {#}" "mail two_loops 1 = {#}" "loop_count two_loops = 2"
    by (simp_all add: mail_def two_loops_def loop_count_def handle_new_def pending_def)
  have s: "{g \<in> \<Union> (set [{}, {?g}]). g \<noteq> ct_sender ?t \<and> event_loop_index g = 0} = {}"
    "{g \<in> \<Union> (set [{}, {?g}]). g \<noteq> ct_sender ?t \<and> event_loop_index g = 1} = {?g}" using idx by auto
  have "mail eh' 0 = {#}" using r(2) [rule_format, of 0, unfolded m s] by simp
  moreover have "mail eh' 1 = {#AsyncWrite ?g [104, 10]#}" using r(2) [rule_format, of 1, unfolded m s] by simp
  ultimately show ?thesis using r(1) by blast
qed

text \<open>The \<open>Close\<close> that \<open>on_close\<close> sends: it will be taken when the slot may be somebody else's.\<close>

lemma chat_close_queues_close:
  assumes "event_loop_index (c_gfd c) < length clients" and "h_connected h"
  shows "\<exists>clients' h' w'. chat_close os c (clients, h, w) = (Ok (), (clients', h', w'))
    \<and> c_gfd c \<notin> clients' ! event_loop_index (c_gfd c) \<and> Close (slab_index (c_gfd c)) \<in> set (pending h')"
proof -
  let ?cmd = "Close (slab_index (c_gfd c))"
  from trigger_pending_mset [OF assms(2), of os "priority ?cmd" ?cmd w] obtain h' w' where
    "conn_close os c (h, w) = (Ok (), (h', w'))" "mset (pending h') = add_mset ?cmd (mset (pending h))" by (auto simp: conn_close_def Let_def)
  moreover from this(2) have "?cmd \<in> set (pending h')" by (metis set_mset_mset union_single_eq_member)
  ultimately show ?thesis using assms(1) by (simp add: chat_close_def Let_def)
qed

end
