(* ===== verification/Address.thy ===== *)
theory Address
  imports Options Text
begin

text \<open>
  Model of the parser and the printer of \<open>src/socket_addr.rs\<close>, with what they use of the standard
  library: the parser and the printer of \<open>std::net::SocketAddr\<close>. A reader answers the value and the
  rest of the string, or \<open>None\<close>, which leaves the input where it was.
\<close>

unbundle bit_operations_syntax

subsection \<open>Readers\<close>

definition read_number :: "nat \<Rightarrow> nat option \<Rightarrow> bool \<Rightarrow> nat \<Rightarrow> string \<Rightarrow> (nat \<times> string) option" where
  "read_number radix max_digits allow_zero_prefix limit s =
     (case read_digits radix 0 0 s of
        (k, n, rest) \<Rightarrow>
          if k = 0 \<or> (case max_digits of Some m \<Rightarrow> m < k | None \<Rightarrow> False)
             \<or> \<not> allow_zero_prefix \<and> take 1 s = ''0'' \<and> 1 < k \<or> limit \<le> n
          then None else Some (n, rest))"

definition read_char :: "char \<Rightarrow> string \<Rightarrow> string option" where
  "read_char c s = (case s of x # xs \<Rightarrow> if x = c then Some xs else None | [] \<Rightarrow> None)"

definition read_separator :: "char \<Rightarrow> nat \<Rightarrow> (string \<Rightarrow> ('a \<times> string) option) \<Rightarrow> string \<Rightarrow> ('a \<times> string) option" where
  "read_separator sep i inner s =
     (if 0 < i then (case read_char sep s of None \<Rightarrow> None | Some s' \<Rightarrow> inner s') else inner s)"

text \<open>Octets \<open>i\<close> to 3.\<close>

fun read_octets :: "nat \<Rightarrow> nat \<Rightarrow> string \<Rightarrow> (u8 list \<times> string) option" where
  "read_octets i 0 s = Some ([], s)"
| "read_octets i (Suc n) s =
     (case read_separator (CHR ''.'') i (read_number 10 (Some 3) False 256) s of
        None \<Rightarrow> None
      | Some (v, s') \<Rightarrow>
          (case read_octets (Suc i) n s' of None \<Rightarrow> None | Some (vs, s'') \<Rightarrow> Some (of_nat v # vs, s'')))"

definition read_ipv4_addr :: "string \<Rightarrow> (u8 list \<times> string) option" where
  "read_ipv4_addr s = read_octets 0 4 s"

definition be_pair :: "u8 \<Rightarrow> u8 \<Rightarrow> 16 word" where
  "be_pair a b = push_bit 8 (ucast a) OR ucast b"

text \<open>
  Groups from index \<open>i\<close>, of which \<open>n\<close> more may follow: the groups read, whether they end with an
  embedded IPv4 address, and the rest.
\<close>

fun read_groups :: "nat \<Rightarrow> nat \<Rightarrow> string \<Rightarrow> 16 word list \<times> bool \<times> string" where
  "read_groups i 0 s = ([], False, s)"
| "read_groups i (Suc n) s =
     (case (if 0 < n then read_separator (CHR '':'') i read_ipv4_addr s else None) of
        Some (v4, s') \<Rightarrow> ([be_pair (v4 ! 0) (v4 ! 1), be_pair (v4 ! 2) (v4 ! 3)], True, s')
      | None \<Rightarrow>
          (case read_separator (CHR '':'') i (read_number 16 (Some 4) True 65536) s of
             None \<Rightarrow> ([], False, s)
           | Some (g, s') \<Rightarrow>
               (case read_groups (Suc i) n s' of (gs, v4, s'') \<Rightarrow> (of_nat g # gs, v4, s''))))"

definition read_ipv6_addr :: "string \<Rightarrow> (16 word list \<times> string) option" where
  "read_ipv6_addr s =
     (case read_groups 0 8 s of
        (front, front_ipv4, s1) \<Rightarrow>
          if length front = 8 then Some (front, s1)
          else if front_ipv4 then None
          else
            (case read_char (CHR '':'') s1 of
               None \<Rightarrow> None
             | Some s2 \<Rightarrow>
                 (case read_char (CHR '':'') s2 of
                    None \<Rightarrow> None
                  | Some s3 \<Rightarrow>
                      (case read_groups 0 (8 - (length front + 1)) s3 of
                         (back, _, s4) \<Rightarrow> Some (front @ replicate (8 - length back - length front) 0 @ back, s4)))))"

definition read_port :: "string \<Rightarrow> (nat \<times> string) option" where
  "read_port s = (case read_char (CHR '':'') s of None \<Rightarrow> None | Some s' \<Rightarrow> read_number 10 None True 65536 s')"

definition read_scope_id :: "string \<Rightarrow> (nat \<times> string) option" where
  "read_scope_id s = (case read_char (CHR ''%'') s of None \<Rightarrow> None | Some s' \<Rightarrow> read_number 10 None True (2 ^ 32) s')"

definition read_socket_addr_v4 :: "string \<Rightarrow> (socket_addr \<times> string) option" where
  "read_socket_addr_v4 s =
     (case read_ipv4_addr s of
        None \<Rightarrow> None
      | Some (ip, s1) \<Rightarrow>
          (case read_port s1 of None \<Rightarrow> None | Some (port, s2) \<Rightarrow> Some (SocketAddrV4 ip (of_nat port), s2)))"

definition read_socket_addr_v6 :: "string \<Rightarrow> (socket_addr \<times> string) option" where
  "read_socket_addr_v6 s =
     (case read_char (CHR ''['') s of
        None \<Rightarrow> None
      | Some s1 \<Rightarrow>
          (case read_ipv6_addr s1 of
             None \<Rightarrow> None
           | Some (ip, s2) \<Rightarrow>
               (case (case read_scope_id s2 of None \<Rightarrow> (0, s2) | Some r \<Rightarrow> r) of
                  (scope_id, s3) \<Rightarrow>
                    (case read_char (CHR '']'') s3 of
                       None \<Rightarrow> None
                     | Some s4 \<Rightarrow>
                         (case read_port s4 of
                            None \<Rightarrow> None
                          | Some (port, s5) \<Rightarrow> Some (SocketAddrV6 ip (of_nat port) 0 (of_nat scope_id), s5))))))"

text \<open>\<open>SocketAddr::from_str\<close>: the whole string must be read.\<close>

definition parse_socket_addr :: "string \<Rightarrow> socket_addr option" where
  "parse_socket_addr s =
     (case (case read_socket_addr_v4 s of Some r \<Rightarrow> Some r | None \<Rightarrow> read_socket_addr_v6 s) of
        Some (a, []) \<Rightarrow> Some a
      | _ \<Rightarrow> None)"

subsection \<open>Network addresses\<close>

definition invalid_input :: "string \<Rightarrow> io_error" where
  "invalid_input msg = IoError InvalidInput msg"

definition from_str :: "string \<Rightarrow> io_error + network_address" where
  "from_str s =
     (case split_once ''://'' s of
        None \<Rightarrow> Inl (invalid_input (''missing '' @ [CHR 0x27] @ ''://'' @ [CHR 0x27] @ '' separator''))
      | Some (proto_str, body) \<Rightarrow>
          if body = [] then Inl (invalid_input ''address body cannot be empty'')
          else if proto_str \<in> {''tcp'', ''tcp4'', ''tcp6''} then
            (let addr_str = (if hd body = CHR '':'' then ''0.0.0.0'' @ body else body) in
             case parse_socket_addr addr_str of
               None \<Rightarrow> Inl (invalid_input (''invalid tcp address: '' @ ''invalid socket address syntax''))
             | Some addr \<Rightarrow> Inr (TcpAddr addr))
          else if proto_str = ''unix'' then Inr (UnixAddr body)
          else Inl (invalid_input (''unsupported protocol: '' @ proto_str)))"

text \<open>\<open>TryFrom\<close> for the addresses of Unix sockets (a path name, if there is one) and of TCP sockets.\<close>

definition try_from_unix :: "string option \<Rightarrow> io_error + network_address" where
  "try_from_unix path =
     (case path of
        Some p \<Rightarrow> Inr (UnixAddr p)
      | None \<Rightarrow> Inl (IoError AddrNotAvailable ''unix socket is not bound to a filesystem path (abstract or unnamed)''))"

definition try_from_tcp :: "socket_addr \<Rightarrow> io_error + network_address" where
  "try_from_tcp a = Inr (TcpAddr a)"

subsection \<open>Printing\<close>

fun show_octets :: "nat \<Rightarrow> u8 list \<Rightarrow> string" where
  "show_octets i [] = []"
| "show_octets i (v # vs) = (if 0 < i then ''.'' else []) @ show_nat (unat v) @ show_octets (Suc i) vs"

fun show_groups :: "nat \<Rightarrow> 16 word list \<Rightarrow> string" where
  "show_groups i [] = []"
| "show_groups i (g # gs) = (if 0 < i then '':'' else []) @ show_radix 16 (unat g) @ show_groups (Suc i) gs"

text \<open>
  The first of the longest runs of zero groups, as start and length: the groups left from index \<open>i\<close>,
  the run in progress and the longest so far.
\<close>

fun zero_run :: "nat \<Rightarrow> nat \<times> nat \<Rightarrow> nat \<times> nat \<Rightarrow> 16 word list \<Rightarrow> nat \<times> nat" where
  "zero_run i cur longest [] = longest"
| "zero_run i cur longest (g # gs) =
     (if g = 0 then
        (let cur' = (if snd cur = 0 then i else fst cur, snd cur + 1) in
         zero_run (Suc i) cur' (if snd longest < snd cur' then cur' else longest) gs)
      else zero_run (Suc i) (0, 0) longest gs)"

definition ipv4_mapped :: "16 word list \<Rightarrow> bool" where
  "ipv4_mapped gs \<longleftrightarrow> take 6 gs = [0, 0, 0, 0, 0, 0xffff] \<and> length gs = 8"

definition low_octets :: "16 word list \<Rightarrow> u8 list" where
  "low_octets gs = [ucast (drop_bit 8 (gs ! 6)), ucast (gs ! 6), ucast (drop_bit 8 (gs ! 7)), ucast (gs ! 7)]"

definition show_ipv6 :: "16 word list \<Rightarrow> string" where
  "show_ipv6 gs =
     (if ipv4_mapped gs then ''::ffff:'' @ show_octets 0 (low_octets gs)
      else
        (case zero_run 0 (0, 0) (0, 0) gs of
           (start, len) \<Rightarrow>
             if 1 < len then show_groups 0 (take start gs) @ ''::'' @ show_groups 0 (drop (start + len) gs)
             else show_groups 0 gs))"

fun show_socket_addr :: "socket_addr \<Rightarrow> string" where
  "show_socket_addr (SocketAddrV4 ip port) = show_octets 0 ip @ '':'' @ show_nat (unat port)"
| "show_socket_addr (SocketAddrV6 ip port flowinfo scope_id) =
     ''['' @ show_ipv6 ip @ (if scope_id = 0 then [] else ''%'' @ show_nat (unat scope_id)) @ '']:'' @ show_nat (unat port)"

fun show_address :: "network_address \<Rightarrow> string" where
  "show_address (TcpAddr a) = ''tcp://'' @ show_socket_addr a"
| "show_address (UnixAddr path) = ''unix://'' @ display path"

subsection \<open>The addresses of an engine\<close>

text \<open>\<open>Options::normalize\<close>: the first address that does not parse is the error.\<close>

fun parse_all :: "string list \<Rightarrow> io_error + network_address list" where
  "parse_all [] = Inr []"
| "parse_all (s # ss) =
     (case from_str s of
        Inl e \<Rightarrow> Inl e
      | Inr a \<Rightarrow> (case parse_all ss of Inl e \<Rightarrow> Inl e | Inr as \<Rightarrow> Inr (a # as)))"

definition normalize :: "string list \<Rightarrow> (network_address list, options) prog" where
  "normalize addrs opts =
     (case parse_all addrs of
        Inl e \<Rightarrow> (Err e, opts)
      | Inr parsed \<Rightarrow>
          (let has_unix = list_ex (\<lambda>a. protocol_of a = ProtoUnix) parsed in
           (Ok parsed, if reuse_port opts \<and> has_unix then opts\<lparr>reuse_port := False\<rparr> else opts)))"

subsection \<open>Reading numbers back\<close>

definition stops :: "nat \<Rightarrow> string \<Rightarrow> bool" where
  "stops r s \<longleftrightarrow> s = [] \<or> to_digit r (hd s) = None"

lemma stops_Nil [simp]: "stops r []"
  by (simp add: stops_def)

lemma stops_Cons [simp]: "stops r (c # s) \<longleftrightarrow> to_digit r c = None"
  by (simp add: stops_def)

lemma not_digits [simp]:
  "to_digit 10 (CHR ''.'') = None" "to_digit 10 (CHR '':'') = None" "to_digit 10 (CHR '']'') = None" "to_digit 10 (CHR ''%'') = None"
  "to_digit 10 (CHR ''['') = None"
  "to_digit 16 (CHR '':'') = None" "to_digit 16 (CHR '']'') = None" "to_digit 16 (CHR ''%'') = None"
  by (simp_all add: to_digit_def)

lemma digit_0: "digit d = CHR ''0'' \<Longrightarrow> d < 16 \<Longrightarrow> d = 0"
  using to_digit_digit [of 16 d] by (simp add: to_digit_def)

lemma no_zero_prefix:
  assumes "radix_ok r" and "take 1 (show_radix r n @ s) = ''0''"
  shows "length (show_radix r n) = 1"
proof (cases "n = 0")
  case True
  with assms(1) show ?thesis by (auto simp: show_radix_small radix_ok_def)
next
  case False
  with show_radix_head [OF assms(1), of n] obtain d cs where "show_radix r n = digit d # cs" "0 < d" "d < r" by blast
  with assms digit_0 [of d] show ?thesis by (auto simp: radix_ok_def)
qed

lemma read_number_shown:
  assumes "radix_ok r" and "n < limit" and "stops r s"
    and "case md of Some m \<Rightarrow> length (show_radix r n) \<le> m | None \<Rightarrow> True"
  shows "read_number r md az limit (show_radix r n @ s) = Some (n, s)"
proof -
  from read_shown [OF assms(1), of s n] assms(3) have r: "read_digits r 0 0 (show_radix r n @ s) = (length (show_radix r n), n, s)"
    by (simp add: stops_def)
  have "\<not> (take 1 (show_radix r n @ s) = ''0'' \<and> 1 < length (show_radix r n))"
    using no_zero_prefix [OF assms(1), of n s] by auto
  with r assms(2,4) show ?thesis by (auto simp: read_number_def split: option.splits)
qed

lemma read_number_stops: "stops r s \<Longrightarrow> read_number r md az limit s = None"
  by (cases s) (simp_all add: read_number_def stops_def)

text \<open>A number that is not followed by a dot is not an IPv4 address.\<close>

lemma read_digits_no_dot:
  assumes "CHR ''.'' \<notin> set xs" and "s = [] \<or> hd s \<noteq> CHR ''.'' \<and> to_digit r (hd s) = None"
    and "read_digits r k acc (xs @ s) = (k', n, rest)"
  shows "rest = [] \<or> hd rest \<noteq> CHR ''.''"
  using assms(1,3)
proof (induction xs arbitrary: k acc)
  case Nil
  with assms(2) show ?case by (cases s) auto
next
  case (Cons c xs)
  then show ?case by (auto split: option.splits)
qed

lemma no_ipv4:
  assumes "CHR ''.'' \<notin> set xs" and "s = [] \<or> hd s \<noteq> CHR ''.'' \<and> to_digit 10 (hd s) = None"
  shows "read_ipv4_addr (xs @ s) = None"
proof (cases "read_number 10 (Some 3) False 256 (xs @ s)")
  case None
  then show ?thesis by (simp add: read_ipv4_addr_def numeral_eq_Suc read_separator_def)
next
  case (Some vr)
  then obtain v rest where vr: "vr = (v, rest)" by (cases vr) simp
  with Some obtain k n where "read_digits 10 0 0 (xs @ s) = (k, n, rest)"
    by (auto simp: read_number_def split: prod.splits if_splits)
  from read_digits_no_dot [OF assms this] have "read_char (CHR ''.'') rest = None"
    by (auto simp: read_char_def split: list.splits)
  with Some vr show ?thesis by (simp add: read_ipv4_addr_def numeral_eq_Suc read_separator_def)
qed

lemma show_radix_no_dot: "radix_ok r \<Longrightarrow> CHR ''.'' \<notin> set (show_radix r n)"
proof
  assume r: "radix_ok r" and "CHR ''.'' \<in> set (show_radix r n)"
  with show_radix_digits [of r n] obtain d where d: "CHR ''.'' = digit d" "d < r" by auto
  from to_digit_digit [OF r d(2)] r show False unfolding d(1) [symmetric] by (auto simp: to_digit_def radix_ok_def)
qed

subsection \<open>Reading addresses back\<close>

lemma stops_octets: "stops 10 s \<Longrightarrow> stops 10 (show_octets (Suc i) vs @ s)"
  by (cases vs) simp_all

lemma read_octets_shown:
  "stops 10 s \<Longrightarrow> read_octets i (length vs) (show_octets i vs @ s) = Some (vs, s)"
proof (induction vs arbitrary: i)
  case (Cons v vs)
  let ?rest = "show_octets (Suc i) vs @ s"
  have v: "unat v < 256" using unsigned_less [of v] by simp
  then have "length (show_nat (unat v)) \<le> 3" using length_show_radix [of 10 "unat v" 2] by simp
  with v stops_octets [OF Cons.prems] have "read_number 10 (Some 3) False 256 (show_nat (unat v) @ ?rest) = Some (unat v, ?rest)"
    by (intro read_number_shown) simp_all
  with Cons show ?case by (cases i) (simp_all add: read_separator_def read_char_def)
qed simp

lemma read_ipv4_shown: "stops 10 s \<Longrightarrow> length vs = 4 \<Longrightarrow> read_ipv4_addr (show_octets 0 vs @ s) = Some (vs, s)"
  using read_octets_shown [of s 0 vs] by (simp add: read_ipv4_addr_def)

text \<open>What may follow a list of groups.\<close>

definition closes :: "string \<Rightarrow> bool" where
  "closes s \<longleftrightarrow> s = [] \<or> hd s = CHR '']'' \<or> hd s = CHR ''%'' \<or> take 2 s = ''::''"

lemma closes_stops: "closes s \<Longrightarrow> stops 16 s \<and> stops 10 s"
  by (cases s) (auto simp: closes_def)

lemma stops_groups: "closes s \<Longrightarrow> stops 16 (show_groups (Suc i) gs @ s) \<and> stops 10 (show_groups (Suc i) gs @ s)"
  by (cases gs) (simp_all add: closes_stops)

lemma stops_no_ipv4: "stops 10 s \<Longrightarrow> read_ipv4_addr s = None"
  by (simp add: read_ipv4_addr_def numeral_eq_Suc read_separator_def read_number_stops)

lemma closes_no_group:
  assumes "closes s"
  shows "read_groups i n s = ([], False, s)"
proof (cases n)
  case (Suc m)
  have "read_separator (CHR '':'') i read_ipv4_addr s = None \<and> read_separator (CHR '':'') i (read_number 16 (Some 4) True 65536) s = None"
  proof (cases "0 < i")
    case True
    show ?thesis
    proof (cases "read_char (CHR '':'') s")
      case None
      with True show ?thesis by (simp add: read_separator_def)
    next
      case (Some s')
      then have "s = CHR '':'' # s'" by (auto simp: read_char_def split: list.splits if_splits)
      with assms obtain t where "s' = CHR '':'' # t" by (cases s') (auto simp: closes_def)
      with True Some show ?thesis by (simp add: read_separator_def stops_no_ipv4 read_number_stops)
    qed
  next
    case False
    with closes_stops [OF assms] show ?thesis by (simp add: read_separator_def stops_no_ipv4 read_number_stops)
  qed
  with Suc show ?thesis by simp
qed simp

lemma group_not_ipv4:
  assumes "closes s"
  shows "read_ipv4_addr (show_radix 16 g @ show_groups (Suc i) gs @ s) = None"
proof (rule no_ipv4)
  show "CHR ''.'' \<notin> set (show_radix 16 g)" by (rule show_radix_no_dot) simp
  show "show_groups (Suc i) gs @ s = [] \<or> hd (show_groups (Suc i) gs @ s) \<noteq> CHR ''.'' \<and> to_digit 10 (hd (show_groups (Suc i) gs @ s)) = None"
    using assms by (cases gs; cases s) (auto simp: closes_def)
qed

lemma read_groups_shown: "closes s \<Longrightarrow> length gs \<le> n \<Longrightarrow> read_groups i n (show_groups i gs @ s) = (gs, False, s)"
proof (induction gs arbitrary: i n)
  case Nil
  then show ?case by (simp add: closes_no_group)
next
  case (Cons g gs)
  then obtain m where m: "n = Suc m" "length gs \<le> m" by (cases n) simp_all
  let ?rest = "show_groups (Suc i) gs @ s"
  have g: "unat g < 65536" using unsigned_less [of g] by simp
  then have "length (show_radix 16 (unat g)) \<le> 4" using length_show_radix [of 16 "unat g" 3] by simp
  with g stops_groups [OF Cons.prems(1)] have "read_number 16 (Some 4) True 65536 (show_radix 16 (unat g) @ ?rest) = Some (unat g, ?rest)"
    by (intro read_number_shown) simp_all
  with Cons.IH [OF Cons.prems(1) m(2)] group_not_ipv4 [OF Cons.prems(1)] m show ?case
    by (cases i; cases m) (simp_all add: read_separator_def read_char_def)
qed

text \<open>The run that is compressed is a run of zeros.\<close>

definition zeros_in :: "16 word list \<Rightarrow> nat \<times> nat \<Rightarrow> bool" where
  "zeros_in w run \<longleftrightarrow> fst run + snd run \<le> length w \<and> (\<forall>j < snd run. w ! (fst run + j) = 0)"

lemma zero_run_zeros:
  assumes "w = xs @ gs" and "i = length xs" and "zeros_in w longest" and "zeros_in w cur" and "snd cur = 0 \<or> fst cur + snd cur = i"
  shows "zeros_in w (zero_run i cur longest gs)"
  using assms
proof (induction gs arbitrary: xs i cur longest)
  case (Cons g gs)
  show ?case
  proof (cases "g = 0")
    case True
    let ?cur = "(if snd cur = 0 then i else fst cur, snd cur + 1)"
    have wi: "w ! i = 0" using Cons.prems(1,2) True by (simp add: nth_append)
    have len: "Suc i \<le> length w" using Cons.prems(1,2) by simp
    have new: "zeros_in w ?cur"
    proof (cases "snd cur = 0")
      case True
      with wi len show ?thesis by (simp add: zeros_in_def)
    next
      case False
      with Cons.prems(4,5) wi len show ?thesis by (auto simp: zeros_in_def less_Suc_eq)
    qed
    have "zeros_in w (zero_run (Suc i) ?cur (if snd longest < snd ?cur then ?cur else longest) gs)"
    proof (rule Cons.IH)
      show "w = (xs @ [g]) @ gs" using Cons.prems(1) by simp
      show "Suc i = length (xs @ [g])" using Cons.prems(2) by simp
      show "zeros_in w (if snd longest < snd ?cur then ?cur else longest)" using new Cons.prems(3) by (simp split: if_split)
      show "zeros_in w ?cur" by (rule new)
      show "snd ?cur = 0 \<or> fst ?cur + snd ?cur = Suc i" using Cons.prems(5) by auto
    qed
    then show ?thesis unfolding zero_run.simps Let_def using True by (simp only: if_True refl)
  next
    case False
    have "zeros_in w (zero_run (Suc i) (0, 0) longest gs)"
      by (rule Cons.IH [of "xs @ [g]"]) (use Cons.prems in \<open>simp_all add: zeros_in_def\<close>)
    with False show ?thesis by simp
  qed
qed simp

lemma zeros_split:
  assumes "zeros_in w (start, len)"
  shows "w = take start w @ replicate len 0 @ drop (start + len) w"
proof -
  have "take len (drop start w) = replicate len 0"
    using assms by (intro nth_equalityI) (auto simp: zeros_in_def)
  then show ?thesis by (metis append_take_drop_id drop_drop add.commute)
qed

lemma be_pair_bytes: "be_pair (ucast (drop_bit 8 g)) (ucast g) = (g :: 16 word)"
  unfolding be_pair_def
proof (rule bit_word_eqI)
  fix i assume "i < LENGTH(16)"
  then consider "i < 8" | "8 \<le> i" "i < 16" by fastforce
  then show "bit (push_bit 8 (ucast (ucast (drop_bit 8 g) :: u8)) OR ucast (ucast g :: u8) :: 16 word) i = bit g i"
    by cases (auto simp: bit_simps)
qed

lemma mapped_groups:
  assumes "ipv4_mapped gs"
  shows "gs = replicate 5 0 @ [0xffff, gs ! 6, gs ! 7]"
proof -
  from assms have gs: "take 6 gs = [0, 0, 0, 0, 0, 0xffff]" "length gs = 8" by (simp_all add: ipv4_mapped_def)
  have "drop 6 gs = [gs ! 6, gs ! 7]"
    using gs(2) by (intro nth_equalityI) (auto simp: less_Suc_eq numeral_eq_Suc nth_Cons')
  with gs(1) append_take_drop_id [of 6 gs] show ?thesis by (simp add: numeral_eq_Suc)
qed

lemma read_ipv6_mapped:
  assumes "ipv4_mapped gs" and s: "closes s"
  shows "read_ipv6_addr (''::ffff:'' @ show_octets 0 (low_octets gs) @ s) = Some (gs, s)"
proof -
  let ?v4 = "show_octets 0 (low_octets gs) @ s"
  have "closes (''::ffff:'' @ ?v4)" by (simp add: closes_def)
  then have front: "read_groups 0 8 (''::ffff:'' @ ?v4) = ([], False, ''::ffff:'' @ ?v4)" by (rule closes_no_group)
  have "read_ipv4_addr ?v4 = Some (low_octets gs, s)"
    using closes_stops [OF s] by (intro read_ipv4_shown) (simp_all add: low_octets_def)
  then have v4: "read_groups 1 (Suc 5) ('':'' @ ?v4) = ([gs ! 6, gs ! 7], True, s)"
    unfolding read_groups.simps by (simp add: read_separator_def read_char_def low_octets_def be_pair_bytes)
  have "read_ipv4_addr (''ffff'' @ '':'' @ ?v4) = None" by (rule no_ipv4) simp_all
  moreover have "read_number 16 (Some 4) True 65536 (''ffff'' @ '':'' @ ?v4) = Some (65535, '':'' @ ?v4)"
    by (simp add: read_number_def to_digit_def)
  ultimately have "read_groups 0 (Suc 6) (''ffff'' @ '':'' @ ?v4) = ([0xffff, gs ! 6, gs ! 7], True, s)"
    unfolding read_groups.simps using v4 by (simp add: read_separator_def)
  with front have "read_ipv6_addr (''::ffff:'' @ ?v4) = Some (replicate 5 0 @ [0xffff, gs ! 6, gs ! 7], s)"
    by (simp add: read_ipv6_addr_def read_char_def)
  with mapped_groups [OF assms(1)] show ?thesis by simp
qed

lemma read_ipv6_shown:
  assumes len: "length gs = 8" and s: "closes s"
  shows "read_ipv6_addr (show_ipv6 gs @ s) = Some (gs, s)"
proof (cases "ipv4_mapped gs")
  case True
  with read_ipv6_mapped [OF True s] show ?thesis by (simp add: show_ipv6_def)
next
  case False
  obtain start n where run: "zero_run 0 (0, 0) (0, 0) gs = (start, n)" by fastforce
  show ?thesis
  proof (cases "1 < n")
    case True
    have "zeros_in gs (start, n)"
      using zero_run_zeros [of gs "[]" gs 0 "(0, 0)" "(0, 0)"] run by (simp add: zeros_in_def)
    then have split: "gs = take start gs @ replicate n 0 @ drop (start + n) gs" and b: "start + n \<le> 8"
      using zeros_split len by (auto simp: zeros_in_def)
    let ?rear = "show_groups 0 (drop (start + n) gs) @ s"
    have "closes (''::'' @ ?rear)" by (simp add: closes_def)
    then have front: "read_groups 0 8 (show_groups 0 (take start gs) @ ''::'' @ ?rear) = (take start gs, False, ''::'' @ ?rear)"
      using b len by (intro read_groups_shown) simp_all
    have tail: "read_groups 0 (8 - (start + 1)) ?rear = (drop (start + n) gs, False, s)"
      using s b len True by (intro read_groups_shown) simp_all
    have "length (take start gs) = start" "length (drop (start + n) gs) = 8 - start - n" "8 - (8 - start - n) - start = n" "start \<noteq> 8"
      using b len True by simp_all
    with front tail split False run True show ?thesis
      by (simp add: show_ipv6_def read_ipv6_addr_def read_char_def)
  next
    case False
    with \<open>\<not> ipv4_mapped gs\<close> run read_groups_shown [OF s, of gs 8 0] len show ?thesis
      by (simp add: show_ipv6_def read_ipv6_addr_def)
  qed
qed

lemma read_port_shown: "read_port ('':'' @ show_nat (unat (p :: 16 word))) = Some (unat p, [])"
proof -
  have "unat p < 65536" using unsigned_less [of p] by simp
  then have "read_number 10 None True 65536 (show_nat (unat p) @ []) = Some (unat p, [])"
    by (intro read_number_shown) simp_all
  then show ?thesis by (simp add: read_port_def read_char_def)
qed

lemma read_scope_shown:
  assumes "stops 10 s"
  shows "read_scope_id (''%'' @ show_nat (unat (n :: u32)) @ s) = Some (unat n, s)"
proof -
  have "unat n < 2 ^ 32" using unsigned_less [of n] by simp
  with assms have "read_number 10 None True (2 ^ 32) (show_nat (unat n) @ s) = Some (unat n, s)"
    by (intro read_number_shown) simp_all
  then show ?thesis by (simp add: read_scope_id_def read_char_def)
qed

fun socket_addr_ok :: "socket_addr \<Rightarrow> bool" where
  "socket_addr_ok (SocketAddrV4 ip port) \<longleftrightarrow> length ip = 4"
| "socket_addr_ok (SocketAddrV6 ip port flowinfo scope_id) \<longleftrightarrow> length ip = 8 \<and> flowinfo = 0"

fun address_ok :: "network_address \<Rightarrow> bool" where
  "address_ok (TcpAddr a) \<longleftrightarrow> socket_addr_ok a"
| "address_ok (UnixAddr path) \<longleftrightarrow> path \<noteq> []"

text \<open>A \<open>PathBuf\<close> may hold any bytes, but only UTF-8 is printed as it is.\<close>

fun printable :: "network_address \<Rightarrow> bool" where
  "printable (TcpAddr a) \<longleftrightarrow> True"
| "printable (UnixAddr path) \<longleftrightarrow> utf8_ok path"

lemma parse_socket_addr_shown:
  assumes "socket_addr_ok a"
  shows "parse_socket_addr (show_socket_addr a) = Some a"
proof (cases a)
  case (SocketAddrV4 ip port)
  with assms have "length ip = 4" by simp
  then have "read_ipv4_addr (show_octets 0 ip @ '':'' @ show_nat (unat port)) = Some (ip, '':'' @ show_nat (unat port))"
    by (intro read_ipv4_shown) simp_all
  with SocketAddrV4 read_port_shown [of port] show ?thesis
    by (simp add: parse_socket_addr_def read_socket_addr_v4_def)
next
  case (SocketAddrV6 ip port flowinfo scope_id)
  with assms have ip: "length ip = 8" "flowinfo = 0" by simp_all
  obtain ps where ps: "ps = '':'' @ show_nat (unat port)" by simp
  obtain tail where tail: "tail = (if scope_id = 0 then [] else ''%'' @ show_nat (unat scope_id)) @ '']'' @ ps" by simp
  have "closes tail" by (simp add: closes_def tail)
  from read_ipv6_shown [OF ip(1) this] have v6: "read_ipv6_addr (show_ipv6 ip @ tail) = Some (ip, tail)" .
  have scope: "(case read_scope_id tail of None \<Rightarrow> (0, tail) | Some r \<Rightarrow> r) = (unat scope_id, '']'' @ ps)"
  proof (cases "scope_id = 0")
    case True
    then show ?thesis by (simp add: read_scope_id_def read_char_def tail)
  next
    case False
    with read_scope_shown [of "'']'' @ ps" scope_id] show ?thesis by (simp add: tail)
  qed
  have shown: "show_socket_addr a = ''['' @ show_ipv6 ip @ tail" using SocketAddrV6 by (simp add: tail ps)
  have "read_socket_addr_v4 (''['' @ show_ipv6 ip @ tail) = None"
    by (simp add: read_socket_addr_v4_def stops_no_ipv4)
  moreover have "read_socket_addr_v6 (''['' @ show_ipv6 ip @ tail) = Some (a, [])"
    using v6 scope read_port_shown [of port] SocketAddrV6 ip(2) ps
    by (simp add: read_socket_addr_v6_def read_char_def)
  ultimately show ?thesis unfolding shown by (simp add: parse_socket_addr_def)
qed

lemma show_octets_head: "\<exists>d cs. show_octets 0 (v # vs) = digit d # cs \<and> d < 10"
proof -
  obtain c cs where s: "show_nat (unat v) = c # cs" by (cases "show_nat (unat v)") simp_all
  with show_radix_digits [of 10 "unat v"] obtain d where "c = digit d" "d < 10" by auto
  with s show ?thesis by (intro exI [of _ d]) simp
qed

lemma show_socket_addr_head:
  assumes "socket_addr_ok a"
  shows "show_socket_addr a \<noteq> [] \<and> hd (show_socket_addr a) \<noteq> CHR '':''"
proof (cases a)
  case (SocketAddrV4 ip port)
  with assms obtain v vs where "ip = v # vs" by (cases ip) auto
  with show_octets_head [of v vs] obtain d cs where "show_octets 0 ip = digit d # cs" "d < 10" by auto
  with to_digit_digit [of 10 d] SocketAddrV4 show ?thesis by (auto simp: to_digit_def)
next
  case (SocketAddrV6 ip port flowinfo scope_id)
  then show ?thesis by simp
qed

lemma split_once_schemes:
  "split_once ''://'' (''tcp://'' @ s) = Some (''tcp'', s)"
  "split_once ''://'' (''unix://'' @ s) = Some (''unix'', s)"
  by (simp_all add: split_once.simps)

lemma from_str_shown_unix: "path \<noteq> [] \<Longrightarrow> from_str (show_address (UnixAddr path)) = Inr (UnixAddr (display path))"
  using split_once_schemes(2) [of "display path"] display_nonempty [of path] by (simp add: from_str_def)

lemma from_str_shown:
  assumes "address_ok a" and "printable a"
  shows "from_str (show_address a) = Inr a"
proof (cases a)
  case (TcpAddr sa)
  with assms show_socket_addr_head [of sa] parse_socket_addr_shown [of sa] split_once_schemes(1) [of "show_socket_addr sa"]
  show ?thesis by (simp add: from_str_def Let_def)
next
  case (UnixAddr path)
  with assms from_str_shown_unix [of path] display_utf8 [of path] show ?thesis by simp
qed

lemma from_str_shown_iff: "address_ok a \<Longrightarrow> from_str (show_address a) = Inr a \<longleftrightarrow> printable a"
  using from_str_shown [of a] from_str_shown_unix display_faithful by (cases a) (auto simp del: show_address.simps)

subsection \<open>What is read is well formed\<close>

lemma read_octets_length: "read_octets i n s = Some (vs, s') \<Longrightarrow> length vs = n"
  by (induction n arbitrary: i s vs s') (auto split: option.splits)

lemma read_groups_length: "read_groups i n s = (gs, v4, s') \<Longrightarrow> length gs \<le> n"
proof (induction n arbitrary: i s gs v4 s')
  case (Suc n)
  show ?case
  proof (cases "if 0 < n then read_separator (CHR '':'') i read_ipv4_addr s else None")
    case None
    with Suc show ?thesis by (auto split: option.splits prod.splits)
  next
    case (Some r)
    with Suc.prems show ?thesis by (cases r) (auto split: if_splits)
  qed
qed simp

lemma read_ipv6_length: "read_ipv6_addr s = Some (gs, s') \<Longrightarrow> length gs = 8"
proof -
  assume r: "read_ipv6_addr s = Some (gs, s')"
  obtain front v4 s1 where f: "read_groups 0 8 s = (front, v4, s1)" by (cases "read_groups 0 8 s") auto
  from read_groups_length [OF f] have fl: "length front \<le> 8" .
  show ?thesis
  proof (cases "length front = 8")
    case True
    with r f show ?thesis by (simp add: read_ipv6_addr_def)
  next
    case False
    with r f obtain s3 tail w s4 where "read_groups 0 (8 - (length front + 1)) s3 = (tail, w, s4)"
      "gs = front @ replicate (8 - length tail - length front) 0 @ tail"
      by (auto simp: read_ipv6_addr_def split: if_splits option.splits prod.splits)
    with read_groups_length [OF this(1)] fl False show ?thesis by auto
  qed
qed

lemma read_socket_addr_v4_ok: "read_socket_addr_v4 s = Some (a, s') \<Longrightarrow> socket_addr_ok a"
  using read_octets_length [of 0 4 s]
  by (auto simp: read_socket_addr_v4_def read_ipv4_addr_def split: option.splits)

lemma read_socket_addr_v6_ok:
  assumes "read_socket_addr_v6 s = Some (a, s')"
  shows "socket_addr_ok a"
proof -
  from assms obtain s1 ip s2 where ip: "read_ipv6_addr s1 = Some (ip, s2)"
    and r: "(case (case read_scope_id s2 of None \<Rightarrow> (0, s2) | Some r \<Rightarrow> r) of
        (scope_id, s3) \<Rightarrow>
          (case read_char (CHR '']'') s3 of
             None \<Rightarrow> None
           | Some s4 \<Rightarrow>
               (case read_port s4 of
                  None \<Rightarrow> None
                | Some (port, s5) \<Rightarrow> Some (SocketAddrV6 ip (of_nat port) 0 (of_nat scope_id), s5)))) = Some (a, s')"
    by (auto simp: read_socket_addr_v6_def split: option.splits)
  obtain n s3 where "(case read_scope_id s2 of None \<Rightarrow> (0, s2) | Some r \<Rightarrow> r) = (n, s3)" by fastforce
  with r read_ipv6_length [OF ip] show ?thesis by (auto split: option.splits)
qed

lemma parse_socket_addr_ok:
  assumes "parse_socket_addr s = Some a"
  shows "socket_addr_ok a"
proof (cases "read_socket_addr_v4 s")
  case None
  with assms show ?thesis by (auto simp: parse_socket_addr_def split: option.splits list.splits dest: read_socket_addr_v6_ok)
next
  case (Some r)
  with assms show ?thesis by (cases r) (auto simp: parse_socket_addr_def split: list.splits dest: read_socket_addr_v4_ok)
qed

lemma from_str_ok: "from_str s = Inr a \<Longrightarrow> address_ok a"
  by (auto simp: from_str_def Let_def split: option.splits if_splits prod.splits dest: parse_socket_addr_ok)

lemma split_once_Some: "split_once sep s = Some (a, b) \<Longrightarrow> s = a @ sep @ b"
proof (induction sep s arbitrary: a rule: split_once.induct)
  case (1 sep s)
  show ?case
  proof (cases "take (length sep) s = sep")
    case True
    with 1(2) append_take_drop_id [of "length sep" s] show ?thesis by (simp add: split_once.simps [of sep s])
  next
    case False
    with 1(2) obtain c cs a' where s: "s = c # cs" "split_once sep cs = Some (a', b)" "a = c # a'"
      by (auto simp: split_once.simps [of sep s] split: list.splits option.splits)
    from 1(1) [OF False s(1,2)] s show ?thesis by simp
  qed
qed

text \<open>A string of the language is UTF-8, so what is parsed from it can be printed.\<close>

lemma from_str_printable:
  assumes "from_str s = Inr a" and "utf8_ok s"
  shows "printable a"
proof (cases a)
  case (UnixAddr path)
  with assms(1) have "split_once ''://'' s = Some (''unix'', path)"
    by (auto simp: from_str_def Let_def split: option.splits if_splits prod.splits)
  from split_once_Some [OF this] assms(2) UnixAddr show ?thesis by simp
qed simp

lemma parse_all_shown: "\<forall>a \<in> set as. address_ok a \<and> printable a \<Longrightarrow> parse_all (map show_address as) = Inr as"
  by (induction "as") (simp_all add: from_str_shown)

text \<open>
  \<open>Options::normalize\<close> understands what the printer writes. On the printed forms of any well formed
  addresses (with paths in UTF-8) it answers exactly these, and turns \<open>reuse_port\<close> off just when one of them is a Unix socket.
\<close>

lemma normalize_printed:
  assumes "\<forall>a \<in> set as. address_ok a \<and> printable a"
  shows "normalize (map show_address as) opts
    = (Ok as, opts\<lparr>reuse_port := reuse_port opts \<and> (\<forall>a \<in> set as. protocol_of a = ProtoTcp)\<rparr>)"
proof (cases "\<forall>a \<in> set as. protocol_of a = ProtoTcp")
  case True
  then have "\<not> list_ex (\<lambda>a. protocol_of a = ProtoUnix) as" by (auto simp: list_ex_iff)
  with True parse_all_shown [OF assms] show ?thesis by (simp add: normalize_def Let_def)
next
  case False
  then obtain a where "a \<in> set as" "protocol_of a = ProtoUnix" by (metis protocol.exhaust)
  then have "list_ex (\<lambda>a. protocol_of a = ProtoUnix) as" by (auto simp: list_ex_iff)
  with False parse_all_shown [OF assms] show ?thesis by (cases "reuse_port opts") (simp_all add: normalize_def Let_def)
qed

lemma parse_all_Inr: "parse_all ss = Inr as \<Longrightarrow> map from_str ss = map Inr as"
  by (induction ss arbitrary: "as") (auto split: sum.splits)

subsection \<open>Properties\<close>

text \<open>
  C28: addresses print and parse back. A well formed address (IPv4, IPv6 with compressed zeros, an
  embedded IPv4 address or a scope, Unix path) is read back from its printed form exactly when it is a
  TCP address or its path is UTF-8; a path with other bytes is printed with U+FFFD in their place and
  read back as that. Every address that the parser accepts is well formed, and one from a string in
  UTF-8, as every \<open>&str\<close> is, does print and parse back: printing what was read gives a canonical form.
\<close>

theorem address_roundtrip:
  "(address_ok a \<longrightarrow> (from_str (show_address a) = Inr a \<longleftrightarrow> printable a))
    \<and> (path \<noteq> [] \<longrightarrow> from_str (show_address (UnixAddr path)) = Inr (UnixAddr (display path)))
    \<and> (from_str s = Inr b \<longrightarrow> address_ok b \<and> (utf8_ok s \<longrightarrow> from_str (show_address b) = Inr b))"
  using from_str_shown_iff [of a] from_str_shown_unix [of path] from_str_shown [of b] from_str_ok [of s b] from_str_printable [of s b]
  by (simp del: show_address.simps)

text \<open>A path with a byte that is not UTF-8 comes back as another path.\<close>

lemma address_roundtrip_witness:
  "from_str (show_address (TcpAddr (SocketAddrV6 [0x2001, 0xdb8, 0, 0, 1, 0, 0, 1] 443 0 2))) = Inr (TcpAddr (SocketAddrV6 [0x2001, 0xdb8, 0, 0, 1, 0, 0, 1] 443 0 2))
    \<and> from_str (show_address (UnixAddr [CHR ''/'', CHR 0xE9, CHR ''a''])) = Inr (UnixAddr [CHR ''/'', CHR 0xEF, CHR 0xBF, CHR 0xBD, CHR ''a''])
    \<and> from_str (show_address (UnixAddr [CHR ''/'', CHR 0xC3, CHR 0xA9])) = Inr (UnixAddr [CHR ''/'', CHR 0xC3, CHR 0xA9])"
proof -
  have d: "display [CHR ''/'', CHR 0xE9, CHR ''a''] = [CHR ''/'', CHR 0xEF, CHR 0xBF, CHR 0xBD, CHR ''a'']"
    by (simp add: display.simps(2) Let_def utf8_width_def second_byte_def numeral_eq_Suc REPLACEMENT_CHARACTER_def)
  have "utf8_ok [CHR ''/'', CHR 0xC3, CHR 0xA9]"
    by (simp add: utf8_ok.simps(2) Let_def utf8_width_def second_byte_def numeral_eq_Suc)
  with d show ?thesis
    using address_roundtrip [of "TcpAddr (SocketAddrV6 [0x2001, 0xdb8, 0, 0, 1, 0, 0, 1] 443 0 2)" "[CHR ''/'', CHR 0xE9, CHR ''a'']"]
      address_roundtrip [of "UnixAddr [CHR ''/'', CHR 0xC3, CHR 0xA9]"]
    by (simp del: show_address.simps)
qed

text \<open>
  C29: what \<open>Options::normalize\<close> hands to the engine is well typed. The addresses it answers are those the
  strings parse to, one each and in order, and every one is well formed (four octets or eight groups, a
  non-empty path). Of the options only \<open>reuse_port\<close> may change, and it stays on only when every address
  is a TCP one, so a Unix socket is never bound once per loop.
\<close>

theorem normalize_well_typed:
  assumes "normalize addrs opts = (Ok as, opts')"
  shows "map from_str addrs = map Inr as \<and> (\<forall>a \<in> set as. address_ok a)
    \<and> opts' = opts\<lparr>reuse_port := reuse_port opts \<and> (\<forall>a \<in> set as. protocol_of a = ProtoTcp)\<rparr>"
proof -
  have p: "parse_all addrs = Inr as" using assms by (auto simp: normalize_def Let_def split: sum.splits if_splits)
  note m = parse_all_Inr [OF this]
  have ok: "address_ok a" if "a \<in> set as" for a
  proof -
    from that m have "Inr a \<in> set (map from_str addrs)" by simp
    then show ?thesis using from_str_ok by fastforce
  qed
  moreover have "list_ex (\<lambda>a. protocol_of a = ProtoUnix) as \<longleftrightarrow> \<not> (\<forall>a \<in> set as. protocol_of a = ProtoTcp)"
    by (simp add: list_ex_iff) (metis protocol.exhaust protocol.distinct(1))
  then have "opts' = opts\<lparr>reuse_port := reuse_port opts \<and> (\<forall>a \<in> set as. protocol_of a = ProtoTcp)\<rparr>"
    using assms p by (auto simp: normalize_def Let_def)
  ultimately show ?thesis using m by blast
qed

lemma normalize_well_typed_witness:
  "map from_str [show_address (UnixAddr ''/tmp/a''), show_address (TcpAddr (SocketAddrV4 [0, 0, 0, 0] 80))]
      = map Inr [UnixAddr ''/tmp/a'', TcpAddr (SocketAddrV4 [0, 0, 0, 0] 80)]
    \<and> snd (normalize [show_address (UnixAddr ''/tmp/a''), show_address (TcpAddr (SocketAddrV4 [0, 0, 0, 0] 80))]
        (default_options\<lparr>reuse_port := True\<rparr>)) = default_options\<lparr>reuse_port := False\<rparr>"
proof -
  let ?as = "[UnixAddr ''/tmp/a'', TcpAddr (SocketAddrV4 [0, 0, 0, 0] 80)]"
  have "normalize (map show_address ?as) (default_options\<lparr>reuse_port := True\<rparr>) = (Ok ?as, default_options\<lparr>reuse_port := False\<rparr>)"
    using normalize_printed [of ?as "default_options\<lparr>reuse_port := True\<rparr>"] by (simp del: show_address.simps)
  with normalize_well_typed [OF this] show ?thesis by (simp del: show_address.simps)
qed

end
