(* ===== verification/LoopStreams.thy ===== *)
theory LoopStreams
  imports LoopTheorems
begin

text \<open>
  A server that answers on the connection it reads from, followed through whole runs of the event
  loop. The locale \<open>stream_server\<close> states what its callbacks promise for one connection and one
  read; the lemmas carry the promise through everything else that the loop does: other
  connections, commands, closing and recycling, accepting, write batches, ticks. One socket is
  followed at a time; what the steps of other connections do to it is nothing, and that is a
  lemma for each step.
\<close>

subsection \<open>What the kernel remembers of a socket\<close>

text \<open>
  Three ghost observations: the bytes accepted for a socket, the pieces handed out on it, and
  whether it is in the hands of this loop (accepted or registered, and not yet dropped).
\<close>

record 'w ghost =
  g_wire :: "'w \<Rightarrow> socket \<Rightarrow> bytes"
  g_got :: "'w \<Rightarrow> socket \<Rightarrow> bytes list"
  g_held :: "'w \<Rightarrow> socket \<Rightarrow> bool"

definition view :: "'w ghost \<Rightarrow> 'w \<Rightarrow> socket \<Rightarrow> bytes \<times> bytes list \<times> bool" where
  "view gh w sk = (g_wire gh w sk, g_got gh w sk, g_held gh w sk)"

text \<open>A peer that is still there: a write fails only in ways that the connection retries.\<close>

definition soft_writes :: "'w os \<Rightarrow> socket \<Rightarrow> bool" where
  "soft_writes os sk \<longleftrightarrow>
     (\<forall>w buf e w'. socket_write os w sk buf = (Inl e, w') \<longrightarrow> retryable e)
     \<and> (\<forall>w bufs e w'. socket_write_vectored os w sk bufs = (Inl e, w') \<longrightarrow> retryable e)"

text \<open>Reads extend the list of pieces handed out and send nothing; writes leave it alone.\<close>

definition writes_keep :: "'w os \<Rightarrow> ('w \<Rightarrow> 'x) \<Rightarrow> bool" where
  "writes_keep os got \<longleftrightarrow>
     (\<forall>w sk buf. got (snd (socket_write os w sk buf)) = got w)
     \<and> (\<forall>w sk bufs. got (snd (socket_write_vectored os w sk bufs)) = got w)"

definition pieces :: "io_error + bytes \<Rightarrow> bytes list" where
  "pieces r = (case r of Inl e \<Rightarrow> [] | Inr data \<Rightarrow> if data = [] then [] else [data])"

definition logs_pieces :: "'w os \<Rightarrow> ('w \<Rightarrow> socket \<Rightarrow> bytes) \<Rightarrow> ('w \<Rightarrow> socket \<Rightarrow> bytes list) \<Rightarrow> bool" where
  "logs_pieces os wire got \<longleftrightarrow>
     (\<forall>w sk len r w'. socket_read os w sk len = (r, w') \<longrightarrow> wire w' = wire w \<and> got w' sk = got w sk @ pieces r)"

text \<open>
  Sockets do not interfere: a call on one leaves what is observed of the others alone, and the
  calls on the registry and the waker leave all alone.
\<close>

definition isolated :: "'w os \<Rightarrow> ('w \<Rightarrow> socket \<Rightarrow> 'v) \<Rightarrow> bool" where
  "isolated os v \<longleftrightarrow>
     (\<forall>w sk sk'. sk' \<noteq> sk \<longrightarrow>
        (\<forall>len. v (snd (socket_read os w sk len)) sk' = v w sk')
        \<and> (\<forall>buf. v (snd (socket_write os w sk buf)) sk' = v w sk')
        \<and> (\<forall>bufs. v (snd (socket_write_vectored os w sk bufs)) sk' = v w sk')
        \<and> v (snd (socket_flush os w sk)) sk' = v w sk'
        \<and> v (drop_stream os w sk) sk' = v w sk')
     \<and> (\<forall>w sk b. v (snd (set_nodelay os w sk b)) = v w)
     \<and> (\<forall>w src token i. v (snd (registry_register os w src token i)) = v w
          \<and> v (snd (registry_reregister os w src token i)) = v w)
     \<and> (\<forall>w src. v (snd (registry_deregister os w src)) = v w)
     \<and> (\<forall>w i. v (snd (waker_wake os w i)) = v w)"

text \<open>The kernel hands out no socket that is still in use, and a new one starts empty.\<close>

definition accepts_fresh :: "'w os \<Rightarrow> 'w ghost \<Rightarrow> bool" where
  "accepts_fresh os gh \<longleftrightarrow>
     (\<forall>w l r w'. listener_accept os w l = (r, w') \<longrightarrow>
        (case r of
           Inl e \<Rightarrow> view gh w' = view gh w
         | Inr (sk, peer) \<Rightarrow> \<not> g_held gh w sk \<and> view gh w' = (view gh w)(sk := ([], [], True))))"

definition streams_ok :: "'w os \<Rightarrow> 'w ghost \<Rightarrow> bool" where
  "streams_ok os gh \<longleftrightarrow>
     transport_ok os (g_wire gh) \<and> logs_pieces os (g_wire gh) (g_got gh) \<and> isolated os (view gh)
     \<and> writes_keep os (g_got gh) \<and> writes_keep os (g_held gh)
     \<and> (\<forall>w sk. g_got gh (snd (socket_flush os w sk)) = g_got gh w \<and> g_held gh (snd (socket_flush os w sk)) = g_held gh w)
     \<and> (\<forall>w sk len. g_held gh (snd (socket_read os w sk len)) sk = g_held gh w sk)
     \<and> accepts_fresh os gh"

subsection \<open>Sending\<close>

text \<open>What a connection does to the world when it sends: calls on its own socket.\<close>

inductive sends :: "'w os \<Rightarrow> socket \<Rightarrow> 'w \<Rightarrow> 'w \<Rightarrow> bool" for os :: "'w os" and sk :: socket where
  nothing: "sends os sk w w"
| writes: "sends os sk w w1 \<Longrightarrow> socket_write os w1 sk buf = (r, w2) \<Longrightarrow> sends os sk w w2"
| writes_vectored: "sends os sk w w1 \<Longrightarrow> socket_write_vectored os w1 sk bufs = (r, w2) \<Longrightarrow> sends os sk w w2"
| flushes: "sends os sk w w1 \<Longrightarrow> socket_flush os w1 sk = (r, w2) \<Longrightarrow> sends os sk w w2"

declare sends.nothing [simp, intro]

lemma sends_trans: "sends os sk w1 w2 \<Longrightarrow> sends os sk w w1 \<Longrightarrow> sends os sk w w2"
  by (induction rule: sends.induct) (auto intro: sends.intros)

lemma sends_one:
  "socket_write os w sk buf = (r, w') \<Longrightarrow> sends os sk w w'"
  "socket_write_vectored os w sk bufs = (r', w') \<Longrightarrow> sends os sk w w'"
  "socket_flush os w sk = (r'', w') \<Longrightarrow> sends os sk w w'"
  by (auto intro: sends.intros)

lemma isolatedD:
  assumes "isolated os v"
  shows "sk' \<noteq> sk \<Longrightarrow> socket_read os w sk len = (r1, w') \<Longrightarrow> v w' sk' = v w sk'"
    and "sk' \<noteq> sk \<Longrightarrow> socket_write os w sk buf = (r2, w') \<Longrightarrow> v w' sk' = v w sk'"
    and "sk' \<noteq> sk \<Longrightarrow> socket_write_vectored os w sk bufs = (r2, w') \<Longrightarrow> v w' sk' = v w sk'"
    and "sk' \<noteq> sk \<Longrightarrow> socket_flush os w sk = (r3, w') \<Longrightarrow> v w' sk' = v w sk'"
    and "sk' \<noteq> sk \<Longrightarrow> v (drop_stream os w sk) sk' = v w sk'"
    and "v (snd (set_nodelay os w sk b)) = v w"
    and "v (snd (registry_register os w src token i)) = v w"
    and "v (snd (registry_reregister os w src token i)) = v w"
    and "v (snd (registry_deregister os w src)) = v w"
    and "v (snd (waker_wake os w n)) = v w"
  using assms unfolding isolated_def by (metis snd_conv)+

lemma sends_others:
  assumes "isolated os v" and "sk' \<noteq> sk"
  shows "sends os sk w w' \<Longrightarrow> v w' sk' = v w sk'"
  by (induction rule: sends.induct) (simp_all add: isolatedD(2-4) [OF assms(1) assms(2)])

lemma streams_okD:
  assumes "streams_ok os gh"
  shows "transport_ok os (g_wire gh)" and "logs_pieces os (g_wire gh) (g_got gh)" and "isolated os (view gh)"
    and "writes_keep os (g_got gh)" and "writes_keep os (g_held gh)" and "accepts_fresh os gh"
  using assms by (simp_all add: streams_ok_def)

lemma sends_own:
  assumes ok: "streams_ok os gh"
  shows "sends os sk w w' \<Longrightarrow> g_got gh w' = g_got gh w \<and> g_held gh w' = g_held gh w"
proof (induction rule: sends.induct)
  case (writes w w1 buf r w2)
  with ok show ?case unfolding streams_ok_def writes_keep_def by (metis snd_conv)
next
  case (writes_vectored w w1 bufs r w2)
  with ok show ?case unfolding streams_ok_def writes_keep_def by (metis snd_conv)
next
  case (flushes w w1 r w2)
  with ok show ?case unfolding streams_ok_def by (metis snd_conv)
qed simp

lemma flush_loop_sends:
  fixes os :: "'w os"
  assumes "flush_loop os sk q w = Some (r, q', w')"
  shows "sends os sk w w'"
proof -
  have "sends os sk w (snd (snd (r, q', w')))"
  proof (rule flush_loop.raw_induct [where P = "\<lambda>os sk q w res. sends os sk w (snd (snd res))", OF _ assms])
    fix f :: "'w os \<Rightarrow> socket \<Rightarrow> bytes list \<Rightarrow> 'w \<Rightarrow> (unit outcome \<times> bytes list \<times> 'w) option"
      and os :: "'w os" and sk q w res
    assume IH: "\<And>os sk q w res. f os sk q w = Some res \<Longrightarrow> sends os sk w (snd (snd res))"
      and body: "(if q = [] then Some (Ok (), q, w)
        else case socket_write_vectored os w sk (take IO_MAX q) of
               (Inr n, w') \<Rightarrow> if n = 0 then Some (Err (IoError WriteZero ''connection closed''), q, w')
                             else f os sk (advance_queue n q) w'
             | (Inl e, w') \<Rightarrow> if err_kind e = Interrupted then f os sk q w'
                             else if err_kind e = WouldBlock then Some (Err (IoError WouldBlock ''flush would block''), q, w')
                             else Some (Err e, q, w')) = Some res"
    obtain r w1 where r: "socket_write_vectored os w sk (take IO_MAX q) = (r, w1)" by fastforce
    from body r show "sends os sk w (snd (snd res))"
      by (cases r) (auto split: if_splits dest: IH intro: sends_trans sends_one(2) [OF r])
  qed
  then show ?thesis by simp
qed

lemma write_loop_sends:
  fixes os :: "'w os"
  assumes "write_loop os max_batch sk written q w = Some (status, q', w')"
  shows "sends os sk w w'"
proof -
  have "sends os sk w (snd (snd (status, q', w')))"
  proof (rule write_loop.raw_induct [where P = "\<lambda>os max_batch sk written q w res. sends os sk w (snd (snd res))", OF _ assms])
    fix f :: "'w os \<Rightarrow> nat \<Rightarrow> socket \<Rightarrow> nat \<Rightarrow> bytes list \<Rightarrow> 'w \<Rightarrow> (io_status \<times> bytes list \<times> 'w) option"
      and os :: "'w os" and max_batch sk written q w res
    assume IH: "\<And>os max_batch sk written q w res. f os max_batch sk written q w = Some res \<Longrightarrow> sends os sk w (snd (snd res))"
      and body: "(if q = [] then Some (IoCompleted, q, w)
      else if max_batch \<le> written then Some (IoYield, q, w)
      else case socket_write_vectored os w sk (take IO_MAX q) of
             (Inr n, w') \<Rightarrow> if n = 0 then Some (IoClosed False, q, w')
                           else f os max_batch sk (written + n) (advance_queue n q) w'
           | (Inl e, w') \<Rightarrow> if err_kind e = WouldBlock then Some (IoCompleted, q, w')
                           else if err_kind e = Interrupted then f os max_batch sk written q w'
                           else Some (IoClosed False, q, w')) = Some res"
    obtain r w1 where r: "socket_write_vectored os w sk (take IO_MAX q) = (r, w1)" by fastforce
    from body r show "sends os sk w (snd (snd res))"
      by (cases r) (auto split: if_splits dest: IH intro: sends_trans sends_one(2) [OF r])
  qed
  then show ?thesis by simp
qed

text \<open>A program of a connection that keeps its socket and only sends on it.\<close>

definition sends_only :: "'w os \<Rightarrow> ('a, 'k conn \<times> 'w) prog \<Rightarrow> bool" where
  "sends_only os m \<longleftrightarrow>
     (\<forall>c w r c' w'. m (c, w) = (r, (c', w')) \<longrightarrow> r \<noteq> Panic \<longrightarrow>
        c_socket c' = c_socket c \<and> (case c_socket c of Some sk \<Rightarrow> sends os sk w w' | None \<Rightarrow> w' = w))"

lemma sends_onlyD:
  "sends_only os m \<Longrightarrow> m (c, w) = (r, (c', w')) \<Longrightarrow> r \<noteq> Panic \<Longrightarrow>
    c_socket c' = c_socket c \<and> (case c_socket c of Some sk \<Rightarrow> sends os sk w w' | None \<Rightarrow> w' = w)"
  unfolding sends_only_def by blast

lemma flush_socket_sends:
  "flush_socket os (c, w) = (r, (c', w')) \<Longrightarrow> c' = c \<and> (case c_socket c of Some sk \<Rightarrow> sends os sk w w' | None \<Rightarrow> w' = w)"
  by (auto simp: flush_socket_def split: option.splits prod.splits sum.splits intro: sends_one(3))

lemma flush_sends: "sends_only os (flush os)"
  unfolding sends_only_def
proof (intro allI impI)
  fix c w r c' w' assume run: "flush os (c, w) = (r, (c', w'))" and np: "r \<noteq> Panic"
  show "c_socket c' = c_socket c \<and> (case c_socket c of Some sk \<Rightarrow> sends os sk w w' | None \<Rightarrow> w' = w)"
  proof (cases "c_out_buffer c")
    case None
    with run flush_socket_sends [of os c w] show ?thesis by (simp add: flush_def)
  next
    case (Some q)
    with run np obtain sk where sk: "c_socket c = Some sk" by (cases "c_socket c") (simp_all add: flush_def)
    show ?thesis
    proof (cases "flush_loop os sk q w")
      case None
      with Some sk run show ?thesis by (simp add: flush_def)
    next
      case (Some res)
      obtain r1 q1 w1 where res: "flush_loop os sk q w = Some (r1, q1, w1)" using Some by (cases res) auto
      have "bind_io (\<lambda>s. (r1, s)) (\<lambda>_. flush_socket os) (c\<lparr>c_out_buffer := Some q1\<rparr>, w1) = (r, (c', w'))"
        using run sk res \<open>c_out_buffer c = Some q\<close> by (simp add: flush_def)
      with flush_loop_sends [OF res] flush_socket_sends [of os "c\<lparr>c_out_buffer := Some q1\<rparr>" w1 r c' w'] sk show ?thesis
        by (cases r1) (auto simp: bind_io_def intro: sends_trans)
    qed
  qed
qed

lemma discard_sends: "sends_only os m \<Longrightarrow> sends_only os (discard_result m)"
  unfolding sends_only_def discard_result_def by (auto split: prod.splits outcome.splits)

lemma drop_sends: "sends_only os drop_out_buffer"
  by (auto simp: sends_only_def drop_out_buffer_def split: option.split)

lemma write_batch_sends: "sends_only os (conn_write_batch os max_batch)"
  by (auto simp: sends_only_def conn_write_batch_def split: option.splits if_splits prod.splits intro: write_loop_sends)

lemma write_bytes_sends_only: "sends_only os (write_bytes os buf)"
  by (auto simp: sends_only_def write_bytes_def push_out_def split: option.splits if_splits prod.splits sum.splits
      intro: sends_one(1))

lemma write_vectored_sends_only: "sends_only os (write_vectored_bytes os bufs)"
  by (auto simp: sends_only_def write_vectored_bytes_def push_out_def Let_def split: option.splits if_splits prod.splits sum.splits
      intro: sends_one(2))

subsection \<open>Going on\<close>

text \<open>Every error ends the loop, so what has to be kept is kept where a step succeeds.\<close>

definition onward :: "('s \<Rightarrow> bool) \<Rightarrow> ('a, 's) prog \<Rightarrow> ('a \<Rightarrow> 's \<Rightarrow> bool) \<Rightarrow> bool" where
  "onward P m Q \<longleftrightarrow> (\<forall>s x s'. P s \<longrightarrow> m s = (Ok x, s') \<longrightarrow> Q x s')"

lemma onwardI: "(\<And>s x s'. P s \<Longrightarrow> m s = (Ok x, s') \<Longrightarrow> Q x s') \<Longrightarrow> onward P m Q"
  by (simp add: onward_def)

lemma onwardD: "onward P m Q \<Longrightarrow> P s \<Longrightarrow> m s = (Ok x, s') \<Longrightarrow> Q x s'"
  unfolding onward_def by blast

lemma onward_bind:
  assumes "onward P m R" and "\<And>x. onward (R x) (f x) Q"
  shows "onward P (bind_io m f) Q"
proof (rule onwardI)
  fix s x s' assume "P s" "bind_io m f s = (Ok x, s')"
  then show "Q x s'" using assms by (elim bind_io_OkE) (blast dest: onwardD)
qed

lemma onward_ret: "(\<And>s. P s \<Longrightarrow> Q x s) \<Longrightarrow> onward P (ret x) Q"
  by (simp add: onward_def ret_def)

lemma onward_raise: "onward P (raise e) Q"
  by (simp add: onward_def raise_def)

lemma onward_if: "(b \<Longrightarrow> onward P m Q) \<Longrightarrow> (\<not> b \<Longrightarrow> onward P m' Q) \<Longrightarrow> onward P (if b then m else m') Q"
  by simp

lemma onward_state: "(\<And>s. onward P (m s) Q) \<Longrightarrow> onward P (\<lambda>s. m s s) Q"
  unfolding onward_def by blast

text \<open>A step that keeps \<open>P\<close> whatever it answers may also have its error dropped.\<close>

definition always :: "('s \<Rightarrow> bool) \<Rightarrow> ('a, 's) prog \<Rightarrow> ('s \<Rightarrow> bool) \<Rightarrow> bool" where
  "always P m Q \<longleftrightarrow> (\<forall>s r s'. P s \<longrightarrow> m s = (r, s') \<longrightarrow> r \<noteq> Panic \<longrightarrow> Q s')"

lemma alwaysI: "(\<And>s r s'. P s \<Longrightarrow> m s = (r, s') \<Longrightarrow> r \<noteq> Panic \<Longrightarrow> Q s') \<Longrightarrow> always P m Q"
  by (simp add: always_def)

lemma onward_always: "always P m Q \<Longrightarrow> onward P m (\<lambda>_. Q)"
  unfolding always_def onward_def by blast

lemma always_discard: "always P m Q \<Longrightarrow> always P (discard_result m) Q"
  unfolding always_def
proof (intro allI impI)
  fix s r s' assume a: "\<forall>s r s'. P s \<longrightarrow> m s = (r, s') \<longrightarrow> r \<noteq> Panic \<longrightarrow> Q s'" and "P s" "discard_result m s = (r, s')" "r \<noteq> Panic"
  moreover obtain r1 s1 where "m s = (r1, s1)" by fastforce
  ultimately show "Q s'" by (cases r1) (auto simp: discard_result_def)
qed

subsection \<open>One socket in the loop\<close>

definition owners :: "socket \<Rightarrow> ('w, 'k) eloop \<Rightarrow> nat set" where
  "owners sk st = {k. \<exists>c. slab_get (l_connections st) k = Some c \<and> c_socket c = Some sk}"

fun registers :: "socket \<Rightarrow> command \<Rightarrow> bool" where
  "registers sk (Register sk' _ _) = (sk' = sk)"
| "registers sk _ = False"

fun is_async :: "command \<Rightarrow> bool" where
  "is_async (AsyncWrite _ _) = True"
| "is_async _ = False"

definition offers :: "socket \<Rightarrow> loop_handle \<Rightarrow> nat" where
  "offers sk h = length (filter (registers sk) (pending h))"

definition no_async :: "loop_handle \<Rightarrow> bool" where
  "no_async h \<longleftrightarrow> (\<forall>cmd \<in> set (pending h). \<not> is_async cmd)"

text \<open>
  The socket has at most one owner: one slot, or one \<open>Register\<close> command that has yet to be taken;
  an offered socket is new. In every slot but those in \<open>X\<close> the connection on it is \<open>good\<close> for what
  has been received and what has been answered.
\<close>

type_synonym 'k goodness = "'k conn \<Rightarrow> bytes list \<Rightarrow> bytes \<Rightarrow> bool"

definition good_at :: "'w ghost \<Rightarrow> 'k goodness \<Rightarrow> socket \<Rightarrow> 'k conn \<Rightarrow> 'w \<Rightarrow> bool" where
  "good_at gh good sk c w \<longleftrightarrow> good c (g_got gh w sk) (outstream (g_wire gh) sk (c, w))"

definition tracked :: "'w ghost \<Rightarrow> 'k goodness \<Rightarrow> socket \<Rightarrow> nat set \<Rightarrow> ('w, 'k) eloop \<Rightarrow> bool" where
  "tracked gh good sk X st \<longleftrightarrow>
     (\<forall>k \<in> owners sk st. \<forall>k' \<in> owners sk st. k = k')
     \<and> (owners sk st \<noteq> {} \<longrightarrow> g_held gh (l_world st) sk \<and> offers sk (l_handle st) = 0)
     \<and> offers sk (l_handle st) \<le> 1
     \<and> (0 < offers sk (l_handle st) \<longrightarrow> view gh (l_world st) sk = ([], [], True))
     \<and> no_async (l_handle st)
     \<and> (\<forall>k c. slab_get (l_connections st) k = Some c \<longrightarrow> c_socket c = Some sk \<longrightarrow> k \<notin> X \<longrightarrow> good_at gh good sk c (l_world st))"

text \<open>The socket a registration was handed: if it is ours, it has no other owner and is new.\<close>

definition handed :: "'w ghost \<Rightarrow> socket \<Rightarrow> socket \<Rightarrow> ('w, 'k) eloop \<Rightarrow> bool" where
  "handed gh sk sk' st \<longleftrightarrow>
     (sk' = sk \<longrightarrow> owners sk st = {} \<and> offers sk (l_handle st) = 0 \<and> view gh (l_world st) sk = ([], [], True))"

lemma good_at_view: "view gh w' sk = view gh w sk \<Longrightarrow> good_at gh good sk c w' = good_at gh good sk c w"
  by (simp add: good_at_def view_def outstream_def)

text \<open>A step that changes neither the slots nor the commands and leaves the socket alone.\<close>

lemma tracked_rest:
  assumes "tracked gh good sk X st" and "view gh (l_world st') sk = view gh (l_world st) sk"
    and "l_connections st' = l_connections st"
    and "filter (registers sk) (pending (l_handle st')) = filter (registers sk) (pending (l_handle st))"
    and "no_async (l_handle st')"
  shows "tracked gh good sk X st'"
proof -
  have "owners sk st' = owners sk st" "offers sk (l_handle st') = offers sk (l_handle st)"
    "g_held gh (l_world st') sk = g_held gh (l_world st) sk"
    using assms(2-4) by (simp_all add: owners_def offers_def view_def)
  with assms good_at_view [OF assms(2)] show ?thesis unfolding tracked_def by metis
qed

lemma tracked_world:
  "tracked gh good sk X st \<Longrightarrow> view gh w' sk = view gh (l_world st) sk \<Longrightarrow> tracked gh good sk X (st\<lparr>l_world := w'\<rparr>)"
  by (rule tracked_rest) (auto simp: tracked_def)

lemma handed_world:
  "handed gh sk sk' st \<Longrightarrow> view gh w' sk = view gh (l_world st) sk \<Longrightarrow> handed gh sk sk' (st\<lparr>l_world := w'\<rparr>)"
  by (simp add: handed_def owners_def)

text \<open>
  A step on the connection in one slot that keeps its socket and, on another socket, only sends.
\<close>

lemma owners_put:
  assumes "slab_get (l_connections st) key = Some c" and "c_socket c' = c_socket c"
    and "l_connections st' = slab_insert key c' (l_connections st)"
  shows "owners sk st' = owners sk st"
  using assms by (auto simp: owners_def)

lemma tracked_put:
  assumes t: "tracked gh good sk X st" and c: "slab_get (l_connections st) key = Some c" "c_socket c' = c_socket c"
    and st': "l_connections st' = slab_insert key c' (l_connections st)" "l_handle st' = l_handle st"
    and other: "c_socket c \<noteq> Some sk \<Longrightarrow> view gh (l_world st') sk = view gh (l_world st) sk"
    and own: "c_socket c = Some sk \<Longrightarrow> g_held gh (l_world st') sk = g_held gh (l_world st) sk"
    and good: "c_socket c = Some sk \<Longrightarrow> key \<notin> Y \<Longrightarrow> good_at gh good sk c' (l_world st')" and Y: "X \<subseteq> insert key Y"
  shows "tracked gh good sk Y st'"
proof -
  have o: "owners sk st' = owners sk st" by (rule owners_put [OF c st'(1)])
  show ?thesis
  proof (cases "c_socket c = Some sk")
    case True
    then have k: "key \<in> owners sk st" using c(1) by (auto simp: owners_def)
    have g: "good_at gh good sk d (l_world st')" if "slab_get (l_connections st') k = Some d" "c_socket d = Some sk" "k \<notin> Y" for k d
    proof -
      from that(1,2) o have "k \<in> owners sk st" by (auto simp: owners_def)
      with t k have "k = key" by (auto simp: tracked_def)
      with that st'(1) True good show ?thesis by simp
    qed
    have "offers sk (l_handle st) = 0" "g_held gh (l_world st') sk" using t k own [OF True] by (auto simp: tracked_def)
    with t g show ?thesis unfolding tracked_def o st'(2) by (metis less_irrefl zero_le)
  next
    case False
    note v = other [OF False]
    have g: "good_at gh good sk d (l_world st')" if "slab_get (l_connections st') k = Some d" "c_socket d = Some sk" "k \<notin> Y" for k d
    proof -
      have "k \<noteq> key" using that(1,2) False st'(1) c(2) by auto
      with that(1) st'(1) have "slab_get (l_connections st) k = Some d" by simp
      moreover have "k \<notin> X" using \<open>k \<noteq> key\<close> that(3) Y by auto
      ultimately show ?thesis using t that(2) unfolding good_at_view [OF v] by (simp add: tracked_def)
    qed
    have h: "g_held gh (l_world st') sk = g_held gh (l_world st) sk" using v by (simp add: view_def)
    show ?thesis using t g unfolding tracked_def o st'(2) h v by blast
  qed
qed

lemma view_sends:
  assumes ok: "streams_ok os gh" and s: "case c_socket c of Some sk' \<Rightarrow> sends os sk' w w' | None \<Rightarrow> w' = w"
  shows "c_socket c \<noteq> Some sk \<Longrightarrow> view gh w' sk = view gh w sk"
    and "c_socket c = Some sk \<Longrightarrow> g_held gh w' sk = g_held gh w sk \<and> g_got gh w' sk = g_got gh w sk"
proof -
  assume other: "c_socket c \<noteq> Some sk"
  show "view gh w' sk = view gh w sk"
  proof (cases "c_socket c")
    case (Some sk')
    with other s have "sk \<noteq> sk'" "sends os sk' w w'" by auto
    then show ?thesis by (rule sends_others [OF streams_okD(3) [OF ok]])
  qed (use s in simp)
next
  assume "c_socket c = Some sk"
  with s sends_own [OF ok, of sk w w'] show "g_held gh w' sk = g_held gh w sk \<and> g_got gh w' sk = g_got gh w sk" by simp
qed

lemma on_conn_tracked:
  fixes m :: "('a, 'k conn \<times> 'w) prog"
  assumes ok: "streams_ok os gh" and m: "sends_only os m"
    and good: "\<And>c w r c' w'. m (c, w) = (r, (c', w')) \<Longrightarrow> r \<noteq> Panic \<Longrightarrow> c_socket c = Some sk \<Longrightarrow> key \<notin> Y \<Longrightarrow>
      key \<notin> X \<Longrightarrow> good_at gh good sk c w \<Longrightarrow> good_at gh good sk c' w'"
    and X: "X \<subseteq> insert key Y" and Y: "Y \<subseteq> insert key X" and keyX: "key \<in> X \<Longrightarrow> key \<in> Y"
  shows "always (tracked gh good sk X) (on_conn key m) (tracked gh good sk Y)"
proof (rule alwaysI)
  fix st r st' assume t: "tracked gh good sk X st" and run: "on_conn key m st = (r, st')" and np: "r \<noteq> Panic"
  from run np obtain c where c: "slab_get (l_connections st) key = Some c"
    by (cases "slab_get (l_connections st) key") (simp_all add: on_conn_def)
  obtain r1 c' w' where mc: "m (c, l_world st) = (r1, (c', w'))" by (metis surj_pair)
  with run c have st': "r1 = r" "st' = st\<lparr>l_connections := slab_insert key c' (l_connections st), l_world := w'\<rparr>"
    by (simp_all add: on_conn_def)
  from sends_onlyD [OF m mc] np st'(1) have s: "c_socket c' = c_socket c" "case c_socket c of Some sk \<Rightarrow> sends os sk (l_world st) w' | None \<Rightarrow> w' = l_world st"
    by simp_all
  note v = view_sends [OF ok s(2), of sk]
  show "tracked gh good sk Y st'"
  proof (rule tracked_put [OF t c s(1)])
    assume "c_socket c = Some sk" "key \<notin> Y"
    moreover from this keyX have "key \<notin> X" by blast
    moreover from this t c \<open>c_socket c = Some sk\<close> have "good_at gh good sk c (l_world st)" by (simp add: tracked_def)
    ultimately have "good_at gh good sk c' w'" using good mc st'(1) np by blast
    then show "good_at gh good sk c' (l_world st')" using st'(2) by simp
  qed (use st'(2) v X in simp_all)
qed

subsection \<open>The steps that only touch the registry, the channels or the clock\<close>

lemma on_world_tracked:
  assumes "\<And>w r w'. f w = (r, w') \<Longrightarrow> view gh w' sk = view gh w sk"
  shows "always (tracked gh good sk X) (on_world f) (tracked gh good sk X)"
proof (rule alwaysI)
  fix st r st' assume t: "tracked gh good sk X st" and run: "on_world f st = (r, st')"
  obtain x w' where "f (l_world st) = (x, w')" by fastforce
  with assms [OF this] run t show "tracked gh good sk X st'"
    by (cases x) (auto simp: on_world_def intro: tracked_world)
qed

lemma registry_view:
  assumes ok: "streams_ok os gh"
  shows "socket_register os w sk' token i = (r, w') \<Longrightarrow> view gh w' sk = view gh w sk"
    and "socket_reregister os w sk' token i = (r, w') \<Longrightarrow> view gh w' sk = view gh w sk"
    and "socket_deregister os w sk' = (r, w') \<Longrightarrow> view gh w' sk = view gh w sk"
  using isolatedD(7-9) [OF streams_okD(3) [OF ok], of w]
  by (auto simp: socket_register_def socket_reregister_def socket_deregister_def split: socket.splits) (metis snd_conv)+

lemma reregister_tracked:
  assumes ok: "streams_ok os gh"
  shows "onward (tracked gh good sk X) (reregister os key) (\<lambda>_. tracked gh good sk X)"
proof (rule onwardI)
  fix st x st' assume t: "tracked gh good sk X st" and run: "reregister os key st = (Ok x, st')"
  have w: "always (tracked gh good sk X) (on_world (\<lambda>w. disable_write (socket_reregister os) w sk' tok)) (tracked gh good sk X)"
    "always (tracked gh good sk X) (on_world (\<lambda>w. enable_write (socket_reregister os) w sk' tok)) (tracked gh good sk X)" for sk' tok
    by (rule on_world_tracked, auto simp: disable_write_def enable_write_def dest: registry_view(2) [OF ok])+
  show "tracked gh good sk X st'"
  proof (cases "slab_get (l_connections st) key")
    case None
    with run t show ?thesis by (simp add: reregister_def)
  next
    case (Some c)
    with run obtain sk' where "c_socket c = Some sk'" by (cases "c_socket c") (simp_all add: reregister_def)
    with run Some t show ?thesis
      by (auto simp: reregister_def Let_def split: if_splits
          dest: onwardD [OF onward_always [OF w(1)]] onwardD [OF onward_always [OF w(2)]])
  qed
qed

lemma deregister_tracked:
  assumes ok: "streams_ok os gh"
  shows "onward (tracked gh good sk X) (deregister_conn os key) (\<lambda>_. tracked gh good sk X)"
proof (rule onwardI)
  fix st x st' assume t: "tracked gh good sk X st" and run: "deregister_conn os key st = (Ok x, st')"
  have w: "always (tracked gh good sk X) (on_world (\<lambda>w. poller_deregister (socket_deregister os) w sk')) (tracked gh good sk X)" for sk'
    by (rule on_world_tracked) (auto simp: poller_deregister_def dest: registry_view(3) [OF ok])
  from run t show "tracked gh good sk X st'"
    by (auto simp: deregister_conn_def split: option.splits dest: onwardD [OF onward_always [OF w]])
qed

text \<open>Sending a command to the loop's own channels, and waking it.\<close>

lemma wake_handle_view:
  assumes ok: "streams_ok os gh" and "wake_handle os (h, w) = (r, (h', w'))"
  shows "view gh w' = view gh w \<and> pending h' = pending h"
proof -
  have "view gh (snd (waker_wake os w (waker_id (h_waker h)))) = view gh w" by (rule isolatedD(10) [OF streams_okD(3) [OF ok]])
  with assms(2) show ?thesis
    by (auto simp: wake_handle_def wake_def pending_def Let_def split: prod.splits if_splits sum.splits)
qed

lemma trigger_view:
  assumes ok: "streams_ok os gh" and t: "trigger os p cmd (h, w) = (r, (h', w'))"
  shows "view gh w' = view gh w \<and> (pending h' = pending h \<or> (\<exists>xs ys. pending h = xs @ ys \<and> pending h' = xs @ cmd # ys))"
proof -
  obtain b h1 where e: "enqueue p cmd h = (b, h1)" by fastforce
  have h1: "pending h1 = pending h \<or> (\<exists>xs ys. pending h = xs @ ys \<and> pending h1 = xs @ cmd # ys)"
  proof (cases "h_connected h")
    case False
    with e show ?thesis by (auto simp: enqueue_def send_common_def send_urgent_def pending_def split: if_splits)
  next
    case True
    with e have "h1 = h\<lparr>h_common := h_common h @ [cmd]\<rparr> \<or> h1 = h\<lparr>h_urgent := h_urgent h @ [cmd]\<rparr>"
      by (auto simp: enqueue_def send_common_def send_urgent_def split: if_splits)
    then show ?thesis
    proof
      assume "h1 = h\<lparr>h_common := h_common h @ [cmd]\<rparr>"
      then have "pending h = pending h @ []" "pending h1 = pending h @ cmd # []" by (simp_all add: pending_def)
      then show ?thesis by blast
    next
      assume "h1 = h\<lparr>h_urgent := h_urgent h @ [cmd]\<rparr>"
      then have "pending h = h_urgent h @ h_common h" "pending h1 = h_urgent h @ cmd # h_common h" by (simp_all add: pending_def)
      then show ?thesis by blast
    qed
  qed
  show ?thesis
  proof (cases b)
    case False
    with t e h1 show ?thesis by (auto simp: trigger_def)
  next
    case True
    obtain r2 h2 w2 where wk: "wake_handle os (h1, w) = (r2, (h2, w2))" by (metis surj_pair)
    with t e True have "h' = h2 \<and> w' = w2" by (cases r2) (auto simp: trigger_def)
    with wake_handle_view [OF ok wk] h1 show ?thesis by auto
  qed
qed

lemma on_handle_tracked:
  fixes m :: "('a, loop_handle \<times> 'w) prog"
  assumes "\<And>h w r h' w'. m (h, w) = (r, (h', w')) \<Longrightarrow> view gh w' = view gh w
      \<and> (pending h' = pending h \<or> (\<exists>xs ys. pending h = xs @ ys \<and> pending h' = xs @ cmd # ys))"
    and "\<not> is_async cmd" and "\<not> registers sk cmd"
  shows "always (tracked gh good sk X) (on_handle m) (tracked gh good sk X)"
proof (rule alwaysI)
  fix st r st' assume t: "tracked gh good sk X st" and run: "on_handle m st = (r, st')"
  obtain r1 h' w' where m: "m (l_handle st, l_world st) = (r1, (h', w'))" by (metis surj_pair)
  with run have st': "st' = st\<lparr>l_handle := h', l_world := w'\<rparr>" by (simp add: on_handle_def)
  from assms(1) [OF m] assms(2,3) t have "filter (registers sk) (pending h') = filter (registers sk) (pending (l_handle st))"
    "no_async h'" by (auto simp: tracked_def no_async_def)
  with t st' assms(1) [OF m] show "tracked gh good sk X st'" by (intro tracked_rest [OF t]) simp_all
qed

lemma trigger_tracked:
  assumes "streams_ok os gh" and "\<not> is_async cmd" and "\<not> registers sk cmd"
  shows "always (tracked gh good sk X) (loop_trigger os p cmd) (tracked gh good sk X)"
  unfolding loop_trigger_def by (rule on_handle_tracked [OF trigger_view [OF assms(1)] assms(2,3)])

lemma wake_tracked:
  assumes "streams_ok os gh"
  shows "always (tracked gh good sk X) (on_handle (wake_handle os)) (tracked gh good sk X)"
  by (rule on_handle_tracked [where cmd = Wake]) (use wake_handle_view [OF assms] in auto)

subsection \<open>Leaving a slot\<close>

lemma retire_tracked:
  assumes ok: "streams_ok os gh"
  shows "onward (tracked gh good sk {key}) (retire_conn os key) (\<lambda>_. tracked gh good sk {})"
proof (rule onwardI)
  fix st x st' assume t: "tracked gh good sk {key} st" and run: "retire_conn os key st = (Ok x, st')"
  from run obtain c conns' where rm: "slab_remove key (l_connections st) = Some (c, conns')"
    by (cases "slab_remove key (l_connections st)") (auto simp: retire_conn_def)
  obtain sko where sko: "c_socket c = sko" by simp
  with run rm have conns: "l_connections st' = conns'" and p: "pending (l_handle st') = pending (l_handle st)"
    and w: "l_world st' = (case sko of Some sk \<Rightarrow> drop_stream os (l_world st) sk | None \<Rightarrow> l_world st)"
    by (auto simp: retire_conn_def pending_def)
  note get = slots.remove_get(2) [OF rm] and c = slots.remove_get(1) [OF rm]
  have o: "owners sk st' = owners sk st - {key}" using get conns by (auto simp: owners_def)
  have off: "offers sk (l_handle st') = offers sk (l_handle st)" "no_async (l_handle st') = no_async (l_handle st)"
    using p by (simp_all add: offers_def no_async_def)
  show "tracked gh good sk {} st'"
  proof (cases "sko = Some sk")
    case True
    then have "key \<in> owners sk st" using c sko by (auto simp: owners_def)
    then have "owners sk st' = {}" "offers sk (l_handle st) = 0" using t o unfolding tracked_def by auto
    moreover from this(1) have "c_socket d \<noteq> Some sk" if "slab_get (l_connections st') k = Some d" for k d
      using that by (auto simp: owners_def)
    ultimately show ?thesis using t unfolding tracked_def off by auto
  next
    case False
    then have v: "view gh (l_world st') sk = view gh (l_world st) sk"
      using w isolatedD(5) [OF streams_okD(3) [OF ok], of sk] by (cases sko) auto
    then have "g_held gh (l_world st') sk = g_held gh (l_world st) sk" by (simp add: view_def)
    with t show ?thesis unfolding tracked_def off v good_at_view [OF v] o conns get by (auto split: if_splits)
  qed
qed

lemma insert_twice: "slab_insert key d (slab_insert key e s) = slab_insert key d s"
  by (auto simp: slab_insert_def list_update_append)

subsection \<open>The server\<close>

text \<open>
  What the callbacks promise. Opening prepares a new connection and sends nothing; closing and
  ticking do nothing; \<open>on_traffic\<close> only sends on its own socket, and while the peer is there it
  keeps the connection \<open>good\<close>: \<open>good c got out\<close> relates what the connection holds between two reads
  to all pieces received on it and all bytes answered on it (accepted or queued).
\<close>

locale stream_server =
  fixes server :: "'w os \<Rightarrow> ('w, 'k) handler"
    and opened :: "'k conn \<Rightarrow> 'k conn"
    and good :: "'k conn \<Rightarrow> bytes list \<Rightarrow> bytes \<Rightarrow> bool"
  assumes open_quiet: "on_open (server os) c (h, w) = (ActNone, opened c, h, w)"
    and opened_same: "c_socket (opened c) = c_socket c \<and> c_out_buffer (opened c) = c_out_buffer c"
    and opened_good: "avail c = [] \<Longrightarrow> c_codec c = None \<Longrightarrow> good (opened c) [] []"
    and close_quiet: "on_close (server os) c (h, w) = (ActNone, c, h, w)"
    and tick_quiet: "on_tick (server os) s (h, w) = ((0, ActNone), s, h, w)"
    and good_out: "same_but_out c c' \<Longrightarrow> good c' got out = good c got out"
    and traffic_sends: "c_socket c = Some sk \<Longrightarrow> on_traffic (server os) c (h, w) = (a, c', h', w') \<Longrightarrow>
      h' = h \<and> c_socket c' = Some sk \<and> sends os sk w w'"
    and traffic_good: "transport_ok os wire \<Longrightarrow> soft_writes os sk \<Longrightarrow> c_socket c = Some sk \<Longrightarrow>
      good c got (outstream wire sk (c, w)) \<Longrightarrow>
      data \<noteq> [] \<Longrightarrow>
      on_traffic (server os) (c\<lparr>c_io_buffer := Some data\<rparr>) (h, w) = (a, c', h', w') \<Longrightarrow>
      a = ActNone \<and> good (merge_io c') (got @ [data]) (outstream wire sk (c', w'))"
begin

lemma good_at_same_out:
  assumes "same_but_out c c'" and "g_got gh w' sk = g_got gh w sk"
    and "outstream (g_wire gh) sk (c', w') = outstream (g_wire gh) sk (c, w)"
  shows "good_at gh good sk c' w' = good_at gh good sk c w"
  using assms(2,3) good_out [OF assms(1)] by (simp add: good_at_def)

text \<open>Closing: while the connection is on its way out only its own slot is excepted.\<close>

lemma close_tracked:
  assumes ok: "streams_ok os gh"
  shows "onward (tracked gh good sk {}) (close_connection os (server os) key graceful) (\<lambda>_. tracked gh good sk {})"
proof -
  have out: "onward (tracked gh good sk {}) (on_conn key (if graceful then discard_result (flush os) else drop_out_buffer))
      (\<lambda>_. tracked gh good sk {key})"
    by (rule onward_always, rule on_conn_tracked [OF ok])
       (simp_all add: discard_sends [OF flush_sends] drop_sends)
  have cb: "onward (tracked gh good sk {key}) (callback key (on_close (server os))) (\<lambda>_. tracked gh good sk {key})"
  proof (rule onwardI)
    fix st x st' assume t: "tracked gh good sk {key} st" and run: "callback key (on_close (server os)) st = (Ok x, st')"
    from run obtain c where c: "slab_get (l_connections st) key = Some c"
      by (cases "slab_get (l_connections st) key") (simp_all add: callback_def)
    with run have st': "st' = st\<lparr>l_connections := slab_insert key c (l_connections st)\<rparr>"
      by (auto simp: callback_def close_quiet)
    show "tracked gh good sk {key} st'" by (rule tracked_put [OF t c refl]) (use st' in simp_all)
  qed
  have chain: "onward (tracked gh good sk {}) (bind_io (on_conn key (if graceful then discard_result (flush os) else drop_out_buffer)) (\<lambda>_.
       bind_io (callback key (on_close (server os))) (\<lambda>_.
       bind_io (deregister_conn os key) (\<lambda>_. retire_conn os key)))) (\<lambda>_. tracked gh good sk {})"
    by (rule onward_bind [OF out], rule onward_bind [OF cb], rule onward_bind [OF deregister_tracked [OF ok]],
        rule retire_tracked [OF ok])
  show ?thesis
  proof (rule onwardI)
    fix st x st' assume t: "tracked gh good sk {} st" and run: "close_connection os (server os) key graceful st = (Ok x, st')"
    show "tracked gh good sk {} st'"
    proof (cases "slab_get (l_connections st) key = None")
      case True
      with run t show ?thesis by (simp add: close_connection_def)
    next
      case False
      with run have "bind_io (on_conn key (if graceful then discard_result (flush os) else drop_out_buffer)) (\<lambda>_.
         bind_io (callback key (on_close (server os))) (\<lambda>_.
         bind_io (deregister_conn os key) (\<lambda>_. retire_conn os key))) st = (Ok x, st')"
        by (simp add: close_connection_def)
      from onwardD [OF chain t this] show ?thesis .
    qed
  qed
qed

lemma stop_tracked: "onward P (shutdown_and_stop os H) Q"
  unfolding shutdown_and_stop_def by (rule onward_bind [where R = "\<lambda>_ _. True"]) (simp_all add: onward_raise onward_def raise_def)

text \<open>Write batches leave the stream as it is.\<close>

lemma batch_good:
  assumes ok: "streams_ok os gh" and m: "conn_write_batch os max_batch (c, w) = (r, (c', w'))" and np: "r \<noteq> Panic"
    and sk: "c_socket c = Some sk" and g: "good_at gh good sk c w"
  shows "good_at gh good sk c' w'"
proof -
  from sends_onlyD [OF write_batch_sends m np] sk have "sends os sk w w'" by simp
  with sends_own [OF ok] have got: "g_got gh w' sk = g_got gh w sk" by metis
  have "same_but_out c c' \<and> outstream (g_wire gh) sk (c', w') = outstream (g_wire gh) sk (c, w)"
    using m sk np
    by (auto simp: conn_write_batch_def outstream_def write_post_def split: option.splits if_splits
        dest!: write_loop_post [OF _ streams_okD(1) [OF ok]])
  with good_at_same_out [OF _ got] g show ?thesis by blast
qed

lemma write_tracked:
  assumes ok: "streams_ok os gh"
  shows "onward (tracked gh good sk {}) (write_socket os (server os) key) (\<lambda>_. tracked gh good sk {})"
proof -
  have p: "onward (tracked gh good sk {}) (process_write os key) (\<lambda>_. tracked gh good sk {})"
  proof (rule onwardI)
    fix st x st' assume t: "tracked gh good sk {} st" and run: "process_write os key st = (Ok x, st')"
    have "always (tracked gh good sk {}) (on_conn key (conn_write_batch os n)) (tracked gh good sk {})" for n
      by (rule on_conn_tracked [OF ok write_batch_sends]) (auto intro: batch_good [OF ok])
    from onwardD [OF onward_always [OF this] t] run t show "tracked gh good sk {} st'"
      by (auto simp: process_write_def split: option.splits)
  qed
  show ?thesis
    unfolding write_socket_def
    by (rule onward_bind [OF p])
       (auto split: io_status.split intro: onward_always [OF always_discard [OF trigger_tracked [OF ok]]]
          reregister_tracked [OF ok] close_tracked [OF ok])
qed

text \<open>Reading: what is read is handed to the callback, and what it leaves is merged.\<close>

lemma read_loop_tracked:
  assumes ok: "streams_ok os gh" and soft: "soft_writes os sk"
  shows "tracked gh good sk {} st \<Longrightarrow> read_loop os (server os) key max_batch read_cap bytes_read st = (Ok status, st') \<Longrightarrow>
    tracked gh good sk {} st'"
proof (induction "max_batch - bytes_read" arbitrary: bytes_read st rule: less_induct)
  case less
  note t = less.prems(1) and run = less.prems(2)
  show ?case
  proof (cases "max_batch \<le> bytes_read")
    case True
    with t run show ?thesis by (simp add: read_loop.simps)
  next
    case False
    note unf = read_loop.simps [of os "server os" key max_batch read_cap bytes_read st]
    obtain len capacity where prep: "prepare_scratch os read_cap (l_scratch st) = Some (len, capacity)"
      using run False by (cases "prepare_scratch os read_cap (l_scratch st)") (auto simp: unf)
    obtain c where c: "slab_get (l_connections st) key = Some c"
      using run False prep by (cases "slab_get (l_connections st) key") (auto simp: unf)
    obtain sk' where sk': "c_socket c = Some sk'" using run False prep c by (cases "c_socket c") (auto simp: unf)
    obtain r w' where r: "socket_read os (l_world st) sk' len = (r, w')" by fastforce
    from logs_pieces_def streams_okD(2) [OF ok] r have log: "g_wire gh w' = g_wire gh (l_world st)"
      "g_got gh w' sk' = g_got gh (l_world st) sk' @ pieces r" by metis+
    have held: "g_held gh w' sk' = g_held gh (l_world st) sk'" using ok r unfolding streams_ok_def by (metis snd_conv)
    have other: "sk' \<noteq> sk \<Longrightarrow> view gh w' sk = view gh (l_world st) sk"
      using isolatedD(1) [OF streams_okD(3) [OF ok] _ r] by metis
    consider (stop) "\<forall>data. r = Inr data \<longrightarrow> data = []" | (data) data where "r = Inr data" "data \<noteq> []" by blast
    then show ?thesis
    proof cases
      case stop
      then have "view gh w' sk' = view gh (l_world st) sk'" using log held by (cases r) (simp_all add: view_def pieces_def)
      with other have v: "view gh w' sk = view gh (l_world st) sk" by metis
      have "st' = st\<lparr>l_scratch := (len, capacity), l_world := w'\<rparr>"
        using run False prep c sk' r stop by (cases r) (auto simp: unf Let_def split: if_splits)
      then show ?thesis using t v by (intro tracked_rest [OF t]) (simp_all add: tracked_def)
    next
      case (data data)
      let ?c1 = "c\<lparr>c_io_buffer := Some data\<rparr>"
      obtain a c2 h2 w2 where f: "on_traffic (server os) ?c1 (l_handle st, w') = (a, c2, h2, w2)" by (metis surj_pair)
      from traffic_sends [OF _ f] sk' have cb: "h2 = l_handle st" "c_socket c2 = Some sk'" "sends os sk' w' w2" by simp_all
      let ?st2 = "st\<lparr>l_scratch := (len - length data, capacity - length data),
        l_connections := slab_insert key c2 (slab_insert key ?c1 (l_connections st)), l_handle := h2, l_world := w2\<rparr>"
      let ?st3 = "?st2\<lparr>l_connections := slab_insert key (merge_io c2) (l_connections ?st2)\<rparr>"
      have call: "callback key (on_traffic (server os)) (st\<lparr>l_world := w', l_scratch := (len - length data, capacity - length data),
          l_connections := slab_insert key ?c1 (l_connections st)\<rparr>) = (Ok a, ?st2)"
        using f by (simp add: callback_def)
      have step: "(case a of ActNone \<Rightarrow> read_loop os (server os) key max_batch read_cap (bytes_read + length data) ?st3
          | ActClose \<Rightarrow> (Ok (IoClosed True), ?st2) | ActShutdown \<Rightarrow> (Ok IoShutdown, ?st2)) = (Ok status, st')"
        using run False prep c sk' r data call by (cases a) (simp_all add: unf Let_def split: if_splits)
      have m: "c_socket (merge_io c2) = Some sk'" using same_core_merge [of c2] cb(2) by (simp add: same_core_def)
      have out: "outstream (g_wire gh) s (merge_io c2, w2) = outstream (g_wire gh) s (c2, w2)" for s
        by (simp add: outstream_def merge_io_def split: option.split)
      have own: "g_held gh w2 sk = g_held gh (l_world st) sk \<and> g_got gh w2 sk = g_got gh (l_world st) sk @ [data]" if "sk' = sk"
        using sends_own [OF ok cb(3)] log(2) held data that by (auto simp: pieces_def)
      have ans: "a = ActNone \<and> good_at gh good sk (merge_io c2) w2" if "sk' = sk"
      proof -
        have g: "good_at gh good sk c (l_world st)" using t c sk' that by (simp add: tracked_def)
        have "outstream (g_wire gh) sk (c, w') = outstream (g_wire gh) sk (c, l_world st)" using log(1) by (simp add: outstream_def)
        with g have "good c (g_got gh (l_world st) sk) (outstream (g_wire gh) sk (c, w'))" by (simp add: good_at_def)
        from traffic_good [OF streams_okD(1) [OF ok] soft sk' [unfolded that] this data(2) f] own [OF that] out
        show ?thesis by (simp add: good_at_def)
      qed
      have v2: "view gh w2 sk = view gh (l_world st) sk" if "sk' \<noteq> sk"
        using sends_others [OF streams_okD(3) [OF ok] _ cb(3), of sk] that other by auto
      have t2: "tracked gh good sk {} ?st3"
        by (rule tracked_put [OF t c, where c' = "merge_io c2"]) (use m sk' own ans v2 cb(1) in \<open>auto simp: insert_twice\<close>)
      have t3: "tracked gh good sk {} ?st2" if "sk' \<noteq> sk"
        by (rule tracked_put [OF t c, where c' = c2]) (use that cb sk' v2 in \<open>auto simp: insert_twice\<close>)
      have dec: "max_batch - (bytes_read + length data) < max_batch - bytes_read" using False data by (cases data) auto
      show ?thesis
      proof (cases a)
        case ActNone
        with step have "read_loop os (server os) key max_batch read_cap (bytes_read + length data) ?st3 = (Ok status, st')" by simp
        from less.hyps [OF dec t2 this] show ?thesis .
      qed (use step ans t3 in auto)
    qed
  qed
qed

lemma read_tracked:
  assumes ok: "streams_ok os gh" and soft: "soft_writes os sk"
  shows "onward (tracked gh good sk {}) (read_socket os (server os) key) (\<lambda>_. tracked gh good sk {})"
proof -
  have p: "onward (tracked gh good sk {}) (process_read os (server os) key) (\<lambda>_. tracked gh good sk {})"
    by (rule onwardI) (auto simp: process_read_def split: option.splits if_splits dest: read_loop_tracked [OF ok soft])
  show ?thesis
    unfolding read_socket_def
    by (rule onward_bind [OF p])
       (auto split: io_status.split intro: onward_ret onward_always [OF always_discard [OF trigger_tracked [OF ok]]]
          close_tracked [OF ok] stop_tracked)
qed

text \<open>Registering: a socket that is handed over is new, and so is its connection, recycled or not.\<close>

lemma fresh_conn_clean:
  assumes "fresh_conn g sk la pa st c pool'"
  shows "avail c = [] \<and> c_codec c = None \<and> opt_list (c_out_buffer c) = [] \<and> c_socket c = Some sk"
  using assms by (auto simp: fresh_conn_def conn_new_def conn_reset_def avail_def split: list.splits)

lemma register_tracked:
  assumes ok: "streams_ok os gh"
  shows "onward (\<lambda>st. tracked gh good sk {} st \<and> handed gh sk sk' st)
    (register_conn os dbg (server os) sk' la pa) (\<lambda>_. tracked gh good sk {})"
proof (rule onwardI)
  fix st x st' assume pre: "tracked gh good sk {} st \<and> handed gh sk sk' st"
    and run: "register_conn os dbg (server os) sk' la pa st = (Ok x, st')"
  obtain w1 where w1: "w1 = (if tcp_no_delay (l_options st) = NoDelay then snd (set_nodelay os (l_world st) sk' True) else l_world st)" by simp
  obtain key where key: "key = vacant_key os w1 (occupied (l_connections st))" by simp
  obtain rr w2 where reg: "poller_register (socket_register os) w1 sk' (of_nat key) = (rr, w2)" by fastforce
  note reg_def = register_conn_def [of os dbg "server os" sk' la pa st, folded w1, unfolded Let_def, folded key]
  have "view gh w1 sk = view gh (l_world st) sk"
    using isolatedD(6) [OF streams_okD(3) [OF ok]] w1 by simp
  moreover have "view gh w2 sk = view gh w1 sk"
    using reg registry_view(1) [OF ok] by (auto simp: poller_register_def)
  ultimately have v: "view gh w2 sk = view gh (l_world st) sk" by simp
  obtain u where rr: "rr = Inr u" using run reg by (cases rr) (auto simp: reg_def)
  obtain g mono' where g: "Gfd_new dbg (socket_fd os w2 sk') (l_id st) (of_nat key) (l_mono st) = (Ok g, mono')"
    using run reg rr
    by (cases "Gfd_new dbg (socket_fd os w2 sk') (l_id st) (of_nat key) (l_mono st)";
        cases "fst (Gfd_new dbg (socket_fd os w2 sk') (l_id st) (of_nat key) (l_mono st))") (auto simp: reg_def)
  obtain c pool' where cp: "(case l_pool st of
        p # ps \<Rightarrow> (conn_reset g sk' (l_options st) la pa (h_idx (l_handle st)) p, ps)
      | [] \<Rightarrow> (conn_new g sk' (l_options st) la pa (h_idx (l_handle st)), [])) = (c, pool')" by fastforce
  then have "fresh_conn g sk' la pa st c pool'" by (auto simp: fresh_conn_def split: list.splits)
  note clean = fresh_conn_clean [OF this]
  have st': "st' = st\<lparr>l_mono := mono', l_pool := pool', l_world := w2,
      l_connections := slab_insert key (opened c) (l_connections st),
      l_handle := (l_handle st)\<lparr>h_conn_count := h_conn_count (l_handle st) + 1\<rparr>\<rparr>"
    using run reg rr g cp by (simp add: reg_def open_quiet)
  have pend: "offers sk (l_handle st') = offers sk (l_handle st)" "no_async (l_handle st') = no_async (l_handle st)"
    using st' by (simp_all add: offers_def no_async_def pending_def)
  have get: "slab_get (l_connections st') k = (if k = key then Some (opened c) else slab_get (l_connections st) k)" for k
    using st' by simp
  have w: "l_world st' = w2" using st' by simp
  have o: "owners sk st' = (if sk' = sk then insert key (owners sk st) else owners sk st - {key})"
    using clean opened_same [of c] get by (auto simp: owners_def)
  have v': "g_held gh w2 sk = g_held gh (l_world st) sk" "g_got gh w2 sk = g_got gh (l_world st) sk" "g_wire gh w2 sk = g_wire gh (l_world st) sk"
    using v by (simp_all add: view_def)
  show "tracked gh good sk {} st'"
  proof (cases "sk' = sk")
    case True
    with pre have h: "owners sk st = {}" "offers sk (l_handle st) = 0" "view gh (l_world st) sk = ([], [], True)"
      by (simp_all add: handed_def)
    have "good_at gh good sk (opened c) w2"
      using opened_good [of c] clean opened_same [of c] h(3) v' by (simp add: good_at_def outstream_def view_def)
    moreover have "k = key \<and> d = opened c" if "slab_get (l_connections st') k = Some d" "c_socket d = Some sk" for k d
      using that h(1) get by (auto simp: owners_def split: if_splits)
    ultimately have "\<forall>k d. slab_get (l_connections st') k = Some d \<longrightarrow> c_socket d = Some sk \<longrightarrow> k \<notin> {} \<longrightarrow> good_at gh good sk d w2"
      by blast
    with pre h o True v' pend show ?thesis by (simp add: tracked_def w view_def)
  next
    case False
    have "\<forall>k d. slab_get (l_connections st') k = Some d \<longrightarrow> c_socket d = Some sk \<longrightarrow> k \<notin> {} \<longrightarrow> good_at gh good sk d w2"
      using pre False clean opened_same [of c] unfolding tracked_def get good_at_view [OF v] by auto
    with pre o False v v' pend show ?thesis by (auto simp: tracked_def w)
  qed
qed

lemma accept_loop_tracked:
  assumes ret: "accept_loop os dbg (server os) l st = Some (Ok x, st')" and ok: "streams_ok os gh"
    and t: "tracked gh good sk {} st"
  shows "tracked gh good sk {} st'"
proof -
  have "H = server os \<longrightarrow> streams_ok os gh \<longrightarrow> tracked gh good sk {} st \<longrightarrow> is_ok (fst res) \<longrightarrow> tracked gh good sk {} (snd res)"
    if "accept_loop os dbg H l st = Some res" for os dbg H l st res
  proof (rule accept_loop.raw_induct [where P = "\<lambda>os dbg H l st res. H = server os \<longrightarrow> streams_ok os gh \<longrightarrow>
      tracked gh good sk {} st \<longrightarrow> is_ok (fst res) \<longrightarrow> tracked gh good sk {} (snd res)", OF _ that], intro impI)
    fix f :: "'w os \<Rightarrow> bool \<Rightarrow> ('w, 'k) handler \<Rightarrow> listener \<Rightarrow> ('w, 'k) eloop \<Rightarrow> (unit outcome \<times> ('w, 'k) eloop) option"
      and os :: "'w os" and dbg and H :: "('w, 'k) handler" and l and st :: "('w, 'k) eloop" and res
    assume IH: "\<And>os dbg H l st res. f os dbg H l st = Some res \<Longrightarrow>
        H = server os \<longrightarrow> streams_ok os gh \<longrightarrow> tracked gh good sk {} st \<longrightarrow> is_ok (fst res) \<longrightarrow> tracked gh good sk {} (snd res)"
      and body: "(case listener_accept os (l_world st) l of
        (Inl e, w') \<Rightarrow> Some (Ok (), st\<lparr>l_world := w'\<rparr>)
      | (Inr (sk, peer_addr), w') \<Rightarrow>
          (case listener_local_addr l of
             Inl e \<Rightarrow> Some (Err e, st\<lparr>l_world := drop_stream os w' sk\<rparr>)
           | Inr local_addr \<Rightarrow>
               (case register_conn os dbg H sk local_addr peer_addr (st\<lparr>l_world := w'\<rparr>) of
                  (Ok _, st') \<Rightarrow> f os dbg H l st'
                | (Err e, st') \<Rightarrow> Some (Err e, st')
                | (Panic, st') \<Rightarrow> Some (Panic, st')
                | (Diverge, st') \<Rightarrow> Some (Diverge, st')))) = Some res"
      and H: "H = server os" and ok: "streams_ok os gh" and t: "tracked gh good sk {} st" and fin: "is_ok (fst res)"
    obtain r w' where acc: "listener_accept os (l_world st) l = (r, w')" by fastforce
    note fresh = streams_okD(6) [OF ok, unfolded accepts_fresh_def, rule_format, OF acc]
    show "tracked gh good sk {} (snd res)"
    proof (cases r)
      case (Inl e)
      with fresh tracked_world [OF t, of w'] body acc show ?thesis by auto
    next
      case (Inr p)
      obtain sk' peer where p: "p = (sk', peer)" by fastforce
      with fresh Inr have new: "\<not> g_held gh (l_world st) sk'" "view gh w' = (view gh (l_world st))(sk' := ([], [], True))"
        by simp_all
      let ?st1 = "st\<lparr>l_world := w'\<rparr>"
      have "tracked gh good sk {} ?st1 \<and> handed gh sk sk' ?st1"
      proof (cases "sk' = sk")
        case False
        with new(2) tracked_world [OF t, of w'] show ?thesis by (simp add: handed_def)
      next
        case True
        from t new(1) True have none: "owners sk st = {}" "offers sk (l_handle st) = 0"
          by (auto simp: tracked_def view_def)
        then have "owners sk ?st1 = {}" by (simp add: owners_def)
        with none True new(2) t show ?thesis by (auto simp: handed_def tracked_def owners_def)
      qed
      note reg = onwardD [OF register_tracked [OF ok] this]
      obtain r2 st2 where r2: "register_conn os dbg H sk' (li_addr l) peer ?st1 = (r2, st2)" by fastforce
      with body acc Inr p fin obtain u where "r2 = Ok u" "f os dbg H l st2 = Some res"
        by (cases r2) (auto simp: listener_local_addr_def)
      with IH [of os dbg H l st2 res] H ok reg [of dbg "li_addr l" peer u st2] r2 fin show ?thesis by simp
    qed
  qed
  from this [OF ret] ok t show ?thesis by simp
qed

text \<open>Commands: a taken \<open>Register\<close> is no longer on offer, so its socket is handed over.\<close>

lemma run_command_tracked:
  assumes ok: "streams_ok os gh" and soft: "soft_writes os sk" and quiet: "\<not> is_async cmd"
  shows "onward (\<lambda>st. tracked gh good sk {} st \<and> (\<forall>sk' la pa. cmd = Register sk' la pa \<longrightarrow> handed gh sk sk' st))
    (run_command os dbg (server os) cmd) (\<lambda>_. tracked gh good sk {})"
proof -
  have weaken: "onward (\<lambda>st. P st \<and> P' st) m (\<lambda>_. P)" if "onward P m (\<lambda>_. P)" for P P' and m :: "(unit, ('w, 'k) eloop) prog"
    using that unfolding onward_def by blast
  show ?thesis
  proof (cases cmd)
    case (Register sk' la pa)
    have "onward (\<lambda>st. tracked gh good sk {} st \<and> handed gh sk sk' st) (register_conn os dbg (server os) sk' la pa) (\<lambda>_. tracked gh good sk {})"
      by (rule register_tracked [OF ok])
    with Register show ?thesis by simp
  next
    case CmdNone
    show ?thesis unfolding CmdNone run_command.simps by (rule weaken, rule onward_ret, assumption)
  next
    case (Close key)
    show ?thesis unfolding Close run_command.simps by (rule weaken, rule close_tracked [OF ok])
  next
    case (Read key)
    show ?thesis unfolding Read run_command.simps by (rule weaken, rule read_tracked [OF ok soft])
  next
    case (Write key)
    show ?thesis unfolding Write run_command.simps by (rule weaken, rule write_tracked [OF ok])
  next
    case Wake
    show ?thesis unfolding Wake run_command.simps by (rule weaken, rule onward_always [OF wake_tracked [OF ok]])
  next
    case Shutdown
    show ?thesis unfolding Shutdown run_command.simps by (rule stop_tracked)
  next
    case (AsyncWrite g data)
    with quiet show ?thesis by simp
  qed
qed

lemma take_command_tracked:
  assumes t: "tracked gh good sk {} st" and nc: "next_command (l_handle st) = (x, h')"
  shows "tracked gh good sk {} (st\<lparr>l_handle := h'\<rparr>)"
    and "x = Some cmd \<Longrightarrow> \<not> is_async cmd \<and> (\<forall>sk' la pa. cmd = Register sk' la pa \<longrightarrow> handed gh sk sk' (st\<lparr>l_handle := h'\<rparr>))"
proof -
  let ?st = "st\<lparr>l_handle := h'\<rparr>"
  have p: "pending (l_handle st) = (case x of None \<Rightarrow> pending h' | Some cmd \<Rightarrow> cmd # pending h')"
    using nc by (auto simp: next_command.simps pending_def split: list.splits)
  have o: "owners sk ?st = owners sk st" by (simp add: owners_def)
  have le: "offers sk h' \<le> offers sk (l_handle st)" and q: "no_async h'"
    using p t by (auto simp: offers_def no_async_def tracked_def split: option.splits)
  show "tracked gh good sk {} ?st"
  proof -
    have h: "l_handle ?st = h'" "l_world ?st = l_world st" "l_connections ?st = l_connections st" by simp_all
    from t have "owners sk st \<noteq> {} \<longrightarrow> g_held gh (l_world st) sk \<and> offers sk h' = 0" "offers sk h' \<le> 1"
      "0 < offers sk h' \<longrightarrow> view gh (l_world st) sk = ([], [], True)"
      using le unfolding tracked_def by (linarith | (elim conjE, linarith) | (intro impI, elim conjE, simp))+
    with t q show ?thesis unfolding tracked_def o h by blast
  qed
  assume x: "x = Some cmd"
  have "cmd \<in> set (pending (l_handle st))" using p x by simp
  moreover have "no_async (l_handle st)" using t unfolding tracked_def by blast
  ultimately have "\<not> is_async cmd" unfolding no_async_def by blast
  moreover have "handed gh sk sk' ?st" if c: "cmd = Register sk' la pa" for sk' la pa
  proof (cases "sk' = sk")
    case True
    then have "offers sk (l_handle st) = Suc (offers sk h')" using p x c by (simp add: offers_def)
    moreover have "owners sk st \<noteq> {} \<longrightarrow> offers sk (l_handle st) = 0" "offers sk (l_handle st) \<le> 1"
      "0 < offers sk (l_handle st) \<longrightarrow> view gh (l_world st) sk = ([], [], True)"
      using t unfolding tracked_def by blast+
    ultimately show ?thesis using o by (simp add: handed_def)
  qed (simp add: handed_def)
  ultimately show "\<not> is_async cmd \<and> (\<forall>sk' la pa. cmd = Register sk' la pa \<longrightarrow> handed gh sk sk' ?st)" by blast
qed

lemma process_commands_tracked:
  assumes ok: "streams_ok os gh" and soft: "soft_writes os sk"
  shows "onward (tracked gh good sk {}) (process_commands os dbg (server os) n) (\<lambda>_. tracked gh good sk {})"
proof (induction n)
  case 0
  then show ?case by (simp add: onward_def)
next
  case (Suc n)
  show ?case
  proof (rule onwardI)
    fix st x st' assume t: "tracked gh good sk {} st" and run: "process_commands os dbg (server os) (Suc n) st = (Ok x, st')"
    obtain y h' where nc: "next_command (l_handle st) = (y, h')" by fastforce
    note taken = take_command_tracked [OF t nc]
    show "tracked gh good sk {} st'"
    proof (cases y)
      case None
      with run nc taken(1) show ?thesis by simp
    next
      case (Some cmd)
      with run nc have b: "bind_io (run_command os dbg (server os) cmd) (\<lambda>_. process_commands os dbg (server os) n) (st\<lparr>l_handle := h'\<rparr>) = (Ok x, st')"
        by simp
      from taken(2) [OF Some] have q: "\<not> is_async cmd" by simp
      show ?thesis
        by (rule onwardD [OF onward_bind [OF run_command_tracked [OF ok soft q] Suc.IH] _ b]) (use taken Some in simp)
    qed
  qed
qed

text \<open>Events.\<close>

lemma process_io_tracked:
  assumes ok: "streams_ok os gh" and soft: "soft_writes os sk"
  shows "onward (tracked gh good sk {}) (process_io os (server os) ev) (\<lambda>_. tracked gh good sk {})"
proof -
  have w: "onward (tracked gh good sk {}) (if b then write_socket os (server os) key else ret ()) (\<lambda>_. tracked gh good sk {})"
    and r: "onward (tracked gh good sk {}) (if b then read_socket os (server os) key else ret ()) (\<lambda>_. tracked gh good sk {})" for b key
    by (auto intro: write_tracked [OF ok] read_tracked [OF ok soft] onward_ret)
  show ?thesis
    unfolding process_io_def Let_def
    by (rule onward_if, rule close_tracked [OF ok], rule onward_bind [OF w], rule onward_bind [OF r], rule reregister_tracked [OF ok])
qed

lemma accept_process_tracked:
  assumes ok: "streams_ok os gh"
  shows "onward (tracked gh good sk {}) (accept_process os dbg (server os) idx) (\<lambda>_. tracked gh good sk {})"
proof (rule onwardI)
  fix st x st' assume t: "tracked gh good sk {} st" and run: "accept_process os dbg (server os) idx st = (Ok x, st')"
  have l: "tracked gh good sk {} (s\<lparr>l_listeners := ls\<rparr>) = tracked gh good sk {} s" for s :: "('w, 'k) eloop" and ls
    by (simp add: tracked_def owners_def)
  show "tracked gh good sk {} st'"
  proof (cases "\<exists>ls. l_listeners st = Some ls \<and> idx < length ls")
    case False
    with run t show ?thesis by (auto simp: accept_process_def split: option.splits)
  next
    case True
    then obtain ls where ls: "l_listeners st = Some ls" "idx < length ls" by blast
    obtain r st1 where acc: "accept_loop os dbg (server os) (ls ! idx) (st\<lparr>l_listeners := None\<rparr>) = Some (r, st1)"
      using run ls by (cases "accept_loop os dbg (server os) (ls ! idx) (st\<lparr>l_listeners := None\<rparr>)") (auto simp: accept_process_def)
    with run ls have st': "r = Ok x" "st' = st1\<lparr>l_listeners := Some ls\<rparr>" by (simp_all add: accept_process_def)
    have "tracked gh good sk {} (st\<lparr>l_listeners := None\<rparr>)" using t l by simp
    from accept_loop_tracked [OF acc [unfolded st'(1)] ok this] show ?thesis unfolding st'(2) l .
  qed
qed

lemma dispatch_tracked:
  assumes ok: "streams_ok os gh" and soft: "soft_writes os sk"
  shows "onward (tracked gh good sk {}) (dispatch_event os dbg (server os) ev) (\<lambda>_. tracked gh good sk {})"
proof -
  have w: "always (tracked gh good sk {}) (on_handle (\<lambda>(h, w). (Ok (), (h\<lparr>h_waker := reset_waker (h_waker h)\<rparr>, w)))) (tracked gh good sk {})"
    by (rule on_handle_tracked [where cmd = Wake]) (auto simp: pending_def)
  show ?thesis
    unfolding dispatch_event_def process_command_def
    by (auto intro: onward_bind [OF onward_always [OF w]] process_commands_tracked [OF ok soft]
        accept_process_tracked [OF ok] process_io_tracked [OF ok soft] split: option.split)
qed

lemma dispatch_events_tracked:
  assumes ok: "streams_ok os gh" and soft: "soft_writes os sk"
  shows "onward (tracked gh good sk {}) (dispatch_events os dbg (server os) evs) (\<lambda>_. tracked gh good sk {})"
  by (induction evs) (auto intro: onward_ret onward_bind [OF dispatch_tracked [OF ok soft]])

end

subsection \<open>Whole runs\<close>

text \<open>
  What the other threads may do while the loop waits: read the clock, hand over sockets, each to one
  owner and new, and add any commands but \<open>AsyncWrite\<close>; a socket that this loop holds they leave alone.
\<close>

definition others_respect :: "'w reactor \<Rightarrow> 'w ghost \<Rightarrow> socket \<Rightarrow> bool" where
  "others_respect rx gh sk \<longleftrightarrow>
     (\<forall>w. view gh (snd (clock_now rx w)) sk = view gh w sk)
     \<and> (\<forall>t h w r h' w'. poll_wait rx t (h, w) = (r, h', w') \<longrightarrow>
          (\<exists>us cs. h_urgent h' = h_urgent h @ us \<and> h_common h' = h_common h @ cs
            \<and> (\<forall>cmd \<in> set (us @ cs). \<not> is_async cmd)
            \<and> (if g_held gh w sk then view gh w' sk = view gh w sk \<and> filter (registers sk) (us @ cs) = []
               else length (filter (registers sk) (us @ cs)) \<le> 1
                 \<and> (filter (registers sk) (us @ cs) \<noteq> [] \<longrightarrow> view gh w' sk = ([], [], True)))))"

text \<open>The states between the turns of a run.\<close>

inductive loop_runs :: "'w reactor \<Rightarrow> 'w os \<Rightarrow> bool \<Rightarrow> ('w, 'k) handler \<Rightarrow> ('w, 'k) eloop \<Rightarrow> ('w, 'k) eloop \<Rightarrow> bool"
  for rx :: "'w reactor" and os :: "'w os" and dbg :: bool and H :: "('w, 'k) handler" and start :: "('w, 'k) eloop" where
    begins: "loop_runs rx os dbg H start start"
  | turns_on: "loop_runs rx os dbg H start st \<Longrightarrow> loop_turn rx os dbg H next_tick st = (Ok next_tick', st') \<Longrightarrow>
      loop_runs rx os dbg H start st'"

lemma clock_tracked:
  assumes "others_respect rx gh sk"
  shows "onward (tracked gh good sk X) (clock rx) (\<lambda>_. tracked gh good sk X)"
proof (rule onwardI)
  fix st x st' assume t: "tracked gh good sk X st" and run: "clock rx st = (Ok x, st')"
  have "view gh (snd (clock_now rx (l_world st))) sk = view gh (l_world st) sk"
    using assms unfolding others_respect_def by blast
  with run t show "tracked gh good sk X st'"
    by (cases "clock_now rx (l_world st)") (auto simp: clock_def intro: tracked_world)
qed

lemma wait_tracked:
  assumes "others_respect rx gh sk"
  shows "onward (tracked gh good sk {}) (wait_events rx timeout) (\<lambda>_. tracked gh good sk {})"
proof (rule onwardI)
  fix st x st' assume t: "tracked gh good sk {} st" and run: "wait_events rx timeout st = (Ok x, st')"
  obtain r h' w' where p: "poll_wait rx timeout (l_handle st, l_world st) = (r, h', w')" by (metis surj_pair)
  with run have st': "st' = st\<lparr>l_handle := h', l_world := w'\<rparr>" by (simp add: wait_events_def)
  from assms p obtain us cs where new: "h_urgent h' = h_urgent (l_handle st) @ us" "h_common h' = h_common (l_handle st) @ cs"
    "\<forall>cmd \<in> set (us @ cs). \<not> is_async cmd"
    "if g_held gh (l_world st) sk then view gh w' sk = view gh (l_world st) sk \<and> filter (registers sk) (us @ cs) = []
     else length (filter (registers sk) (us @ cs)) \<le> 1
       \<and> (filter (registers sk) (us @ cs) \<noteq> [] \<longrightarrow> view gh w' sk = ([], [], True))"
    unfolding others_respect_def by blast
  have q: "no_async h'" using t new(1-3) by (auto simp: tracked_def no_async_def pending_def)
  have off: "offers sk h' = offers sk (l_handle st) + length (filter (registers sk) (us @ cs))"
    using new(1,2) by (simp add: offers_def pending_def)
  have o: "owners sk st' = owners sk st" using st' by (simp add: owners_def)
  show "tracked gh good sk {} st'"
  proof (cases "g_held gh (l_world st) sk")
    case True
    with new(4) have v: "view gh w' sk = view gh (l_world st) sk" "filter (registers sk) (us @ cs) = []" by simp_all
    with t q st' new(1,2) show ?thesis by (intro tracked_rest [OF t]) (auto simp: pending_def)
  next
    case False
    with t have none: "owners sk st = {}" "offers sk (l_handle st) = 0" by (auto simp: tracked_def view_def)
    from False new(4) have n: "length (filter (registers sk) (us @ cs)) \<le> 1"
      "filter (registers sk) (us @ cs) \<noteq> [] \<longrightarrow> view gh w' sk = ([], [], True)" by simp_all
    moreover have "c_socket d \<noteq> Some sk" if "slab_get (l_connections st') k = Some d" for k d
      using that none(1) st' by (auto simp: owners_def)
    moreover have "l_handle st' = h'" "l_world st' = w'" using st' by simp_all
    moreover have "0 < offers sk h' \<Longrightarrow> filter (registers sk) (us @ cs) \<noteq> []" using off none(2) by auto
    moreover have "offers sk h' \<le> 1" using off none(2) n(1) by simp
    ultimately show ?thesis unfolding tracked_def o none(1) using q by blast
  qed
qed

context stream_server
begin

lemma turn_tracked:
  assumes ok: "streams_ok os gh" and soft: "soft_writes os sk" and rx: "others_respect rx gh sk"
  shows "onward (tracked gh good sk {}) (loop_turn rx os dbg (server os) next_tick) (\<lambda>_. tracked gh good sk {})"
proof -
  have tick: "onward (tracked gh good sk {}) (call_tick (server os)) (\<lambda>r st. r = (0, ActNone) \<and> tracked gh good sk {} st)"
    by (rule onwardI) (auto simp: call_tick_def tick_quiet)
  have due: "onward (tracked gh good sk {}) (tick_due rx os (server os) next_tick) (\<lambda>_. tracked gh good sk {})"
    unfolding tick_due_def
    by (auto intro!: onward_ret onward_bind [OF clock_tracked [OF rx]] onward_bind [OF tick] split: option.split)
       (auto simp: onward_def schedule_def ret_def)
  have timeout: "onward (tracked gh good sk {}) (poll_timeout rx p next_tick) (\<lambda>_. tracked gh good sk {})" for p
    unfolding poll_timeout_def
    by (auto intro!: onward_ret onward_bind [OF clock_tracked [OF rx]] split: option.split)
  have cmds: "onward (tracked gh good sk {}) (if p then process_command os dbg (server os) else ret ()) (\<lambda>_. tracked gh good sk {})" for p
    by (auto simp: process_command_def intro: onward_ret process_commands_tracked [OF ok soft])
  have events: "onward (tracked gh good sk {}) (bind_io (if p then process_command os dbg (server os) else ret ()) (\<lambda>_.
      bind_io (dispatch_events os dbg (server os) events) (\<lambda>_. tick_due rx os (server os) next_tick))) (\<lambda>_. tracked gh good sk {})" for p events
    by (rule onward_bind [OF cmds], rule onward_bind [OF dispatch_events_tracked [OF ok soft]], rule due)
  have answer: "onward (tracked gh good sk {}) (case r of
          Inl e \<Rightarrow> if err_kind e = Interrupted then ret next_tick else raise e
        | Inr events \<Rightarrow>
            bind_io (if p then process_command os dbg (server os) else ret ()) (\<lambda>_.
            bind_io (dispatch_events os dbg (server os) events) (\<lambda>_.
            tick_due rx os (server os) next_tick))) (\<lambda>_. tracked gh good sk {})" for p r
  proof (cases r)
    case (Inl e)
    then show ?thesis by (auto intro: onward_ret onward_raise)
  next
    case (Inr events')
    show ?thesis unfolding Inr sum.case by (rule events)
  qed
  have "onward (tracked gh good sk {}) (bind_io (poll_timeout rx p next_tick) (\<lambda>timeout.
      bind_io (wait_events rx timeout) (\<lambda>r.
        case r of
          Inl e \<Rightarrow> if err_kind e = Interrupted then ret next_tick else raise e
        | Inr events \<Rightarrow>
            bind_io (if p then process_command os dbg (server os) else ret ()) (\<lambda>_.
            bind_io (dispatch_events os dbg (server os) events) (\<lambda>_.
            tick_due rx os (server os) next_tick))))) (\<lambda>_. tracked gh good sk {})" for p
    by (rule onward_bind [OF timeout], rule onward_bind [OF wait_tracked [OF rx]], rule answer)
  then show ?thesis unfolding loop_turn_def Let_def by (rule onward_state)
qed

text \<open>
  Between any two turns of a run that began with an empty loop, the connection on the socket is
  good for all that was received and all that was answered on it.
\<close>

theorem runs_good:
  assumes run: "loop_runs rx os dbg (server os) start st"
    and ok: "streams_ok os gh" and soft: "soft_writes os sk" and rx: "others_respect rx gh sk"
    and start: "l_connections start = []" "pending (l_handle start) = []"
    and c: "slab_get (l_connections st) key = Some c" "c_socket c = Some sk"
  shows "good c (g_got gh (l_world st) sk) (outstream (g_wire gh) sk (c, l_world st))"
proof -
  have "tracked gh good sk {} st"
    using run
  proof induction
    case begins
    show ?case using start by (simp add: tracked_def owners_def offers_def no_async_def slab_get_def)
  next
    case (turns_on st next_tick next_tick' st')
    from onwardD [OF turn_tracked [OF ok soft rx] turns_on.IH turns_on.hyps(2)] show ?case .
  qed
  with c show ?thesis by (simp add: tracked_def good_at_def)
qed

end

end
