(* ===== verification/Echo.thy ===== *)
theory Echo
  imports LoopIO LoopStreams ChatRoom
begin

text \<open>
  Model of the handlers of \<open>examples/echo-rnet.rs\<close>, \<open>unix-echo.rs\<close>, \<open>async-echo-rnet.rs\<close> and
  \<open>submit.rs\<close>. The first two answer on the connection at once; the third submits a task that sends the
  bytes back through the engine; the fourth does both. A task of the pool is what its closure has
  captured.
\<close>

subsection \<open>Handlers\<close>

text \<open>A method of the connection, in a handler that also uses a state of type \<open>'s\<close>.\<close>

definition with_conn :: "('a, 'k conn) prog \<Rightarrow> ('a, 'k conn \<times> 's) prog" where
  "with_conn m = (\<lambda>(c, s). case m c of (r, c') \<Rightarrow> (r, (c', s)))"

definition echo_traffic :: "'w os \<Rightarrow> (action, 'k conn \<times> 'w) prog" where
  "echo_traffic os =
     bind_io (with_conn (next_vectored None)) (\<lambda>d.
     bind_io (case d of Some bufs \<Rightarrow> discard_result (write_vectored_bytes os bufs) | None \<Rightarrow> ret ()) (\<lambda>_.
     ret ActNone))"

definition unix_echo_traffic :: "'w os \<Rightarrow> (action, 'k conn \<times> 'w) prog" where
  "unix_echo_traffic os =
     bind_io (with_conn (next_contiguous None)) (\<lambda>d.
     bind_io (case d of Some data \<Rightarrow> discard_result (write_bytes os data) | None \<Rightarrow> ret ()) (\<lambda>_.
     ret ActNone))"

definition submit_from :: "'t \<Rightarrow> ('t label, 'k conn \<times> 't pool_state) prog" where
  "submit_from f = (\<lambda>(c, p). case submit f (event_loop_index (c_gfd c)) p of (r, p') \<Rightarrow> (r, (c, p')))"

definition async_traffic :: "(action, 'k conn \<times> (gfd \<times> bytes) pool_state) prog" where
  "async_traffic =
     bind_io (with_conn (next_contiguous None)) (\<lambda>d.
     bind_io (case d of
         Some datas \<Rightarrow> (\<lambda>(c, p). discard_result (submit_from (c_gfd c, datas)) (c, p))
       | None \<Rightarrow> ret ()) (\<lambda>_.
     ret ActNone))"

text \<open>The task of \<open>async_traffic\<close>.\<close>

definition async_task :: "'w os \<Rightarrow> gfd \<times> bytes \<Rightarrow> (unit, engine_handler \<times> 'w) prog" where
  "async_task os = (\<lambda>(g, datas). send_command os g (AsyncWrite g datas))"

definition something :: bytes where
  "something = map of_char ''HelloWorld''"

definition submit_traffic :: "'w os \<Rightarrow> (action, 'k conn \<times> 'w \<times> gfd pool_state) prog" where
  "submit_traffic os = (\<lambda>(c, w, p).
     case unix_echo_traffic os (c, w) of
       (Ok _, (c1, w1)) \<Rightarrow>
         (case submit_from (c_gfd c1) (c1, p) of
            (Ok _, (c2, p2)) \<Rightarrow> (Ok ActNone, (c2, w1, p2))
          | (Err e, (c2, p2)) \<Rightarrow> (Err e, (c2, w1, p2))
          | (Panic, (c2, p2)) \<Rightarrow> (Panic, (c2, w1, p2))
          | (Diverge, (c2, p2)) \<Rightarrow> (Diverge, (c2, w1, p2)))
     | (r, (c1, w1)) \<Rightarrow> (r, (c1, w1, p)))"

definition submit_task :: "'w os \<Rightarrow> gfd \<Rightarrow> (unit, engine_handler \<times> 'w) prog" where
  "submit_task os g = send_command os g (AsyncWrite g something)"

text \<open>A handler as the event loop calls it: the callbacks answer an action, errors are dealt with inside.\<close>

definition as_callback ::
  "(action, 'k conn \<times> 'w) prog \<Rightarrow> 'k conn \<Rightarrow> loop_handle \<times> 'w \<Rightarrow> action \<times> 'k conn \<times> loop_handle \<times> 'w" where
  "as_callback m c = (\<lambda>(h, w). case m (c, w) of
     (Ok a, (c', w')) \<Rightarrow> (a, c', h, w')
   | (_, (c', w')) \<Rightarrow> (ActNone, c', h, w'))"

definition echo_handler :: "'w os \<Rightarrow> ('w, 'k) handler" where
  "echo_handler os = default_handler\<lparr>on_traffic := as_callback (echo_traffic os)\<rparr>"

definition unix_echo_handler :: "'w os \<Rightarrow> ('w, 'k) handler" where
  "unix_echo_handler os = default_handler\<lparr>on_traffic := as_callback (unix_echo_traffic os)\<rparr>"

subsection \<open>What an echo does\<close>

text \<open>\<open>got w sk\<close> is what the kernel has handed out on \<open>sk\<close>: reads extend it and send nothing.\<close>

definition logs_reads :: "'w os \<Rightarrow> ('w \<Rightarrow> socket \<Rightarrow> bytes) \<Rightarrow> ('w \<Rightarrow> socket \<Rightarrow> bytes) \<Rightarrow> bool" where
  "logs_reads os wire got \<longleftrightarrow>
     (\<forall>w sk len r w'. socket_read os w sk len = (r, w') \<longrightarrow>
        wire w' = wire w \<and> got w' sk = got w sk @ (case r of Inl e \<Rightarrow> [] | Inr data \<Rightarrow> data))"

lemma logs_readsD:
  "logs_reads os wire got \<Longrightarrow> socket_read os w sk len = (r, w') \<Longrightarrow>
    wire w' = wire w \<and> got w' sk = got w sk @ (case r of Inl e \<Rightarrow> [] | Inr data \<Rightarrow> data)"
  unfolding logs_reads_def by blast

text \<open>The contract of the handlers that echo: all that can be read is taken and appended to the output.\<close>

locale echo_server =
  fixes reply :: "'w os \<Rightarrow> (action, 'k conn \<times> 'w) prog"
  assumes reply_all: "transport_ok os wire \<Longrightarrow> soft_writes os sk \<Longrightarrow> c_socket c = Some sk \<Longrightarrow>
      \<exists>c' w'. reply os (c, w) = (Ok ActNone, (c', w')) \<and> avail c' = []
        \<and> outstream wire sk (c', w') = outstream wire sk (c, w) @ avail c"
    and reply_identity: "reply os (c, w) = (r, (c', w')) \<Longrightarrow> same_identity c c'"
    and reply_sends: "c_socket c = Some sk \<Longrightarrow> reply os (c, w) = (r, (c', w')) \<Longrightarrow> r \<noteq> Panic \<Longrightarrow> sends os sk w w'"
    and reply_returns: "c_socket c \<noteq> None \<Longrightarrow> fst (reply os (c, w)) = Ok ActNone"
    and reply_keeps: "writes_keep os (got :: 'w \<Rightarrow> socket \<Rightarrow> bytes) \<Longrightarrow> reply os (c, w) = (r, (c', w')) \<Longrightarrow> got w' = got w"
begin

lemma callback_ok_reply: "callback_ok (as_callback (reply os))"
  unfolding callback_ok_def as_callback_def
  by (auto split: prod.splits outcome.splits dest: reply_identity)

lemma handler_ok_reply: "handler_ok (default_handler\<lparr>on_traffic := as_callback (reply os)\<rparr>)"
proof -
  have "handler_ok (default_handler :: ('w, 'k) handler)" by (rule default_handler_ok)
  with callback_ok_reply [of os] show ?thesis by (simp add: handler_ok_def)
qed

lemma reply_callback:
  assumes "transport_ok os wire" and "soft_writes os sk" and "c_socket c = Some sk"
    and "as_callback (reply os) c (h, w) = (a, c', h', w')"
  shows "avail c' = [] \<and> outstream wire sk (c', w') = outstream wire sk (c, w) @ avail c
    \<and> (writes_keep os got \<longrightarrow> (got :: 'w \<Rightarrow> socket \<Rightarrow> bytes) w' = got w)"
  using reply_all [OF assms(1-3), of w] assms(4) reply_keeps [of os got c w] by (auto simp: as_callback_def)

text \<open>Reading with an echo as the application.\<close>

lemma reads_are_answered:
  fixes H :: "('w, 'k) handler"
  assumes env: "env_ok dbg os wire H" and H: "on_traffic H = as_callback (reply os)" and inv: "loop_inv st"
    and reads: "logs_reads os wire got" and keep: "writes_keep os got" and soft: "soft_writes os sk"
    and c: "slab_get (l_connections st) key = Some c" "c_socket c = Some sk"
    and start: "avail c = []" "outstream wire sk (c, l_world st) = got (l_world st) sk"
  shows "\<exists>status st' c'. process_read os H key st = (Ok status, st') \<and> slab_get (l_connections st') key = Some c'
    \<and> c_socket c' = Some sk \<and> avail c' = [] \<and> outstream wire sk (c', l_world st') = got (l_world st') sk
    \<and> (status = IoCompleted \<longrightarrow> drained os sk (l_world st'))"
proof -
  obtain P where P: "P = (\<lambda>(c :: 'k conn) w. c_socket c = Some sk \<longrightarrow> avail c = [] \<and> outstream wire sk (c, w) = got w sk)" by simp
  have stop: "P c w'" if "P c w" "c_socket c = Some sk'" "socket_read os w sk' len = (r, w')"
    "\<forall>data. r = Inr data \<longrightarrow> data = []" for c w sk' len r w'
  proof -
    from logs_readsD [OF reads that(3)] that(4) have "wire w' = wire w" "got w' sk' = got w sk'" by (auto split: sum.splits)
    with that(1,2) show ?thesis by (auto simp: P outstream_def)
  qed
  have step: "(a = ActNone \<longrightarrow> P (merge_io c') w2) \<and> P c' w2"
    if "P c w" "c_socket c = Some sk'" "socket_read os w sk' len = (Inr data, w1)"
      "on_traffic H (c\<lparr>c_io_buffer := Some data\<rparr>) (h, w1) = (a, c', h', w2)"
    for c w sk' len data w1 h a c' h' w2
  proof -
    from callback_okD [OF env_okD(6) [OF env] that(4)] that(2) have sk': "c_socket c' = Some sk'"
      by (simp add: same_identity_def)
    have "P c' w2"
    proof (cases "sk' = sk")
      case True
      with that(1,2) have p: "avail c = []" "outstream wire sk (c, w) = got w sk" by (simp_all add: P)
      from logs_readsD [OF reads that(3)] True have r: "wire w1 = wire w" "got w1 sk = got w sk @ data" by simp_all
      have cb: "as_callback (reply os) (c\<lparr>c_io_buffer := Some data\<rparr>) (h, w1) = (a, c', h', w2)" using that(4) by (simp add: H)
      have "c_socket (c\<lparr>c_io_buffer := Some data\<rparr>) = Some sk" using that(2) True by simp
      from reply_callback [OF env_okD(1) [OF env] soft this cb, of got] keep
      have "avail c' = []" "got w2 = got w1"
        "outstream wire sk (c', w2) = outstream wire sk (c\<lparr>c_io_buffer := Some data\<rparr>, w1) @ avail (c\<lparr>c_io_buffer := Some data\<rparr>)"
        by simp_all
      with p r show ?thesis by (auto simp: P outstream_def avail_def)
    next
      case False
      with sk' show ?thesis by (simp add: P)
    qed
    moreover have "c_socket (merge_io c') = c_socket c'" "c_out_buffer (merge_io c') = c_out_buffer c'"
      by (simp_all add: merge_io_def split: option.split)
    ultimately show ?thesis by (simp add: P merge_io_avail outstream_def)
  qed
  have start': "P c (l_world st)" using start by (simp add: P)
  have "\<exists>status st' c'. process_read os H key st = (Ok status, st')
      \<and> slab_get (l_connections st') key = Some c' \<and> c_socket c' = Some sk \<and> P c' (l_world st')
      \<and> (status = IoCompleted \<longrightarrow> (\<exists>n::nat. P c' (l_world st')))
      \<and> (status = IoYield \<longrightarrow> (\<exists>n. unat (max_batch_size (l_options st)) \<le> n \<and> P c' (l_world st')))
      \<and> read_ended os H sk status c' (l_world st')"
    by (rule process_read_rule [where P = "\<lambda>_. P" and Q = P, OF env inv c stop step _ start'])
  then obtain status st' c' where "process_read os H key st = (Ok status, st')" "slab_get (l_connections st') key = Some c'"
    "c_socket c' = Some sk" "P c' (l_world st')" "read_ended os H sk status c' (l_world st')" by blast
  moreover from this(5) have "status = IoCompleted \<longrightarrow> drained os sk (l_world st')" by (auto simp: read_ended_def)
  ultimately show ?thesis unfolding P by blast
qed

end

subsection \<open>The two echoes keep the contract\<close>

lemma same_identity_inbound: "same_but_inbound c c' \<Longrightarrow> same_identity c c'"
  by (cases c; cases c') (simp add: same_but_inbound_def same_identity_def)

lemma same_identity_out: "same_but_out c c' \<Longrightarrow> same_identity c c'"
  by (cases c; cases c') (simp add: same_but_out_def same_identity_def)

lemma avail_out: "same_but_out c c' \<Longrightarrow> avail c' = avail c"
  by (cases c; cases c') (simp add: same_but_out_def avail_def)

lemma out_inbound: "same_but_inbound c c' \<Longrightarrow> c_out_buffer c' = c_out_buffer c \<and> c_socket c' = c_socket c \<and> c_gfd c' = c_gfd c"
  by (cases c; cases c') (simp add: same_but_inbound_def)

lemma take_all_contiguous:
  "\<exists>d c'. next_contiguous None c = (Ok d, c') \<and> opt_list d = avail c \<and> avail c' = [] \<and> same_but_inbound c c'"
proof (cases "refused (readable c) (avail c) None")
  case True
  then have "avail c = []" by (auto simp: refused_def readable_def avail_def opt_list_def split: option.splits)
  with next_contiguous_refused [OF True] show ?thesis by auto
next
  case False
  from next_contiguous_data [OF this] show ?thesis by (auto simp: wanted_def)
qed

lemma take_all_vectored:
  "\<exists>bufs c'. next_vectored None c = (Ok (Some bufs), c') \<and> concat bufs = avail c \<and> avail c' = [] \<and> same_but_inbound c c'"
  using next_vectored_spec [where n = None and c = c] by (auto simp: wanted_def)

lemma write_bytes_frame:
  assumes "write_bytes os buf (c, w) = (r, (c', w'))"
  shows "same_but_out c c'" and "writes_keep os got \<Longrightarrow> got w' = got w"
proof -
  show "same_but_out c c'" using assms
    by (auto simp: write_bytes_def split: if_splits option.splits prod.splits sum.splits)
  assume "writes_keep os got"
  then have "got (snd (socket_write os w sk buf)) = got w" for sk by (simp add: writes_keep_def)
  note k = this [of "the (c_socket c)"]
  from assms k show "got w' = got w"
    by (cases "socket_write os w (the (c_socket c)) buf") (auto simp: write_bytes_def split: if_splits option.splits sum.splits)
qed

lemma write_vectored_frame:
  assumes "write_vectored_bytes os bufs (c, w) = (r, (c', w'))"
  shows "same_but_out c c'" and "writes_keep os got \<Longrightarrow> got w' = got w"
proof -
  show "same_but_out c c'" using assms
    by (auto simp: write_vectored_bytes_def Let_def split: if_splits option.splits prod.splits sum.splits)
  assume "writes_keep os got"
  then have "got (snd (socket_write_vectored os w sk bufs)) = got w" for sk by (simp add: writes_keep_def)
  note k = this [of "the (c_socket c)"]
  from assms k show "got w' = got w"
    by (cases "socket_write_vectored os w (the (c_socket c)) bufs")
       (auto simp: write_vectored_bytes_def Let_def split: if_splits option.splits sum.splits)
qed

text \<open>To a peer that is still there every write succeeds.\<close>

lemma soft_write_bytes:
  assumes "transport_ok os wire" and "soft_writes os sk" and "c_socket c = Some sk"
  shows "\<exists>n c' w'. write_bytes os buf (c, w) = (Ok n, (c', w')) \<and> outstream wire sk (c', w') = outstream wire sk (c, w) @ buf
    \<and> same_but_out c c'"
proof (rule bytes_sink.write_cases [OF assms(1,3), of buf w])
  fix e w' assume "write_bytes os buf (c, w) = (Err e, (c, w'))" and hard: "\<not> retryable e"
  then have "socket_write os w sk buf = (Inl e, w')" using assms(3)
    by (auto simp: write_bytes_def split: if_splits prod.splits sum.splits)
  then have "retryable e" using assms(2) unfolding soft_writes_def by blast
  with hard show ?thesis by simp
qed auto

lemma soft_write_vectored:
  assumes "transport_ok os wire" and "soft_writes os sk" and "c_socket c = Some sk"
  shows "\<exists>n c' w'. write_vectored_bytes os bufs (c, w) = (Ok n, (c', w'))
    \<and> outstream wire sk (c', w') = outstream wire sk (c, w) @ concat bufs \<and> same_but_out c c'"
proof (rule vectored_bytes_sink.write_cases [OF assms(1,3), of bufs w])
  fix e w' assume "write_vectored_bytes os bufs (c, w) = (Err e, (c, w'))" and hard: "\<not> retryable e"
  then have "socket_write_vectored os w sk bufs = (Inl e, w')" using assms(3)
    by (auto simp: write_vectored_bytes_def Let_def split: if_splits prod.splits sum.splits)
  then have "retryable e" using assms(2) unfolding soft_writes_def by blast
  with hard show ?thesis by simp
qed auto

text \<open>A write on an open connection answers or fails.\<close>

lemma write_bytes_no_panic:
  "write_bytes os buf (c, w) = (r, (c', w')) \<Longrightarrow> c_socket c \<noteq> None \<Longrightarrow> r \<noteq> Panic \<and> r \<noteq> Diverge"
  by (auto simp: write_bytes_def split: if_splits prod.splits sum.splits)

lemma write_vectored_no_panic:
  "write_vectored_bytes os bufs (c, w) = (r, (c', w')) \<Longrightarrow> c_socket c \<noteq> None \<Longrightarrow> r \<noteq> Panic \<and> r \<noteq> Diverge"
  by (auto simp: write_vectored_bytes_def Let_def split: if_splits prod.splits sum.splits)

lemma echo_traffic_cases:
  obtains bufs c1 r c2 w2 where "next_vectored None c = (Ok (Some bufs), c1)" "concat bufs = avail c" "avail c1 = []"
    "same_but_inbound c c1" "write_vectored_bytes os bufs (c1, w) = (r, (c2, w2))"
    "echo_traffic os (c, w) = (case r of Panic \<Rightarrow> Panic | Diverge \<Rightarrow> Diverge | _ \<Rightarrow> Ok ActNone, (c2, w2))"
proof -
  from take_all_vectored [of c] obtain bufs c1 where t: "next_vectored None c = (Ok (Some bufs), c1)" "concat bufs = avail c"
    "avail c1 = []" "same_but_inbound c c1" by blast
  obtain r c2 w2 where w: "write_vectored_bytes os bufs (c1, w) = (r, (c2, w2))" by (metis surj_pair)
  with t(1) have "echo_traffic os (c, w) = (case r of Panic \<Rightarrow> Panic | Diverge \<Rightarrow> Diverge | _ \<Rightarrow> Ok ActNone, (c2, w2))"
    by (cases r) (simp_all add: echo_traffic_def with_conn_def bind_io_def discard_result_def ret_def)
  with t w that show thesis by blast
qed

lemma unix_echo_cases:
  obtains (nothing) "avail c = []" "unix_echo_traffic os (c, w) = (Ok ActNone, (c, w))"
  | (data) c1 r c2 w2 where "avail c1 = []"
    "same_but_inbound c c1" "write_bytes os (avail c) (c1, w) = (r, (c2, w2))"
    "unix_echo_traffic os (c, w) = (case r of Panic \<Rightarrow> Panic | Diverge \<Rightarrow> Diverge | _ \<Rightarrow> Ok ActNone, (c2, w2))"
proof (cases "refused (readable c) (avail c) None")
  case True
  then have "avail c = []" by (auto simp: refused_def readable_def avail_def opt_list_def split: option.splits)
  moreover have "unix_echo_traffic os (c, w) = (Ok ActNone, (c, w))"
    using next_contiguous_refused [OF True] by (simp add: unix_echo_traffic_def with_conn_def bind_io_def ret_def)
  ultimately show thesis by (rule nothing)
next
  case False
  from next_contiguous_data [OF this] obtain c1 where t: "next_contiguous None c = (Ok (Some (avail c)), c1)"
    "avail c1 = []" "same_but_inbound c c1" by (auto simp: wanted_def)
  obtain r c2 w2 where w: "write_bytes os (avail c) (c1, w) = (r, (c2, w2))" by (metis surj_pair)
  with t(1) have "unix_echo_traffic os (c, w) = (case r of Panic \<Rightarrow> Panic | Diverge \<Rightarrow> Diverge | _ \<Rightarrow> Ok ActNone, (c2, w2))"
    by (cases r) (simp_all add: unix_echo_traffic_def with_conn_def bind_io_def discard_result_def ret_def)
  with t w show thesis by (intro data)
qed

interpretation echo: echo_server echo_traffic
proof
  fix os :: "'w os" and wire sk and c :: "'k conn" and w
  assume a: "transport_ok os wire" "soft_writes os sk" "c_socket c = Some sk"
  show "\<exists>c' w'. echo_traffic os (c, w) = (Ok ActNone, (c', w')) \<and> avail c' = []
        \<and> outstream wire sk (c', w') = outstream wire sk (c, w) @ avail c"
  proof (rule echo_traffic_cases [of c os w])
    fix bufs c1 r c2 w2
    assume "concat bufs = avail c" "avail c1 = []" "same_but_inbound c c1" "write_vectored_bytes os bufs (c1, w) = (r, (c2, w2))"
      "echo_traffic os (c, w) = (case r of Panic \<Rightarrow> Panic | Diverge \<Rightarrow> Diverge | _ \<Rightarrow> Ok ActNone, (c2, w2))"
    with soft_write_vectored [OF a(1,2), of c1 bufs w] a(3) out_inbound [of c c1] show ?thesis
      by (auto simp: outstream_def avail_out)
  qed
next
  fix os :: "'w os" and c c' :: "'k conn" and w w' r
  assume "echo_traffic os (c, w) = (r, (c', w'))"
  then show "same_identity c c'"
    by (rule_tac echo_traffic_cases [of c os w])
       (auto dest!: same_identity_inbound write_vectored_frame(1) same_identity_out intro: same_identity_trans)
next
  fix os :: "'w os" and c c' :: "'k conn" and w w' r sk
  assume "c_socket c = Some sk" "echo_traffic os (c, w) = (r, (c', w'))" "r \<noteq> Panic"
  then show "sends os sk w w'"
    by (rule_tac echo_traffic_cases [of c os w])
       (auto dest!: sends_onlyD [OF write_vectored_sends_only] out_inbound split: outcome.splits)
next
  fix os :: "'w os" and c :: "'k conn" and w
  assume "c_socket c \<noteq> None"
  then show "fst (echo_traffic os (c, w)) = Ok ActNone"
    by (rule_tac echo_traffic_cases [of c os w])
       (auto dest!: write_vectored_no_panic out_inbound split: outcome.splits)
next
  fix os :: "'w os" and c c' :: "'k conn" and w w' r and got :: "'w \<Rightarrow> socket \<Rightarrow> bytes"
  assume "writes_keep os got" "echo_traffic os (c, w) = (r, (c', w'))"
  then show "got w' = got w"
    by (rule_tac echo_traffic_cases [of c os w]) (auto dest: write_vectored_frame(2))
qed

interpretation unix_echo: echo_server unix_echo_traffic
proof
  fix os :: "'w os" and wire sk and c :: "'k conn" and w
  assume a: "transport_ok os wire" "soft_writes os sk" "c_socket c = Some sk"
  show "\<exists>c' w'. unix_echo_traffic os (c, w) = (Ok ActNone, (c', w')) \<and> avail c' = []
        \<and> outstream wire sk (c', w') = outstream wire sk (c, w) @ avail c"
  proof (cases rule: unix_echo_cases [of c os w])
    case nothing
    then show ?thesis by simp
  next
    case (data c1 r c2 w2)
    with soft_write_bytes [OF a(1,2), of c1 "avail c" w] a(3) out_inbound [of c c1] show ?thesis
      by (auto simp: outstream_def avail_out)
  qed
next
  fix os :: "'w os" and c c' :: "'k conn" and w w' r
  assume "unix_echo_traffic os (c, w) = (r, (c', w'))"
  then show "same_identity c c'"
    by (cases rule: unix_echo_cases [of c os w])
       (auto dest!: same_identity_inbound write_bytes_frame(1) same_identity_out intro: same_identity_trans)
next
  fix os :: "'w os" and c c' :: "'k conn" and w w' r sk
  assume "c_socket c = Some sk" "unix_echo_traffic os (c, w) = (r, (c', w'))" "r \<noteq> Panic"
  then show "sends os sk w w'"
    by (cases rule: unix_echo_cases [of c os w])
       (auto dest!: sends_onlyD [OF write_bytes_sends_only] out_inbound split: outcome.splits)
next
  fix os :: "'w os" and c :: "'k conn" and w
  assume "c_socket c \<noteq> None"
  then show "fst (unix_echo_traffic os (c, w)) = Ok ActNone"
    by (cases rule: unix_echo_cases [of c os w])
       (auto dest!: write_bytes_no_panic out_inbound split: outcome.splits)
next
  fix os :: "'w os" and c c' :: "'k conn" and w w' r and got :: "'w \<Rightarrow> socket \<Rightarrow> bytes"
  assume "writes_keep os got" "unix_echo_traffic os (c, w) = (r, (c', w'))"
  then show "got w' = got w"
    by (cases rule: unix_echo_cases [of c os w]) (auto dest: write_bytes_frame(2))
qed

lemma echo_env:
  assumes "transport_ok os wire" and "read_ok os" and "vacant_ok dbg os" and "reserve_ok os"
  shows "env_ok dbg os wire (echo_handler os)" and "env_ok dbg os wire (unix_echo_handler os)"
  using assms echo.handler_ok_reply [of os] unix_echo.handler_ok_reply [of os]
  by (simp_all add: env_ok_def echo_handler_def unix_echo_handler_def)

subsection \<open>The asynchronous echo\<close>

lemma submit_queues:
  assumes "global_senders p = Some senders" and "senders \<noteq> []" and i: "i = senders ! (shard mod length senders)"
    and "ch_worker (channels p ! i) \<noteq> Exited" and "length (ch_queue (channels p ! i)) < CHANNEL_CAP" and "i < length (channels p)"
  shows "\<exists>p'. submit f shard p = (Ok (Sent i f), p') \<and> ch_queue (channels p' ! i) = ch_queue (channels p ! i) @ [f]
    \<and> (\<forall>j. j \<noteq> i \<longrightarrow> channels p' ! j = channels p ! j)"
  using assms by (simp add: submit_def channel_send_def Let_def)

text \<open>The example that answers twice: at once, and with a greeting from a task.\<close>

lemma submit_traffic_echoes:
  assumes "transport_ok os wire" and "soft_writes os sk" and "c_socket c = Some sk" and "global_senders p \<noteq> Some []"
  shows "\<exists>c' w' lab p'. submit_traffic os (c, w, p) = (Ok ActNone, (c', w', p')) \<and> avail c' = []
    \<and> outstream wire sk (c', w') = outstream wire sk (c, w) @ avail c
    \<and> submit (c_gfd c) (event_loop_index (c_gfd c)) p = (Ok lab, p')"
proof -
  from unix_echo.reply_all [OF assms(1-3), of w] obtain c' w' where
    e: "unix_echo_traffic os (c, w) = (Ok ActNone, (c', w'))" "avail c' = []"
      "outstream wire sk (c', w') = outstream wire sk (c, w) @ avail c" by blast
  from unix_echo.reply_identity [OF e(1)] have g: "c_gfd c' = c_gfd c" by (simp add: same_identity_def)
  from submit_returns [OF assms(4)] obtain lab p' where "submit (c_gfd c) (event_loop_index (c_gfd c)) p = (Ok lab, p')" by blast
  with e g show ?thesis by (simp add: submit_traffic_def submit_from_def)
qed

subsection \<open>Properties\<close>

text \<open>
  One event of an echo server: every byte is answered. While the peer is there, whatever pieces its bytes arrive in and
  however little the kernel takes of each write: after \<open>process_read\<close> nothing is left unread, and the
  bytes accepted for the peer followed by the bytes queued for it are exactly the bytes the kernel has
  handed out for this connection, provided they were before; and the batch has drained the socket when it
  says so.
\<close>

theorem echo_answers_all:
  fixes H :: "('w, 'k) handler"
  assumes os: "transport_ok os wire" "read_ok os" "vacant_ok dbg os" "reserve_ok os"
    and H: "H = echo_handler os \<or> H = unix_echo_handler os" and inv: "loop_inv st"
    and reads: "logs_reads os wire got" and keep: "writes_keep os got" and soft: "soft_writes os sk"
    and c: "slab_get (l_connections st) key = Some c" "c_socket c = Some sk"
    and start: "avail c = []" "outstream wire sk (c, l_world st) = got (l_world st) sk"
  shows "\<exists>status st' c'. process_read os H key st = (Ok status, st') \<and> slab_get (l_connections st') key = Some c'
    \<and> c_socket c' = Some sk \<and> avail c' = [] \<and> outstream wire sk (c', l_world st') = got (l_world st') sk
    \<and> (status = IoCompleted \<longrightarrow> (\<exists>w len e. socket_read os w sk len = (Inl e, l_world st') \<and> err_kind e = WouldBlock))"
  using H
proof
  assume h: "H = echo_handler os"
  then have "on_traffic H = as_callback (echo_traffic os)" by (simp add: echo_handler_def)
  moreover have "env_ok dbg os wire H" using echo_env(1) [OF os] h by simp
  ultimately show ?thesis
    using echo.reads_are_answered [OF _ _ inv reads keep soft c start] unfolding drained_def by blast
next
  assume h: "H = unix_echo_handler os"
  then have "on_traffic H = as_callback (unix_echo_traffic os)" by (simp add: unix_echo_handler_def)
  moreover have "env_ok dbg os wire H" using echo_env(2) [OF os] h by simp
  ultimately show ?thesis
    using unix_echo.reads_are_answered [OF _ _ inv reads keep soft c start] unfolding drained_def by blast
qed

lemma sim_logs_reads: "logs_reads sim_os sim_sent sim_got"
  by (auto simp: logs_reads_def sim_read_def split: list.splits sum.splits)

text \<open>A kernel that takes at most one byte of each write.\<close>

definition slow_os :: "sim os" where
  "slow_os = sim_os\<lparr>tcp_write := (\<lambda>w s buf. sim_accept 1 w (Tcp s) buf), unix_write := (\<lambda>w s buf. sim_accept 1 w (Unix s) buf),
     tcp_write_vectored := (\<lambda>w s bufs. sim_accept 1 w (Tcp s) (concat bufs)),
     unix_write_vectored := (\<lambda>w s bufs. sim_accept 1 w (Unix s) (concat bufs))\<rparr>"

lemma slow_contracts:
  "transport_ok slow_os sim_sent" "read_ok slow_os" "vacant_ok dbg slow_os" "reserve_ok slow_os"
  using sim_transport_ok sim_read_ok sim_vacant_ok sim_reserve_ok sim_accept_contract
  by (simp_all add: transport_ok_def read_ok_def vacant_ok_def reserve_ok_def slow_os_def)

lemma slow_world: "logs_reads slow_os sim_sent sim_got" "writes_keep slow_os sim_got" "soft_writes slow_os sk"
proof -
  have "socket_read slow_os = socket_read sim_os" by (simp add: fun_eq_iff socket_read_def slow_os_def split: socket.split)
  then show "logs_reads slow_os sim_sent sim_got" using sim_logs_reads by (simp add: logs_reads_def)
  have w: "socket_write slow_os w sk buf = sim_accept 1 w sk buf" "socket_write_vectored slow_os w sk bufs = sim_accept 1 w sk (concat bufs)"
    for w sk buf bufs by (simp_all add: socket_write_def socket_write_vectored_def slow_os_def split: socket.split)
  then show "writes_keep slow_os sim_got" "soft_writes slow_os sk"
    by (simp_all add: writes_keep_def soft_writes_def sim_accept_def Let_def)
qed

lemma echo_answers_all_witness:
  "\<exists>status st' c'. process_read slow_os (echo_handler slow_os) 0
      (busy_loop (sim0\<lparr>sim_reads := [Inr [1, 2, 3], Inr [4]]\<rparr>) sample_conn) = (Ok status, st')
    \<and> slab_get (l_connections st') 0 = Some c'
    \<and> avail c' = [] \<and> sim_sent (l_world st') (Tcp 3) @ concat (opt_list (c_out_buffer c')) = sim_got (l_world st') (Tcp 3)"
proof -
  let ?st = "busy_loop (sim0\<lparr>sim_reads := [Inr [1, 2, 3], Inr [4]]\<rparr>) sample_conn"
  have sk: "c_socket sample_conn = Some (Tcp 3)" by simp
  have a: "avail sample_conn = []" by (simp add: avail_def sample_conn_def conn_new_def)
  have o: "outstream sim_sent (Tcp 3) (sample_conn, l_world ?st) = sim_got (l_world ?st) (Tcp 3)"
    by (simp add: outstream_def sample_conn_def conn_new_def busy_loop_def sim0_def)
  from echo_answers_all [OF slow_contracts _ busy_loop_inv [OF same_core_refl] slow_world busy_conn sk a o, of "echo_handler slow_os"]
  show ?thesis unfolding outstream_def prod.case by blast
qed

text \<open>
  The asynchronous echo sends the bytes back to their own connection. With a pool that has room,
  \<open>on_traffic\<close> leaves nothing unread and appends one task to the shard of the connection's loop, and that
  task, run by a worker at any later moment, adds to the commands of that loop exactly one \<open>AsyncWrite\<close>
  of exactly these bytes for exactly this descriptor, and to no other loop anything.
\<close>

lemma async_echo_task:
  assumes "global_senders p = Some senders" and "senders \<noteq> []"
    and i: "i = senders ! (event_loop_index (c_gfd c) mod length senders)" "i < length (channels p)"
    and "ch_worker (channels p ! i) \<noteq> Exited" and "length (ch_queue (channels p ! i)) < CHANNEL_CAP"
    and "avail c \<noteq> []" and "loops_open eh" and "event_loop_index (c_gfd c) < loop_count eh"
  shows "\<exists>c' p' eh' w'. async_traffic (c, p) = (Ok ActNone, (c', p')) \<and> avail c' = []
    \<and> ch_queue (channels p' ! i) = ch_queue (channels p ! i) @ [(c_gfd c, avail c)]
    \<and> (\<forall>j. j \<noteq> i \<longrightarrow> channels p' ! j = channels p ! j)
    \<and> async_task os (c_gfd c, avail c) (eh, w) = (Ok (), (eh', w')) \<and> loops_open eh' \<and> loop_count eh' = loop_count eh
    \<and> (\<forall>j. mail eh' j = mail eh j + (if j = event_loop_index (c_gfd c) then {#AsyncWrite (c_gfd c) (avail c)#} else {#}))"
proof -
  have "\<not> refused (readable c) (avail c) None" using assms(7)
    by (auto simp: refused_def readable_def avail_def opt_list_def split: option.splits)
  from next_contiguous_data [OF this] obtain c1 where t: "next_contiguous None c = (Ok (Some (avail c)), c1)"
    "avail c1 = []" "same_but_inbound c c1" by (auto simp: wanted_def)
  from t(3) out_inbound have g: "c_gfd c1 = c_gfd c" by blast
  from submit_queues [OF assms(1,2) i(1) assms(5,6) i(2), of "(c_gfd c, avail c)"] obtain p' where
    s: "submit (c_gfd c, avail c) (event_loop_index (c_gfd c)) p = (Ok (Sent i (c_gfd c, avail c)), p')"
      "ch_queue (channels p' ! i) = ch_queue (channels p ! i) @ [(c_gfd c, avail c)]"
      "\<forall>j. j \<noteq> i \<longrightarrow> channels p' ! j = channels p ! j" by blast
  have "async_traffic (c, p) = (Ok ActNone, (c1, p'))"
    using t(1) g s(1) by (simp add: async_traffic_def with_conn_def bind_io_def ret_def submit_from_def discard_result_def)
  moreover from send_command_mail [OF assms(8), of os "c_gfd c" "AsyncWrite (c_gfd c) (avail c)" w] assms(9) obtain eh' w' where
    "async_task os (c_gfd c, avail c) (eh, w) = (Ok (), (eh', w'))" "loops_open eh'" "loop_count eh' = loop_count eh"
    "\<forall>j. mail eh' j = mail eh j + (if j = event_loop_index (c_gfd c) then {#AsyncWrite (c_gfd c) (avail c)#} else {#})"
    by (auto simp: async_task_def)
  ultimately show ?thesis using t(2) s(2,3) by blast
qed

definition ready_pool :: "(gfd \<times> bytes) pool_state" where
  "ready_pool = \<lparr>global_senders = Some [0], channels = [\<lparr>ch_queue = [], ch_senders = True, ch_worker = AtRecv\<rparr>], blocked = []\<rparr>"

lemma async_echo_task_witness:
  "\<exists>c' p' eh' w'. async_traffic (sample_conn\<lparr>c_io_buffer := Some [7, 8]\<rparr>, ready_pool) = (Ok ActNone, (c', p')) \<and> avail c' = []
    \<and> ch_queue (channels p' ! 0) = [(sample_gfd, [7, 8])]
    \<and> async_task sim_os (sample_gfd, [7, 8]) (two_loops, sim0) = (Ok (), (eh', w'))
    \<and> mail eh' 0 = {#AsyncWrite sample_gfd [7, 8]#} \<and> mail eh' 1 = {#}"
proof -
  let ?c = "sample_conn\<lparr>c_io_buffer := Some [7, 8]\<rparr>"
  have c: "avail ?c = [7, 8]" "c_gfd ?c = sample_gfd" "event_loop_index sample_gfd = 0"
    by (simp_all add: avail_def sample_conn_def conn_new_def sample_gfd_def event_loop_index_def)
  have "loops_open two_loops" by (simp add: loops_open_def two_loops_def handle_new_def)
  from async_echo_task [where p = ready_pool and senders = "[0]" and i = 0 and c = ?c and os = sim_os and w = sim0, OF _ _ _ _ _ _ _ this]
  show ?thesis using c
    by (auto simp: ready_pool_def CHANNEL_CAP_def mail_def two_loops_def loop_count_def handle_new_def pending_def)
qed

end
