(* ===== verification/Mains.thy ===== *)
theory Mains
  imports EngineRun Address Echo
begin

text \<open>
  The \<open>main\<close> functions of the examples: reading the command line, building options, addresses and
  the engine. They go through the builder of options, the parser of addresses and the builder of
  the engine; what is left is \<open>engine.run()\<close>, the subject of theory \<open>EngineRun\<close>. An \<open>unwrap\<close> or
  \<open>expect\<close> of an error panics.
\<close>

subsection \<open>Helpers\<close>

definition and_then :: "'a outcome \<Rightarrow> ('a \<Rightarrow> 'b outcome) \<Rightarrow> 'b outcome" where
  "and_then r f = (case r of Ok x \<Rightarrow> f x | Err e \<Rightarrow> Err e | Panic \<Rightarrow> Panic | Diverge \<Rightarrow> Diverge)"

definition unwrap :: "'a outcome \<Rightarrow> 'a outcome" where
  "unwrap r = (case r of Err e \<Rightarrow> Panic | _ \<Rightarrow> r)"

text \<open>What all of them do: options, addresses, engine. \<open>init\<close> is the handler's.\<close>

definition launch :: "bool \<Rightarrow> (options \<Rightarrow> 'h \<times> action) \<Rightarrow> options_builder \<Rightarrow> string list \<Rightarrow> 'h engine outcome" where
  "launch dbg init b addrs =
     and_then (options_build dbg b) (\<lambda>opts.
       case normalize addrs opts of
         (r, opts') \<Rightarrow> and_then (unwrap r) (\<lambda>parsed. unwrap (engine_build init opts' (builder_address parsed builder))))"

text \<open>A handler whose state is only the handle of the engine.\<close>

definition plain_init :: "options \<Rightarrow> unit \<times> action" where
  "plain_init opts = ((), ActNone)"

definition chat_init :: "options \<Rightarrow> clients \<times> action" where
  "chat_init opts = (chat_new opts, ActNone)"

subsection \<open>The examples\<close>

definition local_addr :: "nat \<Rightarrow> string" where
  "local_addr port = ''tcp://127.0.0.1:'' @ show_nat port"

definition chat_main :: "bool \<Rightarrow> clients engine outcome" where
  "chat_main dbg = launch dbg chat_init
     (builder_ticker True (builder_num_event_loop 4 (builder_reuse_addr True builder_new))) [''tcp://127.0.0.1:8888'']"

definition json_main :: "bool \<Rightarrow> unit engine outcome" where
  "json_main dbg = launch dbg plain_init
     (builder_num_event_loop 4 (builder_reuse_addr True builder_new)) [''tcp://127.0.0.1:9001'']"

definition submit_main :: "bool \<Rightarrow> unit engine outcome" where
  "submit_main dbg = launch dbg plain_init
     (builder_num_event_loop 8 (builder_reuse_addr True builder_new)) [''tcp://127.0.0.1:9000'']"

text \<open>The command line of the echo server is read by \<open>clap\<close>.\<close>

definition echo_main :: "bool \<Rightarrow> 16 word \<Rightarrow> usize \<Rightarrow> unit engine outcome" where
  "echo_main dbg port loops = launch dbg plain_init
     (builder_num_event_loop loops (builder_reuse_addr True builder_new)) [local_addr (unat port)]"

text \<open>An address that does not parse ends the Unix example with a message, here \<open>None\<close>.\<close>

definition unix_main :: "bool \<Rightarrow> unit engine option outcome" where
  "unix_main dbg =
     and_then (options_build dbg (builder_num_event_loop 2 builder_new)) (\<lambda>opts.
       case normalize [''unix:///tmp/rnet-echo.sock''] opts of
         (Ok parsed, opts') \<Rightarrow> and_then (unwrap (engine_build plain_init opts' (builder_address parsed builder))) (\<lambda>en. Ok (Some en))
       | (Err e, _) \<Rightarrow> Ok None
       | (Panic, _) \<Rightarrow> Panic
       | (Diverge, _) \<Rightarrow> Diverge)"

text \<open>The loop over the arguments of the asynchronous echo, after the name of the program.\<close>

fun read_args :: "string list \<Rightarrow> nat \<Rightarrow> nat \<Rightarrow> (nat \<times> nat) outcome" where
  "read_args [] port loops = Ok (port, loops)"
| "read_args [a] port loops = Ok (port, loops)"
| "read_args (a # v # as) port loops =
     (if a = ''--port'' then
        (case parse_uint (2 ^ 16) v of None \<Rightarrow> Panic | Some p \<Rightarrow> read_args as p loops)
      else if a = ''--loops'' then
        (case parse_uint (2 ^ 64) v of None \<Rightarrow> Panic | Some n \<Rightarrow> read_args as port n)
      else read_args (v # as) port loops)"

text \<open>\<open>None\<close> is the exit with the usage message.\<close>

definition async_main :: "bool \<Rightarrow> string list \<Rightarrow> unit engine option outcome" where
  "async_main dbg args =
     and_then (read_args (drop 1 args) 0 0) (\<lambda>(port, loops).
       if port = 0 \<or> loops = 0 then Ok None
       else and_then (launch dbg plain_init (builder_num_event_loop (of_nat loops) (builder_reuse_addr True builder_new)) [local_addr port])
         (\<lambda>en. Ok (Some en)))"

subsection \<open>Lemmas\<close>

lemma small_digits: "digit 0 = CHR ''0''" "digit 1 = CHR ''1''" "digit 2 = CHR ''2''" "digit 7 = CHR ''7''" "digit 8 = CHR ''8''" "digit 9 = CHR ''9''"
  by code_simp+

lemma local_addr_shown: "port < 2 ^ 16 \<Longrightarrow> local_addr port = show_address (TcpAddr (SocketAddrV4 [127, 0, 0, 1] (of_nat port)))"
  by (simp add: local_addr_def unat_of_nat take_bit_nat_eq_self show_radix_small show_radix_big small_digits small_digits(2) [unfolded One_nat_def])

text \<open>Builders that leave the sizes alone build.\<close>

definition default_sizes :: "options_builder \<Rightarrow> bool" where
  "default_sizes b \<longleftrightarrow> (let o' = requested_options b in
     read_buffer_cap o' = MAX_STREAM_BUFFER_CAP \<and> write_buffer_cap o' = MAX_STREAM_BUFFER_CAP \<and> max_batch_size o' = 0)"

lemma stream_cap_power: "normalize_buffer_size dbg MAX_STREAM_BUFFER_CAP = Ok MAX_STREAM_BUFFER_CAP"
proof -
  have "least_power (unat MAX_STREAM_BUFFER_CAP) (unat MAX_STREAM_BUFFER_CAP)"
    unfolding least_power_def by (intro conjI exI [of _ 16]) (simp_all add: MAX_STREAM_BUFFER_CAP_def)
  moreover have "unat MAX_STREAM_BUFFER_CAP = 65536" by (simp add: MAX_STREAM_BUFFER_CAP_def)
  ultimately have "ceil_to_power_of_two dbg MAX_STREAM_BUFFER_CAP = Ok MAX_STREAM_BUFFER_CAP"
    by (intro ceil_to_power_of_two_fixed [where n = 65536]) simp_all
  then show ?thesis by (simp add: normalize_buffer_size_def MAX_STREAM_BUFFER_CAP_def DEFAULT_BUFFER_SIZE_def)
qed

lemma build_default_sizes:
  assumes "default_sizes b"
  shows "options_build dbg b = Ok (requested_options b\<lparr>max_batch_size := push_bit 20 1\<rparr>)"
proof -
  obtain o' where o: "requested_options b = o'" by simp
  with assms have "read_buffer_cap o' = MAX_STREAM_BUFFER_CAP" "write_buffer_cap o' = MAX_STREAM_BUFFER_CAP" "max_batch_size o' = 0"
    by (simp_all add: default_sizes_def Let_def)
  moreover from this have "o'\<lparr>read_buffer_cap := MAX_STREAM_BUFFER_CAP, write_buffer_cap := MAX_STREAM_BUFFER_CAP\<rparr> = o'"
    by (cases o') simp
  ultimately show ?thesis by (cases o') (simp add: options_build_def o stream_cap_power Let_def)
qed

lemma launch_tcp:
  assumes "default_sizes b" and "\<not> reuse_port (requested_options b)" and "lb (requested_options b) = LbRoundRobin"
    and "\<forall>opts. snd (init opts) = ActNone" and "length ip = 4"
  shows "launch dbg init b [show_address (TcpAddr (SocketAddrV4 ip port))]
    = Ok \<lparr>en_address = [TcpAddr (SocketAddrV4 ip port)], en_options = requested_options b\<lparr>max_batch_size := push_bit 20 1\<rparr>,
          en_handler = fst (init (requested_options b\<lparr>max_batch_size := push_bit 20 1\<rparr>)), en_lb_policy = Some (RoundRobin 0)\<rparr>"
proof -
  let ?o = "requested_options b\<lparr>max_batch_size := push_bit 20 1\<rparr>"
  have "normalize [show_address (TcpAddr (SocketAddrV4 ip port))] ?o = (Ok [TcpAddr (SocketAddrV4 ip port)], ?o\<lparr>reuse_port := reuse_port ?o\<rparr>)"
    using normalize_printed [of "[TcpAddr (SocketAddrV4 ip port)]" ?o] assms(5) by simp
  moreover have "?o\<lparr>reuse_port := reuse_port ?o\<rparr> = ?o" by (cases "requested_options b") simp
  ultimately have n: "normalize [show_address (TcpAddr (SocketAddrV4 ip port))] ?o = (Ok [TcpAddr (SocketAddrV4 ip port)], ?o)" by simp
  obtain h where h: "init ?o = (h, ActNone)" using assms(4) by (metis prod.collapse)
  show ?thesis
    using assms(2,3) h n unfolding launch_def build_default_sizes [OF assms(1)]
    by (simp add: and_then_def unwrap_def engine_build_def builder_address_def Balancer_new_def del: show_address.simps)
qed

lemma tcp_builder:
  "default_sizes (builder_num_event_loop n (builder_reuse_addr True builder_new))"
  "default_sizes (builder_ticker True (builder_num_event_loop n (builder_reuse_addr True builder_new)))"
  by (simp_all add: default_sizes_def Let_def requested_options_def builder_num_event_loop_def builder_reuse_addr_def
      builder_ticker_def builder_new_def override_def default_options_def)

lemma tcp_main:
  assumes "port < 2 ^ 16" and "\<forall>opts. snd (init opts) = ActNone"
    and b: "b = builder_num_event_loop n (builder_reuse_addr True builder_new)
      \<or> b = builder_ticker True (builder_num_event_loop n (builder_reuse_addr True builder_new))"
  shows "\<exists>en. launch dbg init b [local_addr port] = Ok en
    \<and> en_address en = [TcpAddr (SocketAddrV4 [127, 0, 0, 1] (of_nat port))] \<and> en_handler en = fst (init (en_options en))
    \<and> num_event_loop (en_options en) = n \<and> reuse_addr (en_options en) \<and> \<not> reuse_port (en_options en)
    \<and> en_lb_policy en = Some (RoundRobin 0)"
proof -
  have d: "default_sizes b" using b tcp_builder by blast
  have r: "\<not> reuse_port (requested_options b)" "lb (requested_options b) = LbRoundRobin" "num_event_loop (requested_options b) = n"
    "reuse_addr (requested_options b)"
    using b by (auto simp: requested_options_def builder_num_event_loop_def builder_reuse_addr_def
      builder_ticker_def builder_new_def override_def default_options_def Let_def)
  from launch_tcp [OF d r(1,2) assms(2), of "[127, 0, 0, 1]" dbg "of_nat port"] r show ?thesis
    unfolding local_addr_shown [OF assms(1)] by simp
qed

text \<open>A valid command line of the asynchronous echo, in either order, starts what it says.\<close>

lemma async_main_starts:
  assumes "0 < port" and "port < 2 ^ 16" and "0 < n" and "n < 2 ^ 64"
    and "args = [prog, ''--port'', show_nat port, ''--loops'', show_nat n] \<or> args = [prog, ''--loops'', show_nat n, ''--port'', show_nat port]"
  shows "\<exists>en. async_main dbg args = Ok (Some en)
    \<and> en_address en = [TcpAddr (SocketAddrV4 [127, 0, 0, 1] (of_nat port))] \<and> num_event_loop (en_options en) = of_nat n"
proof -
  have "read_args (drop 1 args) 0 0 = Ok (port, n)"
    using assms(5) parse_uint_show [OF assms(2)] parse_uint_show [OF assms(4)] by auto
  moreover from tcp_main [OF assms(2), where init = plain_init and n = "of_nat n" and dbg = dbg] obtain en where
    "launch dbg plain_init (builder_num_event_loop (of_nat n) (builder_reuse_addr True builder_new)) [local_addr port] = Ok en"
    "en_address en = [TcpAddr (SocketAddrV4 [127, 0, 0, 1] (of_nat port))]" "num_event_loop (en_options en) = of_nat n"
    by (auto simp: plain_init_def)
  ultimately show ?thesis using assms(1,3) by (simp add: async_main_def and_then_def)
qed

lemma core_count:
  assumes "0 < n"
  shows "length (get_core_ids rd available (Some n)) \<le> unat n"
proof -
  obtain cs where cs: "(case available of None \<Rightarrow> [] | Some cs \<Rightarrow> cs) = cs" by simp
  from select_cores_spec [of "get_linux_topology_key rd" "unat n" "{}" "[]" cs]
  have "length (select_cores (get_linux_topology_key rd) (unat n) {} [] cs) \<le> unat n" by auto
  with assms cs show ?thesis by (auto simp: get_core_ids_def Let_def)
qed

lemma chat_main_engine:
  "\<exists>en. chat_main dbg = Ok en \<and> en_address en = [TcpAddr (SocketAddrV4 [127, 0, 0, 1] 8888)]
    \<and> en_handler en = chat_new (en_options en) \<and> num_event_loop (en_options en) = 4 \<and> \<not> reuse_port (en_options en)
    \<and> en_lb_policy en = Some (RoundRobin 0)"
proof -
  have "''tcp://127.0.0.1:8888'' = local_addr 8888" by (simp add: local_addr_def show_radix_small show_radix_big small_digits)
  with tcp_main [of 8888 chat_init "builder_ticker True (builder_num_event_loop 4 (builder_reuse_addr True builder_new))" 4 dbg]
  show ?thesis by (auto simp: chat_main_def chat_init_def)
qed

subsection \<open>Properties\<close>

text \<open>
  C31: the chat room never misses a shard. Its \<open>main\<close> starts on the address it announces; it makes one shard
  for each loop that the options ask for, and however many loops the engine then gives it (it may be fewer:
  as many as there are physical cores), every descriptor that one of these loops issues finds its shard:
  \<open>on_open\<close> and \<open>on_close\<close> do not panic, and the client is in the shard of its loop.
\<close>

theorem chat_room_shards_cover:
  fixes v :: "('w, 't) engine_env"
  assumes main: "chat_main dbg = Ok en"
    and run: "engine_run rx os dbg mono_seq available en v = (Ok (t :: ('w, 'k) threads), v')"
    and new: "e_loops (v_handle v) = None" "e_acceptor (v_handle v) = None"
    and el: "el \<in> set (t_loops t)" and g: "event_loop_index g = unat (l_id el)"
  shows "en_address en = [TcpAddr (SocketAddrV4 [127, 0, 0, 1] 8888)]
    \<and> (\<exists>clients. chat_open g (en_handler en) = Ok clients \<and> g \<in> clients ! unat (l_id el) \<and> sharded clients)
    \<and> (\<forall>c h w. c_gfd c = g \<longrightarrow> fst (chat_close os' c (en_handler en, h, w)) \<noteq> Panic)"
proof -
  from main chat_main_engine [of dbg] have en: "en_address en = [TcpAddr (SocketAddrV4 [127, 0, 0, 1] 8888)]"
    "en_handler en = chat_new (en_options en)" "num_event_loop (en_options en) = 4" "\<not> reuse_port (en_options en)" by auto
  let ?cores = "get_core_ids (read_to_string os (v_world v)) available (Some (num_event_loop (en_options en)))"
  have "length ?cores \<le> 4" using core_count [of 4] en(3) by (simp add: word_gt_0)
  from run have "run_user_lb rx os mono_seq en ?cores v = (Ok t, v')" by (simp add: engine_run_user_lb [OF en(4)])
  from run_user_lb_pool [OF this] obtain els ac v1 ids where
    th: "user_lb_threads rx os mono_seq en ?cores v = (Ok (els, ac), v1)" and t: "t = \<lparr>t_loops = els, t_acceptor = Some ac, t_workers = ids\<rparr>"
    by blast
  from user_lb_threads_spec [OF th new] have els: "length els = length ?cores" "\<forall>j < length ?cores. fresh_loop j (els ! j)" by simp_all
  from el t obtain j where j: "j < length els" "el = els ! j" by (auto simp: in_set_conv_nth)
  with els \<open>length ?cores \<le> 4\<close> have "j < 4" "l_id el = of_nat j" by (auto simp: fresh_loop_def)
  then have idx: "unat (l_id el) < 4" by (simp add: unat_of_nat)
  have len: "length (en_handler en) = 4" by (simp add: en chat_new_def)
  obtain clients where "chat_open g (en_handler en) = Ok clients" "g \<in> clients ! unat (l_id el)"
    using idx len g by (simp add: chat_open_def Let_def)
  moreover from sharded_open [OF sharded_new this(1) [unfolded en(2)]] have "sharded clients" .
  moreover have "fst (chat_close os' c (en_handler en, h, w)) \<noteq> Panic" if "c_gfd c = g" for c h w
    using that idx len g by (simp add: chat_close_def conn_close_def Let_def trigger_ok_result split: prod.split)
  ultimately show ?thesis using en(1) by blast
qed

lemma chat_room_shards_cover_witness:
  "\<exists>en t v' g clients. chat_main True = Ok en
    \<and> engine_run sim_reactor2 sim_os True 0 (Some [0, 1]) en demo_env = (Ok (t :: (sim, unit) threads), v')
    \<and> length (t_loops t) = 2
    \<and> Gfd_new True 9 (l_id (t_loops t ! 1)) 3 0 = (Ok g, 1) \<and> chat_open g (en_handler en) = Ok clients
    \<and> sharded clients"
proof -
  from chat_main_engine [of True] obtain en where
    en: "chat_main True = Ok en" "en_address en = [TcpAddr (SocketAddrV4 [127, 0, 0, 1] 8888)]" "\<not> reuse_port (en_options en)"
      "num_event_loop (en_options en) = 4" "en_lb_policy en = Some (RoundRobin 0)" by blast
  have new: "e_loops (v_handle demo_env) = None" "e_acceptor (v_handle demo_env) = None"
    by (simp_all add: demo_env_def engine_handler_new_def)
  have "\<exists>t v'. engine_run sim_reactor2 sim_os True 0 (Some [0, 1]) en demo_env = (Ok (t :: (sim, unit) threads), v')"
    by (rule sim_run_user_lb [OF en(2,5,3) new])
  then obtain t :: "(sim, unit) threads" and v' where
    run: "engine_run sim_reactor2 sim_os True 0 (Some [0, 1]) en demo_env = (Ok t, v')" by blast
  have cores: "get_core_ids (read_to_string sim_os (v_world demo_env)) (Some [0, 1]) (Some (num_event_loop (en_options en))) = [0, 1]"
  proof -
    have "get_core_ids (\<lambda>_. None) (Some [0, 1]) (Some 4) = [0, 1]" by code_simp
    then show ?thesis by (simp add: sim_os_def demo_env_def en(4))
  qed
  from run [unfolded engine_run_user_lb [OF en(3)] cores] have "run_user_lb sim_reactor2 sim_os 0 en [0, 1] demo_env = (Ok t, v')" .
  from run_user_lb_pool [OF this] obtain els ac v1 ids where
    "user_lb_threads sim_reactor2 sim_os 0 en [0, 1] demo_env = (Ok (els, ac), v1)" "t = \<lparr>t_loops = els, t_acceptor = Some ac, t_workers = ids\<rparr>"
    by blast
  with user_lb_threads_spec [OF this(1) new] have len: "length (t_loops t) = 2" by simp
  let ?el = "t_loops t ! 1"
  obtain g where gfd: "Gfd_new True 9 (l_id ?el) 3 0 = (Ok g, 1)" by (simp add: Gfd_new_def)
  have el: "?el \<in> set (t_loops t)" using len by (intro nth_mem) simp
  from Gfd_new_fields(1) [OF gfd] have g: "event_loop_index g = unat (l_id ?el)" .
  from conjunct1 [OF conjunct2 [OF chat_room_shards_cover [OF en(1) run new el g, where os' = sim_os]]]
  obtain clients where "chat_open g (en_handler en) = Ok clients" "sharded clients" by blast
  with en(1) run len gfd show ?thesis by blast
qed

end
