(* ===== verification/EchoRuns.thy ===== *)
theory EchoRuns
  imports Echo
begin

text \<open>
  The echo servers in whole runs of an event loop: the contract \<open>echo_server\<close> of one callback gives
  the contract \<open>stream_server\<close>, and with it every turn of the loop keeps the stream of answers equal
  to the stream of requests.
\<close>

subsection \<open>An echo is a stream server\<close>

definition echo_good :: "'k conn \<Rightarrow> bytes list \<Rightarrow> bytes \<Rightarrow> bool" where
  "echo_good c got out \<longleftrightarrow> avail c = [] \<and> out = concat got"

lemma as_callback_Ok:
  assumes "fst (m (c, w)) = Ok a0" and "as_callback m c (h, w) = (a, c', h', w')"
  shows "m (c, w) = (Ok a0, (c', w')) \<and> a = a0 \<and> h' = h"
  using assms by (cases "m (c, w)") (auto simp: as_callback_def)

sublocale echo_server \<subseteq> run: stream_server "\<lambda>os. default_handler\<lparr>on_traffic := as_callback (reply os)\<rparr>" "\<lambda>c. c" echo_good
proof
  fix os :: "'w os" and c :: "'k conn" and s :: "'k conn slab" and h :: loop_handle and w :: 'w
  show "on_open (default_handler\<lparr>on_traffic := as_callback (reply os)\<rparr>) c (h, w) = (ActNone, c, h, w)"
    and "on_close (default_handler\<lparr>on_traffic := as_callback (reply os)\<rparr>) c (h, w) = (ActNone, c, h, w)"
    and "on_tick (default_handler\<lparr>on_traffic := as_callback (reply os)\<rparr>) s (h, w) = ((0, ActNone), s, h, w)"
    by (simp_all add: default_handler_def)
next
  fix c :: "'k conn"
  show "c_socket c = c_socket c \<and> c_out_buffer c = c_out_buffer c" by simp
  show "avail c = [] \<Longrightarrow> c_codec c = None \<Longrightarrow> echo_good c [] []" by (simp add: echo_good_def)
next
  fix c c' :: "'k conn" and got out
  show "same_but_out c c' \<Longrightarrow> echo_good c' got out = echo_good c got out" by (simp add: echo_good_def avail_out)
next
  fix os :: "'w os" and c c' :: "'k conn" and sk h a h' w w'
  assume sk: "c_socket c = Some sk"
    and run: "on_traffic (default_handler\<lparr>on_traffic := as_callback (reply os)\<rparr>) c (h, w) = (a, c', h', w')"
  have "fst (reply os (c, w)) = Ok ActNone" using sk by (intro reply_returns) simp
  from as_callback_Ok [where m = "reply os" and c = c and w = w, OF this] run have r: "reply os (c, w) = (Ok ActNone, (c', w'))" "h' = h" by simp_all
  from reply_sends [OF sk r(1)] reply_identity [OF r(1)] r(2) sk
  show "h' = h \<and> c_socket c' = Some sk \<and> sends os sk w w'" by (simp add: same_identity_def)
next
  fix os :: "'w os" and wire sk and c c' :: "'k conn" and got w data h a h' w'
  assume ok: "transport_ok os wire" "soft_writes os sk" and sk: "c_socket c = Some sk"
    and good: "echo_good c got (outstream wire sk (c, w))"
    and run: "on_traffic (default_handler\<lparr>on_traffic := as_callback (reply os)\<rparr>) (c\<lparr>c_io_buffer := Some data\<rparr>) (h, w) = (a, c', h', w')"
  let ?c = "c\<lparr>c_io_buffer := Some data\<rparr>"
  have "fst (reply os (?c, w)) = Ok ActNone" using sk by (intro reply_returns) simp
  from as_callback_Ok [where m = "reply os" and c = ?c and w = w, OF this] run have r: "reply os (?c, w) = (Ok ActNone, (c', w'))" "a = ActNone" by simp_all
  have "c_socket ?c = Some sk" using sk by simp
  from reply_all [OF ok this, of w] r have "avail c' = []" "outstream wire sk (c', w') = outstream wire sk (?c, w) @ avail ?c" by auto
  moreover have "avail ?c = data" "outstream wire sk (?c, w) = outstream wire sk (c, w)"
    using good by (auto simp: echo_good_def avail_def outstream_def)
  ultimately show "a = ActNone \<and> echo_good (merge_io c') (got @ [data]) (outstream wire sk (c', w'))"
    using good r(2) by (simp add: echo_good_def merge_io_avail)
qed

subsection \<open>A concrete run\<close>

text \<open>
  A kernel that takes one byte of each write, hands out no socket that is in use, and keeps track of
  those that are; a reactor that reports what the script still holds.
\<close>

definition port_accept :: "sim \<Rightarrow> (io_error + (stream \<times> socket_addr)) \<times> sim" where
  "port_accept w =
     (case sim_accepts w of
        [] \<Rightarrow> (Inl (IoError WouldBlock []), w)
      | (s, a) # as \<Rightarrow>
          if Tcp s \<in> sim_held w then (Inl (IoError OtherKind []), w)
          else (Inr (s, a), w\<lparr>sim_accepts := as, sim_held := insert (Tcp s) (sim_held w),
            sim_sent := (sim_sent w)(Tcp s := []), sim_pieces := (sim_pieces w)(Tcp s := [])\<rparr>))"

definition port_os :: "sim os" where
  "port_os = slow_os\<lparr>tcp_accept := (\<lambda>w l. port_accept w), unix_accept := (\<lambda>w l. (Inl (IoError WouldBlock []), w)),
     drop_stream := (\<lambda>w sk. w\<lparr>sim_dropped := sk # sim_dropped w, sim_held := sim_held w - {sk}\<rparr>)\<rparr>"

definition port_ghost :: "sim ghost" where
  "port_ghost = \<lparr>g_wire = sim_sent, g_got = sim_pieces, g_held = (\<lambda>w sk. sk \<in> sim_held w)\<rparr>"

definition port_event :: "usize \<Rightarrow> event" where
  "port_event token = \<lparr>ev_token = token, ev_readable = True, ev_writable = False, ev_error = False, ev_read_closed = False\<rparr>"

definition port_reactor :: "sim reactor" where
  "port_reactor = sim_reactor\<lparr>poll_wait := (\<lambda>t (h, w).
     (Inr (if sim_accepts w \<noteq> [] then [port_event LISTENER_TOKEN_START] else [port_event 0]), h, w))\<rparr>"

definition port_loop :: "bytes list \<Rightarrow> (sim, unit) eloop" where
  "port_loop reads = sample_loop (sim0\<lparr>sim_accepts := [(5, SocketAddrV4 [10, 0, 0, 1] 999)], sim_reads := map Inr reads\<rparr>)
     \<lparr>l_listeners := Some [\<lparr>li_inner = TcpListener 0, li_addr = TcpAddr (SocketAddrV4 [10, 0, 0, 2] 80), li_options = sample_options\<rparr>]\<rparr>"

lemma port_calls:
  "socket_read port_os w sk len = sim_read w sk len"
  "socket_write port_os w sk buf = sim_accept 1 w sk buf"
  "socket_write_vectored port_os w sk bufs = sim_accept 1 w sk (concat bufs)"
  "socket_flush port_os w sk = (Inr (), w)" "set_nodelay port_os w sk b = (Inr (), w)"
  "drop_stream port_os w sk = w\<lparr>sim_dropped := sk # sim_dropped w, sim_held := sim_held w - {sk}\<rparr>"
  "waker_wake port_os w i = (Inr (), w\<lparr>sim_wakes := i # sim_wakes w\<rparr>)"
  by (cases sk; simp add: socket_read_def socket_write_def socket_write_vectored_def socket_flush_def set_nodelay_def
      port_os_def slow_os_def sim_os_def)+

lemma port_registry:
  "registry_register port_os w src t i = sim_registry w src (Some (t, i))"
  "registry_reregister port_os w src t i = sim_registry w src (Some (t, i))"
  "registry_deregister port_os w src = sim_registry w src None"
  by (simp_all add: port_os_def slow_os_def sim_os_def)

lemma port_views:
  "view port_ghost (snd (sim_registry w src x)) = view port_ghost w"
  "sk' \<noteq> sk \<Longrightarrow> view port_ghost (snd (sim_read w sk len)) sk' = view port_ghost w sk'"
  "sk' \<noteq> sk \<Longrightarrow> view port_ghost (snd (sim_accept n w sk buf)) sk' = view port_ghost w sk'"
  by (auto simp: view_def port_ghost_def sim_registry_def sim_read_def sim_accept_def Let_def fun_eq_iff
      split: list.splits sum.splits option.splits)

lemma port_streams: "streams_ok port_os port_ghost" "soft_writes port_os sk"
proof -
  have t: "transport_ok port_os sim_sent" using slow_contracts(1) by (simp add: transport_ok_def port_os_def)
  have l: "logs_pieces port_os sim_sent sim_pieces"
    by (auto simp: logs_pieces_def port_calls sim_read_def pieces_def split: list.splits sum.splits)
  have i: "isolated port_os (view port_ghost)"
    unfolding isolated_def port_calls port_registry
    by (simp add: port_views, simp add: view_def port_ghost_def fun_eq_iff)
  have k: "writes_keep port_os sim_pieces" "writes_keep port_os (g_held port_ghost)" "soft_writes port_os sk"
    by (simp_all add: writes_keep_def soft_writes_def port_calls sim_accept_def Let_def port_ghost_def)
  have a: "accepts_fresh port_os port_ghost"
    by (auto simp: accepts_fresh_def listener_accept_def port_os_def port_accept_def view_def port_ghost_def fun_eq_iff
        split: listener_inner.splits list.splits if_splits)
  have h: "g_held port_ghost (snd (socket_read port_os w sk len)) sk = g_held port_ghost w sk" for w sk len
    by (auto simp: port_calls port_ghost_def sim_read_def split: list.splits sum.splits)
  show "streams_ok port_os port_ghost" using t l i k a h by (simp add: streams_ok_def port_ghost_def port_calls)
  show "soft_writes port_os sk" by (rule k)
qed

lemma port_others: "others_respect port_reactor port_ghost sk"
  by (auto simp: others_respect_def port_reactor_def sim_reactor_def)

subsection \<open>Properties\<close>

text \<open>
  An echo server answers every byte, in order, on the right connection, in every run. Take any
  run of a loop that began empty: any number of connections that come (accepted here or handed over
  by the acceptor), go, and are recycled; any events, true or spurious, in any order; any commands
  from other threads except \<open>AsyncWrite\<close>; any pieces in which bytes arrive; any kernel whose sockets
  do not interfere. Then between any two turns, for every open connection whose peer is still there:
  nothing is left unread, and the bytes accepted for the peer followed by the bytes queued for it are
  exactly the bytes received from it, so with an empty queue the peer has been sent all of them back.
\<close>

theorem echo_whole_run:
  fixes H :: "('w, 'k) handler"
  assumes H: "H = echo_handler os \<or> H = unix_echo_handler os"
    and run: "loop_runs rx os dbg H start st" and start: "l_connections start = []" "pending (l_handle start) = []"
    and os: "streams_ok os gh" "soft_writes os sk" and rx: "others_respect rx gh sk"
    and c: "slab_get (l_connections st) key = Some c" "c_socket c = Some sk"
  shows "avail c = []
    \<and> g_wire gh (l_world st) sk @ concat (opt_list (c_out_buffer c)) = concat (g_got gh (l_world st) sk)
    \<and> (opt_list (c_out_buffer c) = [] \<longrightarrow> g_wire gh (l_world st) sk = concat (g_got gh (l_world st) sk))"
proof -
  have "echo_good c (g_got gh (l_world st) sk) (outstream (g_wire gh) sk (c, l_world st))"
    using H
  proof
    assume "H = echo_handler os"
    with run have "loop_runs rx os dbg (default_handler\<lparr>on_traffic := as_callback (echo_traffic os)\<rparr>) start st"
      by (simp add: echo_handler_def)
    from echo.run.runs_good [OF this os rx start c] show ?thesis .
  next
    assume "H = unix_echo_handler os"
    with run have "loop_runs rx os dbg (default_handler\<lparr>on_traffic := as_callback (unix_echo_traffic os)\<rparr>) start st"
      by (simp add: unix_echo_handler_def)
    from unix_echo.run.runs_good [OF this os rx start c] show ?thesis .
  qed
  then show ?thesis by (auto simp: echo_good_def outstream_def)
qed

text \<open>One connection is accepted, then four bytes are read in two pieces; the peer takes a byte at once.\<close>

declare accept_loop.simps [code]

definition port_turns :: "(sim, unit) handler \<Rightarrow> bytes list \<Rightarrow> nat option outcome \<times> nat option outcome \<times> (sim, unit) eloop" where
  "port_turns H reads =
     (case loop_turn port_reactor port_os False H None (port_loop reads) of
        (r1, st1) \<Rightarrow> (case loop_turn port_reactor port_os False H None st1 of (r, st) \<Rightarrow> (r1, r, st)))"

lemma port_turns_run:
  assumes "port_turns H reads = (Ok None, Ok None, st)"
  shows "loop_runs port_reactor port_os False H (port_loop reads) st"
    and "l_connections (port_loop reads) = []" and "pending (l_handle (port_loop reads)) = []"
proof -
  from assms obtain st1 where "loop_turn port_reactor port_os False H None (port_loop reads) = (Ok None, st1)"
    "loop_turn port_reactor port_os False H None st1 = (Ok None, st)" by (auto simp: port_turns_def split: prod.splits)
  then show "loop_runs port_reactor port_os False H (port_loop reads) st"
    by (rule loop_runs.turns_on [OF loop_runs.turns_on [OF loop_runs.begins]])
  show "l_connections (port_loop reads) = []" "pending (l_handle (port_loop reads)) = []"
    by (simp_all add: port_loop_def sample_loop_def handle_new_def pending_def)
qed

lemma echo_whole_run_witness:
  "\<exists>st c. port_turns (echo_handler port_os) [[1, 2, 3], [4]] = (Ok None, Ok None, st)
    \<and> slab_get (l_connections st) 0 = Some c \<and> c_socket c = Some (Tcp 5)
    \<and> sim_pieces (l_world st) (Tcp 5) = [[1, 2, 3], [4]] \<and> avail c = []
    \<and> sim_sent (l_world st) (Tcp 5) @ concat (opt_list (c_out_buffer c)) = [1, 2, 3, 4]"
proof -
  let ?run = "port_turns (echo_handler port_os) [[1, 2, 3], [4]]"
  obtain r1 r st where run: "?run = (r1, r, st)" by (metis surj_pair)
  have "fst ?run = Ok None" "fst (snd ?run) = Ok None"
    "map_option c_socket (slab_get (l_connections (snd (snd ?run))) 0) = Some (Some (Tcp 5))"
    "sim_pieces (l_world (snd (snd ?run))) (Tcp 5) = [[1, 2, 3], [4]]" by code_simp+
  with run have ok: "?run = (Ok None, Ok None, st)" and got: "sim_pieces (l_world st) (Tcp 5) = [[1, 2, 3], [4]]"
    and "map_option c_socket (slab_get (l_connections st) 0) = Some (Some (Tcp 5))" by simp_all
  then obtain c where c: "slab_get (l_connections st) 0 = Some c" "c_socket c = Some (Tcp 5)" by auto
  from echo_whole_run [OF _ port_turns_run [OF ok] port_streams port_others c] got ok c show ?thesis
    by (simp add: port_ghost_def)
qed

end
