(* ===== verification/JsonRuns.thy ===== *)
theory JsonRuns
  imports Codec EchoRuns
begin

text \<open>
  The JSON server of \<open>examples/json-codec.rs\<close> in whole runs of an event loop: its handler keeps the
  contract \<open>stream_server\<close>, in which the answers are the complete messages of all pieces but the last.
\<close>

subsection \<open>The handler\<close>

definition json_handler :: "'v json_lib \<Rightarrow> 'w os \<Rightarrow> ('w, unit) handler" where
  "json_handler lib os = default_handler
     \<lparr>on_open := (\<lambda>c (h, w). case json_open c of (a, c') \<Rightarrow> (a, c', h, w)),
      on_traffic := (\<lambda>c (h, w). case json_traffic os lib c w of (_, c', w') \<Rightarrow> (ActNone, c', h, w'))\<rparr>"

text \<open>
  Of a peer that sends well-formed messages: what has been answered are its first messages, framed
  again; every message that was complete before the last piece arrived is among them; the rest is
  still there.
\<close>

definition json_good :: "'v json_lib \<Rightarrow> unit conn \<Rightarrow> bytes list \<Rightarrow> bytes \<Rightarrow> bool" where
  "json_good lib c got out \<longleftrightarrow>
     c_codec c = Some () \<and> opt_list (c_io_buffer c) = [] \<and>
     (\<forall>vs bodies rest. list_all2 (json_prints lib) vs bodies \<longrightarrow> concat got @ rest = concat (map frame32 bodies) \<longrightarrow>
        (\<exists>n p. out = concat (map frame32 (take n bodies)) \<and> concat (butlast got) = out @ p \<and> unframe32 p = None
           \<and> concat got = out @ avail c))"

subsection \<open>What one call does to the connection\<close>

lemma write_bytes_same_out: "write_bytes os buf (c, w) = (r, (c', w')) \<Longrightarrow> same_but_out c c'"
  by (rule write_bytes_frame(1))

lemma json_send_frame:
  assumes "conn_send (JsonCodec lib) os m (c, w) = (r, (c', w'))" and "c_socket c = Some sk"
  shows "c_socket c' = Some sk \<and> c_io_buffer c' = c_io_buffer c \<and> (c_codec c' = c_codec c) \<and> sends os sk w w' \<and> r \<noteq> Panic \<and> r \<noteq> Diverge"
proof (cases "c_codec c")
  case None
  with assms show ?thesis by (auto simp: conn_send_def)
next
  case (Some k)
  obtain r1 k1 buf where e: "codec_encode (JsonCodec lib) k m [] = (r1, k1, buf)" by (metis surj_pair)
  have eq: "c\<lparr>c_codec := Some k1\<rparr> = c" using Some by (cases c) simp
  obtain r2 c2 w2 where wb: "write_bytes os buf (c, w) = (r2, (c2, w2))" by (metis surj_pair)
  from write_bytes_no_panic [OF wb] assms(2) have r2: "r2 \<noteq> Panic" "r2 \<noteq> Diverge" by simp_all
  from sends_onlyD [OF write_bytes_sends_only wb r2(1)] assms(2) have "c_socket c2 = Some sk" "sends os sk w w2" by simp_all
  moreover note same_but_outD(4) [OF write_bytes_same_out [OF wb]] same_but_out_codec [OF write_bytes_same_out [OF wb]]
  moreover have "conn_send (JsonCodec lib) os m (c, w) = (case r1 of Inl e \<Rightarrow> (Err e, (c, w))
      | Inr _ \<Rightarrow> (case r2 of Ok _ \<Rightarrow> Ok () | Err e \<Rightarrow> Err e | Panic \<Rightarrow> Panic | Diverge \<Rightarrow> Diverge, (c2, w2)))"
    unfolding conn_send_def prod.case Some option.case e eq bind_io_def wb ret_def by (cases r1; cases r2) simp_all
  ultimately show ?thesis using assms r2 by (cases r1; cases r2) auto
qed

lemma next_message_frame_conn:
  assumes "next_message (JsonCodec lib) c = (r, c')"
  shows "c_socket c' = c_socket c \<and> c_io_buffer c' = c_io_buffer c \<and> c_codec c' = c_codec c \<and> c_out_buffer c' = c_out_buffer c
    \<and> r \<noteq> Panic \<and> r \<noteq> Diverge"
  using assms by (auto simp: next_message_def split: option.splits prod.splits sum.splits)

lemma json_traffic_frame:
  "json_traffic os lib c w = (r, c', w') \<Longrightarrow> c_socket c = Some sk \<Longrightarrow>
    c_socket c' = Some sk \<and> c_io_buffer c' = c_io_buffer c \<and> c_codec c' = c_codec c \<and> sends os sk w w'"
proof (induction os lib c w rule: json_traffic.induct)
  case (1 os lib c w)
  obtain r1 c1 where nm: "next_message (JsonCodec lib) c = (r1, c1)" by fastforce
  note f1 = next_message_frame_conn [OF nm]
  have sk: "c_socket c1 = Some sk" using f1 1(5) by simp
  consider (decoded) val where "r1 = Ok (Some (AnyValue val))" | (raw) b where "r1 = Ok (Some (AnyBytes b))"
    | (none) "r1 = Ok None" | (err) e where "r1 = Err e"
    using f1 by (cases r1; cases "case r1 of Ok x \<Rightarrow> x | _ \<Rightarrow> None"; cases "case r1 of Ok (Some x) \<Rightarrow> x") auto
  then show ?case
  proof cases
    case decoded
    obtain r2 c2 w2 where s: "conn_send (JsonCodec lib) os (AnyValue val) (c1, w) = (r2, (c2, w2))" by (metis surj_pair)
    note f2 = json_send_frame [OF s sk]
    have "json_traffic os lib c2 w2 = (r, c', w')"
      using 1(4) nm decoded s f2 by (cases r2) (auto simp: json_traffic.simps [of os lib c w])
    moreover have "c_socket c' = Some sk \<and> c_io_buffer c' = c_io_buffer c2 \<and> c_codec c' = c_codec c2 \<and> sends os sk w2 w'"
    proof (cases r2)
      case (Ok u)
      note ih = 1(2) [OF nm [symmetric] decoded refl refl s [symmetric] Ok refl]
      show ?thesis by (rule ih) (use calculation f2 in simp_all)
    next
      case (Err e)
      note ih = 1(3) [OF nm [symmetric] decoded refl refl s [symmetric] Err refl]
      show ?thesis by (rule ih)  (use calculation f2 in simp_all)
    qed (use f2 in simp_all)
    ultimately show ?thesis using f1 f2 by (auto intro: sends_trans)
  qed (use 1 nm f1 sk in \<open>auto simp: json_traffic.simps [of os lib c w]\<close>)
qed

lemma conn_send_identity: "conn_send (JsonCodec lib) os m (c, w) = (r, (c', w')) \<Longrightarrow> same_identity c c'"
  by (auto simp: conn_send_def bind_io_def ret_def same_identity_def split: option.splits prod.splits sum.splits outcome.splits
      dest!: write_bytes_same_out [THEN same_identity_out])

lemma next_message_identity: "next_message cd c = (r, c') \<Longrightarrow> same_identity c c'"
  by (auto simp: next_message_def same_identity_def split: option.splits prod.splits sum.splits)

lemma json_traffic_identity: "json_traffic os lib c w = (r, c', w') \<Longrightarrow> same_identity c c'"
proof (induction os lib c w rule: json_traffic.induct)
  case (1 os lib c w)
  obtain r1 c1 where nm: "next_message (JsonCodec lib) c = (r1, c1)" by fastforce
  note f1 = next_message_identity [OF nm]
  show ?case
  proof (cases "\<exists>val. r1 = Ok (Some (AnyValue val))")
    case True
    then obtain val where decoded: "r1 = Ok (Some (AnyValue val))" by blast
    obtain r2 c2 w2 where s: "conn_send (JsonCodec lib) os (AnyValue val) (c1, w) = (r2, (c2, w2))" by (metis surj_pair)
    note f2 = same_identity_trans [OF f1 conn_send_identity [OF s]]
    have run: "(case r2 of Panic \<Rightarrow> (Panic, (c2, w2)) | Diverge \<Rightarrow> (Diverge, (c2, w2)) | _ \<Rightarrow> json_traffic os lib c2 w2) = (r, c', w')"
      using 1(4) nm decoded s by (cases r2) (simp_all add: json_traffic.simps [of os lib c w])
    show ?thesis
    proof (cases r2)
      case (Ok u)
      from 1(2) [OF nm [symmetric] decoded refl refl s [symmetric] Ok refl] run Ok same_identity_trans [OF f2] show ?thesis by simp
    next
      case (Err e)
      from 1(3) [OF nm [symmetric] decoded refl refl s [symmetric] Err refl] run Err same_identity_trans [OF f2] show ?thesis by simp
    qed (use run f2 in simp_all)
  next
    case False
    show ?thesis
    proof (cases "\<exists>b. r1 = Ok (Some (AnyBytes b))")
      case True
      then obtain b where raw: "r1 = Ok (Some (AnyBytes b))" by blast
      with 1(4) nm have "json_traffic os lib c1 w = (r, c', w')" by (simp add: json_traffic.simps [of os lib c w])
      from same_identity_trans [OF f1 1(1) [OF nm [symmetric] raw refl refl this]] show ?thesis .
    next
      case none: False
      have "c' = c1"
        using 1(4) nm False none
        by (auto simp: json_traffic.simps [of os lib c w] split: outcome.splits option.splits any_msg.splits)
      with f1 show ?thesis by simp
    qed
  qed
qed

lemma json_handler_ok:
  fixes os :: "'w os"
  shows "handler_ok (json_handler lib os)"
proof -
  have "handler_ok (default_handler :: ('w, unit) handler)" by (rule default_handler_ok)
  moreover have "callback_ok (\<lambda>c (h :: loop_handle, w :: 'w). case json_open c of (a, c') \<Rightarrow> (a, c', h, w))"
    by (auto simp: callback_ok_def json_open_def set_codec_def same_identity_def)
  moreover have "callback_ok (\<lambda>c (h :: loop_handle, w). case json_traffic os lib c w of (_, c', w') \<Rightarrow> (ActNone, c', h, w'))"
    by (auto simp: callback_ok_def split: prod.splits dest: json_traffic_identity)
  ultimately show ?thesis by (simp add: handler_ok_def json_handler_def)
qed

subsection \<open>The contract\<close>

lemma list_all2_drop_prints:
  "list_all2 (json_prints lib) vs bodies \<Longrightarrow> list_all2 (json_prints lib) (drop n vs) (drop n bodies)"
  by (rule list_all2_dropI)

lemma prints_sendable: "list_all2 (json_prints lib) vs bodies \<Longrightarrow> \<forall>b \<in> set bodies. length b < 2 ^ 32"
  by (induction rule: list_all2_induct) (auto simp: json_prints_def)

lemma json_call_good:
  assumes ok: "transport_ok os wire" and soft: "soft_writes os sk" and sk: "c_socket c = Some sk"
    and good: "json_good lib c got (outstream wire sk (c, w))"
    and run: "json_traffic os lib (c\<lparr>c_io_buffer := Some data\<rparr>) w = (r, c', w')"
  shows "json_good lib (merge_io c') (got @ [data]) (outstream wire sk (c', w'))"
proof -
  let ?c = "c\<lparr>c_io_buffer := Some data\<rparr>"
  have skc: "c_socket ?c = Some sk" using sk by simp
  note fr = json_traffic_frame [OF run skc]
  have codec: "c_codec c = Some ()" and io: "opt_list (c_io_buffer c) = []" using good by (simp_all add: json_good_def)
  have merged: "c_codec (merge_io c') = Some ()" "opt_list (c_io_buffer (merge_io c')) = []"
    using fr codec by (simp_all add: merge_io_def split: option.split)
  have "\<exists>n p. outstream wire sk (c', w') = concat (map frame32 (take n bodies)) \<and> concat (butlast (got @ [data])) = outstream wire sk (c', w') @ p
      \<and> unframe32 p = None \<and> concat (got @ [data]) = outstream wire sk (c', w') @ avail (merge_io c')"
    if vs: "list_all2 (json_prints lib) vs bodies" and g: "concat (got @ [data]) @ rest = concat (map frame32 bodies)" for vs bodies rest
  proof -
    from g have "concat got @ (data @ rest) = concat (map frame32 bodies)" by simp
    with good vs obtain n where o: "outstream wire sk (c, w) = concat (map frame32 (take n bodies))"
      and all: "concat got = outstream wire sk (c, w) @ avail c" unfolding json_good_def by blast
    have av: "avail c = opt_list (c_in_buffer c)" using io by (simp add: avail_def)
    have "concat (map frame32 bodies) = concat (map frame32 (take n bodies)) @ concat (map frame32 (drop n bodies))"
      by (metis append_take_drop_id concat_append map_append)
    with g all o have stream: "avail c @ (data @ rest) = concat (map frame32 (drop n bodies)) @ []" by simp
    have "\<forall>b \<in> set (drop n bodies). length b < 2 ^ 32" using prints_sendable [OF list_all2_drop_prints [OF vs]] .
    from length_prefixed.prefix_split [OF this stream] obtain ms1 ms2 p where
      split: "drop n bodies = ms1 @ ms2" "avail c = concat (map frame32 ms1) @ p" "unframe32 p = None" by auto
    have ans: "opt_list (c_in_buffer c') = p \<and> outstream wire sk (c', w') = outstream wire sk (c, w) @ concat (map frame32 ms1)"
    proof (cases "c_in_buffer c")
      case None
      with av split(2) have "ms1 = [] \<and> p = []"
        using length_prefixed.frame_nonempty prints_sendable [OF list_all2_drop_prints [OF vs]] split(1)
        by (cases ms1) (auto simp: frame32_def put_u32_def)
      moreover have "json_traffic os lib ?c w = (Ok (), (?c, w))"
        using None codec by (simp add: json_traffic.simps next_message_def)
      ultimately show ?thesis using run None by (auto simp: outstream_def)
    next
      case (Some inb)
      have prints: "list_all2 (json_prints lib) (take (length ms1) (drop n vs)) ms1"
        using list_all2_drop_prints [OF vs, of n] split(1) by (metis append_eq_conv_conj list_all2_takeI)
      have "\<forall>w buf e w'. socket_write os w sk buf = (Inl e, w') \<longrightarrow> retryable e" using soft unfolding soft_writes_def by blast
      moreover have "c_in_buffer ?c = Some (concat (map frame32 ms1) @ p)" "c_codec ?c = Some ()" using Some av split(2) codec by simp_all
      ultimately have "\<exists>c' w'. json_traffic os lib ?c w = (Ok (), (c', w')) \<and> c_in_buffer c' = Some p
          \<and> wire w' sk @ concat (opt_list (c_out_buffer c')) = wire w sk @ concat (opt_list (c_out_buffer ?c)) @ concat (map frame32 ms1)"
        by (intro json_server_answers [OF ok skc _ _ prints _ split(3)])
      with run show ?thesis by (auto simp: outstream_def)
    qed
    have "outstream wire sk (c', w') = concat (map frame32 (take (n + length ms1) bodies))"
      using ans o split(1) by (simp add: take_add)
    moreover have "concat got = outstream wire sk (c', w') @ p" using all split(2) ans by simp
    moreover have "avail (merge_io c') = p @ data" unfolding merge_io_avail using ans fr by (simp add: avail_def)
    ultimately show ?thesis using split(3) by auto
  qed
  with merged show ?thesis unfolding json_good_def by blast
qed

interpretation json_run: stream_server "json_handler lib" "set_codec ()" "json_good lib"
proof
  fix os :: "'w os" and c :: "unit conn" and s :: "unit conn slab" and h :: loop_handle and w :: 'w
  show "on_open (json_handler lib os) c (h, w) = (ActNone, set_codec () c, h, w)"
    and "on_close (json_handler lib os) c (h, w) = (ActNone, c, h, w)"
    and "on_tick (json_handler lib os) s (h, w) = ((0, ActNone), s, h, w)"
    by (simp_all add: json_handler_def default_handler_def json_open_def)
next
  fix c :: "unit conn"
  show "c_socket (set_codec () c) = c_socket c \<and> c_out_buffer (set_codec () c) = c_out_buffer c" by (simp add: set_codec_def)
  show "avail c = [] \<Longrightarrow> c_codec c = None \<Longrightarrow> json_good lib (set_codec () c) [] []"
    by (auto simp: json_good_def set_codec_def avail_def length_prefixed.unframe_Nil intro!: exI [of _ 0])
next
  fix c c' :: "unit conn" and got out
  show "same_but_out c c' \<Longrightarrow> json_good lib c' got out = json_good lib c got out"
    by (simp add: json_good_def avail_out same_but_outD same_but_out_codec)
next
  fix os :: "'w os" and c c' :: "unit conn" and sk h a h' w w'
  assume "c_socket c = Some sk" "on_traffic (json_handler lib os) c (h, w) = (a, c', h', w')"
  then show "h' = h \<and> c_socket c' = Some sk \<and> sends os sk w w'"
    by (auto simp: json_handler_def split: prod.splits dest: json_traffic_frame)
next
  fix os :: "'w os" and wire sk and c c' :: "unit conn" and got w data h a h' w'
  assume a: "transport_ok os wire" "soft_writes os sk" "c_socket c = Some sk" "json_good lib c got (outstream wire sk (c, w))"
    and run: "on_traffic (json_handler lib os) (c\<lparr>c_io_buffer := Some data\<rparr>) (h, w) = (a, c', h', w')"
  then obtain r where "json_traffic os lib (c\<lparr>c_io_buffer := Some data\<rparr>) w = (r, c', w')" "a = ActNone"
    by (auto simp: json_handler_def split: prod.splits)
  with json_call_good [OF a] show "a = ActNone \<and> json_good lib (merge_io c') (got @ [data]) (outstream wire sk (c', w'))"
    by blast
qed

subsection \<open>Properties\<close>

text \<open>
  The JSON server answers in order and keeps up to one read behind, in every run. Take any run of a loop
  that began empty, as for the echo servers, and a connection whose peer is still there and has sent
  the messages \<open>bodies\<close> so far, the last perhaps in part. Between any two turns the bytes answered on that
  connection (accepted or queued) are the first \<open>n\<close> of these messages, each framed again and in order;
  every message that was complete before the last piece arrived is among them; what has not been
  answered is still there to be read, to the byte.
\<close>

theorem json_whole_run:
  fixes os :: "'w os" and lib :: "'v json_lib"
  assumes run: "loop_runs rx os dbg (json_handler lib os) start st"
    and start: "l_connections start = []" "pending (l_handle start) = []"
    and os: "streams_ok os gh" "soft_writes os sk" and rx: "others_respect rx gh sk"
    and c: "slab_get (l_connections st) key = Some c" "c_socket c = Some sk"
    and peer: "list_all2 (json_prints lib) vs bodies" "concat (g_got gh (l_world st) sk) @ rest = concat (map frame32 bodies)"
  shows "\<exists>n p. g_wire gh (l_world st) sk @ concat (opt_list (c_out_buffer c)) = concat (map frame32 (take n bodies))
    \<and> concat (butlast (g_got gh (l_world st) sk)) = concat (map frame32 (take n bodies)) @ p \<and> unframe32 p = None
    \<and> concat (g_got gh (l_world st) sk) = concat (map frame32 (take n bodies)) @ avail c"
proof -
  from json_run.runs_good [OF run os rx start c]
  have "json_good lib c (g_got gh (l_world st) sk) (outstream (g_wire gh) sk (c, l_world st))" .
  with peer obtain n p where "outstream (g_wire gh) sk (c, l_world st) = concat (map frame32 (take n bodies))"
    "concat (butlast (g_got gh (l_world st) sk)) = outstream (g_wire gh) sk (c, l_world st) @ p" "unframe32 p = None"
    "concat (g_got gh (l_world st) sk) = outstream (g_wire gh) sk (c, l_world st) @ avail c"
    unfolding json_good_def by blast
  then show ?thesis unfolding outstream_def prod.case by metis
qed

text \<open>A message and the head of another arrive in three pieces; JSON values are byte lists.\<close>

definition list_lib :: "bytes json_lib" where
  "list_lib = \<lparr>to_vec = Inr, from_slice = Inr\<rparr>"

lemma json_whole_run_witness:
  "\<exists>st c n p. port_turns (json_handler list_lib port_os) [[0, 0, 0, 1], [7, 0, 0], [0]] = (Ok None, Ok None, st)
    \<and> slab_get (l_connections st) 0 = Some c \<and> c_socket c = Some (Tcp 5)
    \<and> sim_pieces (l_world st) (Tcp 5) = [[0, 0, 0, 1], [7, 0, 0], [0]]
    \<and> sim_sent (l_world st) (Tcp 5) @ concat (opt_list (c_out_buffer c)) = concat (map frame32 (take n [[7], []]))
    \<and> [0, 0, 0, 1, 7, 0, 0] = concat (map frame32 (take n [[7], []])) @ p \<and> unframe32 p = None"
proof -
  let ?run = "port_turns (json_handler list_lib port_os) [[0, 0, 0, 1], [7, 0, 0], [0]]"
  obtain r1 r st where run: "?run = (r1, r, st)" by (metis surj_pair)
  have "fst ?run = Ok None" "fst (snd ?run) = Ok None"
    "map_option c_socket (slab_get (l_connections (snd (snd ?run))) 0) = Some (Some (Tcp 5))"
    "sim_pieces (l_world (snd (snd ?run))) (Tcp 5) = [[0, 0, 0, 1], [7, 0, 0], [0]]" by code_simp+
  with run have ok: "?run = (Ok None, Ok None, st)" and got: "sim_pieces (l_world st) (Tcp 5) = [[0, 0, 0, 1], [7, 0, 0], [0]]"
    and "map_option c_socket (slab_get (l_connections st) 0) = Some (Some (Tcp 5))" by simp_all
  then obtain c where c: "slab_get (l_connections st) 0 = Some c" "c_socket c = Some (Tcp 5)" by auto
  have prints: "list_all2 (json_prints list_lib) [[7], []] [[7], []]" by (simp add: json_prints_def list_lib_def)
  have "concat (g_got port_ghost (l_world st) (Tcp 5)) @ [0] = concat (map frame32 [[7], []])"
    using got by (simp add: port_ghost_def frame32_def put_u32_def)
  from json_whole_run [OF port_turns_run [OF ok] port_streams port_others c prints this] got ok c show ?thesis
    by (simp add: port_ghost_def) blast
qed

end
