(* ===== verification/Delivery.thy ===== *)
theory Delivery
  imports Echo
begin

text \<open>
  From one client's line to the other clients' sockets: the task of the chat room puts commands in
  the channels of all loops (theory \<open>ChatRoom\<close>), each loop takes its own and writes. The lemmas here
  say what a batch of \<open>AsyncWrite\<close> commands does to every open connection of a loop; the theorem
  composes the two.
\<close>

subsection \<open>Letters\<close>

fun letter :: "gfd \<Rightarrow> command \<Rightarrow> bytes" where
  "letter g (AsyncWrite g' data) = (if g' = g then data else [])"
| "letter g _ = []"

definition letters :: "gfd \<Rightarrow> command list \<Rightarrow> bytes" where
  "letters g cmds = concat (map (letter g) cmds)"

definition reregister_works :: "'w os \<Rightarrow> bool" where
  "reregister_works os \<longleftrightarrow> (\<forall>w src token i. \<exists>w'. registry_reregister os w src token i = (Inr (), w'))"

text \<open>Every open connection has a socket of its own, and its descriptor names this loop and its slot.\<close>

definition placed :: "('w, 'k) eloop \<Rightarrow> bool" where
  "placed st \<longleftrightarrow>
     (\<forall>k c. slab_get (l_connections st) k = Some c \<longrightarrow>
        c_socket c \<noteq> None \<and> slab_index (c_gfd c) = k \<and> event_loop_index (c_gfd c) = unat (l_id st))
     \<and> (\<forall>k k' c c'. slab_get (l_connections st) k = Some c \<longrightarrow> slab_get (l_connections st) k' = Some c' \<longrightarrow>
          c_socket c = c_socket c' \<longrightarrow> k = k')"

lemma placedD:
  assumes "placed st" and "slab_get (l_connections st) k = Some c"
  obtains sk where "c_socket c = Some sk" "slab_index (c_gfd c) = k" "event_loop_index (c_gfd c) = unat (l_id st)"
  using assms unfolding placed_def by fast

lemma placed_apart:
  "placed st \<Longrightarrow> slab_get (l_connections st) k = Some c \<Longrightarrow> slab_get (l_connections st) k' = Some c' \<Longrightarrow>
    c_socket c = c_socket c' \<Longrightarrow> k = k'"
  unfolding placed_def by fast

text \<open>What a step did: each connection is where it was, and its stream has grown by what \<open>f\<close> says.\<close>

definition extended :: "('w \<Rightarrow> socket \<Rightarrow> bytes) \<Rightarrow> bytes \<Rightarrow> 'k conn \<times> 'w \<Rightarrow> 'k conn \<times> 'w \<Rightarrow> bool" where
  "extended wire d = (\<lambda>(c, w) (c', w'). same_but_out c c'
     \<and> (\<forall>sk. c_socket c = Some sk \<longrightarrow> outstream wire sk (c', w') = outstream wire sk (c, w) @ d))"

definition grown :: "('w \<Rightarrow> socket \<Rightarrow> bytes) \<Rightarrow> (gfd \<Rightarrow> bytes) \<Rightarrow> ('w, 'k) eloop \<Rightarrow> ('w, 'k) eloop \<Rightarrow> bool" where
  "grown wire f st st' \<longleftrightarrow>
     (\<forall>k. slab_get (l_connections st) k = None \<longrightarrow> slab_get (l_connections st') k = None)
     \<and> (\<forall>k c. slab_get (l_connections st) k = Some c \<longrightarrow> (\<exists>c'. slab_get (l_connections st') k = Some c'
          \<and> extended wire (f (c_gfd c)) (c, l_world st) (c', l_world st')))"

lemma grownD:
  assumes "grown wire f st st'"
  shows "slab_get (l_connections st) k = None \<Longrightarrow> slab_get (l_connections st') k = None"
    and "slab_get (l_connections st) k = Some c \<Longrightarrow> \<exists>c'. slab_get (l_connections st') k = Some c'
      \<and> extended wire (f (c_gfd c)) (c, l_world st) (c', l_world st')"
  using assms unfolding grown_def by blast+

lemma extended_refl: "extended wire [] s s"
  by (cases s) (simp add: extended_def)

lemma extended_trans:
  assumes "extended wire d (c, w) (c', w')" and "extended wire d' (c', w') (c'', w'')"
  shows "extended wire (d @ d') (c, w) (c'', w'')"
  using assms same_but_outD(1) [of c c'] by (auto simp: extended_def intro: same_but_out_trans)

lemma extended_wire: "wire w2 = wire w' \<Longrightarrow> extended wire d s (c', w2) = extended wire d s (c', w')"
  by (cases s) (simp add: extended_def outstream_def)

lemma grown_refl: "grown wire (\<lambda>_. []) st st"
  by (simp add: grown_def extended_refl)

lemma grown_same:
  assumes "grown wire f st st'" and "l_connections st2 = l_connections st'" and "wire (l_world st2) = wire (l_world st')"
  shows "grown wire f st st2"
  using assms(1) unfolding grown_def assms(2) extended_wire [where wire = wire, OF assms(3)] .

lemma grown_start:
  assumes "grown wire f st st'" and "l_connections st2 = l_connections st" and "l_world st2 = l_world st"
  shows "grown wire f st2 st'"
  using assms(1) unfolding grown_def assms(2,3) .

lemma grown_trans:
  assumes 1: "grown wire f st st'" and 2: "grown wire f' st' st''"
  shows "grown wire (\<lambda>g. f g @ f' g) st st''"
  unfolding grown_def
proof (intro conjI allI impI)
  fix k assume "slab_get (l_connections st) k = None"
  from grownD(1) [OF 2 grownD(1) [OF 1 this]] show "slab_get (l_connections st'') k = None" .
next
  fix k c assume "slab_get (l_connections st) k = Some c"
  from grownD(2) [OF 1 this] obtain c' where c': "slab_get (l_connections st') k = Some c'"
    "extended wire (f (c_gfd c)) (c, l_world st) (c', l_world st')" by blast
  from grownD(2) [OF 2 c'(1)] obtain c'' where c'': "slab_get (l_connections st'') k = Some c''"
    "extended wire (f' (c_gfd c')) (c', l_world st') (c'', l_world st'')" by blast
  have "c_gfd c' = c_gfd c" using c'(2) by (simp add: extended_def same_but_outD)
  with extended_trans [OF c'(2) c''(2)] c''(1)
  show "\<exists>c''. slab_get (l_connections st'') k = Some c'' \<and> extended wire (f (c_gfd c) @ f' (c_gfd c)) (c, l_world st) (c'', l_world st'')"
    by auto
qed

lemma grown_placed:
  assumes g: "grown wire f st st'" and p: "placed st" and id: "l_id st' = l_id st"
  shows "placed st'"
proof -
  have prior: "\<exists>c. slab_get (l_connections st) k = Some c \<and> c_socket c' = c_socket c \<and> c_gfd c' = c_gfd c"
    if "slab_get (l_connections st') k = Some c'" for k c'
  proof (cases "slab_get (l_connections st) k")
    case None
    with grownD(1) [OF g] that show ?thesis by simp
  next
    case (Some c)
    from grownD(2) [OF g Some] that have "same_but_out c c'" by (auto simp: extended_def)
    with Some same_but_outD(1,2) show ?thesis by blast
  qed
  show ?thesis
    unfolding placed_def
  proof (intro conjI allI impI)
    fix k c' assume "slab_get (l_connections st') k = Some c'"
    from prior [OF this] obtain c where c: "slab_get (l_connections st) k = Some c" "c_socket c' = c_socket c" "c_gfd c' = c_gfd c" by blast
    from placedD [OF p c(1)] c(2,3) id
    show "c_socket c' \<noteq> None" "slab_index (c_gfd c') = k" "event_loop_index (c_gfd c') = unat (l_id st')" by auto
  next
    fix k k' c c' assume a: "slab_get (l_connections st') k = Some c" "slab_get (l_connections st') k' = Some c'" "c_socket c = c_socket c'"
    from prior [OF a(1)] prior [OF a(2)] a(3) show "k = k'" by (auto intro: placed_apart [OF p])
  qed
qed

subsection \<open>One command\<close>

lemma reregister_same:
  assumes iso: "isolated os wire" and works: "reregister_works os" and p: "placed st"
  shows "\<exists>w'. reregister os key st = (Ok (), st\<lparr>l_world := w'\<rparr>) \<and> wire w' = wire (l_world st)"
proof (cases "slab_get (l_connections st) key")
  case None
  then show ?thesis by (auto simp: reregister_def intro!: exI [of _ "l_world st"])
next
  case (Some c)
  obtain sk where sk: "c_socket c = Some sk" by (rule placedD [OF p Some])
  have "\<exists>w'. socket_reregister os (l_world st) sk token i = (Inr (), w') \<and> wire w' = wire (l_world st)" for token i
  proof -
    obtain w' where "registry_reregister os (l_world st) (source_of sk) token i = (Inr (), w')"
      using works unfolding reregister_works_def by blast
    with isolatedD(8) [OF iso, of "l_world st" "source_of sk" token i] show ?thesis
      by (cases sk) (simp_all add: socket_reregister_def source_of_def)
  qed
  note rr = this
  obtain w1 where w1: "socket_reregister os (l_world st) sk (of_nat key) Readable = (Inr (), w1)" "wire w1 = wire (l_world st)" using rr by blast
  obtain w2 where w2: "socket_reregister os (l_world st) sk (of_nat key) ReadableWritable = (Inr (), w2)" "wire w2 = wire (l_world st)" using rr by blast
  have "reregister os key st = (Ok (), st\<lparr>l_world := if (case c_out_buffer c of None \<Rightarrow> True | Some q \<Rightarrow> q = []) then w1 else w2\<rparr>)"
    using Some sk w1(1) w2(1) by (simp add: reregister_def on_world_def disable_write_def enable_write_def Let_def)
  moreover have "wire (if (case c_out_buffer c of None \<Rightarrow> True | Some q \<Rightarrow> q = []) then w1 else w2) = wire (l_world st)"
    using w1(2) w2(2) by simp
  ultimately show ?thesis by blast
qed

lemma async_write_grown:
  fixes st :: "('w, 'k) eloop" and H :: "('w, 'k) handler"
  assumes ok: "transport_ok os wire" and iso: "isolated os wire" and works: "reregister_works os"
    and soft: "\<And>sk. soft_writes os sk" and p: "placed st"
  shows "\<exists>st'. async_write os H g data st = (Ok (), st') \<and> grown wire (\<lambda>g'. letter g' (AsyncWrite g data)) st st'
    \<and> l_id st' = l_id st \<and> l_handle st' = l_handle st"
proof (cases "event_loop_index g = unat (l_id st) \<and> (\<exists>c. slab_get (l_connections st) (slab_index g) = Some c \<and> c_gfd c = g)")
  case False
  then have run: "async_write os H g data st = (Ok (), st)"
    by (auto simp: async_write_def Let_def split: option.splits)
  have "c_gfd c \<noteq> g" if "slab_get (l_connections st) k = Some c" for k c
    using placedD [OF p that] that False by metis
  then have "grown wire (\<lambda>g'. letter g' (AsyncWrite g data)) st st"
    by (auto simp: grown_def extended_refl)
  with run show ?thesis by blast
next
  case True
  then obtain c where c: "slab_get (l_connections st) (slab_index g) = Some c" "c_gfd c = g" by blast
  obtain sk where sk: "c_socket c = Some sk" by (rule placedD [OF p c(1)])
  have no_hard: "retryable e" if "conn_write os data (c, l_world st) = (Err e, s)" for e s
  proof -
    obtain r w1 where r: "socket_write os (l_world st) sk data = (r, w1)" by fastforce
    from soft [of sk] r have "\<And>e'. r = Inl e' \<Longrightarrow> retryable e'" unfolding soft_writes_def by blast
    with that r sk show ?thesis by (cases r) (auto simp: conn_write_def retryable_def split: if_splits)
  qed
  obtain c1 w1 where w: "conn_write os data (c, l_world st) = (Ok (length data), (c1, w1))"
    "outstream wire sk (c1, w1) = outstream wire sk (c, l_world st) @ data" "same_but_out c c1" "others_unchanged wire sk (l_world st) w1"
    by (rule slice_sink.write_cases [OF ok sk, of data "l_world st"]) (use no_hard in blast)+
  let ?st1 = "st\<lparr>l_connections := slab_insert (slab_index g) c1 (l_connections st), l_world := w1\<rparr>"
  have grow: "grown wire (\<lambda>g'. letter g' (AsyncWrite g data)) st ?st1"
    unfolding grown_def
  proof (intro conjI allI impI)
    fix k assume "slab_get (l_connections st) k = None"
    with c show "slab_get (l_connections ?st1) k = None" by auto
  next
    fix k d assume d: "slab_get (l_connections st) k = Some d"
    show "\<exists>d'. slab_get (l_connections ?st1) k = Some d' \<and> extended wire (letter (c_gfd d) (AsyncWrite g data)) (d, l_world st) (d', l_world ?st1)"
    proof (cases "k = slab_index g")
      case True
      with d c w sk show ?thesis by (simp add: extended_def)
    next
      case False
      have "c_gfd d \<noteq> g" using placedD [OF p d] False by metis
      moreover have "c_socket d \<noteq> Some sk" using placed_apart [OF p d c(1)] False sk by auto
      ultimately show ?thesis using d False w(4) by (auto simp: extended_def outstream_def others_unchanged_def)
    qed
  qed
  then have p1: "placed ?st1" by (rule grown_placed [OF _ p]) simp
  obtain w' where w': "reregister os (slab_index g) ?st1 = (Ok (), ?st1\<lparr>l_world := w'\<rparr>)" "wire w' = wire (l_world ?st1)"
    using reregister_same [OF iso works p1] by blast
  have "async_write os H g data st = reregister os (slab_index g) ?st1"
    using True c w(1) by (simp add: async_write_def on_conn_def Let_def)
  moreover have "grown wire (\<lambda>g'. letter g' (AsyncWrite g data)) st (?st1\<lparr>l_world := w'\<rparr>)"
    by (rule grown_same [OF grow]) (use w' in simp_all)
  ultimately show ?thesis using w'(1) by simp
qed

subsection \<open>A batch of commands\<close>

lemma next_command_pending:
  "next_command h = (case pending h of [] \<Rightarrow> (None, h) | c # cs \<Rightarrow> (Some c, snd (next_command h)))
   \<and> (\<forall>c cs. pending h = c # cs \<longrightarrow> pending (snd (next_command h)) = cs)"
  by (auto simp: next_command.simps pending_def split: list.splits)

theorem async_batch_grown:
  fixes st :: "('w, 'k) eloop" and H :: "('w, 'k) handler"
  assumes ok: "transport_ok os wire" and iso: "isolated os wire" and works: "reregister_works os"
    and soft: "\<And>sk. soft_writes os sk"
  shows "placed st \<Longrightarrow> \<forall>cmd \<in> set (pending (l_handle st)). is_async cmd \<Longrightarrow> length (pending (l_handle st)) \<le> n \<Longrightarrow>
    \<exists>st'. process_commands os dbg H n st = (Ok (), st') \<and> pending (l_handle st') = []
      \<and> grown wire (\<lambda>g. letters g (pending (l_handle st))) st st'"
proof (induction n arbitrary: st)
  case 0
  then show ?case using grown_refl by (auto simp: letters_def)
next
  case (Suc n)
  show ?case
  proof (cases "pending (l_handle st)")
    case Nil
    with next_command_pending [of "l_handle st"] have "process_commands os dbg H (Suc n) st = (Ok (), st\<lparr>l_handle := l_handle st\<rparr>)" by simp
    with Nil grown_refl [of wire st] show ?thesis by (auto simp: letters_def)
  next
    case (Cons cmd cmds)
    then obtain g data where cmd: "cmd = AsyncWrite g data" using Suc.prems(2) by (cases cmd) auto
    obtain h' where h': "next_command (l_handle st) = (Some cmd, h')" "pending h' = cmds"
      using next_command_pending [of "l_handle st"] Cons by (metis list.simps(5) snd_conv)
    let ?st0 = "st\<lparr>l_handle := h'\<rparr>"
    have "placed ?st0" using Suc.prems(1) by (simp add: placed_def)
    from async_write_grown [OF ok iso works soft this, of H g data] obtain st1 where
      1: "async_write os H g data ?st0 = (Ok (), st1)" "grown wire (\<lambda>g'. letter g' cmd) ?st0 st1" "l_id st1 = l_id ?st0" "l_handle st1 = h'"
      using cmd by auto
    have "placed st1" by (rule grown_placed [OF 1(2) \<open>placed ?st0\<close> 1(3)])
    with Suc.IH [of st1] Suc.prems(2,3) Cons 1(4) h'(2) obtain st' where
      2: "process_commands os dbg H n st1 = (Ok (), st')" "pending (l_handle st') = []" "grown wire (\<lambda>g. letters g cmds) st1 st'" by auto
    have "process_commands os dbg H (Suc n) st = (Ok (), st')"
      using h'(1) cmd 1(1) 2(1) by (simp add: bind_io_Ok)
    moreover have "grown wire (\<lambda>g. letters g (pending (l_handle st))) ?st0 st'"
      using grown_trans [OF 1(2) 2(3)] Cons by (simp add: letters_def)
    then have "grown wire (\<lambda>g. letters g (pending (l_handle st))) st st'" by (rule grown_start) simp_all
    ultimately show ?thesis using 2(2) by blast
  qed
qed

subsection \<open>The task\<close>

lemma trigger_world:
  assumes "isolated os v"
  shows "v (snd (snd (trigger os p cmd (h, w)))) = v w"
proof -
  have wk: "v (snd (snd (wake_handle os (h', w)))) = v w" for h'
    using isolatedD(10) [OF assms, of w "waker_id (h_waker h')"]
    by (auto simp: wake_handle_def wake_def Let_def split: prod.splits sum.splits)
  obtain b h1 where e: "enqueue p cmd h = (b, h1)" by fastforce
  obtain r2 h2 w2 where w: "wake_handle os (h1, w) = (r2, (h2, w2))" by (metis surj_pair)
  with wk [of h1] have "v w2 = v w" by simp
  with e w show ?thesis by (cases b; cases r2) (simp_all add: trigger_def)
qed

lemma send_command_world:
  assumes "isolated os v" and "send_command os g cmd (eh, w) = (r, (eh', w'))"
  shows "v w' = v w \<and> (e_loops eh = None \<longleftrightarrow> e_loops eh' = None)"
proof (cases "e_loops eh")
  case None
  with assms(2) show ?thesis by (simp add: send_command_def)
next
  case (Some hs)
  show ?thesis
  proof (cases "event_loop_index g < length hs")
    case False
    with Some assms(2) show ?thesis by (auto simp: send_command_def Let_def)
  next
    case True
    obtain r1 h1 w1 where t: "trigger os (priority cmd) cmd (hs ! event_loop_index g, w) = (r1, (h1, w1))" by (metis surj_pair)
    with trigger_world [OF assms(1), of "priority cmd" cmd "hs ! event_loop_index g" w] have "v w1 = v w" by simp
    with Some True t assms(2) show ?thesis
      by (cases r1) (auto simp: send_command_def on_loop_def discard_result_def Let_def)
  qed
qed

lemma send_each_world:
  assumes iso: "isolated os v"
  shows "send_each os t gs (eh, w) = (r, (eh', w')) \<Longrightarrow> v w' = v w"
proof (induction gs arbitrary: eh w)
  case (Cons g gs)
  obtain r1 eh1 w1 where s: "(if g \<noteq> ct_sender t then send_command os g (AsyncWrite g (ct_msg t)) else ret ()) (eh, w) = (r1, (eh1, w1))"
    by (metis surj_pair)
  then have v1: "v w1 = v w" by (auto simp: ret_def split: if_splits dest: send_command_world [OF iso])
  show ?case
  proof (cases r1)
    case (Ok u)
    with Cons.prems s have "send_each os t gs (eh1, w1) = (r, (eh', w'))" by (simp add: bind_io_Ok)
    from Cons.IH [OF this] v1 show ?thesis by simp
  qed (use Cons.prems s v1 in \<open>simp_all add: bind_io_def\<close>)
qed (simp add: ret_def)

text \<open>Among commands for different descriptors there is one letter for each of them.\<close>

lemma letters_once:
  assumes "distinct cmds" and "set cmds = (\<lambda>g. AsyncWrite g m) ` A"
  shows "letters g cmds = (if g \<in> A then m else [])"
  using assms
proof (induction cmds arbitrary: A)
  case Nil
  then show ?case by (simp add: letters_def)
next
  case (Cons cmd cmds)
  then obtain g1 where g1: "cmd = AsyncWrite g1 m" "g1 \<in> A" by auto
  have "set cmds = set (cmd # cmds) - {cmd}" using Cons.prems(1) by auto
  also have "\<dots> = (\<lambda>g. AsyncWrite g m) ` (A - {g1})" using Cons.prems(2) g1(1) by auto
  finally have "letters g cmds = (if g \<in> A - {g1} then m else [])" using Cons.IH Cons.prems(1) by simp
  with g1 show ?case by (auto simp: letters_def)
qed

lemma letters_mset:
  assumes "mset cmds = image_mset (\<lambda>g. AsyncWrite g m) (mset_set A)" and fin: "finite A"
  shows "letters g cmds = (if g \<in> A then m else [])" and "\<forall>cmd \<in> set cmds. is_async cmd" and "length cmds = card A"
proof -
  obtain gs where gs: "distinct gs" "set gs = A" using finite_distinct_list [OF fin] by blast
  then have "mset_set A = mset gs" by (metis mset_set_set)
  with assms(1) have m: "mset cmds = mset (map (\<lambda>g. AsyncWrite g m) gs)" by simp
  moreover have "distinct (map (\<lambda>g. AsyncWrite g m) gs)" using gs(1) by (simp add: distinct_map inj_on_def)
  ultimately have "distinct cmds" by (metis mset_eq_imp_distinct_iff)
  moreover have "set cmds = (\<lambda>g. AsyncWrite g m) ` A" using mset_eq_setD [OF m] gs(2) by simp
  ultimately show "letters g cmds = (if g \<in> A then m else [])" "\<forall>cmd \<in> set cmds. is_async cmd"
    using letters_once [of cmds m A g] by simp_all
  show "length cmds = card A" using arg_cong [OF assms(1), of size] by simp
qed

text \<open>A loop whose channels hold one letter \<open>m\<close> for each descriptor in \<open>A\<close>, and nothing else.\<close>

lemma mail_delivered:
  fixes st :: "('w, 'k) eloop"
  assumes os: "transport_ok os wire" "isolated os wire" "reregister_works os" "\<forall>sk. soft_writes os sk"
    and m: "mset (pending (l_handle st)) = image_mset (\<lambda>g. AsyncWrite g m) (mset_set A)" "finite A" "card A \<le> MAX_ASYNC_TASK_ONE_TIME"
    and p: "placed st"
  shows "\<exists>st'. process_command os dbg H st = (Ok (), st') \<and> pending (l_handle st') = []
    \<and> (\<forall>k c sk. slab_get (l_connections st) k = Some c \<longrightarrow> c_socket c = Some sk \<longrightarrow>
         (\<exists>c'. slab_get (l_connections st') k = Some c' \<and> c_gfd c' = c_gfd c \<and> c_socket c' = Some sk
           \<and> wire (l_world st') sk @ concat (opt_list (c_out_buffer c'))
               = wire (l_world st) sk @ concat (opt_list (c_out_buffer c)) @ (if c_gfd c \<in> A then m else [])))"
proof -
  note ls = letters_mset [OF m(1,2)]
  have len: "length (pending (l_handle st)) \<le> MAX_ASYNC_TASK_ONE_TIME" using ls(3) m(3) by simp
  have soft: "soft_writes os sk" for sk using os(4) by blast
  from async_batch_grown [OF os(1-3) soft p ls(2) len, of dbg H] obtain st' where
    r: "process_command os dbg H st = (Ok (), st')" "pending (l_handle st') = []"
      "grown wire (\<lambda>g. letters g (pending (l_handle st))) st st'" unfolding process_command_def by blast
  have "\<exists>c'. slab_get (l_connections st') k = Some c' \<and> c_gfd c' = c_gfd c \<and> c_socket c' = Some sk
      \<and> wire (l_world st') sk @ concat (opt_list (c_out_buffer c'))
          = wire (l_world st) sk @ concat (opt_list (c_out_buffer c)) @ (if c_gfd c \<in> A then m else [])"
    if c: "slab_get (l_connections st) k = Some c" "c_socket c = Some sk" for k c sk
  proof -
    from grownD(2) [OF r(3) c(1)] obtain c' where "slab_get (l_connections st') k = Some c'"
      "extended wire (letters (c_gfd c) (pending (l_handle st))) (c, l_world st) (c', l_world st')" by blast
    with c(2) ls(1) [of "c_gfd c"] same_but_outD(1,2) [of c c'] show ?thesis by (auto simp: extended_def outstream_def)
  qed
  with r(1,2) show ?thesis by blast
qed

subsection \<open>Properties\<close>

text \<open>
  C8: a line of the chat reaches every other client's socket, once. Run the task of a line in a room
  whose loops are open, in whatever order the shards are iterated, and then let loop \<open>i\<close>, which had
  nothing waiting, take its commands: it takes them all, every connection of the loop is where it
  was, and the stream of each (accepted plus queued bytes) has grown by exactly the line if it is a
  client other than the sender, and by nothing otherwise, the sender included.
\<close>

theorem chat_line_delivered:
  fixes st :: "('w, 'k) eloop"
  assumes os: "transport_ok os wire" "isolated os wire" "reregister_works os" "\<forall>sk. soft_writes os sk"
    and eh: "loops_open eh" "i < loop_count eh" "mail eh i = {#}"
    and room: "sharded clients" "\<forall>shard \<in> set clients. set (elems shard) = shard \<and> distinct (elems shard)"
      "card {g \<in> \<Union> (set clients). event_loop_index g = i} \<le> MAX_ASYNC_TASK_ONE_TIME"
    and st: "placed st" "l_id st = of_nat i" "i < 256"
  shows "\<exists>eh' hs' w' st'. broadcast os elems clients t (eh, l_world st) = (Ok (), (eh', w')) \<and> e_loops eh' = Some hs'
    \<and> process_command os dbg H (st\<lparr>l_handle := hs' ! i, l_world := w'\<rparr>) = (Ok (), st') \<and> pending (l_handle st') = []
    \<and> (\<forall>k c sk. slab_get (l_connections st) k = Some c \<longrightarrow> c_socket c = Some sk \<longrightarrow>
         (\<exists>c'. slab_get (l_connections st') k = Some c' \<and> c_gfd c' = c_gfd c \<and> c_socket c' = Some sk
           \<and> wire (l_world st') sk @ concat (opt_list (c_out_buffer c'))
               = wire (l_world st) sk @ concat (opt_list (c_out_buffer c))
                 @ (if c_gfd c \<in> \<Union> (set clients) \<and> c_gfd c \<noteq> ct_sender t then ct_msg t else [])))"
proof -
  let ?gs = "concat (map elems clients)" and ?A = "{g \<in> \<Union> (set clients). g \<noteq> ct_sender t \<and> event_loop_index g = i}"
  from send_each_mail [OF eh(1), of os t ?gs "l_world st"] obtain eh' w' where
    b: "send_each os t ?gs (eh, l_world st) = (Ok (), (eh', w'))" "loops_open eh'" "loop_count eh' = loop_count eh"
      "mail eh' i = mail eh i + (if i < loop_count eh then mset (writes_to i t ?gs) else {#})" by blast
  from b(2) obtain hs' where hs': "e_loops eh' = Some hs'" by (auto simp: loops_open_def)
  have "mset (writes_to i t ?gs) = image_mset (\<lambda>g. AsyncWrite g (ct_msg t)) (mset_set ?A)"
    using sharded_distinct [OF room(1,2)] distinct_filter [of ?gs "\<lambda>g. g \<noteq> ct_sender t \<and> event_loop_index g = i"]
      mset_set_set [of "filter (\<lambda>g. g \<noteq> ct_sender t \<and> event_loop_index g = i) ?gs"]
    by (simp add: writes_to_def)
  moreover have "mail eh' i = mset (pending (hs' ! i))" using hs' b(3) eh(2) by (simp add: mail_def loop_count_def)
  ultimately have m: "mset (pending (hs' ! i)) = image_mset (\<lambda>g. AsyncWrite g (ct_msg t)) (mset_set ?A)"
    using b(4) eh(2,3) by simp
  have fin: "finite (\<Union> (set clients))" using room(2) by (metis List.finite_set finite_Union)
  then have "finite ?A" by (rule rev_finite_subset) blast
  note finA = this
  have "card ?A \<le> card {g \<in> \<Union> (set clients). event_loop_index g = i}" by (rule card_mono [OF rev_finite_subset [OF fin]]) auto
  with room(3) have len: "card ?A \<le> MAX_ASYNC_TASK_ONE_TIME" by simp
  let ?st = "st\<lparr>l_handle := hs' ! i, l_world := w'\<rparr>"
  have p: "placed ?st" using st(1) by (simp add: placed_def)
  have "mset (pending (l_handle ?st)) = image_mset (\<lambda>g. AsyncWrite g (ct_msg t)) (mset_set ?A)" using m by simp
  from mail_delivered [OF os this finA len p, of dbg H] obtain st' where
    r: "process_command os dbg H ?st = (Ok (), st')" "pending (l_handle st') = []"
    and d: "\<forall>k c sk. slab_get (l_connections ?st) k = Some c \<longrightarrow> c_socket c = Some sk \<longrightarrow>
         (\<exists>c'. slab_get (l_connections st') k = Some c' \<and> c_gfd c' = c_gfd c \<and> c_socket c' = Some sk
           \<and> wire (l_world st') sk @ concat (opt_list (c_out_buffer c'))
               = wire (l_world ?st) sk @ concat (opt_list (c_out_buffer c)) @ (if c_gfd c \<in> ?A then ct_msg t else []))" by blast
  have w: "wire (l_world ?st) = wire (l_world st)" using send_each_world [OF os(2) b(1)] by simp
  have conns: "l_connections ?st = l_connections st" by simp
  have "unat (l_id st) = i" using st(2,3) by (simp add: unat_of_nat)
  then have "c_gfd c \<in> ?A \<longleftrightarrow> c_gfd c \<in> \<Union> (set clients) \<and> c_gfd c \<noteq> ct_sender t"
    if "slab_get (l_connections st) k = Some c" for k c using placedD [OF st(1) that] by auto
  with d have "\<forall>k c sk. slab_get (l_connections st) k = Some c \<longrightarrow> c_socket c = Some sk \<longrightarrow>
         (\<exists>c'. slab_get (l_connections st') k = Some c' \<and> c_gfd c' = c_gfd c \<and> c_socket c' = Some sk
           \<and> wire (l_world st') sk @ concat (opt_list (c_out_buffer c'))
               = wire (l_world st) sk @ concat (opt_list (c_out_buffer c))
                 @ (if c_gfd c \<in> \<Union> (set clients) \<and> c_gfd c \<noteq> ct_sender t then ct_msg t else []))"
    unfolding w conns by presburger
  with b(1) hs' r show ?thesis unfolding broadcast_def by blast
qed

text \<open>
  Two clients on loop 1, slots 0 and 3; the one in slot 0 sends a line. The kernel takes a byte of each write.
\<close>

definition byte_os :: "sim os" where
  "byte_os = steady_os\<lparr>tcp_write := (\<lambda>w s buf. sim_accept 1 w (Tcp s) buf), unix_write := (\<lambda>w s buf. sim_accept 1 w (Unix s) buf),
     tcp_write_vectored := (\<lambda>w s bufs. sim_accept 1 w (Tcp s) (concat bufs)),
     unix_write_vectored := (\<lambda>w s bufs. sim_accept 1 w (Unix s) (concat bufs))\<rparr>"

lemma byte_calls:
  "socket_read byte_os w sk len = sim_read w sk len" "socket_write byte_os w sk buf = sim_accept 1 w sk buf"
  "socket_write_vectored byte_os w sk bufs = sim_accept 1 w sk (concat bufs)" "socket_flush byte_os w sk = (Inr (), w)"
  "set_nodelay byte_os w sk b = (Inr (), w)" "drop_stream byte_os w sk = w\<lparr>sim_dropped := sk # sim_dropped w\<rparr>"
  "waker_wake byte_os w i = (Inr (), w\<lparr>sim_wakes := i # sim_wakes w\<rparr>)"
  by (cases sk; simp add: socket_read_def socket_write_def socket_write_vectored_def socket_flush_def set_nodelay_def
      byte_os_def steady_os_def sim_os_def)+

lemma byte_registry:
  "registry_register byte_os w src t i = sim_set_interest w src (Some (t, i))"
  "registry_reregister byte_os w src t i = sim_set_interest w src (Some (t, i))"
  "registry_deregister byte_os w src = sim_set_interest w src None"
  by (simp_all add: byte_os_def steady_os_def)

lemma byte_contracts:
  "transport_ok byte_os sim_sent" "isolated byte_os sim_sent" "reregister_works byte_os" "\<forall>sk. soft_writes byte_os sk"
proof -
  show "transport_ok byte_os sim_sent"
    using steady_contracts(1) sim_accept_contract by (simp add: transport_ok_def byte_os_def)
  have "sim_sent (snd (sim_read w sk len)) = sim_sent w" for w sk len
    by (auto simp: sim_read_def split: list.splits sum.splits)
  moreover have "sk' \<noteq> sk \<Longrightarrow> sim_sent (snd (sim_accept n w sk buf)) sk' = sim_sent w sk'" for n w sk sk' buf
    by (simp add: sim_accept_def Let_def)
  ultimately show "isolated byte_os sim_sent"
    unfolding isolated_def byte_calls byte_registry by (simp add: sim_set_interest_def)
  show "reregister_works byte_os" by (simp add: reregister_works_def byte_registry sim_set_interest_def)
  show "\<forall>sk. soft_writes byte_os sk" by (simp add: soft_writes_def byte_calls sim_accept_def Let_def)
qed

definition room_gfd :: "nat \<Rightarrow> gfd" where
  "room_gfd k = \<lparr>g_seq = of_nat k, g_index_info = 0x1000000 + of_nat k, g_fd = 9\<rparr>"

definition room_conn :: "nat \<Rightarrow> unit conn" where
  "room_conn k = conn_new (room_gfd k) (Tcp k) default_options (UnixAddr ''l'') (UnixAddr ''p'') 1"

definition room_loop :: "(sim, unit) eloop" where
  "room_loop = (sample_loop sim0)\<lparr>l_connections := [Some (room_conn 0), None, None, Some (room_conn 3)]\<rparr>"

lemma room_conns: "c_gfd (room_conn k) = room_gfd k" "c_socket (room_conn k) = Some (Tcp k)" "opt_list (c_out_buffer (room_conn k)) = []"
  by (simp_all add: room_conn_def conn_new_def)

lemma room_index: "event_loop_index (room_gfd 0) = 1" "event_loop_index (room_gfd 3) = 1" "slab_index (room_gfd 0) = 0"
  "slab_index (room_gfd 3) = 3" "room_gfd 0 \<noteq> room_gfd 3"
  by (simp_all add: room_gfd_def event_loop_index_def slab_index_def)

lemma room_slots:
  "slab_get (l_connections room_loop) k = (if k = 0 then Some (room_conn 0) else if k = 3 then Some (room_conn 3) else None)"
  by (auto simp: room_loop_def slab_get_def nth_Cons' less_Suc_eq numeral_eq_Suc)

lemma room_state: "l_id room_loop = of_nat 1" "l_world room_loop = sim0"
  by (simp_all add: room_loop_def sample_loop_def)

lemma room_placed: "placed room_loop"
  unfolding placed_def room_slots using room_index room_conns by (auto simp: room_loop_def sample_loop_def split: if_splits)

lemma room_handles: "loops_open two_loops" "1 < loop_count two_loops" "mail two_loops 1 = {#}"
  by (simp_all add: loops_open_def loop_count_def mail_def two_loops_def handle_new_def pending_def)

lemma chat_line_delivered_witness:
  "\<exists>eh' hs' w' st' c0 c3. broadcast byte_os (\<lambda>shard. if shard = {} then [] else [room_gfd 3, room_gfd 0]) [{}, {room_gfd 0, room_gfd 3}]
      \<lparr>ct_msg = [104, 105, 10], ct_sender = room_gfd 0\<rparr> (two_loops, sim0) = (Ok (), (eh', w')) \<and> e_loops eh' = Some hs'
    \<and> process_command byte_os False default_handler (room_loop\<lparr>l_handle := hs' ! 1, l_world := w'\<rparr>) = (Ok (), st')
    \<and> slab_get (l_connections st') 3 = Some c3 \<and> sim_sent (l_world st') (Tcp 3) @ concat (opt_list (c_out_buffer c3)) = [104, 105, 10]
    \<and> slab_get (l_connections st') 0 = Some c0 \<and> sim_sent (l_world st') (Tcp 0) @ concat (opt_list (c_out_buffer c0)) = []"
proof -
  let ?t = "\<lparr>ct_msg = [104, 105, 10 :: byte], ct_sender = room_gfd 0\<rparr>" and ?cl = "[{}, {room_gfd 0, room_gfd 3}]"
    and ?el = "\<lambda>shard. if shard = {} then [] else [room_gfd 3, room_gfd 0]"
  have sh: "sharded ?cl" using room_index by (simp add: sharded_def less_Suc_eq)
  have el: "\<forall>shard \<in> set ?cl. set (?el shard) = shard \<and> distinct (?el shard)" using room_index(5) by auto
  have "{g \<in> \<Union> (set ?cl). event_loop_index g = 1} = {room_gfd 0, room_gfd 3}" using room_index by auto
  then have card: "card {g \<in> \<Union> (set ?cl). event_loop_index g = 1} \<le> MAX_ASYNC_TASK_ONE_TIME"
    using room_index(5) by (simp add: MAX_ASYNC_TASK_ONE_TIME_def)
  from chat_line_delivered [where i = 1 and elems = ?el and t = ?t and dbg = False and H = default_handler,
      OF byte_contracts room_handles sh el card room_placed room_state(1)]
  obtain eh' hs' w' st' where r: "broadcast byte_os ?el ?cl ?t (two_loops, sim0) = (Ok (), (eh', w'))" "e_loops eh' = Some hs'"
    "process_command byte_os False default_handler (room_loop\<lparr>l_handle := hs' ! 1, l_world := w'\<rparr>) = (Ok (), st')"
    and d: "\<And>k c sk. slab_get (l_connections room_loop) k = Some c \<Longrightarrow> c_socket c = Some sk \<Longrightarrow>
       \<exists>c'. slab_get (l_connections st') k = Some c' \<and> c_gfd c' = c_gfd c \<and> c_socket c' = Some sk
           \<and> sim_sent (l_world st') sk @ concat (opt_list (c_out_buffer c'))
               = sim_sent (l_world room_loop) sk @ concat (opt_list (c_out_buffer c))
                 @ (if c_gfd c \<in> \<Union> (set ?cl) \<and> c_gfd c \<noteq> ct_sender ?t then ct_msg ?t else [])" unfolding room_state(2) by auto
  from d [of 3 "room_conn 3" "Tcp 3"] obtain c3 where c3: "slab_get (l_connections st') 3 = Some c3"
    "sim_sent (l_world st') (Tcp 3) @ concat (opt_list (c_out_buffer c3)) = [104, 105, 10]"
    using room_slots room_index(5) room_conns room_state(2) by (auto simp: sim0_def)
  from d [of 0 "room_conn 0" "Tcp 0"] obtain c0 where c0: "slab_get (l_connections st') 0 = Some c0"
    "sim_sent (l_world st') (Tcp 0) @ concat (opt_list (c_out_buffer c0)) = []"
    using room_slots room_conns room_state(2) by (auto simp: sim0_def)
  from r c0 c3 show ?thesis by blast
qed

text \<open>
  C11: the asynchronous echo brings the bytes back. A callback of a connection on loop \<open>i\<close> finds bytes to
  read, the pool has room, and loop \<open>i\<close> had nothing waiting: the callback takes all of them and submits
  one task; when a worker has run that task and loop \<open>i\<close> has taken its commands, the stream of the
  connection with this descriptor (accepted plus queued bytes) has grown by exactly these bytes, and
  no other connection's stream has changed.
\<close>

theorem async_echo_round_trip:
  fixes st :: "('w, 'j) eloop"
  assumes pool: "global_senders p = Some senders" "senders \<noteq> []" "q = senders ! (event_loop_index (c_gfd c) mod length senders)"
      "q < length (channels p)" "ch_worker (channels p ! q) \<noteq> Exited" "length (ch_queue (channels p ! q)) < CHANNEL_CAP"
    and c: "avail c \<noteq> []" "event_loop_index (c_gfd c) = i"
    and eh: "loops_open eh" "i < loop_count eh" "mail eh i = {#}"
    and os: "transport_ok os wire" "isolated os wire" "reregister_works os" "\<forall>sk. soft_writes os sk"
    and st: "placed st"
  shows "\<exists>c' p' eh' hs' w' st'. async_traffic (c, p) = (Ok ActNone, (c', p')) \<and> avail c' = []
    \<and> ch_queue (channels p' ! q) = ch_queue (channels p ! q) @ [(c_gfd c, avail c)]
    \<and> async_task os (c_gfd c, avail c) (eh, l_world st) = (Ok (), (eh', w')) \<and> e_loops eh' = Some hs'
    \<and> process_command os dbg H (st\<lparr>l_handle := hs' ! i, l_world := w'\<rparr>) = (Ok (), st') \<and> pending (l_handle st') = []
    \<and> (\<forall>k d sk. slab_get (l_connections st) k = Some d \<longrightarrow> c_socket d = Some sk \<longrightarrow>
         (\<exists>d'. slab_get (l_connections st') k = Some d' \<and> c_gfd d' = c_gfd d \<and> c_socket d' = Some sk
           \<and> wire (l_world st') sk @ concat (opt_list (c_out_buffer d'))
               = wire (l_world st) sk @ concat (opt_list (c_out_buffer d)) @ (if c_gfd d = c_gfd c then avail c else [])))"
proof -
  from async_echo_task [OF pool(1-6) c(1) eh(1), of os "l_world st"] c(2) eh(2) obtain c' p' eh' w' where
    a: "async_traffic (c, p) = (Ok ActNone, (c', p'))" "avail c' = []" "ch_queue (channels p' ! q) = ch_queue (channels p ! q) @ [(c_gfd c, avail c)]"
      "async_task os (c_gfd c, avail c) (eh, l_world st) = (Ok (), (eh', w'))" "loops_open eh'" "loop_count eh' = loop_count eh"
      "mail eh' i = mail eh i + {#AsyncWrite (c_gfd c) (avail c)#}" by auto
  from a(5) obtain hs' where hs': "e_loops eh' = Some hs'" by (auto simp: loops_open_def)
  let ?st = "st\<lparr>l_handle := hs' ! i, l_world := w'\<rparr>"
  have p: "placed ?st" using st by (simp add: placed_def)
  have m: "mset (pending (l_handle ?st)) = image_mset (\<lambda>g. AsyncWrite g (avail c)) (mset_set {c_gfd c})"
    using a(6,7) eh(2,3) hs' by (simp add: mail_def loop_count_def)
  have w: "wire (l_world ?st) = wire (l_world st)"
    using a(4) send_command_world [OF os(2)] by (auto simp: async_task_def)
  have conns: "l_connections ?st = l_connections st" by simp
  have "card {c_gfd c} \<le> MAX_ASYNC_TASK_ONE_TIME" by (simp add: MAX_ASYNC_TASK_ONE_TIME_def)
  from mail_delivered [OF os m _ this p, of dbg H] obtain st' where
    r: "process_command os dbg H ?st = (Ok (), st')" "pending (l_handle st') = []"
    and d: "\<forall>k d sk. slab_get (l_connections ?st) k = Some d \<longrightarrow> c_socket d = Some sk \<longrightarrow>
         (\<exists>d'. slab_get (l_connections st') k = Some d' \<and> c_gfd d' = c_gfd d \<and> c_socket d' = Some sk
           \<and> wire (l_world st') sk @ concat (opt_list (c_out_buffer d'))
               = wire (l_world ?st) sk @ concat (opt_list (c_out_buffer d)) @ (if c_gfd d \<in> {c_gfd c} then avail c else []))" by blast
  from d [unfolded w conns singleton_iff] a(1-4) hs' r show ?thesis by blast
qed

lemma async_echo_round_trip_witness:
  "\<exists>c' p' eh' hs' w' st' d. async_traffic ((room_conn 3)\<lparr>c_io_buffer := Some [7, 8]\<rparr>, ready_pool) = (Ok ActNone, (c', p')) \<and> avail c' = []
    \<and> async_task byte_os (room_gfd 3, [7, 8]) (two_loops, sim0) = (Ok (), (eh', w')) \<and> e_loops eh' = Some hs'
    \<and> process_command byte_os False default_handler (room_loop\<lparr>l_handle := hs' ! 1, l_world := w'\<rparr>) = (Ok (), st')
    \<and> slab_get (l_connections st') 3 = Some d \<and> sim_sent (l_world st') (Tcp 3) @ concat (opt_list (c_out_buffer d)) = [7, 8]"
proof -
  let ?c = "(room_conn 3)\<lparr>c_io_buffer := Some [7, 8]\<rparr>"
  have c: "avail ?c = [7, 8]" "c_gfd ?c = room_gfd 3" "event_loop_index (room_gfd 3) = 1"
    by (simp_all add: avail_def room_conn_def conn_new_def room_gfd_def event_loop_index_def)
  have pool: "global_senders ready_pool = Some [0]" "[0] \<noteq> ([] :: nat list)" "0 = [0] ! (event_loop_index (c_gfd ?c) mod length [0 :: nat])"
    "0 < length (channels ready_pool)" "ch_worker (channels ready_pool ! 0) \<noteq> Exited" "length (ch_queue (channels ready_pool ! 0)) < CHANNEL_CAP"
    by (simp_all add: ready_pool_def CHANNEL_CAP_def)
  have c': "avail ?c \<noteq> []" "event_loop_index (c_gfd ?c) = 1" using c by simp_all
  have g: "c_gfd ?c = room_gfd 3" by (simp add: room_conns)
  from async_echo_round_trip [where dbg = False and H = default_handler, OF pool c' room_handles byte_contracts room_placed,
      unfolded c(1) g room_state(2)]
  obtain c' p' eh' hs' w' st' where r: "async_traffic (?c, ready_pool) = (Ok ActNone, (c', p'))" "avail c' = []"
    "async_task byte_os (room_gfd 3, [7, 8]) (two_loops, sim0) = (Ok (), (eh', w'))" "e_loops eh' = Some hs'"
    "process_command byte_os False default_handler (room_loop\<lparr>l_handle := hs' ! 1, l_world := w'\<rparr>) = (Ok (), st')"
    and d: "\<And>k d sk. slab_get (l_connections room_loop) k = Some d \<Longrightarrow> c_socket d = Some sk \<Longrightarrow>
       \<exists>d'. slab_get (l_connections st') k = Some d' \<and> c_gfd d' = c_gfd d \<and> c_socket d' = Some sk
           \<and> sim_sent (l_world st') sk @ concat (opt_list (c_out_buffer d'))
               = sim_sent sim0 sk @ concat (opt_list (c_out_buffer d)) @ (if c_gfd d = room_gfd 3 then [7, 8] else [])"
    by blast
  from d [of 3 "room_conn 3" "Tcp 3"] obtain d3 where "slab_get (l_connections st') 3 = Some d3"
    "sim_sent (l_world st') (Tcp 3) @ concat (opt_list (c_out_buffer d3)) = [7, 8]"
    using room_slots room_conns by (auto simp: sim0_def)
  with r show ?thesis by blast
qed

end
