(* ===== verification/UnitTests.thy ===== *)
theory UnitTests
  imports Mains Balancer
begin

text \<open>
  The unit tests of the repository, as programs over the model: a test answers \<open>Ok ()\<close> or panics. What a
  test reads from the machine it runs on (the cores, the topology files, the counter \<open>MONO_SEQ\<close>, debug
  assertions) is a parameter, so that a test that passes here passes on every machine. The layout test
  of \<open>src/gfd.rs\<close> is about the representation in memory and has no counterpart.
\<close>

subsection \<open>Assertions\<close>

definition assert_that :: "bool \<Rightarrow> unit outcome" where
  "assert_that b = (if b then Ok () else Panic)"

text \<open>Assertions in sequence.\<close>

fun all_of :: "unit outcome list \<Rightarrow> unit outcome" where
  "all_of [] = Ok ()"
| "all_of (t # ts) = and_then t (\<lambda>_. all_of ts)"

lemma and_then_simps [simp]:
  "and_then (Ok x) f = f x" "and_then (Err e) f = Err e" "and_then Panic f = Panic" "and_then Diverge f = Diverge"
  by (simp_all add: and_then_def)

lemma assert_that_simps [simp]: "assert_that True = Ok ()" "assert_that False = Panic" "assert_that b = Ok () \<longleftrightarrow> b"
  by (simp_all add: assert_that_def)

lemma unwrap_simps [simp]: "unwrap (Ok x) = Ok x" "unwrap (Err e) = Panic"
  by (simp_all add: unwrap_def)

text \<open>\<open>Result::unwrap_err\<close> and \<open>str::contains\<close>.\<close>

definition unwrap_err :: "io_error + 'a \<Rightarrow> io_error outcome" where
  "unwrap_err r = (case r of Inl e \<Rightarrow> Ok e | Inr _ \<Rightarrow> Panic)"

definition is_err :: "io_error + 'a \<Rightarrow> bool" where
  "is_err r = (case r of Inl _ \<Rightarrow> True | Inr _ \<Rightarrow> False)"

definition contains :: "string \<Rightarrow> string \<Rightarrow> bool" where
  "contains pat s \<longleftrightarrow> split_once pat s \<noteq> None"

subsection \<open>Descriptors: \<open>gfd.rs\<close>\<close>

definition gfd_fd :: "gfd \<Rightarrow> i64" where
  "gfd_fd g = g_fd g"

definition gfd_sequence :: "gfd \<Rightarrow> u32" where
  "gfd_sequence g = g_seq g"

text \<open>A signed number is printed with its sign.\<close>

definition show_i64 :: "i64 \<Rightarrow> string" where
  "show_i64 n = (if 0 \<le> sint n then show_nat (nat (sint n)) else ''-'' @ show_nat (nat (- sint n)))"

definition show_gfd :: "gfd \<Rightarrow> string" where
  "show_gfd g =
     ''Gfd { fd: '' @ show_i64 (gfd_fd g) @ '', seq: '' @ show_nat (unat (gfd_sequence g))
       @ '', loop: '' @ show_nat (event_loop_index g) @ '', index: '' @ show_nat (slab_index g) @ '' }''"

text \<open>The sum in the last assertion is checked for overflow when debug assertions are on.\<close>

definition test_gfd_packing :: "bool \<Rightarrow> (unit, u32) prog" where
  "test_gfd_packing dbg =
     (let fd = 100; loop_id = 5; index = 12345 in
      bind_io (Gfd_new dbg fd loop_id index) (\<lambda>g.
      bind_io (Gfd_new dbg fd loop_id index) (\<lambda>g2. \<lambda>s.
        (all_of
           [assert_that (gfd_fd g = 100), assert_that (event_loop_index g = 5), assert_that (slab_index g = 12345),
            assert_that (gfd_sequence g \<noteq> gfd_sequence g2),
            if dbg \<and> gfd_sequence g = - 1 then Panic else assert_that (gfd_sequence g + 1 = gfd_sequence g2)], s))))"

subsection \<open>Options: \<open>options.rs\<close>\<close>

text \<open>The key of a core on other systems than Linux.\<close>

definition get_other_topology_key :: "nat \<Rightarrow> topo_key" where
  "get_other_topology_key cpu_id = \<lparr>tk_socket = ''0'', tk_core = show_nat cpu_id\<rparr>"

lemma other_topology: "get_other_topology_key cpu_id = get_linux_topology_key (\<lambda>_. None) cpu_id"
proof -
  have "trim (show_nat cpu_id) = show_nat cpu_id" by (rule trim_id) (simp add: show_nat_no_space [of _ cpu_id])
  moreover have "trim ''0'' = ''0''" by code_simp
  ultimately show ?thesis by (simp add: get_other_topology_key_def get_linux_topology_key_def)
qed

text \<open>\<open>core_affinity::get_core_ids().unwrap()\<close> panics where the system does not tell its cores.\<close>

definition test_limit_none_returns_all :: "(string \<Rightarrow> string option) \<Rightarrow> nat list option \<Rightarrow> unit outcome" where
  "test_limit_none_returns_all rd available =
     (case available of
        None \<Rightarrow> Panic
      | Some all_system_cores \<Rightarrow>
          assert_that (length (get_core_ids rd available None) = length all_system_cores))"

fun physically_distinct :: "(string \<Rightarrow> string option) \<Rightarrow> topo_key set \<Rightarrow> nat list \<Rightarrow> unit outcome" where
  "physically_distinct rd seen_phys [] = Ok ()"
| "physically_distinct rd seen_phys (core # cores) =
     (let key = get_linux_topology_key rd core in
      if key \<in> seen_phys then Panic else physically_distinct rd (insert key seen_phys) cores)"

definition test_limit_some_filters_topology :: "(string \<Rightarrow> string option) \<Rightarrow> nat list option \<Rightarrow> unit outcome" where
  "test_limit_some_filters_topology rd available =
     (let target = 4; result = get_core_ids rd available (Some target) in
      and_then (assert_that (length result \<le> unat target)) (\<lambda>_. physically_distinct rd {} result))"

definition test_limit_overflow :: "(string \<Rightarrow> string option) \<Rightarrow> nat list option \<Rightarrow> unit outcome" where
  "test_limit_overflow rd available =
     (let result = get_core_ids rd available (Some 1024) in
      and_then (assert_that (0 < length result)) (\<lambda>_.
        case available of None \<Rightarrow> Panic | Some cores \<Rightarrow> assert_that (length result \<le> length cores)))"

text \<open>Build options and look at them.\<close>

definition built :: "bool \<Rightarrow> options_builder \<Rightarrow> (options \<Rightarrow> bool) \<Rightarrow> unit outcome" where
  "built dbg b P = and_then (options_build dbg b) (\<lambda>opts. assert_that (P opts))"

definition test_buffer_cap_normalization :: "bool \<Rightarrow> unit outcome" where
  "test_buffer_cap_normalization dbg =
     all_of
       [built dbg (builder_write_buffer_cap 0 (builder_read_buffer_cap 0 builder_new))
          (\<lambda>opts. read_buffer_cap opts = MAX_STREAM_BUFFER_CAP \<and> write_buffer_cap opts = MAX_STREAM_BUFFER_CAP),
        built dbg (builder_write_buffer_cap 1024 (builder_read_buffer_cap 100 builder_new))
          (\<lambda>opts. read_buffer_cap opts = 1024 \<and> write_buffer_cap opts = 1024),
        built dbg (builder_write_buffer_cap 8192 (builder_read_buffer_cap 4097 builder_new))
          (\<lambda>opts. read_buffer_cap opts = 8192 \<and> write_buffer_cap opts = 8192)]"

definition test_et_chunk_normalization :: "bool \<Rightarrow> unit outcome" where
  "test_et_chunk_normalization dbg =
     all_of
       [built dbg builder_new (\<lambda>opts. max_batch_size opts = 1024 * 1024),
        built dbg (builder_edge_triggered_io_chunk 100 builder_new) (\<lambda>opts. max_batch_size opts = 128)]"

text \<open>Build options, normalise addresses with them, and look at \<open>reuse_port\<close> afterwards.\<close>

definition normalized :: "bool \<Rightarrow> bool \<Rightarrow> string list \<Rightarrow> bool \<Rightarrow> unit outcome" where
  "normalized dbg reuse addrs expected =
     and_then (options_build dbg (builder_reuse_port reuse builder_new)) (\<lambda>opts.
       case normalize addrs opts of
         (r, opts') \<Rightarrow> and_then (unwrap r) (\<lambda>_. assert_that (reuse_port opts' = expected)))"

definition test_normalize_udp :: "bool \<Rightarrow> unit outcome" where
  "test_normalize_udp dbg = normalized dbg False [''udp://127.0.0.1:8080''] True"

definition test_normalize_unix :: "bool \<Rightarrow> unit outcome" where
  "test_normalize_unix dbg = normalized dbg True [''unix:///tmp/test.sock''] False"

definition test_normalize_mixed :: "bool \<Rightarrow> unit outcome" where
  "test_normalize_mixed dbg = normalized dbg False [''tcp://:8080'', ''udp://:9090''] True"

definition test_ceil_to_power_of_two :: "bool \<Rightarrow> unit outcome" where
  "test_ceil_to_power_of_two dbg =
     all_of (map (\<lambda>(n, p). and_then (ceil_to_power_of_two dbg n) (\<lambda>q. assert_that (q = p)))
       [(0, 2), (1, 2), (2, 2), (3, 4), (100, 128), (1023, 1024), (1024, 1024), (1025, 2048)])"

subsection \<open>Addresses: \<open>socket_addr.rs\<close>\<close>

datatype ip_addr = IpV4 "u8 list" | IpV6 "16 word list"

fun sa_ip :: "socket_addr \<Rightarrow> ip_addr" where
  "sa_ip (SocketAddrV4 ip port) = IpV4 ip"
| "sa_ip (SocketAddrV6 ip port flowinfo scope_id) = IpV6 ip"

fun sa_port :: "socket_addr \<Rightarrow> 16 word" where
  "sa_port (SocketAddrV4 ip port) = port"
| "sa_port (SocketAddrV6 ip port flowinfo scope_id) = port"

fun is_unspecified :: "ip_addr \<Rightarrow> bool" where
  "is_unspecified (IpV4 ip) = (ip = [0, 0, 0, 0])"
| "is_unspecified (IpV6 ip) = (ip = [0, 0, 0, 0, 0, 0, 0, 0])"

text \<open>A string that has to parse as a TCP address, and what has to hold of it.\<close>

definition parses_tcp :: "string \<Rightarrow> (network_address \<Rightarrow> socket_addr \<Rightarrow> bool) \<Rightarrow> unit outcome" where
  "parses_tcp s P =
     (case from_str s of
        Inl e \<Rightarrow> Panic
      | Inr addr \<Rightarrow> (case addr of TcpAddr sa \<Rightarrow> assert_that (P addr sa) | UnixAddr _ \<Rightarrow> Panic))"

definition test_parse_valid_tcp :: "unit outcome" where
  "test_parse_valid_tcp =
     all_of
       [parses_tcp ''tcp://127.0.0.1:8080'' (\<lambda>addr sa.
          sa_ip sa = IpV4 [127, 0, 0, 1] \<and> sa_port sa = 8080 \<and> show_address addr = ''tcp://127.0.0.1:8080''),
        parses_tcp ''tcp4://0.0.0.0:9000'' (\<lambda>addr sa. is_unspecified (sa_ip sa) \<and> sa_port sa = 9000),
        parses_tcp ''tcp6://[::1]:9000'' (\<lambda>addr sa.
          sa_ip sa = IpV6 [0, 0, 0, 0, 0, 0, 0, 1] \<and> sa_port sa = 9000 \<and> show_address addr = ''tcp://[::1]:9000''),
        parses_tcp ''tcp://:8080'' (\<lambda>addr sa.
          sa_ip sa = IpV4 [0, 0, 0, 0] \<and> sa_port sa = 8080 \<and> show_address addr = ''tcp://0.0.0.0:8080'')]"

definition test_parse_valid_unix :: "unit outcome" where
  "test_parse_valid_unix =
     (case from_str ''unix:///tmp/rnet.sock'' of
        Inl e \<Rightarrow> Panic
      | Inr addr \<Rightarrow>
          (case addr of
             UnixAddr path \<Rightarrow> assert_that (path = ''/tmp/rnet.sock'' \<and> show_address addr = ''unix:///tmp/rnet.sock'')
           | TcpAddr _ \<Rightarrow> Panic))"

definition test_parse_bad :: "unit outcome" where
  "test_parse_bad =
     all_of
       [and_then (unwrap_err (from_str ''tulip://howdy'')) (\<lambda>e. assert_that (err_kind e = InvalidInput)),
        and_then (unwrap_err (from_str ''howdy'')) (\<lambda>e.
          assert_that (err_msg e = ''missing '' @ [CHR 0x27] @ ''://'' @ [CHR 0x27] @ '' separator'')),
        and_then (unwrap_err (from_str ''tcp://'')) (\<lambda>e. assert_that (err_msg e = ''address body cannot be empty'')),
        assert_that (is_err (from_str ''unix://'')),
        assert_that (is_err (from_str '':foo''))]"

definition test_edge_cases :: "unit outcome" where
  "test_edge_cases =
     all_of
       [assert_that (is_err (from_str ''TCP://127.0.0.1:80'')),
        and_then (unwrap_err (from_str ''tcp://127.0.0.1:8080/foo'')) (\<lambda>e.
          assert_that (contains ''invalid tcp address'' (err_msg e)))]"

subsection \<open>The tests run\<close>

text \<open>Logarithms of the sizes that occur.\<close>

lemma logs:
  "ceillog2 3 = 2" "ceillog2 100 = 7" "ceillog2 1023 = 10" "ceillog2 1024 = 10" "ceillog2 1025 = 11"
  "ceillog2 4097 = 13" "ceillog2 8192 = 13" "ceillog2 65536 = 16"
  by (rule ceillog2_eqI, simp, simp)+

lemma power_sizes:
  "ceil_to_power_of_two dbg 3 = Ok 4" "ceil_to_power_of_two dbg 100 = Ok 128" "ceil_to_power_of_two dbg 1023 = Ok 1024"
  "ceil_to_power_of_two dbg 1024 = Ok 1024" "ceil_to_power_of_two dbg 1025 = Ok 2048" "ceil_to_power_of_two dbg 4097 = Ok 8192"
  "ceil_to_power_of_two dbg 8192 = Ok 8192" "ceil_to_power_of_two dbg 65536 = Ok 65536"
  by (simp_all add: ceil_to_power_of_two_def next_power_of_two_def logs)

lemma small_sizes: "ceil_to_power_of_two dbg 0 = Ok 2" "ceil_to_power_of_two dbg 1 = Ok 2" "ceil_to_power_of_two dbg 2 = Ok 2"
  by (simp_all add: ceil_to_power_of_two_def)

lemma buffer_sizes:
  "normalize_buffer_size dbg 0 = Ok 65536" "normalize_buffer_size dbg 100 = Ok 1024" "normalize_buffer_size dbg 1024 = Ok 1024"
  "normalize_buffer_size dbg 4097 = Ok 8192" "normalize_buffer_size dbg 8192 = Ok 8192" "normalize_buffer_size dbg 65536 = Ok 65536"
  by (simp_all add: normalize_buffer_size_def MAX_STREAM_BUFFER_CAP_def DEFAULT_BUFFER_SIZE_def power_sizes)

lemmas building = built_def options_build_def requested_options_def default_options_def builder_new_def override_def override_opt_def
  builder_read_buffer_cap_def builder_write_buffer_cap_def builder_edge_triggered_io_chunk_def builder_reuse_port_def
  MAX_STREAM_BUFFER_CAP_def Let_def

lemma tests_of_sizes:
  "test_buffer_cap_normalization dbg = Ok ()" "test_et_chunk_normalization dbg = Ok ()" "test_ceil_to_power_of_two dbg = Ok ()"
  by (simp_all add: test_buffer_cap_normalization_def test_et_chunk_normalization_def test_ceil_to_power_of_two_def
      building power_sizes small_sizes small_sizes [unfolded One_nat_def] buffer_sizes)

text \<open>Reading addresses.\<close>

lemma to_digits:
  "to_digit 10 (CHR ''0'') = Some 0" "to_digit 10 (CHR ''1'') = Some 1" "to_digit 10 (CHR ''2'') = Some 2"
  "to_digit 10 (CHR ''7'') = Some 7" "to_digit 10 (CHR ''8'') = Some 8" "to_digit 10 (CHR ''9'') = Some 9"
  "to_digit 10 (CHR ''/'') = None" "to_digit 16 (CHR ''1'') = Some 1"
  by (simp_all add: to_digit_def)

lemma counts:
  "read_octets 0 4 s = read_octets 0 (Suc (Suc (Suc (Suc 0)))) s"
  "read_groups 0 8 s = read_groups 0 (Suc (Suc (Suc (Suc (Suc (Suc (Suc (Suc 0)))))))) s"
  "read_groups 0 7 s = read_groups 0 (Suc (Suc (Suc (Suc (Suc (Suc (Suc 0))))))) s"
  "replicate 7 (0 :: 16 word) = [0, 0, 0, 0, 0, 0, 0]"
  by (simp_all add: eval_nat_numeral)

lemmas reading = from_str_def invalid_input_def split_once.simps parse_socket_addr_def read_socket_addr_v4_def read_socket_addr_v6_def
  read_ipv4_addr_def read_ipv6_addr_def counts read_port_def read_scope_id_def read_number_def read_char_def read_separator_def to_digits

lemma parsed:
  "from_str ''tcp://127.0.0.1:8080'' = Inr (TcpAddr (SocketAddrV4 [127, 0, 0, 1] 8080))"
  "from_str ''tcp4://0.0.0.0:9000'' = Inr (TcpAddr (SocketAddrV4 [0, 0, 0, 0] 9000))"
  "from_str ''tcp6://[::1]:9000'' = Inr (TcpAddr (SocketAddrV6 [0, 0, 0, 0, 0, 0, 0, 1] 9000 0 0))"
  "from_str ''tcp://:8080'' = Inr (TcpAddr (SocketAddrV4 [0, 0, 0, 0] 8080))"
  "from_str ''unix:///tmp/rnet.sock'' = Inr (UnixAddr ''/tmp/rnet.sock'')"
  "from_str ''unix:///tmp/test.sock'' = Inr (UnixAddr ''/tmp/test.sock'')"
  by (simp_all add: reading)

lemma refused:
  "from_str ''udp://127.0.0.1:8080'' = Inl (IoError InvalidInput ''unsupported protocol: udp'')"
  "from_str ''udp://:9090'' = Inl (IoError InvalidInput ''unsupported protocol: udp'')"
  "from_str ''tulip://howdy'' = Inl (IoError InvalidInput ''unsupported protocol: tulip'')"
  "from_str ''TCP://127.0.0.1:80'' = Inl (IoError InvalidInput ''unsupported protocol: TCP'')"
  "from_str ''howdy'' = Inl (IoError InvalidInput (''missing '' @ [CHR 0x27] @ ''://'' @ [CHR 0x27] @ '' separator''))"
  "from_str '':foo'' = Inl (IoError InvalidInput (''missing '' @ [CHR 0x27] @ ''://'' @ [CHR 0x27] @ '' separator''))"
  "from_str ''tcp://'' = Inl (IoError InvalidInput ''address body cannot be empty'')"
  "from_str ''unix://'' = Inl (IoError InvalidInput ''address body cannot be empty'')"
  "from_str ''tcp://127.0.0.1:8080/foo'' = Inl (IoError InvalidInput ''invalid tcp address: invalid socket address syntax'')"
  by (simp_all add: reading)

lemma shown:
  "show_address (TcpAddr (SocketAddrV4 [127, 0, 0, 1] 8080)) = ''tcp://127.0.0.1:8080''"
  "show_address (TcpAddr (SocketAddrV4 [0, 0, 0, 0] 8080)) = ''tcp://0.0.0.0:8080''"
  "show_address (TcpAddr (SocketAddrV6 [0, 0, 0, 0, 0, 0, 0, 1] 9000 0 0)) = ''tcp://[::1]:9000''"
  "show_address (UnixAddr ''/tmp/rnet.sock'') = ''unix:///tmp/rnet.sock''"
  by (simp_all add: show_radix_small show_radix_big small_digits small_digits(2) [unfolded One_nat_def] show_ipv6_def ipv4_mapped_def)

lemma tests_of_addresses:
  "test_parse_valid_tcp = Ok ()" "test_parse_valid_unix = Ok ()" "test_parse_bad = Ok ()" "test_edge_cases = Ok ()"
  by (simp_all add: test_parse_valid_tcp_def test_parse_valid_unix_def test_parse_bad_def test_edge_cases_def parses_tcp_def parsed refused
      shown unwrap_err_def is_err_def contains_def split_once.simps
      del: show_address.simps show_socket_addr.simps)

lemma tests_of_normalize:
  "test_normalize_unix dbg = Ok ()" "test_normalize_udp dbg = Panic" "test_normalize_mixed dbg = Panic"
  by (simp_all add: test_normalize_unix_def test_normalize_udp_def test_normalize_mixed_def normalized_def normalize_def building
      parsed refused buffer_sizes)

text \<open>The tests of the choice of cores pass on every machine that tells its cores.\<close>

lemma physically_distinct_ok:
  "physically_distinct rd seen cores = Ok () \<longleftrightarrow>
     distinct (map (get_linux_topology_key rd) cores) \<and> (\<forall>core \<in> set cores. get_linux_topology_key rd core \<notin> seen)"
proof (induction cores arbitrary: seen)
  case (Cons core cores)
  show ?case by (auto simp: Let_def Cons.IH image_iff)
qed simp

lemma chosen_cores:
  assumes "n \<noteq> 0"
  shows "\<exists>chosen. get_core_ids rd (Some cores) (Some n) = chosen \<and> subseq chosen cores
    \<and> distinct (map (get_linux_topology_key rd) chosen) \<and> length chosen \<le> unat n
    \<and> (length chosen < unat n \<longrightarrow> get_linux_topology_key rd ` set cores \<subseteq> get_linux_topology_key rd ` set chosen)"
  using select_cores_spec [of "get_linux_topology_key rd" "unat n" "{}" "[]" cores] assms by (auto simp: get_core_ids_def)

lemma tests_of_cores:
  "test_limit_none_returns_all rd (Some cores) = Ok ()"
  "test_limit_some_filters_topology rd (Some cores) = Ok ()"
  "cores \<noteq> [] \<Longrightarrow> test_limit_overflow rd (Some cores) = Ok ()"
proof -
  show "test_limit_none_returns_all rd (Some cores) = Ok ()"
    by (simp add: test_limit_none_returns_all_def get_core_ids_def)
  obtain chosen where "get_core_ids rd (Some cores) (Some 4) = chosen" "distinct (map (get_linux_topology_key rd) chosen)" "length chosen \<le> 4"
    using chosen_cores [of 4 rd cores] by auto
  then show "test_limit_some_filters_topology rd (Some cores) = Ok ()"
    by (simp add: test_limit_some_filters_topology_def Let_def physically_distinct_ok assert_that_def)
  assume "cores \<noteq> []"
  obtain chosen where c: "get_core_ids rd (Some cores) (Some 1024) = chosen" "subseq chosen cores"
      "length chosen < 1024 \<longrightarrow> get_linux_topology_key rd ` set cores \<subseteq> get_linux_topology_key rd ` set chosen"
    using chosen_cores [of 1024 rd cores] by auto
  then have "length chosen \<le> length cores" using list_emb_length by blast
  moreover have "chosen \<noteq> []" using c(3) \<open>cores \<noteq> []\<close> by auto
  ultimately show "test_limit_overflow rd (Some cores) = Ok ()"
    using c(1) by (simp add: test_limit_overflow_def Let_def assert_that_def)
qed

text \<open>
  The packing test passes for every value of the counter, the last one excepted: there the sequence
  numbers wrap, and the sum in the test overflows.
\<close>

lemma test_of_gfd: "fst (test_gfd_packing dbg s) = (if dbg \<and> s = - 1 then Panic else Ok ())"
proof -
  obtain g where g: "Gfd_new dbg 100 5 12345 s = (Ok g, s + 1)" by (simp add: Gfd_new_def token_mask)
  obtain g2 where g2: "Gfd_new dbg 100 5 12345 (s + 1) = (Ok g2, s + 2)" by (simp add: Gfd_new_def token_mask)
  from Gfd_new_fields [OF g] Gfd_new_fields [OF g2] have
    "event_loop_index g = 5" "slab_index g = 12345" "g_fd g = 100" "g_seq g = s" "g_seq g2 = s + 1" by simp_all
  then show ?thesis
    by (simp add: test_gfd_packing_def Let_def bind_io_def g g2 gfd_fd_def gfd_sequence_def)
qed

end
