(* ===== verification/EngineStart.thy ===== *)
theory EngineStart
  imports UnitTests
begin

text \<open>
  When an engine starts: what \<open>Engine::run\<close> asks of the kernel is granted, then it reaches its joins, with
  one acceptor or with a listener in every loop. The two tests of \<open>src/engine.rs\<close>, up to the joins, are
  the first users.
\<close>

subsection \<open>Programs that succeed\<close>

definition succeeds :: "('a, 's) prog \<Rightarrow> bool" where
  "succeeds m \<longleftrightarrow> (\<forall>s. \<exists>x s'. m s = (Ok x, s'))"

lemma succeedsI: "(\<And>s. \<exists>x s'. m s = (Ok x, s')) \<Longrightarrow> succeeds m"
  by (simp add: succeeds_def)

lemma succeedsE:
  assumes "succeeds m"
  obtains x s' where "m s = (Ok x, s')"
  using assms unfolding succeeds_def by blast

lemma succeeds_ret: "succeeds (ret x)"
  by (simp add: succeeds_def ret_def)

text \<open>The rest may use what the first program answers.\<close>

lemma succeeds_bind:
  assumes "succeeds m" and "\<And>s x s'. m s = (Ok x, s') \<Longrightarrow> succeeds (f x)"
  shows "succeeds (bind_io m f)"
proof (rule succeedsI)
  fix s
  obtain x s1 where m: "m s = (Ok x, s1)" using assms(1) by (rule succeedsE)
  obtain y s2 where "f x s1 = (Ok y, s2)" using assms(2) [OF m] by (rule succeedsE)
  with m show "\<exists>y s'. bind_io m f s = (Ok y, s')" by (simp add: bind_io_def)
qed

lemma succeeds_in_world: "succeeds m \<Longrightarrow> succeeds (in_world m)"
  unfolding succeeds_def in_world_def by (metis (no_types, lifting) case_prod_conv)

lemma succeeds_when: "succeeds m \<Longrightarrow> succeeds (when_io b m)"
  by (simp add: when_io_def succeeds_ret)

lemma succeeds_handle: "succeeds (on_engine_handle f)"
  by (simp add: succeeds_def on_engine_handle_def)

lemma succeeds_pool: "succeeds (start_pool n)"
  by (simp add: succeeds_def start_pool_def split: prod.split)

lemmas succeeding = succeeds_bind succeeds_ret succeeds_in_world succeeds_when succeeds_handle succeeds_pool

subsection \<open>A kernel that grants what is asked\<close>

definition grants :: "'w os \<Rightarrow> 'w reactor \<Rightarrow> bool" where
  "grants os rx \<longleftrightarrow>
     (\<forall>w d. \<exists>s w'. s2_socket os w d = (Inr s, w')) \<and>
     (\<forall>w s r. \<exists>w'. s2_call os w s r = (Inr (), w')) \<and>
     (\<forall>w s. \<exists>a. tcp_listener_addr os w s = Inr a) \<and>
     (\<forall>w src t i. \<exists>w'. registry_register os w src t i = (Inr (), w')) \<and>
     (\<forall>w. \<exists>w'. poller_new rx w = (Inr (), w')) \<and> (\<forall>w. \<exists>k w'. waker_new rx w = (Inr k, w'))"

lemma grantsD:
  assumes "grants os rx"
  shows "\<exists>s w'. s2_socket os w d = (Inr s, w')" and "\<exists>w'. s2_call os w s r = (Inr (), w')"
    and "\<exists>a. tcp_listener_addr os w s = Inr a" and "\<exists>w'. registry_register os w src t i = (Inr (), w')"
    and "\<exists>w'. poller_new rx w = (Inr (), w')" and "\<exists>k w'. waker_new rx w = (Inr k, w')"
  using assms unfolding grants_def by blast+

lemma grants_socket: "grants os rx \<Longrightarrow> succeeds (s2_new os d)"
  unfolding succeeds_def s2_new_def by (metis (mono_tags, lifting) case_prod_conv grantsD(1) sum.case(2))

lemma grants_request: "grants os rx \<Longrightarrow> succeeds (s2_ask os s r)"
  unfolding succeeds_def s2_ask_def by (metis (mono_tags, lifting) case_prod_conv grantsD(2) sum.case(2))

lemma remove_stale_succeeds: "succeeds (remove_stale os path)"
  by (simp add: succeeds_def remove_stale_def)

lemma configure_succeeds: "grants os rx \<Longrightarrow> succeeds (configure_socket os s opts)"
  unfolding configure_socket_def by (intro succeeding grants_request)

lemma keep_alive_succeeds: "grants os rx \<Longrightarrow> succeeds (keep_alive os s opts)"
  unfolding keep_alive_def Let_def by (auto split: option.split intro!: succeeding grants_request)

lemma create_tcp_succeeds: "grants os rx \<Longrightarrow> succeeds (create_mio_tcp_listener os a opts backlog)"
  unfolding create_mio_tcp_listener_def
  by (intro succeeding grants_socket grants_request configure_succeeds keep_alive_succeeds)

lemma create_unix_succeeds: "grants os rx \<Longrightarrow> succeeds (create_mio_unix_listener os path opts backlog)"
  unfolding create_mio_unix_listener_def
  by (intro succeeding grants_socket grants_request configure_succeeds remove_stale_succeeds)

lemma bind_succeeds:
  assumes g: "grants os rx"
  shows "succeeds (listener_bind os addr opts)"
proof (rule succeedsI)
  fix w
  let ?backlog = "get_max_listen_backlog os w"
  show "\<exists>l w'. listener_bind os addr opts w = (Ok l, w')"
  proof (cases addr)
    case (TcpAddr a)
    obtain s w1 where s: "create_mio_tcp_listener os a opts ?backlog w = (Ok s, w1)"
      using create_tcp_succeeds [OF g] by (rule succeedsE)
    obtain b where "tcp_listener_addr os w1 s = Inr b" using grantsD(3) [OF g] by blast
    with s TcpAddr show ?thesis by (simp add: listener_bind_def Let_def bind_io_def)
  next
    case (UnixAddr path)
    obtain s w1 where "create_mio_unix_listener os path opts ?backlog w = (Ok s, w1)"
      using create_unix_succeeds [OF g] by (rule succeedsE)
    with UnixAddr show ?thesis by (simp add: listener_bind_def Let_def bind_io_def ret_def)
  qed
qed

lemma bind_all_succeeds: "grants os rx \<Longrightarrow> succeeds (bind_all os opts addrs)"
  by (induction addrs) (simp_all add: succeeding bind_succeeds)

subsection \<open>Loops and the engine\<close>

lemma eloop_new_succeeds:
  assumes g: "grants os rx"
  shows "succeeds (eloop_new rx loop_id opts c mono_seq)"
proof (rule succeedsI)
  fix w
  obtain w1 where w1: "poller_new rx w = (Inr (), w1)" using grantsD(5) [OF g] by blast
  obtain k w2 where "waker_new rx w1 = (Inr k, w2)" using grantsD(6) [OF g] by blast
  with w1 show "\<exists>el w'. eloop_new rx loop_id opts c mono_seq w = (Ok el, w')" by (simp add: eloop_new_def)
qed

lemma acceptor_new_succeeds:
  assumes g: "grants os rx"
  shows "succeeds (Acceptor_new (poller_new rx) (waker_new rx) ls hs policy)"
proof (rule succeedsI)
  fix w
  obtain w1 where w1: "poller_new rx w = (Inr (), w1)" using grantsD(5) [OF g] by blast
  obtain k w2 where "waker_new rx w1 = (Inr k, w2)" using grantsD(6) [OF g] by blast
  with w1 show "\<exists>ac w'. Acceptor_new (poller_new rx) (waker_new rx) ls hs policy w = (Ok ac, w')" by (simp add: Acceptor_new_def)
qed

text \<open>There are 1025 tokens for listeners, the last of them the waker's (\<open>listener_token_clash\<close>); past them the index overflows.\<close>

lemma registrations_succeed:
  assumes g: "grants os rx" and "i + length ls \<le> 1025"
  shows "succeeds (build_listeners os dbg i ls :: (unit, ('w, 'k) eloop) prog)"
  using assms(2)
proof (induction ls arbitrary: i)
  case (Cons l ls)
  then have "unat (of_nat i :: usize) = i" by (simp add: unat_of_nat take_bit_nat_eq_self)
  with Cons.prems have t: "listener_token dbg (of_nat i) = Ok (LISTENER_TOKEN_START + of_nat i)"
    by (simp add: listener_token_def unat_START)
  have "succeeds (on_world (\<lambda>w. poller_register (listener_register os) w l token) :: (unit, ('w, 'k) eloop) prog)" for token
  proof (rule succeedsI)
    fix st :: "('w, 'k) eloop"
    obtain w1 where "registry_register os (l_world st) (listener_source l) token Readable = (Inr (), w1)"
      using grantsD(4) [OF g] by blast
    then show "\<exists>x st'. on_world (\<lambda>w. poller_register (listener_register os) w l token) st = (Ok x, st')"
      by (simp add: on_world_def poller_register_def listener_register_def)
  qed
  moreover have "succeeds (build_listeners os dbg (Suc i) ls :: (unit, ('w, 'k) eloop) prog)" using Cons by simp
  ultimately show ?case by (simp add: t succeeds_bind)
qed (simp add: succeeds_ret)

lemma build_loop_succeeds:
  assumes g: "grants os rx" and "length ls \<le> 1025"
  shows "succeeds (build_loop os dbg ls (el :: ('w, 'k) eloop))"
proof (rule succeedsI)
  fix w
  have "succeeds (build_listeners os dbg 0 ls :: (unit, ('w, 'k) eloop) prog)"
    using registrations_succeed [OF g, of 0 ls] assms(2) by simp
  then obtain x st' where "build_listeners os dbg 0 ls ((set_listeners ls el)\<lparr>l_world := w\<rparr>) = (Ok x, st')" by (rule succeedsE)
  then show "\<exists>el' w'. build_loop os dbg ls el w = (Ok el', w')"
    by (simp add: build_loop_def eloop_build_def set_listeners_def)
qed

lemma new_loops_succeed: "grants os rx \<Longrightarrow> succeeds (new_loops rx opts mono_seq i n)"
  by (induction n arbitrary: i) (simp_all add: succeeding eloop_new_succeeds)

lemma pending_loops_succeed:
  assumes g: "grants os rx" and "length addrs \<le> 1025"
  shows "succeeds (pending_loops rx os dbg opts addrs mono_seq i n :: (('w, 'k) eloop list, 'w) prog)"
proof (induction n arbitrary: i)
  case (Suc n)
  have "succeeds (build_loop os dbg ls el)" if "bind_all os opts addrs w = (Ok ls, w')" for ls w w' and el :: "('w, 'k) eloop"
    using bind_all_listeners [OF that] assms(2) by (intro build_loop_succeeds [OF g]) simp
  with Suc show ?case
    unfolding pending_loops.simps by (intro succeeds_bind succeeds_ret bind_all_succeeds [OF g] eloop_new_succeeds [OF g])
qed (simp add: succeeds_ret)

lemma engine_run_succeeds:
  assumes g: "grants os rx" and "length (en_address en) \<le> 1025" and policy: "reuse_port (en_options en) \<or> en_lb_policy en \<noteq> None"
  shows "succeeds (engine_run rx os dbg mono_seq available en :: (('w, 'k) threads, ('w, 't) engine_env) prog)"
proof -
  have "succeeds (run_reuse_port rx os dbg mono_seq en cores :: (('w, 'k) threads, ('w, 't) engine_env) prog)" for cores
    unfolding run_reuse_port_def by (intro succeeding pending_loops_succeed [OF g] assms(2))
  moreover have "succeeds (run_user_lb rx os mono_seq en cores :: (('w, 'k) threads, ('w, 't) engine_env) prog)" if "\<not> reuse_port (en_options en)" for cores
  proof -
    from policy that obtain p where "en_lb_policy en = Some p" by auto
    then have "succeeds (user_lb_threads rx os mono_seq en cores :: (('w, 'k) eloop list \<times> 'w acceptor, ('w, 't) engine_env) prog)"
      unfolding user_lb_threads_def
      by (simp only: option.case) (intro succeeding bind_all_succeeds [OF g] new_loops_succeed [OF g] acceptor_new_succeeds [OF g])
    then show ?thesis unfolding run_user_lb_def by (rule succeeds_bind) (auto intro!: succeeding split: prod.split)
  qed
  ultimately show ?thesis unfolding succeeds_def engine_run_def Let_def by auto
qed

lemma built_engine:
  assumes "engine_build init opts b = Ok en"
  shows "en_options en = opts \<and> (reuse_port opts \<or> en_lb_policy en \<noteq> None) \<and> b_addrs b = Some (en_address en)"
  using assms by (auto simp: engine_build_def split: prod.splits if_splits option.splits outcome.splits)

subsection \<open>The tests of the engine\<close>

definition game_init :: "options \<Rightarrow> unit \<times> action" where
  "game_init opts = ((), ActNone)"

text \<open>What its methods print is left out.\<close>

definition game_server :: "('w, 'k) handler" where
  "game_server = default_handler
     \<lparr>on_open := \<lambda>c (h, w). (ActNone, c, h, w),
      on_traffic := \<lambda>c (h, w). (ActNone, c, h, w),
      on_close := \<lambda>c (h, w). (ActNone, c, h, w)\<rparr>"

lemma game_server_ok: "handler_ok (game_server :: ('w, 'k) handler)"
proof -
  have "game_server = (default_handler :: ('w, 'k) handler)" by (simp add: game_server_def default_handler_def)
  with default_handler_ok show ?thesis by simp
qed

definition server_addrs :: "string list" where
  "server_addrs = [''tcp://127.0.0.1:9000'', ''tcp://127.0.0.1:9001'', ''tcp://127.0.0.1:9002'']"

text \<open>Build an engine for the three addresses and run it, up to the joins.\<close>

definition engine_test ::
  "'w reactor \<Rightarrow> 'w os \<Rightarrow> bool \<Rightarrow> u32 \<Rightarrow> nat list option \<Rightarrow> options_builder \<Rightarrow> (('w, 'k) threads, ('w, 't) engine_env) prog" where
  "engine_test rx os dbg mono_seq available b v =
     (case launch dbg game_init b server_addrs of
        Ok en \<Rightarrow> (case engine_run rx os dbg mono_seq available en v of (r, v') \<Rightarrow> (unwrap r, v'))
      | _ \<Rightarrow> (Panic, v))"

definition test_run_reuse_port ::
  "'w reactor \<Rightarrow> 'w os \<Rightarrow> bool \<Rightarrow> u32 \<Rightarrow> nat list option \<Rightarrow> (('w, 'k) threads, ('w, 't) engine_env) prog" where
  "test_run_reuse_port rx os dbg mono_seq available =
     engine_test rx os dbg mono_seq available
       (builder_num_event_loop 8 (builder_reuse_addr True (builder_reuse_port True builder_new)))"

definition test_run_user_lb ::
  "'w reactor \<Rightarrow> 'w os \<Rightarrow> bool \<Rightarrow> u32 \<Rightarrow> nat list option \<Rightarrow> (('w, 'k) threads, ('w, 't) engine_env) prog" where
  "test_run_user_lb rx os dbg mono_seq available =
     engine_test rx os dbg mono_seq available
       (builder_num_event_loop 8 (builder_reuse_addr True (builder_lb LbRoundRobin builder_new)))"

lemma server_addrs_parsed:
  "normalize server_addrs opts
     = (Ok (map (\<lambda>port. TcpAddr (SocketAddrV4 [127, 0, 0, 1] port)) [9000, 9001, 9002]), opts)"
  by (simp add: server_addrs_def normalize_def reading)

lemma engine_test_succeeds:
  assumes g: "grants os rx" and b: "default_sizes b" and rr: "lb (requested_options b) = LbRoundRobin"
  shows "succeeds (engine_test rx os dbg mono_seq available b :: (('w, 'k) threads, ('w, 't) engine_env) prog)"
proof -
  let ?as = "map (\<lambda>port. TcpAddr (SocketAddrV4 [127, 0, 0, 1] port)) [9000, 9001, 9002]"
  obtain en where en: "launch dbg game_init b server_addrs = Ok en" "en_address en = ?as"
      "reuse_port (en_options en) \<or> en_lb_policy en \<noteq> None"
    using rr by (cases "reuse_port (requested_options b)") (simp_all add: launch_def build_default_sizes [OF b]
        server_addrs_parsed engine_build_def game_init_def Balancer_new_def builder_address_def)
  have "succeeds (engine_run rx os dbg mono_seq available en :: (('w, 'k) threads, ('w, 't) engine_env) prog)"
    by (rule engine_run_succeeds [OF g _ en(3)]) (simp add: en(2))
  with en(1) show ?thesis by (simp add: succeeds_def engine_test_def) (metis case_prod_conv unwrap_simps(1))
qed

lemma engine_tests_pass:
  assumes "grants os rx"
  shows "succeeds (test_run_reuse_port rx os dbg mono_seq available :: (('w, 'k) threads, ('w, 't) engine_env) prog)"
    and "succeeds (test_run_user_lb rx os dbg mono_seq available :: (('w, 'k) threads, ('w, 't) engine_env) prog)"
  unfolding test_run_reuse_port_def test_run_user_lb_def
  by (rule engine_test_succeeds [OF assms];
      simp add: default_sizes_def Let_def requested_options_def builder_num_event_loop_def builder_reuse_addr_def
        builder_reuse_port_def builder_lb_def builder_new_def override_def default_options_def)+

subsection \<open>Properties\<close>

text \<open>
  C23: an engine starts. When the kernel grants sockets, requests to them, registrations, pollers and
  wakers, then \<open>Engine::run\<close> of any engine that the builder built, on at most 1025 addresses of either
  kind, reaches its joins: neither missing cores nor any combination of options makes it fail or panic.
\<close>

theorem engine_starts:
  fixes v :: "('w, 't) engine_env"
  assumes g: "grants os rx" and built: "engine_build init opts b = Ok en" and len: "length (en_address en) \<le> 1025"
  shows "\<exists>t v'. engine_run rx os dbg mono_seq available en v = (Ok (t :: ('w, 'k) threads), v')"
proof -
  from built_engine [OF built] have "reuse_port (en_options en) \<or> en_lb_policy en \<noteq> None" by simp
  from engine_run_succeeds [OF g len this] show ?thesis unfolding succeeds_def by blast
qed

lemma steady_grants: "grants steady_os sim_reactor2"
  by (simp add: grants_def sim_reactor2_def steady_os_def sim_os_def sim_set_interest_def)

lemma engine_starts_witness:
  "\<exists>en t v'. engine_build game_init (default_options\<lparr>reuse_port := True, num_event_loop := 2\<rparr>)
        (builder_address [TcpAddr (SocketAddrV4 [0, 0, 0, 0] 0), UnixAddr ''/tmp/a''] builder) = Ok en
    \<and> engine_run sim_reactor2 steady_os True 0 (Some [0, 1]) en demo_env = (Ok (t :: (sim, unit) threads), v')"
proof -
  let ?b = "builder_address [TcpAddr (SocketAddrV4 [0, 0, 0, 0] 0), UnixAddr ''/tmp/a''] builder"
  let ?o = "default_options\<lparr>reuse_port := True, num_event_loop := 2\<rparr>"
  obtain en where en: "engine_build game_init ?o ?b = Ok en"
    by (simp add: engine_build_def game_init_def builder_address_def)
  with built_engine [OF en] have "en_address en = [TcpAddr (SocketAddrV4 [0, 0, 0, 0] 0), UnixAddr ''/tmp/a'']"
    by (simp add: builder_address_def)
  then have "length (en_address en) \<le> 1025" by simp
  from engine_starts [OF steady_grants en this] en show ?thesis by blast
qed

text \<open>
  The repository's own tests, apart from the one on the layout of a descriptor in memory. Those of the sizes,
  the addresses and the normalisation of Unix addresses pass in every build; those of the choice of cores
  when the system tells a list of cores (one of them only if it is not empty), whatever the topology files
  hold; the packing of descriptors for every value of the counter but the last; the two runs of the engine
  in every kernel that grants what they ask. The two tests that expect UDP addresses to parse panic.
\<close>

lemma unit_tests_of_the_repository:
  fixes v :: "('w, 't) engine_env"
  shows "(\<forall>s. s \<noteq> - 1 \<longrightarrow> fst (test_gfd_packing dbg s) = Ok ())
    \<and> test_buffer_cap_normalization dbg = Ok () \<and> test_et_chunk_normalization dbg = Ok ()
    \<and> test_ceil_to_power_of_two dbg = Ok () \<and> test_normalize_unix dbg = Ok ()
    \<and> test_parse_valid_tcp = Ok () \<and> test_parse_valid_unix = Ok () \<and> test_parse_bad = Ok () \<and> test_edge_cases = Ok ()
    \<and> test_limit_none_returns_all rd (Some cores) = Ok () \<and> test_limit_some_filters_topology rd (Some cores) = Ok ()
    \<and> (cores \<noteq> [] \<longrightarrow> test_limit_overflow rd (Some cores) = Ok ())
    \<and> (grants os rx \<longrightarrow>
         (\<exists>t v'. test_run_reuse_port rx os dbg mono_seq available v = (Ok (t :: ('w, 'k) threads), v'))
         \<and> (\<exists>t v'. test_run_user_lb rx os dbg mono_seq available v = (Ok (t :: ('w, 'k) threads), v')))
    \<and> test_normalize_udp dbg = Panic \<and> test_normalize_mixed dbg = Panic"
proof -
  have "(\<exists>t v'. test_run_reuse_port rx os dbg mono_seq available v = (Ok (t :: ('w, 'k) threads), v'))
      \<and> (\<exists>t v'. test_run_user_lb rx os dbg mono_seq available v = (Ok (t :: ('w, 'k) threads), v'))" if "grants os rx"
    using engine_tests_pass [OF that] unfolding succeeds_def by blast
  then show ?thesis
    by (simp add: test_of_gfd tests_of_sizes tests_of_normalize tests_of_addresses tests_of_cores)
qed

end
