(* ===== verification/Ownership.thy ===== *)
theory Ownership
  imports LoopStreams "HOL-Library.Multiset"
begin

text \<open>
  Who owns a socket. A socket that the process has open is in the hands of a loop: in one of its slots,
  or in a \<open>Register\<close> command that it has yet to take. The invariant \<open>accounted\<close> says that nothing is in
  two hands, nothing open is in nobody's, and nothing closed is in somebody's; every operation of the
  loop keeps it, on its error paths too. What other loops own is a parameter, so that theory \<open>System\<close>
  can put loops together; what is observed of their sockets does not change either.
\<close>

subsection \<open>Hands\<close>

fun slot_sock :: "'k conn option \<Rightarrow> socket multiset" where
  "slot_sock None = {#}"
| "slot_sock (Some c) = (case c_socket c of None \<Rightarrow> {#} | Some sk \<Rightarrow> {#sk#})"

definition slab_socks :: "'k conn slab \<Rightarrow> socket multiset" where
  "slab_socks s = sum_list (map slot_sock s)"

fun cmd_sock :: "command \<Rightarrow> socket multiset" where
  "cmd_sock (Register sk _ _) = {#sk#}"
| "cmd_sock _ = {#}"

definition queued :: "loop_handle \<Rightarrow> socket multiset" where
  "queued h = sum_list (map cmd_sock (pending h))"

definition hands :: "('w, 'k) eloop \<Rightarrow> socket multiset" where
  "hands st = slab_socks (l_connections st) + queued (l_handle st)"

lemma slab_socks_split: "slab_socks (xs @ x # ys) = slab_socks (xs @ ys) + slot_sock x"
  by (simp add: slab_socks_def ac_simps)

lemma slab_socks_remove:
  assumes "slab_remove k s = Some (c, s')"
  shows "slab_socks s = slab_socks s' + slot_sock (Some c)"
proof -
  from assms have k: "k < length s" "s ! k = Some c" and s': "s' = s[k := None]"
    by (auto simp: slab_remove_def slab_get_def split: if_splits option.splits)
  then have "s = take k s @ Some c # drop (Suc k) s" using id_take_nth_drop [OF k(1)] by metis
  moreover have "s' = take k s @ None # drop (Suc k) s" using k(1) s' by (simp add: upd_conv_take_nth_drop)
  ultimately show ?thesis using slab_socks_split [of "take k s" _ "drop (Suc k) s"] by (metis add.right_neutral slot_sock.simps(1))
qed

lemma sum_none: "sum_list (replicate n {#}) = {#}"
  by (induction n) simp_all

lemma slab_socks_insert:
  assumes "slab_get s k = None"
  shows "slab_socks (slab_insert k c s) = slab_socks s + slot_sock (Some c)"
proof (cases "k < length s")
  case True
  with assms have "s ! k = None" by (simp add: slab_get_def)
  have "slab_remove k (slab_insert k c s) = Some (c, s[k := None])"
    using True by (simp add: slab_remove_def slab_insert_def slab_get_def)
  from slab_socks_remove [OF this] \<open>s ! k = None\<close> show ?thesis by (metis list_update_id)
next
  case False
  then show ?thesis by (simp add: slab_insert_def slab_socks_def sum_none)
qed

lemma slab_socks_put:
  assumes "slab_get s k = Some c" and "c_socket c' = c_socket c"
  shows "slab_socks (slab_insert k c' s) = slab_socks s"
proof -
  from assms(1) have k: "k < length s" "s ! k = Some c" by (auto simp: slab_get_def split: if_splits)
  have "slab_remove k (slab_insert k c' s) = Some (c', s[k := None])" "slab_remove k s = Some (c, s[k := None])"
    using k by (simp_all add: slab_remove_def slab_insert_def slab_get_def)
  from slab_socks_remove [OF this(1)] slab_socks_remove [OF this(2)] assms(2) show ?thesis by simp
qed

lemma queued_simps [simp]:
  "queued (h\<lparr>h_conn_count := n\<rparr>) = queued h" "queued (h\<lparr>h_waker := wk\<rparr>) = queued h"
  by (simp_all add: queued_def pending_def)

lemma queued_split: "pending h = xs @ ys \<Longrightarrow> pending h' = xs @ cmd # ys \<Longrightarrow> queued h' = queued h + cmd_sock cmd"
  by (simp add: queued_def ac_simps)

subsection \<open>What the kernel and the application do to sockets\<close>

text \<open>
  \<open>held w sk\<close>: the process has \<open>sk\<close> open. Accepting opens a socket that was not, dropping a stream closes
  it, and no other call opens or closes one. \<open>v w sk\<close> is anything else that is observed of a socket, and
  changes only by calls on that socket.
\<close>

definition books_ok :: "'w os \<Rightarrow> ('w \<Rightarrow> socket \<Rightarrow> bool) \<Rightarrow> ('w \<Rightarrow> socket \<Rightarrow> 'v) \<Rightarrow> bool" where
  "books_ok os held v \<longleftrightarrow>
     (\<forall>w l r w'. listener_accept os w l = (r, w') \<longrightarrow>
        (case r of Inl e \<Rightarrow> held w' = held w \<and> v w' = v w
         | Inr (sk, peer) \<Rightarrow> \<not> held w sk \<and> held w' = (held w)(sk := True) \<and> (\<forall>sk'. sk' \<noteq> sk \<longrightarrow> v w' sk' = v w sk')))
     \<and> isolated os v
     \<and> (\<forall>w sk. held (drop_stream os w sk) = (held w)(sk := False))
     \<and> (\<forall>w sk len. held (snd (socket_read os w sk len)) = held w)
     \<and> (\<forall>w sk buf. held (snd (socket_write os w sk buf)) = held w)
     \<and> (\<forall>w sk bufs. held (snd (socket_write_vectored os w sk bufs)) = held w)
     \<and> (\<forall>w sk. held (snd (socket_flush os w sk)) = held w)
     \<and> (\<forall>w sk b. held (snd (set_nodelay os w sk b)) = held w)
     \<and> (\<forall>w src token i. held (snd (registry_register os w src token i)) = held w
          \<and> held (snd (registry_reregister os w src token i)) = held w)
     \<and> (\<forall>w src. held (snd (registry_deregister os w src)) = held w)
     \<and> (\<forall>w i. held (snd (waker_wake os w i)) = held w)"

lemma books_okD:
  assumes "books_ok os held v"
  shows "listener_accept os w l = (Inl e, w') \<Longrightarrow> held w' = held w"
    and "listener_accept os w l = (Inr (sk, peer), w') \<Longrightarrow> \<not> held w sk \<and> held w' = (held w)(sk := True)"
    and "held (drop_stream os w sk) = (held w)(sk := False)"
    and "socket_read os w sk len = (r1, w') \<Longrightarrow> held w' = held w"
    and "socket_write os w sk buf = (r2, w') \<Longrightarrow> held w' = held w"
    and "socket_write_vectored os w sk bufs = (r2, w') \<Longrightarrow> held w' = held w"
    and "socket_flush os w sk = (r3, w') \<Longrightarrow> held w' = held w"
    and "held (snd (set_nodelay os w sk b)) = held w"
    and "registry_register os w src token i = (r3, w') \<Longrightarrow> held w' = held w \<and> v w' = v w"
    and "registry_reregister os w src token i = (r3, w') \<Longrightarrow> held w' = held w \<and> v w' = v w"
    and "registry_deregister os w src = (r3, w') \<Longrightarrow> held w' = held w \<and> v w' = v w"
    and "waker_wake os w n = (r3, w') \<Longrightarrow> held w' = held w \<and> v w' = v w"
    and "isolated os v"
    and "listener_accept os w l = (Inl e, w') \<Longrightarrow> v w' = v w"
    and "listener_accept os w l = (Inr (sk, peer), w') \<Longrightarrow> sk' \<noteq> sk \<Longrightarrow> v w' sk' = v w sk'"
proof -
  note a = assms [unfolded books_ok_def, THEN conjunct1, rule_format]
  show "listener_accept os w l = (Inl e, w') \<Longrightarrow> held w' = held w" "listener_accept os w l = (Inl e, w') \<Longrightarrow> v w' = v w"
    using a [of w l "Inl e" w'] by simp_all
  show "listener_accept os w l = (Inr (sk, peer), w') \<Longrightarrow> \<not> held w sk \<and> held w' = (held w)(sk := True)"
    "listener_accept os w l = (Inr (sk, peer), w') \<Longrightarrow> sk' \<noteq> sk \<Longrightarrow> v w' sk' = v w sk'"
    using a [of w l "Inr (sk, peer)" w'] by simp_all
  show iso: "isolated os v" using assms by (simp add: books_ok_def)
  have "held (snd (registry_register os w src token i)) = held w" "held (snd (registry_reregister os w src token i)) = held w"
    "held (snd (registry_deregister os w src)) = held w" "held (snd (waker_wake os w n)) = held w"
    using assms by (simp_all add: books_ok_def)
  moreover have "v (snd (registry_register os w src token i)) = v w" "v (snd (registry_reregister os w src token i)) = v w"
    "v (snd (registry_deregister os w src)) = v w" "v (snd (waker_wake os w n)) = v w"
    by (simp_all add: isolatedD(7-10) [OF iso])
  ultimately show "registry_register os w src token i = (r3, w') \<Longrightarrow> held w' = held w \<and> v w' = v w"
    "registry_reregister os w src token i = (r3, w') \<Longrightarrow> held w' = held w \<and> v w' = v w"
    "registry_deregister os w src = (r3, w') \<Longrightarrow> held w' = held w \<and> v w' = v w"
    "waker_wake os w n = (r3, w') \<Longrightarrow> held w' = held w \<and> v w' = v w" by simp_all
qed (use assms in \<open>unfold books_ok_def, metis snd_conv\<close>)+

text \<open>
  Callbacks move no sockets: they keep the connection's own, open and close none, leave those of other
  connections alone, and send no \<open>Register\<close> command (its socket could only be one that the application opened).
\<close>

definition no_sockets ::
  "('w \<Rightarrow> socket \<Rightarrow> bool) \<Rightarrow> ('w \<Rightarrow> socket \<Rightarrow> 'v) \<Rightarrow> ('k conn \<Rightarrow> loop_handle \<times> 'w \<Rightarrow> action \<times> 'k conn \<times> loop_handle \<times> 'w) \<Rightarrow> bool" where
  "no_sockets held v f \<longleftrightarrow>
     (\<forall>c h w a c' h' w'. f c (h, w) = (a, c', h', w') \<longrightarrow> c_socket c \<noteq> None \<longrightarrow>
        c_socket c' = c_socket c \<and> queued h' = queued h \<and> h_connected h' = h_connected h \<and> held w' = held w
        \<and> (\<forall>sk. c_socket c \<noteq> Some sk \<longrightarrow> v w' sk = v w sk))"

definition all_open :: "'k conn slab \<Rightarrow> bool" where
  "all_open s \<longleftrightarrow> (\<forall>k c. slab_get s k = Some c \<longrightarrow> c_socket c \<noteq> None)"

definition app_ok :: "('w \<Rightarrow> socket \<Rightarrow> bool) \<Rightarrow> ('w \<Rightarrow> socket \<Rightarrow> 'v) \<Rightarrow> ('w, 'k) handler \<Rightarrow> bool" where
  "app_ok held v H \<longleftrightarrow>
     no_sockets held v (on_open H) \<and> no_sockets held v (on_traffic H) \<and> no_sockets held v (on_close H)
     \<and> (\<forall>s h w r s' h' w'. on_tick H s (h, w) = (r, s', h', w') \<longrightarrow>
          slab_socks s' = slab_socks s \<and> (all_open s \<longrightarrow> all_open s') \<and> queued h' = queued h \<and> h_connected h' = h_connected h
          \<and> held w' = held w \<and> v w' = v w)"

lemma app_okD:
  assumes "app_ok held v H"
  shows "no_sockets held v (on_open H)" and "no_sockets held v (on_traffic H)" and "no_sockets held v (on_close H)"
    and "on_tick H s (h, w) = (r, s', h', w') \<Longrightarrow>
      slab_socks s' = slab_socks s \<and> (all_open s \<longrightarrow> all_open s') \<and> queued h' = queued h \<and> h_connected h' = h_connected h
      \<and> held w' = held w \<and> v w' = v w"
  using assms unfolding app_ok_def by blast+

lemma no_socketsD:
  "no_sockets held v f \<Longrightarrow> f c (h, w) = (a, c', h', w') \<Longrightarrow> c_socket c \<noteq> None \<Longrightarrow>
    c_socket c' = c_socket c \<and> queued h' = queued h \<and> h_connected h' = h_connected h \<and> held w' = held w
    \<and> (\<forall>sk. c_socket c \<noteq> Some sk \<longrightarrow> v w' sk = v w sk)"
  unfolding no_sockets_def by blast

lemma all_openD: "all_open s \<Longrightarrow> slab_get s k = Some c \<Longrightarrow> c_socket c \<noteq> None"
  unfolding all_open_def by blast

lemma all_open_insert: "all_open s \<Longrightarrow> c_socket c \<noteq> None \<Longrightarrow> all_open (slab_insert k c s)"
  by (simp add: all_open_def)

lemma all_open_put: "all_open s \<Longrightarrow> slab_get s k = Some c \<Longrightarrow> c_socket c' = c_socket c \<Longrightarrow> all_open (slab_insert k c' s)"
  using all_openD all_open_insert by metis

lemma all_open_remove: "all_open s \<Longrightarrow> slab_remove k s = Some (c, s') \<Longrightarrow> all_open s'"
  by (auto simp: all_open_def slots.remove_get(2) split: if_splits)

lemma in_slab: "slab_get s k = Some c \<Longrightarrow> c_socket c = Some sk \<Longrightarrow> sk \<in># slab_socks s"
proof -
  assume c: "slab_get s k = Some c" "c_socket c = Some sk"
  then have "slab_remove k s = Some (c, s[k := None])" by (simp add: slab_remove_def)
  from slab_socks_remove [OF this] c(2) show ?thesis by simp
qed

lemma sends_held:
  assumes ok: "books_ok os held v"
  shows "sends os sk w w' \<Longrightarrow> held w' = held w"
  by (induction rule: sends.induct) (simp_all add: books_okD(5-7) [OF ok])

subsection \<open>The invariant\<close>

definition books :: "('w \<Rightarrow> socket \<Rightarrow> bool) \<Rightarrow> 'w \<Rightarrow> socket multiset \<Rightarrow> bool" where
  "books held w M \<longleftrightarrow> (\<forall>sk. count M sk = (if held w sk then 1 else 0))"

text \<open>
  \<open>F\<close> is what others hold or is on its way, with \<open>B\<close> in it, of which nothing new is observed; the loop
  keeps its number and its channels.
\<close>

definition accounted ::
  "('w \<Rightarrow> socket \<Rightarrow> bool) \<Rightarrow> ('w \<Rightarrow> socket \<Rightarrow> 'v) \<Rightarrow> (socket \<Rightarrow> 'v) \<Rightarrow> socket multiset \<Rightarrow> u8 \<Rightarrow> socket multiset \<Rightarrow> ('w, 'k) eloop \<Rightarrow> bool" where
  "accounted held v u B n F st \<longleftrightarrow>
     l_id st = n \<and> h_connected (l_handle st) \<and> books held (l_world st) (hands st + F)
     \<and> all_open (l_connections st) \<and> B \<subseteq># F \<and> (\<forall>sk \<in># B. v (l_world st) sk = u sk)"

lemma books_held: "held w' = held w \<Longrightarrow> books held w' M = books held w M"
  by (simp add: books_def)

lemma books_drop:
  assumes "books_ok os held v" and "books held w (add_mset sk M)"
  shows "books held (drop_stream os w sk) M"
  unfolding books_def books_okD(3) [OF assms(1)]
proof
  fix s
  from assms(2) have "count (add_mset sk M) s = (if held w s then 1 else 0)" unfolding books_def by blast
  then show "count M s = (if ((held w)(sk := False)) s then 1 else 0)" by (auto split: if_splits)
qed

lemma books_accept:
  assumes "books_ok os held v" and "listener_accept os w l = (Inr (sk, peer), w')" and "books held w M"
  shows "books held w' (add_mset sk M)"
  using books_okD(2) [OF assms(1,2)] assms(3) by (simp add: books_def)

lemma accounted_rest:
  assumes "accounted held v u B n F st" and "l_id st' = l_id st" and "h_connected (l_handle st') = h_connected (l_handle st)"
    and "held (l_world st') = held (l_world st)" and "hands st' = hands st" and "all_open (l_connections st')"
    and "\<And>sk. sk \<in># B \<Longrightarrow> v (l_world st') sk = v (l_world st) sk"
  shows "accounted held v u B n F st'"
  using assms books_held [of held "l_world st'" "l_world st"] by (simp add: accounted_def)

text \<open>What the loop owns is not in \<open>B\<close>.\<close>

lemma books_apart:
  assumes "books held w (M + F)" and "B \<subseteq># F" and "sk \<in># M"
  shows "sk \<notin># B"
proof
  assume "sk \<in># B"
  then have n: "0 < count M sk" "0 < count B sk" using assms(3) by (simp_all del: count_greater_zero_iff add: count_greater_zero_iff [symmetric])
  have "count B sk \<le> count F sk" using assms(2) by (simp add: subseteq_mset_def)
  moreover have "count M sk + count F sk \<le> 1" using assms(1) unfolding books_def count_union by (metis le_numeral_extra(3,4) zero_le_one)
  ultimately show False using n by linarith
qed

lemma accounted_apart: "accounted held v u B n F st \<Longrightarrow> sk \<in># hands st \<Longrightarrow> sk \<notin># B"
  unfolding accounted_def using books_apart [of held "l_world st" "hands st" F B sk] by simp

lemma accounted_slot:
  assumes "accounted held v u B n F st" and "slab_get (l_connections st) k = Some c"
  obtains sk where "c_socket c = Some sk" and "sk \<notin># B"
proof -
  from assms obtain sk where sk: "c_socket c = Some sk" unfolding accounted_def using all_openD by blast
  with accounted_apart [OF assms(1)] in_slab [OF assms(2) sk] that show thesis by (simp add: hands_def)
qed

lemma accounted_base: "accounted held v u B n F st \<Longrightarrow> B \<subseteq># F"
  by (simp add: accounted_def)

lemma accounted_open: "accounted held v u B n F st \<Longrightarrow> all_open (l_connections st)"
  by (simp add: accounted_def)

lemma accounted_fields [simp]:
  "accounted held v u B n F (st\<lparr>l_scratch := sc\<rparr>) = accounted held v u B n F st"
  "accounted held v u B n F (st\<lparr>l_listeners := ls\<rparr>) = accounted held v u B n F st"
  "accounted held v u B n F (st\<lparr>l_pool := p\<rparr>) = accounted held v u B n F st"
  "accounted held v u B n F (st\<lparr>l_mono := m\<rparr>) = accounted held v u B n F st"
  by (simp_all add: accounted_def hands_def)

subsection \<open>Steps that keep it\<close>

text \<open>A program that comes back, with a value or an error; one that panics or hangs has no state after it.\<close>

fun ended :: "'a outcome \<Rightarrow> bool" where
  "ended (Ok _) = True"
| "ended (Err _) = True"
| "ended _ = False"

definition settles :: "('s \<Rightarrow> bool) \<Rightarrow> ('a, 's) prog \<Rightarrow> ('s \<Rightarrow> bool) \<Rightarrow> bool" where
  "settles P m Q \<longleftrightarrow> (\<forall>s r s'. P s \<longrightarrow> m s = (r, s') \<longrightarrow> ended r \<longrightarrow> Q s')"

lemma settlesI: "(\<And>s r s'. P s \<Longrightarrow> m s = (r, s') \<Longrightarrow> ended r \<Longrightarrow> Q s') \<Longrightarrow> settles P m Q"
  by (simp add: settles_def)

lemma settlesD: "settles P m Q \<Longrightarrow> P s \<Longrightarrow> m s = (r, s') \<Longrightarrow> ended r \<Longrightarrow> Q s'"
  unfolding settles_def by blast

lemma ended_no_panic: "ended r \<Longrightarrow> r \<noteq> Panic"
  by auto

lemma settles_bind:
  assumes m: "settles P m I" and f: "\<And>x. settles I (f x) Q" and "\<And>s. I s \<Longrightarrow> Q s"
  shows "settles P (bind_io m f) Q"
proof (rule settlesI)
  fix s r s' assume s: "P s" and run: "bind_io m f s = (r, s')" and e: "ended r"
  obtain r1 s1 where ms: "m s = (r1, s1)" by fastforce
  show "Q s'"
  proof (cases r1)
    case (Ok x)
    with run ms have "f x s1 = (r, s')" by (simp add: bind_io_def)
    then show ?thesis using settlesD [OF f settlesD [OF m s ms]] Ok e by simp
  qed (use run ms e settlesD [OF m s ms] assms(3) in \<open>auto simp: bind_io_def\<close>)
qed

lemma settles_then: "settles I m I \<Longrightarrow> (\<And>x. settles I (f x) I) \<Longrightarrow> settles I (bind_io m f) I"
  by (rule settles_bind)

lemma settles_ret: "settles I (ret x) I"
  by (simp add: settles_def ret_def)

lemma settles_raise: "settles I (raise e) I"
  by (simp add: settles_def raise_def)

lemma settles_if: "settles P m Q \<Longrightarrow> settles P m' Q \<Longrightarrow> settles P (if b then m else m') Q"
  by simp

lemma settles_discard:
  assumes "settles P m Q"
  shows "settles P (discard_result m) Q"
proof (rule settlesI)
  fix s r s' assume s: "P s" and run: "discard_result m s = (r, s')" and e: "ended r"
  obtain r1 s1 where "m s = (r1, s1)" by fastforce
  with run e settlesD [OF assms s this] show "Q s'" by (cases r1) (auto simp: discard_result_def)
qed

lemmas settling = settles_then settles_ret settles_raise settles_if settles_discard

lemma on_world_keeps:
  assumes "\<And>w r w'. f w = (r, w') \<Longrightarrow> held w' = held w \<and> v w' = v w"
  shows "settles (accounted held v u B n F) (on_world f) (accounted held v u B n F)"
proof (rule settlesI)
  fix st r st' assume a: "accounted held v u B n F st" and run: "on_world f st = (r, st')"
  obtain x w' where "f (l_world st) = (x, w')" by fastforce
  with assms [OF this] run accounted_open [OF a] show "accounted held v u B n F st'"
    by (cases x) (auto simp: on_world_def hands_def intro!: accounted_rest [OF a])
qed

lemma on_conn_keeps:
  assumes ok: "books_ok os held v" and m: "sends_only os m"
  shows "settles (accounted held v u B n F) (on_conn key m) (accounted held v u B n F)"
proof (rule settlesI)
  fix st r st' assume a: "accounted held v u B n F st" and run: "on_conn key m st = (r, st')" and np: "ended r"
  from run np obtain c where c: "slab_get (l_connections st) key = Some c"
    by (cases "slab_get (l_connections st) key") (simp_all add: on_conn_def)
  obtain r1 c' w' where mc: "m (c, l_world st) = (r1, (c', w'))" by (metis surj_pair)
  with run c have st': "r1 = r" "st' = st\<lparr>l_connections := slab_insert key c' (l_connections st), l_world := w'\<rparr>"
    by (simp_all add: on_conn_def)
  from sends_onlyD [OF m mc] ended_no_panic [OF np] st'(1) have s: "c_socket c' = c_socket c"
    "case c_socket c of Some sk \<Rightarrow> sends os sk (l_world st) w' | None \<Rightarrow> w' = l_world st" by simp_all
  obtain sk where sk: "c_socket c = Some sk" "sk \<notin># B" by (rule accounted_slot [OF a c])
  with s(2) have w: "sends os sk (l_world st) w'" by simp
  have "v w' sk' = v (l_world st) sk'" if "sk' \<in># B" for sk'
    using that sk(2) by (intro sends_others [OF books_okD(13) [OF ok] _ w]) auto
  with st' slab_socks_put [OF c s(1)] sends_held [OF ok w] all_open_put [OF accounted_open [OF a] c s(1)]
  show "accounted held v u B n F st'" by (intro accounted_rest [OF a]) (simp_all add: hands_def)
qed

lemma callback_keeps:
  assumes f: "no_sockets held v f"
  shows "settles (accounted held v u B n F) (callback key f) (accounted held v u B n F)"
proof (rule settlesI)
  fix st r st' assume a: "accounted held v u B n F st" and run: "callback key f st = (r, st')" and np: "ended r"
  from run np obtain c where c: "slab_get (l_connections st) key = Some c"
    by (cases "slab_get (l_connections st) key") (simp_all add: callback_def)
  obtain x c' h' w' where fc: "f c (l_handle st, l_world st) = (x, c', h', w')" by (metis surj_pair)
  with run c have "st' = st\<lparr>l_connections := slab_insert key c' (l_connections st), l_handle := h', l_world := w'\<rparr>"
    by (simp add: callback_def)
  moreover obtain sk where sk: "c_socket c = Some sk" "sk \<notin># B" by (rule accounted_slot [OF a c])
  moreover from sk have q: "c_socket c' = c_socket c" "c_socket c' = c_socket c"
    "queued h' = queued (l_handle st)" "h_connected h' = h_connected (l_handle st)"
    "held w' = held (l_world st)" "\<forall>sk. c_socket c \<noteq> Some sk \<longrightarrow> v w' sk = v (l_world st) sk"
    using no_socketsD [OF f fc] by simp_all
  moreover have "v w' sk' = v (l_world st) sk'" if "sk' \<in># B" for sk' using that sk q(6) by auto
  ultimately show "accounted held v u B n F st'"
    using slab_socks_put [OF c q(2)] all_open_put [OF accounted_open [OF a] c q(2)]
    by (intro accounted_rest [OF a]) (simp_all add: hands_def)
qed

lemma wake_handle_held:
  "books_ok os held v \<Longrightarrow> wake_handle os (h, w) = (r, (h', w')) \<Longrightarrow> queued h' = queued h \<and> h_connected h' = h_connected h \<and> held w' = held w \<and> v w' = v w"
  by (auto simp: wake_handle_def wake_def Let_def split: prod.splits if_splits sum.splits dest: books_okD(12))

lemma trigger_held:
  assumes ok: "books_ok os held v" and trig: "trigger os p cmd (h, w) = (r, (h', w'))"
  shows "held w' = held w \<and> v w' = v w \<and> h_connected h' = h_connected h \<and> queued h' = (if h_connected h then queued h + cmd_sock cmd else queued h)"
proof -
  obtain b h1 where e: "enqueue p cmd h = (b, h1)" by fastforce
  have q: "h_connected h1 = h_connected h" "queued h1 = (if h_connected h then queued h + cmd_sock cmd else queued h)" "b \<longleftrightarrow> h_connected h"
    using e by (auto simp: enqueue_def send_common_def send_urgent_def queued_def pending_def ac_simps split: if_splits)
  show ?thesis
  proof (cases b)
    case True
    obtain r2 h2 w2 where wk: "wake_handle os (h1, w) = (r2, (h2, w2))" by (metis surj_pair)
    with trig e True have "h' = h2 \<and> w' = w2" by (cases r2) (auto simp: trigger_def)
    with wake_handle_held [OF ok wk] q show ?thesis by simp
  qed (use trig e q in \<open>auto simp: trigger_def\<close>)
qed

lemma on_handle_keeps:
  assumes "\<And>h w r h' w'. m (h, w) = (r, (h', w')) \<Longrightarrow> queued h' = queued h \<and> h_connected h' = h_connected h \<and> held w' = held w \<and> v w' = v w"
  shows "settles (accounted held v u B n F) (on_handle m) (accounted held v u B n F)"
proof (rule settlesI)
  fix st r st' assume a: "accounted held v u B n F st" and run: "on_handle m st = (r, st')"
  obtain r1 h' w' where m: "m (l_handle st, l_world st) = (r1, (h', w'))" by (metis surj_pair)
  with run have "st' = st\<lparr>l_handle := h', l_world := w'\<rparr>" by (simp add: on_handle_def)
  with assms [OF m] accounted_open [OF a] show "accounted held v u B n F st'"
    by (intro accounted_rest [OF a]) (simp_all add: hands_def)
qed

lemma loop_trigger_keeps:
  "books_ok os held v \<Longrightarrow> cmd_sock cmd = {#} \<Longrightarrow> settles (accounted held v u B n F) (loop_trigger os p cmd) (accounted held v u B n F)"
  unfolding loop_trigger_def by (rule on_handle_keeps) (auto dest: trigger_held)

lemma registry_held:
  assumes ok: "books_ok os held v"
  shows "socket_register os w sk token i = (r, w') \<Longrightarrow> held w' = held w \<and> v w' = v w"
    and "socket_reregister os w sk token i = (r, w') \<Longrightarrow> held w' = held w \<and> v w' = v w"
    and "socket_deregister os w sk = (r, w') \<Longrightarrow> held w' = held w \<and> v w' = v w"
  by (auto simp: socket_register_def socket_reregister_def socket_deregister_def split: socket.splits
      dest: books_okD(9-11) [OF ok])

lemma listener_held: "books_ok os held v \<Longrightarrow> listener_deregister os w l = (r, w') \<Longrightarrow> held w' = held w \<and> v w' = v w"
  by (auto simp: listener_deregister_def dest: books_okD(11))

lemma reregister_keeps:
  assumes ok: "books_ok os held v"
  shows "settles (accounted held v u B n F) (reregister os key) (accounted held v u B n F)"
proof (rule settlesI)
  fix st r st' assume a: "accounted held v u B n F st" and run: "reregister os key st = (r, st')" and np: "ended r"
  have w: "settles (accounted held v u B n F) (on_world (\<lambda>w. disable_write (socket_reregister os) w sk' tok)) (accounted held v u B n F)"
    "settles (accounted held v u B n F) (on_world (\<lambda>w. enable_write (socket_reregister os) w sk' tok)) (accounted held v u B n F)" for sk' tok
    by (rule on_world_keeps, auto simp: disable_write_def enable_write_def dest: registry_held(2) [OF ok])+
  from run a np show "accounted held v u B n F st'"
    by (auto simp: reregister_def Let_def split: option.splits if_splits intro: settlesD [OF w(1) a] settlesD [OF w(2) a])
qed

lemma deregister_keeps:
  assumes ok: "books_ok os held v"
  shows "settles (accounted held v u B n F) (deregister_conn os key) (accounted held v u B n F)"
proof (rule settlesI)
  fix st r st' assume a: "accounted held v u B n F st" and run: "deregister_conn os key st = (r, st')" and np: "ended r"
  have w: "settles (accounted held v u B n F) (on_world (\<lambda>w. poller_deregister (socket_deregister os) w sk')) (accounted held v u B n F)" for sk'
    by (rule on_world_keeps) (auto simp: poller_deregister_def dest: registry_held(3) [OF ok])
  from run a np show "accounted held v u B n F st'"
    by (auto simp: deregister_conn_def split: option.splits intro: settlesD [OF w a])
qed

text \<open>A slot is given up together with its socket.\<close>

lemma retire_keeps:
  assumes ok: "books_ok os held v"
  shows "settles (accounted held v u B n F) (retire_conn os key) (accounted held v u B n F)"
proof (rule settlesI)
  fix st r st' assume a: "accounted held v u B n F st" and run: "retire_conn os key st = (r, st')" and np: "ended r"
  from run np obtain c conns' where rm: "slab_remove key (l_connections st) = Some (c, conns')"
    by (cases "slab_remove key (l_connections st)") (auto simp: retire_conn_def)
  obtain sko where sko: "c_socket c = sko" by simp
  with run rm have st': "l_id st' = l_id st" "h_connected (l_handle st') = h_connected (l_handle st)"
      "l_connections st' = conns'" "l_world st' = (case sko of Some sk \<Rightarrow> drop_stream os (l_world st) sk | None \<Rightarrow> l_world st)"
      "hands st' = slab_socks conns' + queued (l_handle st)"
    by (auto simp: retire_conn_def hands_def)
  from a slab_socks_remove [OF rm] sko have "l_id st = n" "h_connected (l_handle st)" "books held (l_world st) (slot_sock (Some c) + (slab_socks conns' + queued (l_handle st) + F))"
    by (simp_all add: accounted_def hands_def ac_simps)
  moreover obtain sk where sk: "c_socket c = Some sk" "sk \<notin># B" by (rule accounted_slot [OF a slots.remove_get(1) [OF rm]])
  moreover have "v (drop_stream os (l_world st) sk) sk' = v (l_world st) sk'" if "sk' \<in># B" for sk'
    using that sk(2) by (intro isolatedD(5) [OF books_okD(13) [OF ok]]) auto
  ultimately show "accounted held v u B n F st'"
    using a sko books_drop [OF ok, of "l_world st" sk "slab_socks conns' + queued (l_handle st) + F"] all_open_remove [OF accounted_open [OF a] rm]
    unfolding accounted_def st' by simp
qed

subsection \<open>Closing and shutting down\<close>

lemma close_keeps:
  assumes ok: "books_ok os held v" and app: "app_ok held v H"
  shows "settles (accounted held v u B n F) (close_connection os H key graceful) (accounted held v u B n F)"
proof -
  have out: "settles (accounted held v u B n F) (on_conn key (if graceful then discard_result (flush os) else drop_out_buffer)) (accounted held v u B n F)"
    by (rule on_conn_keeps [OF ok]) (simp add: discard_sends [OF flush_sends] drop_sends)
  have "settles (accounted held v u B n F) (bind_io (on_conn key (if graceful then discard_result (flush os) else drop_out_buffer)) (\<lambda>_.
      bind_io (callback key (on_close H)) (\<lambda>_. bind_io (deregister_conn os key) (\<lambda>_. retire_conn os key)))) (accounted held v u B n F)"
    by (intro settles_then out callback_keeps [OF app_okD(3) [OF app]] deregister_keeps [OF ok] retire_keeps [OF ok])
  then show ?thesis by (auto simp: settles_def close_connection_def)
qed

lemma close_all_keeps:
  assumes "books_ok os held v" and "app_ok held v H"
  shows "settles (accounted held v u B n F) (close_all os H keys) (accounted held v u B n F)"
  by (induction keys) (simp_all add: settling close_keeps [OF assms])

lemma deregister_all_keeps:
  assumes ok: "books_ok os held v"
  shows "settles (accounted held v u B n F) (deregister_all os ls) (accounted held v u B n F)"
proof (induction ls)
  case (Cons l ls)
  have "settles (accounted held v u B n F) (on_world (\<lambda>w. poller_deregister (listener_deregister os) w l)) (accounted held v u B n F)"
    by (rule on_world_keeps) (auto simp: poller_deregister_def dest: listener_held [OF ok])
  from settles_discard [OF this] Cons show ?case unfolding deregister_all.simps by (rule settles_then)
qed (simp add: settles_ret)

lemma shutdown_keeps:
  assumes ok: "books_ok os held v" and app: "app_ok held v H"
  shows "settles (accounted held v u B n F) (shutdown os H) (accounted held v u B n F)"
proof -
  have "settles (accounted held v u B n F) (case ls of None \<Rightarrow> ret () | Some ls \<Rightarrow> deregister_all os ls) (accounted held v u B n F)" for ls
    by (cases ls) (simp_all add: settles_ret deregister_all_keeps [OF ok])
  moreover have "settles (accounted held v u B n F) (\<lambda>st'. close_all os H (slab_keys (l_connections st')) st') (accounted held v u B n F)"
    using close_all_keeps [OF ok app] unfolding settles_def by blast
  ultimately have "settles (accounted held v u B n F) (bind_io (case ls of None \<Rightarrow> ret () | Some ls \<Rightarrow> deregister_all os ls)
      (\<lambda>_ st'. close_all os H (slab_keys (l_connections st')) st')) (accounted held v u B n F)" for ls
    by (rule settles_then)
  note all = settlesD [OF this]
  show ?thesis
  proof (rule settlesI)
    fix st r st' assume a: "accounted held v u B n F st" and run: "shutdown os H st = (r, st')" and e: "ended r"
    have a': "accounted held v u B n F (st\<lparr>l_listeners := None\<rparr>)" using a by simp
    show "accounted held v u B n F st'" by (rule all [OF a' run [unfolded shutdown_def] e])
  qed
qed

lemma close_all_no_error: "fst (close_all os H keys st) \<noteq> Err e"
  by (induction keys arbitrary: st) (auto simp: ret_def bind_io_def discard_result_def split: prod.splits outcome.splits)

lemma shutdown_no_error: "fst (shutdown os H st) \<noteq> Err e"
proof -
  have "\<exists>st1. (case l_listeners st of None \<Rightarrow> ret () | Some ls \<Rightarrow> deregister_all os ls) (st\<lparr>l_listeners := None\<rparr>) = (Ok (), st1)"
  proof (cases "l_listeners st")
    case (Some ls)
    with deregister_all_ok [of os ls "st\<lparr>l_listeners := None\<rparr>"] show ?thesis by auto
  qed (simp add: ret_def)
  then obtain st1 where "(case l_listeners st of None \<Rightarrow> ret () | Some ls \<Rightarrow> deregister_all os ls) (st\<lparr>l_listeners := None\<rparr>) = (Ok (), st1)" by blast
  then show ?thesis using close_all_no_error by (simp add: shutdown_def bind_io_def)
qed

lemma shutdown_and_stop_keeps:
  assumes "books_ok os held v" and "app_ok held v H"
  shows "settles (accounted held v u B n F) (shutdown_and_stop os H) (accounted held v u B n F)"
  unfolding shutdown_and_stop_def by (intro settling shutdown_keeps [OF assms])

subsection \<open>Registering\<close>

text \<open>A socket in flight is owned by nobody else; it ends in the slot or is dropped.\<close>

lemma accounted_drop:
  assumes ok: "books_ok os held v" and a: "accounted held v u B n (add_mset sk F) st" and BF: "B \<subseteq># F"
  shows "accounted held v u B n F (st\<lparr>l_world := drop_stream os (l_world st) sk\<rparr>)"
proof -
  have bk: "books held (l_world st) (add_mset sk (hands st) + F)" using a by (simp add: accounted_def)
  then have "sk \<notin># B" by (rule books_apart [OF _ BF]) simp
  then have "v (drop_stream os (l_world st) sk) sk' = v (l_world st) sk'" if "sk' \<in># B" for sk'
    using that by (intro isolatedD(5) [OF books_okD(13) [OF ok]]) auto
  with a BF books_drop [OF ok, of "l_world st" sk "hands st + F"] bk show ?thesis by (simp add: accounted_def hands_def)
qed

lemma accounted_world:
  assumes "held w = held (l_world st)" and "\<And>sk. sk \<in># B \<Longrightarrow> v w sk = v (l_world st) sk"
  shows "accounted held v u B n F (st\<lparr>l_world := w\<rparr>) = accounted held v u B n F st"
  using assms by (auto simp: accounted_def hands_def books_def)

lemma register_keeps:
  fixes H :: "('w, 'k) handler"
  assumes ok: "books_ok os held v" and app: "app_ok held v H" and vac: "vacant_ok dbg os" and BF: "B \<subseteq># F"
  shows "settles (accounted held v u B n (add_mset sk F)) (register_conn os dbg H sk la pa) (accounted held v u B n F)"
proof (rule settlesI)
  fix st :: "('w, 'k) eloop" and r st'
  assume a: "accounted held v u B n (add_mset sk F) st" and run: "register_conn os dbg H sk la pa st = (r, st')" and np: "ended r"
  obtain w1 where w1: "(if tcp_no_delay (l_options st) = NoDelay then snd (set_nodelay os (l_world st) sk True) else l_world st) = w1" by simp
  then have h1: "held w1 = held (l_world st)" "v w1 = v (l_world st)"
    using books_okD(8) [OF ok] isolatedD(6) [OF books_okD(13) [OF ok]] by (auto split: if_splits)
  let ?key = "vacant_key os w1 (occupied (l_connections st))"
  have free: "slab_get (l_connections st) ?key = None" using vac slab_vacant unfolding vacant_ok_def by blast
  obtain x w2 where reg: "poller_register (socket_register os) w1 sk (of_nat ?key) = (x, w2)" by fastforce
  then have h2: "held w2 = held (l_world st)" "v w2 = v (l_world st)" using h1 registry_held(1) [OF ok] by (auto simp: poller_register_def)
  have apart: "sk \<notin># B" using a by (intro books_apart [OF _ BF, of held "l_world st" "add_mset sk (hands st)"]) (simp_all add: accounted_def)
  show "accounted held v u B n F st'"
  proof (cases x)
    case (Inl e)
    with run w1 reg have "st' = st\<lparr>l_world := drop_stream os w2 sk\<rparr>" by (simp add: register_conn_def Let_def)
    with accounted_drop [OF ok _ BF, of u n sk "st\<lparr>l_world := w2\<rparr>"] accounted_world [where v = v and B = B, OF h2(1)] h2 a show ?thesis by simp
  next
    case (Inr unit)
    obtain y mono' where g: "Gfd_new dbg (socket_fd os w2 sk) (l_id st) (of_nat ?key) (l_mono st) = (y, mono')" by fastforce
    with run w1 reg Inr np obtain g where y: "y = Ok g" by (cases y) (auto simp: register_conn_def Let_def Gfd_new_def split: if_splits)
    obtain c pool' where c: "(case l_pool st of
        p # ps \<Rightarrow> (conn_reset g sk (l_options st) la pa (h_idx (l_handle st)) p, ps)
      | [] \<Rightarrow> (conn_new g sk (l_options st) la pa (h_idx (l_handle st)), [])) = (c, pool')" by fastforce
    then have sk: "c_socket c = Some sk" by (auto simp: conn_reset_def conn_new_def split: list.splits)
    obtain b c' h' w3 where op: "on_open H c (l_handle st, w2) = (b, c', h', w3)" by (metis surj_pair)
    have q: "c_socket c' = Some sk" "queued h' = queued (l_handle st)" "h_connected h' = h_connected (l_handle st)" "held w3 = held w2"
      "\<forall>sk'. sk \<noteq> sk' \<longrightarrow> v w3 sk' = v w2 sk'" using no_socketsD [OF app_okD(1) [OF app] op] sk by auto
    have vB: "v w3 sk' = v (l_world st) sk'" if "sk' \<in># B" for sk' using that apart q(5) h2(2) by auto
    let ?st = "st\<lparr>l_mono := mono', l_pool := pool', l_handle := h', l_world := w3\<rparr>"
    have a3: "accounted held v u B n (add_mset sk F) ?st"
      using q h2 vB accounted_open [OF a] by (intro accounted_rest [OF a]) (simp_all add: hands_def)
    have rest: "(case b of
        ActClose \<Rightarrow> bind_io (close_connection os H ?key True) (\<lambda>_ s. (Ok (), s\<lparr>l_world := drop_stream os (l_world s) sk\<rparr>)) ?st
      | ActNone \<Rightarrow> (Ok (), ?st\<lparr>l_connections := slab_insert ?key c' (l_connections ?st), l_handle := h'\<lparr>h_conn_count := h_conn_count h' + 1\<rparr>\<rparr>)
      | ActShutdown \<Rightarrow> bind_io (shutdown os H) (\<lambda>_ s. (Err shutdown_error, s\<lparr>l_world := drop_stream os (l_world s) sk\<rparr>)) ?st) = (r, st')"
      using run w1 reg Inr g y c op by (simp add: register_conn_def Let_def)
    show ?thesis
    proof (cases b)
      case ActNone
      with rest have "st' = ?st\<lparr>l_connections := slab_insert ?key c' (l_connections ?st), l_handle := h'\<lparr>h_conn_count := h_conn_count h' + 1\<rparr>\<rparr>" by simp
      then have "l_id st' = l_id ?st" "h_connected (l_handle st') = h_connected (l_handle ?st)" "l_world st' = l_world ?st" "hands st' + F = hands ?st + add_mset sk F"
        "l_connections st' = slab_insert ?key c' (l_connections ?st)"
        using slab_socks_insert [OF free, of c'] q by (simp_all add: hands_def)
      moreover from this(5) have "all_open (l_connections st')" using all_open_insert [OF accounted_open [OF a3], of c'] q(1) by simp
      ultimately show ?thesis using a3 BF unfolding accounted_def by simp
    next
      case ActClose
      have "close_connection os H ?key True ?st = (Ok (), ?st)" using free by (simp add: close_connection_def)
      with rest ActClose accounted_drop [OF ok a3 BF] show ?thesis by (auto simp: bind_io_def)
    next
      case ActShutdown
      obtain z s1 where sd: "shutdown os H ?st = (z, s1)" by fastforce
      with rest ActShutdown np shutdown_no_error [of os H ?st] have z: "ended z" "\<forall>e. z \<noteq> Err e"
        by (cases z; auto simp: bind_io_def)+
      from settlesD [OF shutdown_keeps [OF ok app] a3 sd z(1)] have "accounted held v u B n (add_mset sk F) s1" .
      from accounted_drop [OF ok this BF] rest ActShutdown sd z show ?thesis by (cases z) (auto simp: bind_io_def)
    qed
  qed
qed

subsection \<open>Reading and writing\<close>

lemma write_socket_keeps:
  assumes ok: "books_ok os held v" and app: "app_ok held v H"
  shows "settles (accounted held v u B n F) (write_socket os H key) (accounted held v u B n F)"
proof -
  have "settles (accounted held v u B n F) (process_write os key) (accounted held v u B n F)"
  proof (rule settlesI)
    fix st r st' assume a: "accounted held v u B n F st" and run: "process_write os key st = (r, st')" and e: "ended r"
    note w = settlesD [OF on_conn_keeps [OF ok write_batch_sends] a _ e, of key "unat (max_batch_size (l_options st))"]
    from run a show "accounted held v u B n F st'" by (auto simp: process_write_def split: option.splits intro: w)
  qed
  then show ?thesis
    unfolding write_socket_def
  proof (rule settles_then)
    fix status
    have t: "settles (accounted held v u B n F) (discard_result (loop_trigger os High cmd)) (accounted held v u B n F)" if "cmd_sock cmd = {#}" for cmd
      by (rule settles_discard [OF loop_trigger_keeps [OF ok that]])
    show "settles (accounted held v u B n F) (case status of
        IoClosed graceful \<Rightarrow> close_connection os H key graceful | IoYield \<Rightarrow> discard_result (loop_trigger os High (Write key))
      | IoCompleted \<Rightarrow> reregister os key | IoShutdown \<Rightarrow> discard_result (loop_trigger os High Shutdown)) (accounted held v u B n F)"
      by (cases status) (simp_all add: close_keeps [OF ok app] reregister_keeps [OF ok] t)
  qed
qed

lemma merge_io_socket [simp]: "c_socket (merge_io c) = c_socket c"
  by (simp add: merge_io_def split: option.split)

lemma read_loop_keeps:
  assumes ok: "books_ok os held v" and app: "app_ok held v H"
  shows "accounted held v u B n F st \<Longrightarrow> read_loop os H key max_batch read_cap bytes_read st = (r, st') \<Longrightarrow> ended r \<Longrightarrow> accounted held v u B n F st'"
proof (induction "max_batch - bytes_read" arbitrary: bytes_read st rule: less_induct)
  case less
  note a = less.prems(1) and run = less.prems(2) and e = less.prems(3)
  show ?case
  proof (cases "max_batch \<le> bytes_read")
    case True
    with a run show ?thesis by (simp add: read_loop.simps)
  next
    case False
    note unf = read_loop.simps [of os H key max_batch read_cap bytes_read st]
    obtain len capacity where prep: "prepare_scratch os read_cap (l_scratch st) = Some (len, capacity)"
      using run e False by (cases "prepare_scratch os read_cap (l_scratch st)") (auto simp: unf)
    obtain c where c: "slab_get (l_connections st) key = Some c"
      using run e False prep by (cases "slab_get (l_connections st) key") (auto simp: unf)
    obtain sk where sk: "c_socket c = Some sk" using run e False prep c by (cases "c_socket c") (auto simp: unf)
    obtain x w' where rd: "socket_read os (l_world st) sk len = (x, w')" by fastforce
    let ?st = "st\<lparr>l_scratch := (len, capacity), l_world := w'\<rparr>"
    have vB: "v w' sk' = v (l_world st) sk'" if "sk' \<in># B" for sk'
    proof -
      from accounted_slot [OF a c] sk have "sk \<notin># B" by auto
      with that show ?thesis by (intro isolatedD(1) [OF books_okD(13) [OF ok] _ rd]) auto
    qed
    have a1: "accounted held v u B n F ?st"
      using books_okD(4) [OF ok rd] vB accounted_open [OF a] by (intro accounted_rest [OF a]) (simp_all add: hands_def)
    show ?thesis
    proof (cases "\<exists>data. x = Inr data \<and> data \<noteq> []")
      case False
      with \<open>\<not> max_batch \<le> bytes_read\<close> run prep c sk rd a1 show ?thesis by (cases x) (auto simp: unf Let_def split: if_splits)
    next
      case True
      then obtain data where data: "x = Inr data" "data \<noteq> []" by blast
      let ?st1 = "st\<lparr>l_world := w', l_scratch := (len - length data, capacity - length data),
        l_connections := slab_insert key (c\<lparr>c_io_buffer := Some data\<rparr>) (l_connections st)\<rparr>"
      have a2: "accounted held v u B n F ?st1"
        using books_okD(4) [OF ok rd] vB all_open_put [OF accounted_open [OF a] c, of "c\<lparr>c_io_buffer := Some data\<rparr>"] slab_socks_put [OF c, of "c\<lparr>c_io_buffer := Some data\<rparr>"]
        by (intro accounted_rest [OF a]) (simp_all add: hands_def)
      obtain y st2 where cb: "callback key (on_traffic H) ?st1 = (y, st2)" by fastforce
      have fits: "length data \<le> len" using run e \<open>\<not> max_batch \<le> bytes_read\<close> prep c sk rd data by (auto simp: unf Let_def split: if_splits)
      then obtain b where y: "y = Ok b" using cb c by (auto simp: callback_def split: prod.splits)
      have a3: "accounted held v u B n F st2"
        by (rule settlesD [OF callback_keeps [OF app_okD(2) [OF app]] a2 cb]) (simp add: y)
      show ?thesis
      proof (cases b)
        case ActNone
        obtain c2 where c2: "slab_get (l_connections st2) key = Some c2"
          using run e \<open>\<not> max_batch \<le> bytes_read\<close> prep c sk rd data fits cb y ActNone
          by (cases "slab_get (l_connections st2) key") (auto simp: unf Let_def)
        have a4: "accounted held v u B n F (st2\<lparr>l_connections := slab_insert key (merge_io c2) (l_connections st2)\<rparr>)"
          using slab_socks_put [OF c2, of "merge_io c2"] all_open_put [OF accounted_open [OF a3] c2, of "merge_io c2"]
          by (intro accounted_rest [OF a3]) (simp_all add: hands_def)
        have "read_loop os H key max_batch read_cap (bytes_read + length data)
            (st2\<lparr>l_connections := slab_insert key (merge_io c2) (l_connections st2)\<rparr>) = (r, st')"
          using run \<open>\<not> max_batch \<le> bytes_read\<close> prep c sk rd data fits cb y ActNone c2 by (simp add: unf Let_def)
        from less.hyps [OF _ a4 this e] data(2) \<open>\<not> max_batch \<le> bytes_read\<close> show ?thesis by (cases data) auto
      qed (use run \<open>\<not> max_batch \<le> bytes_read\<close> prep c sk rd data fits cb y a3 in \<open>auto simp: unf Let_def\<close>)
    qed
  qed
qed

lemma read_socket_keeps:
  assumes ok: "books_ok os held v" and app: "app_ok held v H"
  shows "settles (accounted held v u B n F) (read_socket os H key) (accounted held v u B n F)"
proof -
  have "settles (accounted held v u B n F) (process_read os H key) (accounted held v u B n F)"
    by (rule settlesI) (auto simp: process_read_def split: option.splits if_splits intro: read_loop_keeps [OF ok app])
  then show ?thesis
    unfolding read_socket_def
  proof (rule settles_then)
    fix status
    show "settles (accounted held v u B n F) (case status of
        IoClosed graceful \<Rightarrow> close_connection os H key graceful | IoYield \<Rightarrow> discard_result (loop_trigger os High (Read key))
      | IoCompleted \<Rightarrow> ret () | IoShutdown \<Rightarrow> shutdown_and_stop os H) (accounted held v u B n F)"
      by (cases status)
        (simp_all add: close_keeps [OF ok app] settling loop_trigger_keeps [OF ok] shutdown_and_stop_keeps [OF ok app])
  qed
qed

subsection \<open>Commands\<close>

lemma async_write_keeps:
  assumes ok: "books_ok os held v" and app: "app_ok held v H"
  shows "settles (accounted held v u B n F) (async_write os H g data) (accounted held v u B n F)"
proof (rule settlesI)
  fix st r st' assume a: "accounted held v u B n F st" and run: "async_write os H g data st = (r, st')" and e: "ended r"
  obtain y st1 where w: "on_conn (slab_index g) (conn_write os data) st = (y, st1)" by fastforce
  have sends: "sends_only os (conn_write os data)" by (simp add: conn_write_eq write_bytes_sends_only)
  note a1 = settlesD [OF on_conn_keeps [OF ok sends] a w]
  show "accounted held v u B n F st'"
  proof (cases "event_loop_index g = unat (l_id st) \<and> (\<exists>c. slab_get (l_connections st) (slab_index g) = Some c \<and> c_gfd c = g)")
    case False
    with run a show ?thesis by (auto simp: async_write_def Let_def split: option.splits if_splits)
  next
    case True
    then have "(case y of Ok _ \<Rightarrow> reregister os (slab_index g) st1 | Err _ \<Rightarrow> close_connection os H (slab_index g) False st1
       | Panic \<Rightarrow> (Panic, st1) | Diverge \<Rightarrow> (Diverge, st1)) = (r, st')"
      using run w by (auto simp: async_write_def Let_def split: outcome.splits)
    then show ?thesis using a1 e settlesD [OF reregister_keeps [OF ok] _ _ e] settlesD [OF close_keeps [OF ok app] _ _ e]
      by (cases y) auto
  qed
qed

text \<open>A command brings the socket it carries with it.\<close>

lemma run_command_keeps:
  assumes ok: "books_ok os held v" and app: "app_ok held v H" and vac: "vacant_ok dbg os" and BF: "B \<subseteq># F"
  shows "settles (accounted held v u B n (cmd_sock cmd + F)) (run_command os dbg H cmd) (accounted held v u B n F)"
proof (cases cmd)
  case (Register sk la pa)
  then show ?thesis using register_keeps [OF ok app vac BF, of u n sk la pa] by simp
next
  case Wake
  then show ?thesis by (simp add: on_handle_keeps wake_handle_held [OF ok])
qed (simp_all add: settling async_write_keeps [OF ok app] close_keeps [OF ok app] read_socket_keeps [OF ok app]
    write_socket_keeps [OF ok app] shutdown_and_stop_keeps [OF ok app])

lemma next_command_queued:
  assumes "next_command h = (x, h')"
  shows "queued h = (case x of None \<Rightarrow> {#} | Some cmd \<Rightarrow> cmd_sock cmd) + queued h'"
proof -
  have "pending h = (case x of None \<Rightarrow> pending h' | Some cmd \<Rightarrow> cmd # pending h')"
    using assms by (auto simp: next_command.simps pending_def split: list.splits)
  then show ?thesis by (simp add: queued_def split: option.splits)
qed

lemma take_command_keeps:
  assumes a: "accounted held v u B n F st" and nc: "next_command (l_handle st) = (x, h')"
  shows "accounted held v u B n ((case x of None \<Rightarrow> {#} | Some cmd \<Rightarrow> cmd_sock cmd) + F) (st\<lparr>l_handle := h'\<rparr>)"
proof -
  have "hands (st\<lparr>l_handle := h'\<rparr>) + ((case x of None \<Rightarrow> {#} | Some cmd \<Rightarrow> cmd_sock cmd) + F) = hands st + F"
    using next_command_queued [OF nc] by (simp add: hands_def ac_simps)
  note hands_eq = this
  have "h_connected h' = h_connected (l_handle st)" using nc by (auto simp: next_command.simps split: list.splits)
  moreover have "B \<subseteq># (case x of None \<Rightarrow> {#} | Some cmd \<Rightarrow> cmd_sock cmd) + F"
    using accounted_base [OF a] by (simp add: subset_mset.add_increasing)
  ultimately show ?thesis unfolding accounted_def hands_eq using a by (simp add: accounted_def)
qed

lemma process_commands_keeps:
  assumes ok: "books_ok os held v" and app: "app_ok held v H" and vac: "vacant_ok dbg os"
  shows "settles (accounted held v u B n F) (process_commands os dbg H m) (accounted held v u B n F)"
proof (induction m)
  case 0
  then show ?case by (simp add: settles_def)
next
  case (Suc m)
  show ?case
  proof (rule settlesI)
    fix st r st' assume a: "accounted held v u B n F st" and run: "process_commands os dbg H (Suc m) st = (r, st')" and e: "ended r"
    obtain x h' where nc: "next_command (l_handle st) = (x, h')" by fastforce
    note taken = take_command_keeps [OF a nc]
    show "accounted held v u B n F st'"
    proof (cases x)
      case None
      with run nc taken show ?thesis by simp
    next
      case (Some cmd)
      have b: "settles (accounted held v u B n (cmd_sock cmd + F)) (bind_io (run_command os dbg H cmd) (\<lambda>_. process_commands os dbg H m)) (accounted held v u B n F)"
        by (rule settles_bind [OF run_command_keeps [OF ok app vac accounted_base [OF a]] Suc.IH])
      from Some run nc taken settlesD [OF b _ _ e] show ?thesis by simp
    qed
  qed
qed

subsection \<open>Events\<close>

lemma accept_loop_keeps:
  assumes ret: "accept_loop os dbg H l st = Some (r, st')" and ok: "books_ok os held v" and app: "app_ok held v H" and vac: "vacant_ok dbg os"
    and a: "accounted held v u B n F st" and e: "ended r"
  shows "accounted held v u B n F st'"
proof -
  have "books_ok os held v \<longrightarrow> app_ok held v H \<longrightarrow> vacant_ok dbg os \<longrightarrow> accounted held v u B n F st \<longrightarrow> ended (fst res) \<longrightarrow> accounted held v u B n F (snd res)"
    if "accept_loop os dbg H l st = Some res" for os dbg and H :: "('a, 'b) handler" and l st res
  proof (rule accept_loop.raw_induct [where P = "\<lambda>os dbg H l st res. books_ok os held v \<longrightarrow> app_ok held v H \<longrightarrow> vacant_ok dbg os \<longrightarrow>
      accounted held v u B n F st \<longrightarrow> ended (fst res) \<longrightarrow> accounted held v u B n F (snd res)", OF _ that], intro impI)
    fix f :: "'a os \<Rightarrow> bool \<Rightarrow> ('a, 'b) handler \<Rightarrow> listener \<Rightarrow> ('a, 'b) eloop \<Rightarrow> (unit outcome \<times> ('a, 'b) eloop) option"
      and os :: "'a os" and dbg and H :: "('a, 'b) handler" and l and st :: "('a, 'b) eloop" and res
    assume IH: "\<And>os dbg H l st res. f os dbg H l st = Some res \<Longrightarrow> books_ok os held v \<longrightarrow> app_ok held v H \<longrightarrow> vacant_ok dbg os \<longrightarrow>
        accounted held v u B n F st \<longrightarrow> ended (fst res) \<longrightarrow> accounted held v u B n F (snd res)"
      and body: "(case listener_accept os (l_world st) l of
        (Inl e, w') \<Rightarrow> Some (Ok (), st\<lparr>l_world := w'\<rparr>)
      | (Inr (sk, peer_addr), w') \<Rightarrow>
          (case listener_local_addr l of
             Inl e \<Rightarrow> Some (Err e, st\<lparr>l_world := drop_stream os w' sk\<rparr>)
           | Inr local_addr \<Rightarrow>
               (case register_conn os dbg H sk local_addr peer_addr (st\<lparr>l_world := w'\<rparr>) of
                  (Ok _, st') \<Rightarrow> f os dbg H l st'
                | (Err e, st') \<Rightarrow> Some (Err e, st')
                | (Panic, st') \<Rightarrow> Some (Panic, st')
                | (Diverge, st') \<Rightarrow> Some (Diverge, st')))) = Some res"
      and ok: "books_ok os held v" and app: "app_ok held v H" and vac: "vacant_ok dbg os" and a: "accounted held v u B n F st" and e: "ended (fst res)"
    obtain x w' where acc: "listener_accept os (l_world st) l = (x, w')" by fastforce
    show "accounted held v u B n F (snd res)"
    proof (cases x)
      case (Inl e)
      with body acc accounted_world [where v = v and B = B, OF books_okD(1) [OF ok acc [unfolded Inl]]] books_okD(14) [OF ok acc [unfolded Inl]] a show ?thesis by auto
    next
      case (Inr p)
      obtain sk peer where p: "p = (sk, peer)" by fastforce
      have bk: "books held w' (add_mset sk (hands st) + F)" using books_accept [OF ok acc [unfolded Inr p]] a by (simp add: accounted_def)
      note BF = accounted_base [OF a]
      have "sk \<notin># B" by (rule books_apart [OF bk BF]) simp
      then have "v w' sk' = v (l_world st) sk'" if "sk' \<in># B" for sk'
        using that by (intro books_okD(15) [OF ok acc [unfolded Inr p]]) auto
      moreover have "B \<subseteq># add_mset sk F" using BF by (simp add: subset_mset.order_trans [OF _ mset_subset_eq_add_right, of B F "{#sk#}", simplified])
      ultimately have a1: "accounted held v u B n (add_mset sk F) (st\<lparr>l_world := w'\<rparr>)"
        using a bk by (simp add: accounted_def hands_def)
      show ?thesis
      proof (cases "listener_local_addr l")
        case (Inl e)
        with body acc Inr p accounted_drop [OF ok a1 BF] \<open>x = Inr p\<close> show ?thesis by auto
      next
        case (Inr la)
        obtain y st1 where reg: "register_conn os dbg H sk la peer (st\<lparr>l_world := w'\<rparr>) = (y, st1)" by fastforce
        note a2 = settlesD [OF register_keeps [OF ok app vac BF] a1 reg]
        show ?thesis
          using body acc \<open>x = Inr p\<close> p Inr reg a2 e IH ok app vac by (cases y) auto
      qed
    qed
  qed
  from this [OF ret] assms show ?thesis by simp
qed

lemma accept_process_keeps:
  assumes ok: "books_ok os held v" and app: "app_ok held v H" and vac: "vacant_ok dbg os"
  shows "settles (accounted held v u B n F) (accept_process os dbg H idx) (accounted held v u B n F)"
proof (rule settlesI)
  fix st r st' assume a: "accounted held v u B n F st" and run: "accept_process os dbg H idx st = (r, st')" and e: "ended r"
  show "accounted held v u B n F st'"
  proof (cases "\<exists>ls. l_listeners st = Some ls \<and> idx < length ls")
    case False
    with run a show ?thesis by (auto simp: accept_process_def split: option.splits)
  next
    case True
    then obtain ls where ls: "l_listeners st = Some ls" "idx < length ls" by blast
    obtain r1 st1 where acc: "accept_loop os dbg H (ls ! idx) (st\<lparr>l_listeners := None\<rparr>) = Some (r1, st1)"
      using run ls e by (cases "accept_loop os dbg H (ls ! idx) (st\<lparr>l_listeners := None\<rparr>)") (auto simp: accept_process_def)
    with run ls have st': "r = r1" "st' = st1\<lparr>l_listeners := Some ls\<rparr>" by (simp_all add: accept_process_def)
    have "accounted held v u B n F (st\<lparr>l_listeners := None\<rparr>)" using a by simp
    from accept_loop_keeps [OF acc ok app vac this] e st' show ?thesis by simp
  qed
qed

lemma process_io_keeps:
  assumes ok: "books_ok os held v" and app: "app_ok held v H"
  shows "settles (accounted held v u B n F) (process_io os H ev) (accounted held v u B n F)"
  unfolding process_io_def Let_def
  by (intro settling close_keeps [OF ok app] write_socket_keeps [OF ok app] read_socket_keeps [OF ok app] reregister_keeps [OF ok])

lemma dispatch_keeps:
  assumes ok: "books_ok os held v" and app: "app_ok held v H" and vac: "vacant_ok dbg os"
  shows "settles (accounted held v u B n F) (dispatch_event os dbg H ev) (accounted held v u B n F)"
proof -
  have w: "settles (accounted held v u B n F) (on_handle (\<lambda>(h, w). (Ok (), (h\<lparr>h_waker := reset_waker (h_waker h)\<rparr>, w)))) (accounted held v u B n F)"
    by (rule on_handle_keeps) auto
  show ?thesis
    unfolding dispatch_event_def process_command_def
    by (auto intro: settles_then [OF w] process_commands_keeps [OF ok app vac] accept_process_keeps [OF ok app vac]
        process_io_keeps [OF ok app] split: option.split)
qed

lemma tick_keeps:
  assumes app: "app_ok held v H"
  shows "settles (accounted held v u B n F) (call_tick H) (accounted held v u B n F)"
proof (rule settlesI)
  fix st r st' assume a: "accounted held v u B n F st" and run: "call_tick H st = (r, st')"
  obtain x s' h' w' where t: "on_tick H (l_connections st) (l_handle st, l_world st) = (x, s', h', w')" by (metis surj_pair)
  with run have "st' = st\<lparr>l_connections := s', l_handle := h', l_world := w'\<rparr>" by (simp add: call_tick_def)
  with app_okD(4) [OF app t] accounted_open [OF a] show "accounted held v u B n F st'"
    by (intro accounted_rest [OF a]) (simp_all add: hands_def)
qed

end
