(* ===== verification/System.thy ===== *)
theory System
  imports Ownership EngineStart EchoRuns
begin

text \<open>
  The running program: the event loops, the acceptor and any number of other threads, interleaved. A
  loop is cut at its commands, its events and its ticks; the acceptor at every connection; another
  thread at every command it sends. The loops' handles are shared: the state keeps one copy, in the
  loop, and the acceptor sees these; likewise there is one world. A loop whose run ends drops what it
  owns. The subject is what has an owner: every open connection, in every reachable state.
\<close>

subsection \<open>State\<close>

record ('w, 'k) system =
  s_loops :: "('w, 'k) eloop list"
  s_acceptor :: "'w acceptor option"
  s_world :: 'w

text \<open>A thread's view: its own state with the shared world, and the shared handles.\<close>

definition loop_of :: "('w, 'k) system \<Rightarrow> nat \<Rightarrow> ('w, 'k) eloop" where
  "loop_of s i = (s_loops s ! i)\<lparr>l_world := s_world s\<rparr>"

definition put_loop :: "nat \<Rightarrow> ('w, 'k) eloop \<Rightarrow> ('w, 'k) system \<Rightarrow> ('w, 'k) system" where
  "put_loop i st s = s\<lparr>s_loops := (s_loops s)[i := st], s_world := l_world st\<rparr>"

definition acceptor_of :: "('w, 'k) system \<Rightarrow> 'w acceptor \<Rightarrow> 'w acceptor" where
  "acceptor_of s ac = ac\<lparr>a_workers := map l_handle (s_loops s), a_world := s_world s\<rparr>"

definition put_acceptor :: "'w acceptor \<Rightarrow> ('w, 'k) system \<Rightarrow> ('w, 'k) system" where
  "put_acceptor ac s =
     s\<lparr>s_loops := map2 (\<lambda>st h. st\<lparr>l_handle := h\<rparr>) (s_loops s) (a_workers ac), s_acceptor := Some ac, s_world := a_world ac\<rparr>"

definition put_handle :: "nat \<Rightarrow> loop_handle \<times> 'w \<Rightarrow> ('w, 'k) system \<Rightarrow> ('w, 'k) system" where
  "put_handle i = (\<lambda>(h, w) s. s\<lparr>s_loops := (s_loops s)[i := (s_loops s ! i)\<lparr>l_handle := h\<rparr>], s_world := w\<rparr>)"

text \<open>The handle of the engine, which every callback and every other thread may hold.\<close>

definition engine_view :: "('w, 'k) system \<Rightarrow> engine_handler" where
  "engine_view s =
     \<lparr>e_acceptor = map_option (\<lambda>ac. \<lparr>ah_waker = a_waker ac, ah_running = a_running ac\<rparr>) (s_acceptor s),
      e_loops = Some (map l_handle (s_loops s))\<rparr>"

definition put_engine :: "engine_handler \<Rightarrow> 'w \<Rightarrow> ('w, 'k) system \<Rightarrow> ('w, 'k) system" where
  "put_engine eh w s =
     s\<lparr>s_loops := (case e_loops eh of None \<Rightarrow> s_loops s | Some hs \<Rightarrow> map2 (\<lambda>st h. st\<lparr>l_handle := h\<rparr>) (s_loops s) hs),
       s_acceptor := (case e_acceptor eh of None \<Rightarrow> s_acceptor s
         | Some a \<Rightarrow> map_option (\<lambda>ac. ac\<lparr>a_waker := ah_waker a, a_running := ah_running a\<rparr>) (s_acceptor s)),
       s_world := w\<rparr>"

subsection \<open>The end of a loop\<close>

text \<open>
  The thread's closure owns the \<open>EventLoop\<close>: when \<open>run\<close> has returned, the slab drops the connections that
  are left, and the receivers drop the commands that are left and refuse new ones.
\<close>

definition drop_all :: "'w os \<Rightarrow> socket list \<Rightarrow> 'w \<Rightarrow> 'w" where
  "drop_all os = fold (\<lambda>sk w. drop_stream os w sk)"

fun slot_list :: "'k conn option \<Rightarrow> socket list" where
  "slot_list None = []"
| "slot_list (Some c) = (case c_socket c of None \<Rightarrow> [] | Some sk \<Rightarrow> [sk])"

fun cmd_list :: "command \<Rightarrow> socket list" where
  "cmd_list (Register sk _ _) = [sk]"
| "cmd_list _ = []"

definition end_loop :: "'w os \<Rightarrow> ('w, 'k) eloop \<Rightarrow> ('w, 'k) eloop" where
  "end_loop os st =
     st\<lparr>l_connections := [], l_pool := [], l_listeners := None,
        l_handle := (l_handle st)\<lparr>h_urgent := [], h_common := [], h_connected := False\<rparr>,
        l_world := drop_all os (concat (map slot_list (l_connections st)) @ concat (map cmd_list (pending (l_handle st)))) (l_world st)\<rparr>"

text \<open>Any error ends the loop.\<close>

definition after :: "'w os \<Rightarrow> 'a outcome \<times> ('w, 'k) eloop \<Rightarrow> ('w, 'k) eloop" where
  "after os = (\<lambda>(r, st). case r of Err e \<Rightarrow> end_loop os st | _ \<Rightarrow> st)"

definition running :: "('w, 'k) system \<Rightarrow> nat \<Rightarrow> bool" where
  "running s i \<longleftrightarrow> i < length (s_loops s) \<and> h_connected (l_handle (s_loops s ! i))"

subsection \<open>Steps\<close>

text \<open>
  One connection of the acceptor's loop: what \<open>accept_all\<close> repeats until there is none.
\<close>

definition accept_one :: "'w os \<Rightarrow> listener \<Rightarrow> network_address \<Rightarrow> 'w acceptor \<Rightarrow> bool \<times> 'w acceptor" where
  "accept_one os l la ac =
     (case listener_accept os (a_world ac) l of
        (Inl e, w') \<Rightarrow> (False, ac\<lparr>a_world := w'\<rparr>)
      | (Inr (sk, peer_addr), w') \<Rightarrow> (True, dispatch_conn os la sk peer_addr (ac\<lparr>a_world := w'\<rparr>)))"

lemma accept_all_steps:
  "accept_all os l la ac =
     (case accept_one os l la ac of (False, ac') \<Rightarrow> Some ac' | (True, ac') \<Rightarrow> accept_all os l la ac')"
  by (subst accept_all.simps) (simp add: accept_one_def split: prod.split sum.split)

text \<open>
  \<open>network\<close> is what peers and the kernel do meanwhile: anything that leaves \<open>seen\<close> alone, for instance that
  opens and closes no socket of the process. Threads that are not loops send any command but \<open>Register\<close>, and may stop the engine.
\<close>

inductive sys_step ::
  "'w reactor \<Rightarrow> 'w os \<Rightarrow> bool \<Rightarrow> ('w, 'k) handler \<Rightarrow> ('w \<Rightarrow> 'x) \<Rightarrow> ('w, 'k) system \<Rightarrow> ('w, 'k) system \<Rightarrow> bool"
  for rx :: "'w reactor" and os :: "'w os" and dbg :: bool and H :: "('w, 'k) handler" and seen :: "'w \<Rightarrow> 'x" where
    command: "running s i \<Longrightarrow> next_command (l_handle (loop_of s i)) = (Some cmd, h) \<Longrightarrow>
      run_command os dbg H cmd ((loop_of s i)\<lparr>l_handle := h\<rparr>) = (r, st) \<Longrightarrow> ended r \<Longrightarrow>
      sys_step rx os dbg H seen s (put_loop i (after os (r, st)) s)"
  | event: "running s i \<Longrightarrow> dispatch_event os dbg H ev (loop_of s i) = (r, st) \<Longrightarrow> ended r \<Longrightarrow>
      sys_step rx os dbg H seen s (put_loop i (after os (r, st)) s)"
  | tick: "running s i \<Longrightarrow> tick_due rx os H next_tick (loop_of s i) = (r, st) \<Longrightarrow> ended r \<Longrightarrow>
      sys_step rx os dbg H seen s (put_loop i (after os (r, st)) s)"
  | accept: "s_acceptor s = Some ac \<Longrightarrow> l \<in> set (a_listeners ac) \<Longrightarrow> listener_local_addr l = Inr la \<Longrightarrow>
      accept_one os l la (acceptor_of s ac) = (b, ac') \<Longrightarrow> sys_step rx os dbg H seen s (put_acceptor ac' s)"
  | send: "i < length (s_loops s) \<Longrightarrow> cmd_sock cmd = {#} \<Longrightarrow>
      trigger os p cmd (l_handle (s_loops s ! i), s_world s) = (r, hw) \<Longrightarrow> sys_step rx os dbg H seen s (put_handle i hw s)"
  | stop: "engine_shutdown os (engine_view s, s_world s) = (r, (eh, w)) \<Longrightarrow> sys_step rx os dbg H seen s (put_engine eh w s)"
  | network: "seen w = seen (s_world s) \<Longrightarrow> sys_step rx os dbg H seen s (s\<lparr>s_world := w\<rparr>)"

inductive sys_reaches ::
  "'w reactor \<Rightarrow> 'w os \<Rightarrow> bool \<Rightarrow> ('w, 'k) handler \<Rightarrow> ('w \<Rightarrow> 'x) \<Rightarrow> ('w, 'k) system \<Rightarrow> ('w, 'k) system \<Rightarrow> bool"
  for rx :: "'w reactor" and os :: "'w os" and dbg :: bool and H :: "('w, 'k) handler" and seen :: "'w \<Rightarrow> 'x"
    and start :: "('w, 'k) system" where
    starts: "sys_reaches rx os dbg H seen start start"
  | goes_on: "sys_reaches rx os dbg H seen start s \<Longrightarrow> sys_step rx os dbg H seen s s' \<Longrightarrow> sys_reaches rx os dbg H seen start s'"

text \<open>What \<open>Engine::run\<close> leaves behind when all threads have been spawned.\<close>

definition system_of :: "('w, 'k) threads \<Rightarrow> ('w, 't) engine_env \<Rightarrow> ('w, 'k) system" where
  "system_of t v = \<lparr>s_loops = t_loops t, s_acceptor = t_acceptor t, s_world = v_world v\<rparr>"

subsection \<open>The invariant\<close>

definition all_hands :: "('w, 'k) system \<Rightarrow> socket multiset" where
  "all_hands s = sum_list (map hands (s_loops s))"

definition sys_inv :: "('w \<Rightarrow> socket \<Rightarrow> bool) \<Rightarrow> ('w, 'k) system \<Rightarrow> bool" where
  "sys_inv held s \<longleftrightarrow> books held (s_world s) (all_hands s)
     \<and> (\<forall>i < length (s_loops s). l_id (s_loops s ! i) = of_nat i
          \<and> (if h_connected (l_handle (s_loops s ! i)) then loop_inv (s_loops s ! i) else hands (s_loops s ! i) = {#}))"

lemma hands_world [simp]: "hands (st\<lparr>l_world := w\<rparr>) = hands st"
  by (simp add: hands_def)

lemma loop_inv_world [simp]: "loop_inv (st\<lparr>l_world := w\<rparr>) = loop_inv st"
  by (simp add: loop_inv_def)

lemma loop_of_simps [simp]:
  "l_world (loop_of s i) = s_world s" "l_id (loop_of s i) = l_id (s_loops s ! i)"
  "l_handle (loop_of s i) = l_handle (s_loops s ! i)" "l_connections (loop_of s i) = l_connections (s_loops s ! i)"
  "hands (loop_of s i) = hands (s_loops s ! i)" "loop_inv (loop_of s i) = loop_inv (s_loops s ! i)"
  by (simp_all add: loop_of_def)

lemma hands_list:
  fixes st :: "('a, 'b) eloop"
  shows "hands st = mset (concat (map slot_list (l_connections st)) @ concat (map cmd_list (pending (l_handle st))))"
proof -
  have "mset (slot_list x) = slot_sock x" for x :: "'b conn option" by (cases x) (simp_all split: option.split)
  moreover have "mset (cmd_list cmd) = cmd_sock cmd" for cmd by (cases cmd) simp_all
  ultimately show ?thesis by (simp add: hands_def slab_socks_def queued_def mset_concat comp_def)
qed

lemma drop_all_books:
  assumes ok: "books_ok os held v"
  shows "books held w (mset sks + M) \<Longrightarrow> books held (drop_all os sks w) M \<and> (\<forall>sk \<in># M. v (drop_all os sks w) sk = v w sk)"
proof (induction sks arbitrary: w)
  case (Cons sk sks)
  have "books held w ({#sk#} + (mset sks + M))" using Cons.prems by simp
  then have "sk \<notin># mset sks + M" by (rule books_apart) simp_all
  then have "v (drop_stream os w sk) sk' = v w sk'" if "sk' \<in># M" for sk'
    using that by (intro isolatedD(5) [OF books_okD(13) [OF ok]]) auto
  with Cons.IH [OF books_drop [OF ok]] Cons.prems show ?case by (simp add: drop_all_def)
qed (simp add: drop_all_def)

lemma hands_ended: "hands (end_loop os st) = {#}"
  by (simp add: end_loop_def hands_def slab_socks_def queued_def pending_def)

text \<open>The rest of the system, as one loop sees it.\<close>

definition others :: "('w, 'k) system \<Rightarrow> nat \<Rightarrow> socket multiset" where
  "others s i = sum_list (map hands (take i (s_loops s))) + sum_list (map hands (drop (Suc i) (s_loops s)))"

lemma all_hands_split:
  assumes "i < length (s_loops s)"
  shows "all_hands s = hands (s_loops s ! i) + others s i"
proof -
  have "map hands (s_loops s) = map hands (take i (s_loops s)) @ hands (s_loops s ! i) # map hands (drop (Suc i) (s_loops s))"
    using id_take_nth_drop [OF assms] by (metis list.simps(9) map_append)
  then show ?thesis by (simp add: all_hands_def others_def ac_simps)
qed

lemma others_put: "others (s\<lparr>s_loops := (s_loops s)[i := st]\<rparr>) i = others s i"
  by (simp add: others_def)

lemma loop_inv_open: "loop_inv st \<Longrightarrow> all_open (l_connections st)"
  by (auto simp: loop_inv_def all_open_def conn_ok_def)

lemma sys_invD:
  assumes "sys_inv held s" and "running s i"
  shows "loop_inv (loop_of s i)" and "accounted held v (v (s_world s)) (others s i) (of_nat i) (others s i) (loop_of s i)"
  using assms all_hands_split [of i s] loop_inv_open [of "s_loops s ! i"] by (auto simp: sys_inv_def running_def accounted_def)

text \<open>A step of one loop.\<close>

lemma loop_step_inv:
  assumes inv: "sys_inv held s" and run: "running s i" and ok: "books_ok os held v"
    and a: "accounted held v (v (s_world s)) (others s i) (of_nat i) (others s i) st" and l: "loop_inv st" and h: "h_connected (l_handle st)" and e: "ended r"
  shows "sys_inv held (put_loop i (after os (r, st)) s)
    \<and> (\<forall>sk \<in># others s i. v (s_world (put_loop i (after os (r, st)) s)) sk = v (s_world s) sk)"
proof -
  let ?st = "after os (r, st)"
  have i: "i < length (s_loops s)" using run by (simp add: running_def)
  have new: "l_id ?st = of_nat i \<and> books held (l_world ?st) (hands ?st + others s i)
    \<and> (if h_connected (l_handle ?st) then loop_inv ?st else hands ?st = {#})
    \<and> (\<forall>sk \<in># others s i. v (l_world ?st) sk = v (s_world s) sk)"
  proof (cases r)
    case (Err err)
    have "books held (drop_all os (concat (map slot_list (l_connections st)) @ concat (map cmd_list (pending (l_handle st)))) (l_world st)) (others s i)
      \<and> (\<forall>sk \<in># others s i. v (drop_all os (concat (map slot_list (l_connections st)) @ concat (map cmd_list (pending (l_handle st)))) (l_world st)) sk
           = v (l_world st) sk)"
      using a hands_list [of st] by (intro drop_all_books [OF ok]) (simp add: accounted_def)
    with Err a hands_ended [of os st] show ?thesis by (simp add: after_def) (simp add: end_loop_def accounted_def)
  qed (use a l h e in \<open>simp_all add: after_def accounted_def\<close>)
  have "all_hands (put_loop i ?st s) = hands ?st + others s i"
    using i all_hands_split [of i "put_loop i ?st s"] by (simp add: put_loop_def others_def)
  with new inv i show ?thesis by (auto simp: sys_inv_def put_loop_def nth_list_update)
qed

text \<open>A step on the handle of one loop, that sends \<open>N\<close> to it.\<close>

lemma put_handle_inv:
  assumes inv: "sys_inv held s" and i: "i < length (s_loops s)" and h: "l_handle (s_loops s ! i) = h"
    and same: "h_idx h' = h_idx h" "h_conn_count h' = h_conn_count h" "h_connected h' = h_connected h"
    and N: "queued h' = queued h + N" "h_connected h \<or> N = {#}" and w: "books held w' (all_hands s + N)"
  shows "sys_inv held (put_handle i (h', w') s)"
proof -
  let ?st = "(s_loops s ! i)\<lparr>l_handle := h'\<rparr>"
  let ?s = "put_handle i (h', w') s"
  have hd: "hands ?st = hands (s_loops s ! i) + N" using N(1) h by (simp add: hands_def)
  have "all_hands ?s = hands ?st + others s i"
    using i all_hands_split [of i ?s] by (simp add: put_handle_def others_def)
  with w hd all_hands_split [OF i] have "books held (s_world ?s) (all_hands ?s)" by (simp add: put_handle_def ac_simps)
  moreover have "l_id ?st = of_nat i \<and> (if h_connected (l_handle ?st) then loop_inv ?st else hands ?st = {#})"
    using inv i h same N(2) hd by (auto simp: sys_inv_def loop_inv_def)
  ultimately show ?thesis using inv i by (simp add: sys_inv_def put_handle_def nth_list_update)
qed

lemma put_handle_same: "put_handle i (l_handle (s_loops s ! i), w) s = s\<lparr>s_world := w\<rparr>"
  by (simp add: put_handle_def)

lemma world_inv: "sys_inv held s \<Longrightarrow> books held w (all_hands s) \<Longrightarrow> sys_inv held (s\<lparr>s_world := w\<rparr>)"
  by (simp add: sys_inv_def all_hands_def)

lemma acceptor_inv [simp]:
  "sys_inv held (s\<lparr>s_acceptor := ac\<rparr>) = sys_inv held s"
  "sys_inv held (s\<lparr>s_acceptor := ac, s_world := w\<rparr>) = sys_inv held (s\<lparr>s_world := w\<rparr>)"
  by (simp_all add: sys_inv_def all_hands_def)

lemma put_acceptor_handle:
  assumes "i < length (s_loops s)" and "a_workers ac = (map l_handle (s_loops s))[i := h]"
  shows "put_acceptor ac s = (put_handle i (h, a_world ac) s)\<lparr>s_acceptor := Some ac\<rparr>"
proof -
  have "map2 (\<lambda>st h. st\<lparr>l_handle := h\<rparr>) (s_loops s) (a_workers ac) = (s_loops s)[i := (s_loops s ! i)\<lparr>l_handle := h\<rparr>]"
    using assms by (intro nth_equalityI) (auto simp: nth_list_update)
  then show ?thesis by (simp add: put_acceptor_def put_handle_def)
qed

lemma put_acceptor_world:
  assumes "a_workers ac = map l_handle (s_loops s)"
  shows "put_acceptor ac s = s\<lparr>s_acceptor := Some ac, s_world := a_world ac\<rparr>"
proof -
  have "map2 (\<lambda>st h. st\<lparr>l_handle := h\<rparr>) (s_loops s) (a_workers ac) = s_loops s"
    using assms by (intro nth_equalityI) simp_all
  then show ?thesis by (simp add: put_acceptor_def)
qed

text \<open>A connection of the acceptor: none came, nobody takes it, or a running loop gets it.\<close>

lemma accept_one_outcomes:
  assumes run: "accept_one os l la (acceptor_of s ac) = (b, ac')" and acc: "listener_accept os (s_world s) l = (x, w1)"
  shows "case x of
      Inl e \<Rightarrow> put_acceptor ac' s = s\<lparr>s_acceptor := Some ac', s_world := w1\<rparr>
    | Inr (sk, peer) \<Rightarrow> put_acceptor ac' s = s\<lparr>s_acceptor := Some ac', s_world := drop_stream os w1 sk\<rparr>
        \<or> (\<exists>i h1 r h2 w2. running s i \<and> h1 = (l_handle (s_loops s ! i))\<lparr>h_urgent := h_urgent (l_handle (s_loops s ! i)) @ [Register sk la peer]\<rparr>
            \<and> wake_handle os (h1, w1) = (r, (h2, w2)) \<and> put_acceptor ac' s = (put_handle i (h2, w2) s)\<lparr>s_acceptor := Some ac'\<rparr>)"
proof (cases x)
  case (Inl e)
  with run acc have "ac' = acceptor_of s ac\<lparr>a_world := w1\<rparr>" by (simp add: accept_one_def acceptor_of_def)
  with Inl put_acceptor_world [of ac' s] show ?thesis by (simp add: acceptor_of_def)
next
  case (Inr p)
  let ?ac = "acceptor_of s ac"
  have ws: "a_workers ?ac = map l_handle (s_loops s)" "a_world ?ac = s_world s" by (simp_all add: acceptor_of_def)
  obtain sk peer where p: "p = (sk, peer)" by fastforce
  have ac': "ac' = dispatch_conn os la sk peer (?ac\<lparr>a_world := w1\<rparr>)" using run acc Inr p ws by (simp add: accept_one_def)
  obtain i bal where sel: "balancer_select (a_balancer ?ac) (map l_handle (s_loops s)) = (i, bal)" by fastforce
  show ?thesis
  proof (cases "running s i")
    case False
    then have "ac' = ?ac\<lparr>a_balancer := bal, a_world := drop_stream os w1 sk\<rparr>"
      using sel ws unfolding ac' by (auto simp: dispatch_conn_def send_urgent_def running_def)
    with Inr p put_acceptor_world [of ac' s] ws show ?thesis by simp
  next
    case True
    let ?h = "l_handle (s_loops s ! i)"
    let ?h1 = "?h\<lparr>h_urgent := h_urgent ?h @ [Register sk la peer]\<rparr>"
    obtain r h2 w2 where wk: "wake_handle os (?h1, w1) = (r, (h2, w2))" by (metis surj_pair)
    have "r \<noteq> Panic" using wake_handle_outcome(1) [of os "(?h1, w1)"] wk by auto
    then obtain r2 where "discard_result (wake_handle os) (?h1, w1) = (r2, (h2, w2))" using wk by (cases r) (auto simp: discard_result_def)
    with True sel ws have a': "ac' = ?ac\<lparr>a_balancer := bal, a_workers := (map l_handle (s_loops s))[i := h2], a_world := w2\<rparr>"
      unfolding ac' by (simp add: dispatch_conn_def send_urgent_def running_def)
    have "put_acceptor ac' s = (put_handle i (h2, w2) s)\<lparr>s_acceptor := Some ac'\<rparr>"
      using put_acceptor_handle [of i s ac' h2] True a' by (simp add: running_def)
    with True wk Inr p show ?thesis by auto
  qed
qed

lemma accept_step_inv:
  assumes inv: "sys_inv held s" and ok: "books_ok os held v" and run: "accept_one os l la (acceptor_of s ac) = (b, ac')"
  shows "sys_inv held (put_acceptor ac' s)"
proof -
  obtain x w1 where acc: "listener_accept os (s_world s) l = (x, w1)" by fastforce
  note out = accept_one_outcomes [OF run acc]
  have bk: "books held (s_world s) (all_hands s)" using inv by (simp add: sys_inv_def)
  show ?thesis
  proof (cases x)
    case (Inl e)
    have "books held w1 (all_hands s)" using books_okD(1) [OF ok acc [unfolded Inl]] bk books_held by metis
    from world_inv [OF inv this] out Inl show ?thesis by simp
  next
    case (Inr p)
    obtain sk peer where p: "p = (sk, peer)" by fastforce
    from books_accept [OF ok acc [unfolded Inr p] bk] have bk1: "books held w1 (add_mset sk (all_hands s))" .
    from out [unfolded Inr p] show ?thesis
    proof (simp only: sum.case prod.case, elim disjE exE conjE)
      assume "put_acceptor ac' s = s\<lparr>s_acceptor := Some ac', s_world := drop_stream os w1 sk\<rparr>"
      with world_inv [OF inv books_drop [OF ok bk1]] show ?thesis by simp
    next
      fix i h1 r h2 w2
      assume i: "running s i" and h1: "h1 = (l_handle (s_loops s ! i))\<lparr>h_urgent := h_urgent (l_handle (s_loops s ! i)) @ [Register sk la peer]\<rparr>"
        and wk: "wake_handle os (h1, w1) = (r, (h2, w2))" and put: "put_acceptor ac' s = (put_handle i (h2, w2) s)\<lparr>s_acceptor := Some ac'\<rparr>"
      obtain wk' where h2: "h2 = h1\<lparr>h_waker := wk'\<rparr>" using wk by (auto simp: wake_handle_def split: prod.splits)
      have "queued h2 = queued (l_handle (s_loops s ! i)) + {#sk#}" using h1 h2 by (simp add: queued_def pending_def ac_simps)
      moreover have "books held w2 (all_hands s + {#sk#})"
        using bk1 wake_handle_held [OF ok wk] books_held by (metis add_mset_add_single)
      ultimately have "sys_inv held (put_handle i (h2, w2) s)"
        using i by (intro put_handle_inv [OF inv _ refl, where N = "{#sk#}"]) (simp_all add: running_def h1 h2)
      with put show ?thesis by simp
    qed
  qed
qed

lemma send_step_inv:
  assumes inv: "sys_inv held s" and ok: "books_ok os held v" and i: "i < length (s_loops s)" and cmd: "cmd_sock cmd = {#}"
    and run: "trigger os p cmd (l_handle (s_loops s ! i), s_world s) = (r, hw)"
  shows "sys_inv held (put_handle i hw s)"
proof -
  obtain h w where hw: "hw = (h, w)" by fastforce
  let ?h = "l_handle (s_loops s ! i)"
  note t = trigger_held [OF ok run [unfolded hw]]
  have ext: "handle_ext ?h h" using trigger_ext [of ?h os p cmd "s_world s"] run hw by simp
  have "books held w (all_hands s + {#})" using inv t books_held by (metis add.right_neutral sys_inv_def)
  moreover have "queued h = queued ?h + {#}" using t cmd by simp
  ultimately show ?thesis unfolding hw
    by (intro put_handle_inv [OF inv i refl, where N = "{#}"]) (use ext in \<open>simp_all add: handle_ext_def\<close>)
qed

text \<open>\<open>EngineHandler::shutdown\<close>.\<close>

lemma handle_shutdown_spec:
  assumes ok: "books_ok os held v"
  obtains h' w' where "handle_shutdown os (h, w) = (Ok (), (h', w'))" and "handle_ext h h'" and "queued h' = queued h"
    and "held w' = held w \<and> v w' = v w" and "h_urgent h' = h_urgent h @ (if h_connected h then [Shutdown] else [])"
    and "h_connected h \<longrightarrow> awoken (h_waker h')"
proof -
  obtain b h' w' where t: "trigger os High Shutdown (h, w) = (Ok b, (h', w'))" by (metis trigger_outcome prod.collapse)
  have ext: "handle_ext h h'" using trigger_ext [of h os High Shutdown w] t by simp
  have u: "h_urgent h' = h_urgent h @ (if h_connected h then [Shutdown] else []) \<and> (h_connected h \<longrightarrow> awoken (h_waker h'))"
    using t by (cases rule: trigger_cases [of High Shutdown h os w]) (auto simp: enqueue_def send_urgent_def split: if_splits)
  from trigger_held [OF ok t] have "queued h' = queued h" "held w' = held w \<and> v w' = v w" by auto
  with t ext u show thesis by (intro that [of h' w']) (simp_all add: handle_shutdown_def discard_result_def)
qed

lemma shutdown_loops_held:
  assumes ok: "books_ok os held v" and "e_loops eh = Some hs" and "idx + n = length hs"
  shows "\<exists>eh' w' hs'. shutdown_loops os idx n (eh, w) = (Ok (), (eh', w')) \<and> e_loops eh' = Some hs' \<and> length hs' = length hs
    \<and> e_acceptor eh' = e_acceptor eh \<and> held w' = held w \<and> v w' = v w \<and> (\<forall>i < idx. hs' ! i = hs ! i)
    \<and> (\<forall>i. idx \<le> i \<longrightarrow> i < length hs \<longrightarrow> handle_ext (hs ! i) (hs' ! i) \<and> queued (hs' ! i) = queued (hs ! i)
         \<and> h_urgent (hs' ! i) = h_urgent (hs ! i) @ (if h_connected (hs ! i) then [Shutdown] else [])
         \<and> (h_connected (hs ! i) \<longrightarrow> awoken (h_waker (hs' ! i))))"
  using assms(2,3)
proof (induction n arbitrary: idx eh hs w)
  case 0
  then show ?case by simp
next
  case (Suc n)
  have idx: "idx < length hs" using Suc.prems(2) by simp
  obtain h' w' where h': "handle_shutdown os (hs ! idx, w) = (Ok (), (h', w'))" "handle_ext (hs ! idx) h'" "queued h' = queued (hs ! idx)"
    "held w' = held w \<and> v w' = v w" "h_urgent h' = h_urgent (hs ! idx) @ (if h_connected (hs ! idx) then [Shutdown] else [])"
    "h_connected (hs ! idx) \<longrightarrow> awoken (h_waker h')" by (rule handle_shutdown_spec [OF ok])
  let ?eh = "eh\<lparr>e_loops := Some (hs[idx := h'])\<rparr>"
  from Suc.IH [of ?eh "hs[idx := h']" "Suc idx" w'] Suc.prems(2) obtain eh' w2 hs' where
    ih: "shutdown_loops os (Suc idx) n (?eh, w') = (Ok (), (eh', w2))" "e_loops eh' = Some hs'" "length hs' = length hs"
      "e_acceptor eh' = e_acceptor eh" "held w2 = held w' \<and> v w2 = v w'" "\<forall>i < Suc idx. hs' ! i = hs[idx := h'] ! i"
    and rest: "\<forall>i. Suc idx \<le> i \<longrightarrow> i < length hs \<longrightarrow> handle_ext (hs[idx := h'] ! i) (hs' ! i) \<and> queued (hs' ! i) = queued (hs[idx := h'] ! i)
         \<and> h_urgent (hs' ! i) = h_urgent (hs[idx := h'] ! i) @ (if h_connected (hs[idx := h'] ! i) then [Shutdown] else [])
         \<and> (h_connected (hs[idx := h'] ! i) \<longrightarrow> awoken (h_waker (hs' ! i)))"
    by (simp, blast)
  have "handle_ext (hs ! i) (hs' ! i) \<and> queued (hs' ! i) = queued (hs ! i)
         \<and> h_urgent (hs' ! i) = h_urgent (hs ! i) @ (if h_connected (hs ! i) then [Shutdown] else [])
         \<and> (h_connected (hs ! i) \<longrightarrow> awoken (h_waker (hs' ! i)))" if "idx \<le> i" "i < length hs" for i
  proof (cases "i = idx")
    case True
    with ih(6) idx h' show ?thesis by simp
  next
    case False
    with rest that show ?thesis by simp
  qed
  moreover have "\<forall>i < idx. hs' ! i = hs ! i" using ih(6) by simp
  moreover have "shutdown_loops os idx (Suc n) (eh, w) = (Ok (), (eh', w2))"
    using Suc.prems(1) h'(1) ih(1) by (simp add: on_loop_def bind_io_Ok)
  ultimately show ?case using ih(2-5) h'(4) by (intro exI [of _ eh'] exI [of _ w2] exI [of _ hs']) simp
qed

lemma engine_shutdown_view:
  assumes ok: "books_ok os held v" and run: "engine_shutdown os (engine_view s, s_world s) = (r, (eh, w))"
  shows "\<exists>hs. r = Ok () \<and> e_loops eh = Some hs \<and> length hs = length (s_loops s) \<and> held w = held (s_world s) \<and> v w = v (s_world s)
    \<and> (\<forall>i < length (s_loops s). handle_ext (l_handle (s_loops s ! i)) (hs ! i)
         \<and> queued (hs ! i) = queued (l_handle (s_loops s ! i))
         \<and> h_urgent (hs ! i) = h_urgent (l_handle (s_loops s ! i)) @ (if h_connected (l_handle (s_loops s ! i)) then [Shutdown] else [])
         \<and> (h_connected (l_handle (s_loops s ! i)) \<longrightarrow> awoken (h_waker (hs ! i))))
    \<and> (s_acceptor s \<noteq> None \<longrightarrow> (\<exists>a. e_acceptor eh = Some a \<and> \<not> ah_running a \<and> awoken (ah_waker a)))"
proof -
  have "\<exists>eh1 w1. shutdown_acceptor os (engine_view s, s_world s) = (Ok (), (eh1, w1)) \<and> e_loops eh1 = Some (map l_handle (s_loops s))
      \<and> held w1 = held (s_world s) \<and> v w1 = v (s_world s) \<and> (s_acceptor s = None \<longrightarrow> e_acceptor eh1 = None)
      \<and> (s_acceptor s \<noteq> None \<longrightarrow> (\<exists>a. e_acceptor eh1 = Some a \<and> \<not> ah_running a \<and> awoken (ah_waker a)))"
  proof (cases "s_acceptor s")
    case None
    then show ?thesis by (simp add: shutdown_acceptor_def engine_view_def)
  next
    case (Some ac)
    obtain x wk w1 where wk: "wake os (a_waker ac, s_world s) = (x, (wk, w1))" by (metis surj_pair)
    from wake_outcome [of os "(a_waker ac, s_world s)"] wake_state [of os "a_waker ac" "s_world s"] wk
    have x: "x \<noteq> Panic" "x \<noteq> Diverge" "awoken wk" by simp_all
    have "held w1 = held (s_world s) \<and> v w1 = v (s_world s)" using wk by (auto simp: wake_def Let_def split: if_splits prod.splits sum.splits dest: books_okD(12) [OF ok])
    with Some wk x show ?thesis by (cases x) (simp_all add: shutdown_acceptor_def engine_view_def discard_result_def)
  qed
  then obtain eh1 w1 where a: "shutdown_acceptor os (engine_view s, s_world s) = (Ok (), (eh1, w1))" "e_loops eh1 = Some (map l_handle (s_loops s))"
    "held w1 = held (s_world s)" "v w1 = v (s_world s)" "s_acceptor s = None \<longrightarrow> e_acceptor eh1 = None"
    "s_acceptor s \<noteq> None \<longrightarrow> (\<exists>a. e_acceptor eh1 = Some a \<and> \<not> ah_running a \<and> awoken (ah_waker a))"
    by (elim exE conjE) (rule that; assumption)
  have len: "0 + length (s_loops s) = length (map l_handle (s_loops s))" by simp
  from shutdown_loops_held [OF ok a(2) len, of w1] obtain eh' w' hs' where
    l: "shutdown_loops os 0 (length (s_loops s)) (eh1, w1) = (Ok (), (eh', w'))" "e_loops eh' = Some hs'" "length hs' = length (s_loops s)"
      "e_acceptor eh' = e_acceptor eh1" "held w' = held w1" "v w' = v w1"
    and each: "\<forall>i < length (s_loops s). handle_ext (map l_handle (s_loops s) ! i) (hs' ! i) \<and> queued (hs' ! i) = queued (map l_handle (s_loops s) ! i)
         \<and> h_urgent (hs' ! i) = h_urgent (map l_handle (s_loops s) ! i) @ (if h_connected (map l_handle (s_loops s) ! i) then [Shutdown] else [])
         \<and> (h_connected (map l_handle (s_loops s) ! i) \<longrightarrow> awoken (h_waker (hs' ! i)))"
    by simp blast
  from run a(1,2) l(1) have "r = Ok ()" "eh = eh'" "w = w'" by (simp_all add: engine_shutdown_def bind_io_def)
  with a l each show ?thesis by (intro exI [of _ hs']) simp
qed

lemma handles_inv:
  assumes inv: "sys_inv held s" and len: "length hs = length (s_loops s)" and w: "held w = held (s_world s)"
    and each: "\<And>i. i < length (s_loops s) \<Longrightarrow> handle_ext (l_handle (s_loops s ! i)) (hs ! i) \<and> queued (hs ! i) = queued (l_handle (s_loops s ! i))"
  shows "sys_inv held (s\<lparr>s_loops := map2 (\<lambda>st h. st\<lparr>l_handle := h\<rparr>) (s_loops s) hs, s_acceptor := a, s_world := w\<rparr>)"
proof -
  obtain ls where ls: "map2 (\<lambda>st h. st\<lparr>l_handle := h\<rparr>) (s_loops s) hs = ls" by simp
  with len have n: "length ls = length (s_loops s)" by auto
  have nth: "ls ! i = (s_loops s ! i)\<lparr>l_handle := hs ! i\<rparr>" if "i < length (s_loops s)" for i using that len ls by auto
  have hd: "hands (ls ! i) = hands (s_loops s ! i)" if "i < length (s_loops s)" for i using nth [OF that] each [OF that] by (simp add: hands_def)
  have "map hands ls = map hands (s_loops s)" using n hd by (intro nth_equalityI) simp_all
  moreover have "l_id (ls ! i) = of_nat i \<and> (if h_connected (l_handle (ls ! i)) then loop_inv (ls ! i) else hands (ls ! i) = {#})"
    if i: "i < length (s_loops s)" for i
    using inv i each [OF i] hd [OF i] by (auto simp: sys_inv_def nth [OF i] loop_inv_def handle_ext_def)
  ultimately show ?thesis using inv n books_held [OF w] by (simp add: sys_inv_def all_hands_def ls)
qed

lemma stop_step_inv:
  assumes inv: "sys_inv held s" and ok: "books_ok os held v" and run: "engine_shutdown os (engine_view s, s_world s) = (r, (eh, w))"
  shows "sys_inv held (put_engine eh w s)"
proof -
  from engine_shutdown_view [OF ok run] obtain hs where hs: "e_loops eh = Some hs" "length hs = length (s_loops s)" "held w = held (s_world s)"
    "\<And>i. i < length (s_loops s) \<Longrightarrow> handle_ext (l_handle (s_loops s ! i)) (hs ! i) \<and> queued (hs ! i) = queued (l_handle (s_loops s ! i))"
    by blast
  from handles_inv [OF inv hs(2-4)] hs(1) show ?thesis by (simp add: put_engine_def)
qed

lemma tick_due_keeps:
  assumes ok: "books_ok os held v" and app: "app_ok held v H"
    and clk: "\<And>w. held (snd (clock_now rx w)) = held w" "\<And>w. v (snd (clock_now rx w)) = v w"
  shows "settles (accounted held v u B n F) (tick_due rx os H next_tick) (accounted held v u B n F)"
proof -
  have c: "settles (accounted held v u B n F) (clock rx) (accounted held v u B n F)"
  proof (rule settlesI)
    fix st r st' assume a: "accounted held v u B n F st" and run: "clock rx st = (r, st')"
    have "st' = st\<lparr>l_world := snd (clock_now rx (l_world st))\<rparr>" using run by (auto simp: clock_def split: prod.splits)
    with accounted_world [where v = v and B = B, OF clk(1) [of "l_world st"]] clk(2) [of "l_world st"] a show "accounted held v u B n F st'" by simp
  qed
  have "settles (accounted held v u B n F) (instant_add now delay) (accounted held v u B n F)" for now delay
    by (rule settlesI) (simp add: instant_add_def split: if_splits)
  then have s: "settles (accounted held v u B n F) (schedule rx delay) (accounted held v u B n F)" for delay
    unfolding schedule_def by (intro settling c)
  have a: "settles (accounted held v u B n F) (case x of (delay, a) \<Rightarrow> if a = ActShutdown then shutdown_and_stop os H else schedule rx delay)
      (accounted held v u B n F)" for x
    by (cases x) (simp add: s shutdown_and_stop_keeps [OF ok app])
  have "settles (accounted held v u B n F) (bind_io (clock rx) (\<lambda>now.
      if tick \<le> now then bind_io (call_tick H) (\<lambda>(delay, a). if a = ActShutdown then shutdown_and_stop os H else schedule rx delay)
      else ret (Some tick))) (accounted held v u B n F)" for tick
    by (intro settles_then c settles_if settles_ret tick_keeps [OF app] a)
  then show ?thesis by (cases next_tick) (simp_all add: tick_due_def settles_ret)
qed

text \<open>What the program relies on, together.\<close>

definition sys_env ::
  "'w reactor \<Rightarrow> 'w os \<Rightarrow> bool \<Rightarrow> ('w \<Rightarrow> socket \<Rightarrow> bytes) \<Rightarrow> ('w, 'k) handler \<Rightarrow> ('w \<Rightarrow> socket \<Rightarrow> bool) \<Rightarrow> ('w \<Rightarrow> socket \<Rightarrow> 'v) \<Rightarrow> bool" where
  "sys_env rx os dbg wire H held v \<longleftrightarrow>
     env_ok dbg os wire H \<and> books_ok os held v \<and> app_ok held v H \<and> (\<forall>w. held (snd (clock_now rx w)) = held w \<and> v (snd (clock_now rx w)) = v w)"

text \<open>One lemma for each kind of step that a loop takes: the invariant, and what others see.\<close>

lemma command_step_inv:
  assumes env: "sys_env rx os dbg wire H held v" and inv: "sys_inv held s" and run: "running s i"
    and nc: "next_command (l_handle (loop_of s i)) = (Some cmd, h)"
    and cmd: "run_command os dbg H cmd ((loop_of s i)\<lparr>l_handle := h\<rparr>) = (r, st)" and e: "ended r"
  shows "sys_inv held (put_loop i (after os (r, st)) s)
    \<and> (\<forall>sk \<in># others s i. v (s_world (put_loop i (after os (r, st)) s)) sk = v (s_world s) sk)"
proof -
  have eo: "env_ok dbg os wire H" and ok: "books_ok os held v" and app: "app_ok held v H" using env by (auto simp: sys_env_def)
  then have vac: "vacant_ok dbg os" by (simp add: env_ok_def)
  note i = sys_invD [OF inv run]
  from take_command_keeps [OF i(2) nc]
  have "accounted held v (v (s_world s)) (others s i) (of_nat i) (cmd_sock cmd + others s i) ((loop_of s i)\<lparr>l_handle := h\<rparr>)" by simp
  from settlesD [OF run_command_keeps [OF ok app vac subset_mset.order_refl] this cmd e]
  have a: "accounted held v (v (s_world s)) (others s i) (of_nat i) (others s i) st" .
  have "loop_inv ((loop_of s i)\<lparr>l_handle := h\<rparr>)" using i(1) next_command_fields [OF nc] by (simp add: loop_inv_def)
  from keeps_butD(2) [OF keeps_run_command [OF eo] this, of cmd] cmd have "loop_inv st" by simp
  from loop_step_inv [OF inv run ok a this _ e] a show ?thesis by (simp add: accounted_def)
qed

lemma event_step_inv:
  assumes env: "sys_env rx os dbg wire H held v" and inv: "sys_inv held s" and run: "running s i"
    and ev: "dispatch_event os dbg H ev (loop_of s i) = (r, st)" and e: "ended r"
  shows "sys_inv held (put_loop i (after os (r, st)) s)
    \<and> (\<forall>sk \<in># others s i. v (s_world (put_loop i (after os (r, st)) s)) sk = v (s_world s) sk)"
proof -
  have eo: "env_ok dbg os wire H" and ok: "books_ok os held v" and app: "app_ok held v H" using env by (auto simp: sys_env_def)
  then have vac: "vacant_ok dbg os" by (simp add: env_ok_def)
  note i = sys_invD(1) [OF inv run] sys_invD(2) [where v = v, OF inv run]
  from settlesD [OF dispatch_keeps [OF ok app vac] i(2) ev e]
  have a: "accounted held v (v (s_world s)) (others s i) (of_nat i) (others s i) st" .
  from keeps_butD(2) [OF keeps_dispatch [OF eo] i(1), of ev] ev have "loop_inv st" by simp
  from loop_step_inv [OF inv run ok a this _ e] a show ?thesis by (simp add: accounted_def)
qed

lemma tick_step_inv:
  assumes env: "sys_env rx os dbg wire H held v" and inv: "sys_inv held s" and run: "running s i"
    and tick: "tick_due rx os H next_tick (loop_of s i) = (r, st)" and e: "ended r"
  shows "sys_inv held (put_loop i (after os (r, st)) s)
    \<and> (\<forall>sk \<in># others s i. v (s_world (put_loop i (after os (r, st)) s)) sk = v (s_world s) sk)"
proof -
  have eo: "env_ok dbg os wire H" and ok: "books_ok os held v" and app: "app_ok held v H"
    and clk: "\<And>w. held (snd (clock_now rx w)) = held w" "\<And>w. v (snd (clock_now rx w)) = v w" using env by (auto simp: sys_env_def)
  note i = sys_invD(1) [OF inv run] sys_invD(2) [where v = v, OF inv run]
  from settlesD [OF tick_due_keeps [OF ok app clk] i(2) tick e]
  have a: "accounted held v (v (s_world s)) (others s i) (of_nat i) (others s i) st" .
  from keeps_butD(2) [OF keeps_tick_due [OF eo] i(1), of rx next_tick] tick have "loop_inv st" by simp
  from loop_step_inv [OF inv run ok a this _ e] a show ?thesis by (simp add: accounted_def)
qed

lemma sys_step_inv:
  assumes env: "sys_env rx os dbg wire H held v" and step: "sys_step rx os dbg H seen s s'" and inv: "sys_inv held s"
    and det: "\<And>w w'. seen w' = seen w \<Longrightarrow> held w' = held w"
  shows "sys_inv held s'"
  using step
proof cases
  have ok: "books_ok os held v" using env by (simp add: sys_env_def)
  {
    case (command i cmd h r st)
    with command_step_inv [OF env inv command(2-5)] show ?thesis by simp
  next
    case (event i ev r st)
    with event_step_inv [OF env inv event(2-4)] show ?thesis by simp
  next
    case (tick i next_tick r st)
    with tick_step_inv [OF env inv tick(2-4)] show ?thesis by simp
  next
    case (accept ac l la b ac')
    with accept_step_inv [OF inv ok accept(5)] show ?thesis by simp
  next
    case (send i cmd p r hw)
    with send_step_inv [OF inv ok send(2-4)] show ?thesis by simp
  next
    case (stop r eh w)
    with stop_step_inv [OF inv ok stop(2)] show ?thesis by simp
  next
    case (network w)
    with inv books_held [OF det [OF network(2)]] show ?thesis by (simp add: world_inv sys_inv_def all_hands_def)
  }
qed

lemma sys_reaches_inv:
  assumes "sys_reaches rx os dbg H seen start s" and "sys_env rx os dbg wire H held v" and "sys_inv held start"
    and "\<And>w w'. seen w' = seen w \<Longrightarrow> held w' = held w"
  shows "sys_inv held s"
  using assms(1) by induction (simp_all add: assms(3) sys_step_inv [OF assms(2) _ _ assms(4)])

subsection \<open>Places\<close>

text \<open>Where a socket can be: in a slot of a loop, or in a command that the loop has yet to take.\<close>

datatype place = InSlot nat nat | InQueue nat nat

fun owns :: "('w, 'k) system \<Rightarrow> place \<Rightarrow> socket \<Rightarrow> bool" where
  "owns s (InSlot i k) sk \<longleftrightarrow>
     i < length (s_loops s) \<and> (\<exists>c. slab_get (l_connections (s_loops s ! i)) k = Some c \<and> c_socket c = Some sk)"
| "owns s (InQueue i j) sk \<longleftrightarrow>
     i < length (s_loops s) \<and> j < length (pending (l_handle (s_loops s ! i)))
     \<and> (\<exists>la pa. pending (l_handle (s_loops s ! i)) ! j = Register sk la pa)"

fun place_loop :: "place \<Rightarrow> nat" where
  "place_loop (InSlot i k) = i"
| "place_loop (InQueue i j) = i"

lemma in_sum: "x \<in># sum_list (map f xs) \<longleftrightarrow> (\<exists>j < length xs. x \<in># f (xs ! j))"
proof -
  have "x \<in># sum_list (map f xs) \<longleftrightarrow> (\<exists>a \<in> set xs. x \<in># f a)" by (induction xs) auto
  then show ?thesis by (metis in_set_conv_nth)
qed

lemma one_in_sum:
  "count (sum_list (map f xs)) x = 1 \<Longrightarrow>
    \<exists>i < length xs. count (f (xs ! i)) x = 1 \<and> (\<forall>j < length xs. x \<in># f (xs ! j) \<longrightarrow> j = i)"
proof (induction xs)
  case (Cons a xs)
  show ?case
  proof (cases "count (f a) x = 0")
    case True
    with Cons obtain i where "i < length xs" "count (f (xs ! i)) x = 1" "\<forall>j < length xs. x \<in># f (xs ! j) \<longrightarrow> j = i" by auto
    with True show ?thesis by (intro exI [of _ "Suc i"]) (auto simp: nth_Cons not_in_iff split: nat.splits)
  next
    case False
    moreover have "count (f a) x + count (sum_list (map f xs)) x = 1" using Cons.prems by simp
    ultimately have a: "count (f a) x = 1" "count (sum_list (map f xs)) x = 0" by linarith+
    from a(2) have "x \<notin># f (xs ! j)" if "j < length xs" for j using that in_sum [of x f xs] by (auto simp: count_eq_zero_iff)
    with a(1) show ?thesis by (intro exI [of _ 0]) (auto simp: nth_Cons split: nat.splits)
  qed
qed simp

lemma owns_in:
  "owns s (InSlot i k) sk \<longleftrightarrow>
     i < length (s_loops s) \<and> k < length (l_connections (s_loops s ! i)) \<and> sk \<in># slot_sock (l_connections (s_loops s ! i) ! k)"
  "owns s (InQueue i j) sk \<longleftrightarrow>
     i < length (s_loops s) \<and> j < length (pending (l_handle (s_loops s ! i))) \<and> sk \<in># cmd_sock (pending (l_handle (s_loops s ! i)) ! j)"
proof -
  have "sk \<in># slot_sock x \<longleftrightarrow> (\<exists>c. x = Some c \<and> c_socket c = Some sk)" for x :: "'b conn option"
    by (cases x) (auto split: option.splits)
  then show "owns s (InSlot i k) sk \<longleftrightarrow>
     i < length (s_loops s) \<and> k < length (l_connections (s_loops s ! i)) \<and> sk \<in># slot_sock (l_connections (s_loops s ! i) ! k)"
    by (auto simp: slab_get_def)
  have "sk \<in># cmd_sock cmd \<longleftrightarrow> (\<exists>la pa. cmd = Register sk la pa)" for cmd by (cases cmd) auto
  then show "owns s (InQueue i j) sk \<longleftrightarrow>
     i < length (s_loops s) \<and> j < length (pending (l_handle (s_loops s ! i))) \<and> sk \<in># cmd_sock (pending (l_handle (s_loops s ! i)) ! j)"
    by simp
qed

lemma owns_hands: "owns s p sk \<Longrightarrow> place_loop p < length (s_loops s) \<and> sk \<in># hands (s_loops s ! place_loop p)"
  by (cases p) (auto simp: owns_in hands_def slab_socks_def queued_def in_sum simp del: owns.simps)

lemma nobody_owns: "count (all_hands s) sk = 0 \<Longrightarrow> \<not> owns s p sk"
  using owns_hands [of s p sk] in_sum [of sk hands "s_loops s"] by (auto simp: all_hands_def count_eq_zero_iff)

lemma one_owns:
  assumes "count (all_hands s) sk = 1"
  shows "\<exists>!p. owns s p sk"
proof -
  from one_in_sum [OF assms [unfolded all_hands_def]] obtain i where i: "i < length (s_loops s)" "count (hands (s_loops s ! i)) sk = 1"
    and others: "\<And>j. j < length (s_loops s) \<Longrightarrow> sk \<in># hands (s_loops s ! j) \<Longrightarrow> j = i" by blast
  let ?conns = "l_connections (s_loops s ! i)" and ?cmds = "pending (l_handle (s_loops s ! i))"
  have here: "place_loop p = i" if "owns s p sk" for p
    using owns_hands [OF that] others by simp
  consider (slot) "count (slab_socks ?conns) sk = 1" "count (queued (l_handle (s_loops s ! i))) sk = 0"
    | (queue) "count (slab_socks ?conns) sk = 0" "count (queued (l_handle (s_loops s ! i))) sk = 1"
    using i(2) by (auto simp: hands_def add_is_1)
  then show ?thesis
  proof cases
    case slot
    from one_in_sum [OF slot(1) [unfolded slab_socks_def]] obtain k where k: "k < length ?conns" "count (slot_sock (?conns ! k)) sk = 1"
      "\<And>j. j < length ?conns \<Longrightarrow> sk \<in># slot_sock (?conns ! j) \<Longrightarrow> j = k" by blast
    from k(2) have "sk \<in># slot_sock (?conns ! k)" by (simp flip: count_greater_zero_iff)
    with i(1) k(1) have "owns s (InSlot i k) sk" by (simp only: owns_in)
    moreover have "p = InSlot i k" if o: "owns s p sk" for p
    proof (cases p)
      case (InSlot i' k')
      with o here [OF o] k(3) [of k'] show ?thesis by (simp add: owns_in del: owns.simps)
    next
      case (InQueue i' j)
      with o here [OF o] have "sk \<in># queued (l_handle (s_loops s ! i))" by (auto simp: owns_in queued_def in_sum simp del: owns.simps)
      with slot(2) show ?thesis by (simp add: count_eq_zero_iff)
    qed
    ultimately show ?thesis by blast
  next
    case queue
    from one_in_sum [OF queue(2) [unfolded queued_def]] obtain k where k: "k < length ?cmds" "count (cmd_sock (?cmds ! k)) sk = 1"
      "\<And>j. j < length ?cmds \<Longrightarrow> sk \<in># cmd_sock (?cmds ! j) \<Longrightarrow> j = k" by blast
    from k(2) have "sk \<in># cmd_sock (?cmds ! k)" by (simp flip: count_greater_zero_iff)
    with i(1) k(1) have "owns s (InQueue i k) sk" by (simp only: owns_in)
    moreover have "p = InQueue i k" if o: "owns s p sk" for p
    proof (cases p)
      case (InQueue i' k')
      with o here [OF o] k(3) [of k'] show ?thesis by (simp add: owns_in del: owns.simps)
    next
      case (InSlot i' j)
      with o here [OF o] have "sk \<in># slab_socks ?conns" by (auto simp: owns_in slab_socks_def in_sum simp del: owns.simps)
      with queue(1) show ?thesis by (simp add: count_eq_zero_iff)
    qed
    ultimately show ?thesis by blast
  qed
qed

subsection \<open>The start\<close>

lemma fresh_loop_inv: "fresh_loop i el \<Longrightarrow> l_id el = of_nat i \<and> h_connected (l_handle el) \<and> loop_inv el \<and> hands el = {#}"
  by (auto simp: fresh_loop_def loop_inv_def hands_def slab_socks_def queued_def slab_get_def slab_keys_def)

lemma start_inv:
  assumes "\<forall>j < length (s_loops s). fresh_loop j (s_loops s ! j)" and "\<And>sk. \<not> held (s_world s) sk"
  shows "sys_inv held s"
proof -
  have f: "l_id (s_loops s ! j) = of_nat j \<and> h_connected (l_handle (s_loops s ! j)) \<and> loop_inv (s_loops s ! j) \<and> hands (s_loops s ! j) = {#}"
    if "j < length (s_loops s)" for j using that assms(1) fresh_loop_inv by blast
  then have "sk \<notin># all_hands s" for sk using in_sum [of sk hands "s_loops s"] by (auto simp: all_hands_def)
  then have "count (all_hands s) sk = 0" for sk by (simp add: count_eq_zero_iff)
  with f assms(2) show ?thesis by (simp add: sys_inv_def books_def)
qed

lemma engine_start_fresh:
  fixes v :: "('w, 't) engine_env"
  assumes run: "engine_run rx os dbg mono_seq available en v = (Ok (t :: ('w, 'k) threads), v')"
    and new: "e_loops (v_handle v) = None" "e_acceptor (v_handle v) = None" "global_senders (v_pool v) = None"
  shows "\<forall>j < length (s_loops (system_of t v')). fresh_loop j (s_loops (system_of t v') ! j)"
proof (cases "reuse_port (en_options en)")
  case True
  from run_reuse_port_spec [OF run [unfolded engine_run_reuse_port [OF True]] new(1,3)] show ?thesis by (simp add: system_of_def)
next
  case False
  from run_user_lb_pool [OF run [unfolded engine_run_user_lb [OF False]]] obtain els ac v1 ids where
    "user_lb_threads rx os mono_seq en (get_core_ids (read_to_string os (v_world v)) available (Some (num_event_loop (en_options en)))) v
      = (Ok (els, ac), v1)" "t = \<lparr>t_loops = els, t_acceptor = Some ac, t_workers = ids\<rparr>" by blast
  with user_lb_threads_spec [OF this(1) new(1,2)] show ?thesis by (simp add: system_of_def)
qed

lemma engine_start_inv:
  fixes v :: "('w, 't) engine_env"
  assumes run: "engine_run rx os dbg mono_seq available en v = (Ok (t :: ('w, 'k) threads), v')"
    and new: "e_loops (v_handle v) = None" "e_acceptor (v_handle v) = None" "global_senders (v_pool v) = None"
    and none: "\<And>sk. \<not> held (v_world v') sk"
  shows "sys_inv held (system_of t v')"
  using engine_start_fresh [OF run new] none by (intro start_inv) (simp_all add: system_of_def)

subsection \<open>Properties\<close>

text \<open>
  C2: every open connection has exactly one owner, in the whole program. Start any engine, in either
  balancing mode, and let its loops, its acceptor, any other threads and the network interleave in any
  way: then each connection that the process has open is in exactly one slot of exactly one running
  loop, or in exactly one \<open>Register\<close> command that such a loop has yet to take, and every connection that
  somebody owns is open. So no connection is served by two loops, none is leaked, on any error path,
  and when no loop runs any more none is left open. A descriptor in slot \<open>k\<close> of loop \<open>i\<close> names \<open>i\<close> and
  \<open>k\<close>, which leads commands of other threads back to it. The steps are those that do not panic, and a running
  loop panics on no command and no event, unless debug assertions are compiled in and \<open>2 ^ 24\<close> connections
  are open in it (\<open>crowded\<close>), and on no tick, if the application's delays, added to the clock, fit an
  \<open>Instant\<close> (\<open>delays_fit\<close>).
\<close>

theorem every_connection_has_one_owner:
  fixes v :: "('w, 't) engine_env" and H :: "('w, 'k) handler"
  assumes env: "sys_env rx os dbg wire H held obs"
    and run: "engine_run rx os dbg mono_seq available en v = (Ok t, v')"
    and new: "e_loops (v_handle v) = None" "e_acceptor (v_handle v) = None" "global_senders (v_pool v) = None"
    and none: "\<And>sk. \<not> held (v_world v') sk"
    and reach: "sys_reaches rx os dbg H held (system_of t v') s"
  shows "(\<forall>sk. if held (s_world s) sk then \<exists>!p. owns s p sk else \<not> (\<exists>p. owns s p sk))
    \<and> (\<forall>p sk. owns s p sk \<longrightarrow> running s (place_loop p))
    \<and> (\<forall>i k c. running s i \<longrightarrow> slab_get (l_connections (loop_of s i)) k = Some c \<longrightarrow>
         event_loop_index (c_gfd c) = i mod 256 \<and> slab_index (c_gfd c) = k mod 2 ^ 24)
    \<and> (\<forall>i cmd ev next_tick. running s i \<longrightarrow>
         (fst (run_command os dbg H cmd (loop_of s i)) = Panic \<longrightarrow> crowded dbg (snd (run_command os dbg H cmd (loop_of s i))))
         \<and> (fst (dispatch_event os dbg H ev (loop_of s i)) = Panic \<longrightarrow> crowded dbg (snd (dispatch_event os dbg H ev (loop_of s i))))
         \<and> (delays_fit rx H \<longrightarrow> fst (tick_due rx os H next_tick (loop_of s i)) \<noteq> Panic))"
proof -
  have inv: "sys_inv held s" by (rule sys_reaches_inv [OF reach env engine_start_inv [where held = held, OF run new none]])
  have e: "env_ok dbg os wire H" using env by (simp add: sys_env_def)
  have own: "if held (s_world s) sk then \<exists>!p. owns s p sk else \<not> (\<exists>p. owns s p sk)" for sk
  proof -
    have "count (all_hands s) sk = (if held (s_world s) sk then 1 else 0)" using inv by (simp add: sys_inv_def books_def)
    then show ?thesis using one_owns [of s sk] nobody_owns [of s sk] by (cases "held (s_world s) sk") simp_all
  qed
  have alive: "running s (place_loop p)" if "owns s p sk" for p sk
    using owns_hands [OF that] inv by (auto simp: sys_inv_def running_def split: if_splits)
  have named: "event_loop_index (c_gfd c) = i mod 256 \<and> slab_index (c_gfd c) = k mod 2 ^ 24"
    if "running s i" "slab_get (l_connections (loop_of s i)) k = Some c" for i k c
  proof -
    have "conn_ok (l_id (s_loops s ! i)) (h_idx (l_handle (s_loops s ! i))) k c" "l_id (s_loops s ! i) = of_nat i"
      using inv that by (auto simp: sys_inv_def running_def loop_inv_def)
    then show ?thesis by (simp add: conn_ok_def unat_of_nat take_bit_eq_mod)
  qed
  have calm: "(fst (run_command os dbg H cmd (loop_of s i)) = Panic \<longrightarrow> crowded dbg (snd (run_command os dbg H cmd (loop_of s i))))
      \<and> (fst (dispatch_event os dbg H ev (loop_of s i)) = Panic \<longrightarrow> crowded dbg (snd (dispatch_event os dbg H ev (loop_of s i))))
      \<and> (delays_fit rx H \<longrightarrow> fst (tick_due rx os H next_tick (loop_of s i)) \<noteq> Panic)" if "running s i" for i cmd ev next_tick
    using keeps_butD(1) [OF keeps_run_command [OF e] sys_invD(1) [OF inv that]] keeps_butD(1) [OF keeps_dispatch [OF e] sys_invD(1) [OF inv that]]
      tick_due_calm [OF e sys_invD(1) [OF inv that]] by blast
  show ?thesis using own alive named calm by blast
qed

text \<open>
  Two loops and an acceptor start; the acceptor hands a connection to the first loop, which registers it.
\<close>

definition port_env :: "(sim, char) engine_env" where
  "port_env = demo_env\<lparr>v_world := sim0\<lparr>sim_accepts := [(5, SocketAddrV4 [10, 0, 0, 1] 999)]\<rparr>\<rparr>"

definition port_engine :: "unit engine" where
  "port_engine = demo_engine\<lparr>en_options := sample_options\<lparr>num_event_loop := 2\<rparr>\<rparr>"

definition demo_accept :: "(sim, unit) system \<Rightarrow> (sim, unit) system option" where
  "demo_accept s =
     (case s_acceptor s of None \<Rightarrow> None
      | Some ac \<Rightarrow> (case a_listeners ac of [] \<Rightarrow> None
         | l # ls \<Rightarrow> (case listener_local_addr l of Inl e \<Rightarrow> None
            | Inr la \<Rightarrow> (case accept_one port_os l la (acceptor_of s ac) of (b, ac') \<Rightarrow> Some (put_acceptor ac' s)))))"

definition demo_command :: "(sim, unit) handler \<Rightarrow> (sim, unit) system \<Rightarrow> (sim, unit) system option" where
  "demo_command H s =
     (case next_command (l_handle (loop_of s 0)) of
        (Some cmd, h) \<Rightarrow>
          (case run_command port_os False H cmd ((loop_of s 0)\<lparr>l_handle := h\<rparr>) of
             (Ok x, st) \<Rightarrow> if running s 0 then Some (put_loop 0 (after port_os (Ok x, st)) s) else None
           | _ \<Rightarrow> None)
      | _ \<Rightarrow> None)"

definition demo_started :: "((sim, unit) threads \<times> (sim, char) engine_env) option" where
  "demo_started = (case engine_run sim_reactor2 port_os False 0 (Some [0, 1]) port_engine port_env of (Ok t, v') \<Rightarrow> Some (t, v') | _ \<Rightarrow> None)"

definition demo_system :: "(sim, unit) system option" where
  "demo_system = (case demo_started of None \<Rightarrow> None
     | Some (t, v') \<Rightarrow> (case demo_accept (system_of t v') of None \<Rightarrow> None | Some s \<Rightarrow> demo_command default_handler s))"

definition port_held :: "sim \<Rightarrow> socket \<Rightarrow> bool" where
  "port_held w sk \<longleftrightarrow> sk \<in> sim_held w"

lemma demo_accept_step:
  "demo_accept s = Some s' \<Longrightarrow> sys_step rx port_os dbg H held s s'"
  by (auto simp: demo_accept_def split: option.splits list.splits sum.splits prod.splits intro!: accept)

lemma demo_command_step:
  "demo_command H s = Some s' \<Longrightarrow> sys_step rx port_os False H held s s'"
  by (auto simp: demo_command_def split: option.splits outcome.splits prod.splits if_splits intro!: command)

lemma demo_system_reached:
  assumes "demo_system = Some s"
  obtains t v' where "engine_run sim_reactor2 port_os False 0 (Some [0, 1]) port_engine port_env = (Ok t, v')"
    and "sys_reaches rx port_os False default_handler held (system_of t v') s" and "v_world v' = s_world (system_of t v')"
proof -
  from assms obtain t v' s1 where s: "demo_started = Some (t, v')" "demo_accept (system_of t v') = Some s1" "demo_command default_handler s1 = Some s"
    by (auto simp: demo_system_def split: option.splits prod.splits)
  then have "engine_run sim_reactor2 port_os False 0 (Some [0, 1]) port_engine port_env = (Ok t, v')"
    by (auto simp: demo_started_def split: outcome.splits prod.splits)
  moreover have "sys_reaches rx port_os False default_handler held (system_of t v') s"
    using sys_reaches.goes_on [OF sys_reaches.goes_on [OF sys_reaches.starts demo_accept_step [OF s(2)]] demo_command_step [OF s(3)]] .
  ultimately show thesis by (intro that) (simp_all add: system_of_def)
qed

lemma port_env_ok: "sys_env sim_reactor2 port_os False sim_sent default_handler port_held (view port_ghost)"
proof -
  have "env_ok False port_os sim_sent default_handler"
    using slow_contracts default_handler_ok by (simp add: env_ok_def transport_ok_def read_ok_def vacant_ok_def reserve_ok_def port_os_def)
  moreover have "books_ok port_os port_held (view port_ghost)"
    using streams_okD(3) [OF port_streams(1)] unfolding books_ok_def port_calls port_registry
    by (auto simp: listener_accept_def port_os_def port_accept_def port_held_def fun_eq_iff sim_read_def sim_accept_def
        sim_registry_def view_def port_ghost_def Let_def split: listener_inner.splits list.splits if_splits sum.splits option.splits)
  moreover have "app_ok port_held (view port_ghost) default_handler"
    by (simp add: app_ok_def no_sockets_def default_handler_def)
  ultimately show ?thesis by (simp add: sys_env_def sim_reactor2_def)
qed

lemma every_connection_has_one_owner_witness:
  "\<exists>s. demo_system = Some s \<and> owns s (InSlot 0 0) (Tcp 5) \<and> (\<exists>!p. owns s p (Tcp 5))"
proof -
  have start: "map_option (\<lambda>(t, v'). sim_held (v_world v')) demo_started = Some {}" by code_simp
  have end_: "map_option (\<lambda>s. (map_option c_socket (slab_get (l_connections (s_loops s ! 0)) 0), length (s_loops s), port_held (s_world s) (Tcp 5))) demo_system
    = Some (Some (Some (Tcp 5)), 2, True)" by code_simp
  then obtain s where s: "demo_system = Some s" by (cases demo_system) simp_all
  obtain t v' where run: "engine_run sim_reactor2 port_os False 0 (Some [0, 1]) port_engine port_env = (Ok t, v')"
    and reach: "sys_reaches sim_reactor2 port_os False default_handler port_held (system_of t v') s"
    using demo_system_reached [OF s, of sim_reactor2 port_held] .
  have new: "e_loops (v_handle port_env) = None" "e_acceptor (v_handle port_env) = None" "global_senders (v_pool port_env) = None"
    by (simp_all add: port_env_def demo_env_def engine_handler_new_def no_pool_def)
  have none: "\<not> port_held (v_world v') sk" for sk using start run by (simp add: demo_started_def port_held_def)
  have o: "owns s (InSlot 0 0) (Tcp 5)" "port_held (s_world s) (Tcp 5)" using end_ unfolding s by auto
  from every_connection_has_one_owner [OF port_env_ok run new none reach] o(2)
  have "\<exists>!p. owns s p (Tcp 5)" by (metis (full_types))
  with o s show ?thesis by blast
qed

end
