(* ===== verification/ShutdownDue.thy ===== *)
theory ShutdownDue
  imports LoopTheorems
begin

text \<open>
  How long a \<open>Shutdown\<close> command waits: at most as long as the urgent commands before it. The urgent channel
  is first in, first out, the loop's own operations only append to it, and a loop that has taken a
  \<open>Shutdown\<close> does not come back with a value. The lemmas go through the operations of \<open>src/event_loop.rs\<close>.
\<close>

subsection \<open>Waiting\<close>

text \<open>A \<open>Shutdown\<close> is among the urgent commands, with at most \<open>k\<close> commands before it.\<close>

definition due :: "nat \<Rightarrow> loop_handle \<Rightarrow> bool" where
  "due k h \<longleftrightarrow> (\<exists>us vs. h_urgent h = us @ Shutdown # vs \<and> length us \<le> k)"

lemma due_urgent: "h_urgent h' = h_urgent h \<Longrightarrow> due k h' = due k h"
  by (simp add: due_def)

lemma due_append: "due k h \<Longrightarrow> h_urgent h' = h_urgent h @ us \<Longrightarrow> due k h'"
  unfolding due_def by (metis append.assoc append_Cons)

lemma due_ext: "due k h \<Longrightarrow> handle_ext h h' \<Longrightarrow> due k h'"
  using due_append by (auto simp: handle_ext_def)

lemma due_mono: "due j h \<Longrightarrow> j \<le> k \<Longrightarrow> due k h"
  unfolding due_def using order_trans by blast

text \<open>The command that is taken is the \<open>Shutdown\<close>, or the \<open>Shutdown\<close> comes one place nearer.\<close>

lemma due_next:
  assumes "due k h" and "next_command h = (x, h')"
  shows "x = Some Shutdown \<or> (0 < k \<and> due (k - 1) h' \<and> x \<noteq> None)"
proof -
  from assms(1) obtain us vs where us: "h_urgent h = us @ Shutdown # vs" "length us \<le> k" unfolding due_def by blast
  show ?thesis
  proof (cases us)
    case Nil
    with us assms(2) show ?thesis by (simp add: next_command.simps)
  next
    case (Cons cmd us')
    with us assms(2) have h': "x = Some cmd" "h_urgent h' = us' @ Shutdown # vs" by (auto simp: next_command.simps)
    with us(2) Cons have "length us' \<le> k - 1" "0 < k" by simp_all
    with h' show ?thesis unfolding due_def by blast
  qed
qed

subsection \<open>Operations that let it wait\<close>

definition waits :: "nat \<Rightarrow> ('a, ('w, 'k) eloop) prog \<Rightarrow> bool" where
  "waits k m \<longleftrightarrow> (\<forall>st x st'. due k (l_handle st) \<longrightarrow> m st = (Ok x, st') \<longrightarrow> due k (l_handle st'))"

lemma waitsI: "(\<And>st x st'. due k (l_handle st) \<Longrightarrow> m st = (Ok x, st') \<Longrightarrow> due k (l_handle st')) \<Longrightarrow> waits k m"
  by (simp add: waits_def)

lemma waitsD: "waits k m \<Longrightarrow> due k (l_handle st) \<Longrightarrow> m st = (Ok x, st') \<Longrightarrow> due k (l_handle st')"
  unfolding waits_def by blast

lemma waits_bind: "waits k m \<Longrightarrow> (\<And>x. waits k (f x)) \<Longrightarrow> waits k (bind_io m f)"
  by (rule waitsI) (auto simp: bind_io_def split: prod.splits outcome.splits dest: waitsD)

lemma waits_ret: "waits k (ret x)"
  by (simp add: waits_def ret_def)

lemma waits_raise: "waits k (raise e)"
  by (simp add: waits_def raise_def)

lemma waits_if: "waits k m \<Longrightarrow> waits k m' \<Longrightarrow> waits k (if b then m else m')"
  by simp

lemma waits_stop: "waits k (bind_io m (\<lambda>_. raise e))"
  by (auto simp: waits_def bind_io_def raise_def split: prod.splits outcome.splits)

lemma waits_on_world: "waits k (on_world f)"
  by (auto simp: waits_def on_world_def split: prod.splits sum.splits)

lemma on_conn_handle: "on_conn key m st = (r, st') \<Longrightarrow> l_handle st' = l_handle st"
  by (auto simp: on_conn_def split: option.splits prod.splits)

lemma waits_on_conn: "waits k (on_conn key m)"
  by (rule waitsI) (simp add: on_conn_handle)

text \<open>Whether the call on the handle succeeds does not matter.\<close>

lemma on_handle_due:
  assumes ext: "\<And>h w. handle_ext h (fst (snd (m (h, w))))" and "due k (l_handle st)" and "on_handle m st = (r, st')"
  shows "due k (l_handle st')"
  using assms(2,3) ext [of "l_handle st" "l_world st"] by (auto simp: on_handle_def split: prod.splits intro: due_ext)

lemma waits_on_handle:
  assumes "\<And>h w. handle_ext h (fst (snd (m (h, w))))"
  shows "waits k (on_handle m)" and "waits k (discard_result (on_handle m))"
  by (rule waitsI, auto simp: discard_result_def split: prod.splits outcome.splits dest: on_handle_due [OF assms])+

lemma waits_loop_trigger: "waits k (discard_result (loop_trigger os p cmd))"
  unfolding loop_trigger_def by (rule waits_on_handle(2)) (rule trigger_ext)

lemma callback_ok_ext: "callback_ok f \<Longrightarrow> f c (h, w) = (a, c', h', w') \<Longrightarrow> handle_ext h h'"
  unfolding callback_ok_def by blast

lemma waits_callback: "callback_ok f \<Longrightarrow> waits k (callback key f)"
  by (rule waitsI) (auto simp: callback_def split: option.splits prod.splits dest: callback_ok_ext due_ext [OF _ callback_ok_ext])

lemma waits_reregister: "waits k (reregister os key)"
  by (rule waitsI) (auto simp: reregister_def Let_def split: option.splits if_splits dest: waitsD [OF waits_on_world])

lemma waits_deregister: "waits k (deregister_conn os key)"
  by (rule waitsI) (auto simp: deregister_conn_def split: option.splits dest: waitsD [OF waits_on_world])

lemma waits_retire: "waits k (retire_conn os key)"
  by (auto simp: waits_def retire_conn_def due_def split: option.splits prod.splits)

lemmas waiting = waits_bind waits_ret waits_raise waits_if waits_stop waits_on_world waits_on_conn waits_loop_trigger
  waits_reregister waits_deregister waits_retire

subsection \<open>Closing, registering, writing\<close>

lemma handler_okD:
  assumes "handler_ok H"
  shows "callback_ok (on_open H)" and "callback_ok (on_traffic H)" and "callback_ok (on_close H)"
    and "on_tick H s (h, w) = (r, s', h', w') \<Longrightarrow> handle_ext h h'"
  using assms unfolding handler_ok_def by blast+

lemma waits_close:
  assumes "handler_ok H"
  shows "waits k (close_connection os H key graceful)"
proof -
  have "waits k (bind_io (on_conn key (if graceful then discard_result (flush os) else drop_out_buffer)) (\<lambda>_.
      bind_io (callback key (on_close H)) (\<lambda>_. bind_io (deregister_conn os key) (\<lambda>_. retire_conn os key))))"
    by (intro waiting waits_callback handler_okD(3) [OF assms])
  then show ?thesis by (auto simp: waits_def close_connection_def)
qed

lemma waits_register:
  fixes H :: "('w, 'k) handler"
  assumes ok: "handler_ok H"
  shows "waits k (register_conn os dbg H sk la pa)"
proof (rule waitsI)
  fix st st' :: "('w, 'k) eloop" and x
  assume d: "due k (l_handle st)" and run: "register_conn os dbg H sk la pa st = (Ok x, st')"
  obtain w1 where w1: "(if tcp_no_delay (l_options st) = NoDelay then snd (set_nodelay os (l_world st) sk True) else l_world st) = w1" by simp
  let ?key = "vacant_key os w1 (occupied (l_connections st))"
  obtain w2 u where reg: "poller_register (socket_register os) w1 sk (of_nat ?key) = (Inr u, w2)"
    using run w1 by (auto simp: register_conn_def Let_def split: sum.splits prod.splits)
  obtain g mono' where g: "Gfd_new dbg (socket_fd os w2 sk) (l_id st) (of_nat ?key) (l_mono st) = (Ok g, mono')"
    using run w1 reg by (auto simp: register_conn_def Let_def split: outcome.splits prod.splits)
  obtain c pool' where c: "(case l_pool st of
      p # ps \<Rightarrow> (conn_reset g sk (l_options st) la pa (h_idx (l_handle st)) p, ps)
    | [] \<Rightarrow> (conn_new g sk (l_options st) la pa (h_idx (l_handle st)), [])) = (c, pool')" by fastforce
  obtain b c' h' w3 where op: "on_open H c (l_handle st, w2) = (b, c', h', w3)" by (metis surj_pair)
  let ?st = "st\<lparr>l_mono := mono', l_pool := pool', l_handle := h', l_world := w3\<rparr>"
  from due_ext [OF d callback_ok_ext [OF handler_okD(1) [OF ok] op]] have d': "due k h'" .
  have rest: "(case b of
      ActClose \<Rightarrow> bind_io (close_connection os H ?key True) (\<lambda>_ s. (Ok (), s\<lparr>l_world := drop_stream os (l_world s) sk\<rparr>)) ?st
    | ActNone \<Rightarrow> (Ok (), ?st\<lparr>l_connections := slab_insert ?key c' (l_connections ?st), l_handle := h'\<lparr>h_conn_count := h_conn_count h' + 1\<rparr>\<rparr>)
    | ActShutdown \<Rightarrow> bind_io (shutdown os H) (\<lambda>_ s. (Err shutdown_error, s\<lparr>l_world := drop_stream os (l_world s) sk\<rparr>)) ?st) = (Ok x, st')"
    using run w1 reg g c op by (simp add: register_conn_def Let_def)
  show "due k (l_handle st')"
  proof (cases b)
    case ActNone
    with rest have "h_urgent (l_handle st') = h_urgent h'" by auto
    with d' due_urgent show ?thesis by blast
  next
    case ActClose
    have "waits k (bind_io (close_connection os H ?key True) (\<lambda>_ s. (Ok (), s\<lparr>l_world := drop_stream os (l_world s) sk\<rparr>)))"
      by (intro waits_bind waits_close [OF ok]) (simp add: waits_def)
    from waitsD [OF this, of ?st] rest ActClose d' show ?thesis by simp
  next
    case ActShutdown
    with rest show ?thesis by (auto simp: bind_io_def split: prod.splits outcome.splits)
  qed
qed

lemma waits_write_socket: "handler_ok H \<Longrightarrow> waits k (write_socket os H key)"
proof -
  assume ok: "handler_ok H"
  have "waits k (process_write os key)"
    by (rule waitsI) (auto simp: process_write_def split: option.splits dest: waitsD [OF waits_on_conn])
  moreover have "waits k (case status of
        IoClosed graceful \<Rightarrow> close_connection os H key graceful | IoYield \<Rightarrow> discard_result (loop_trigger os High (Write key))
      | IoCompleted \<Rightarrow> reregister os key | IoShutdown \<Rightarrow> discard_result (loop_trigger os High Shutdown))" for status
    by (cases status) (simp_all add: waiting waits_close [OF ok])
  ultimately show ?thesis unfolding write_socket_def by (rule waits_bind)
qed

subsection \<open>Reading\<close>

lemma read_loop_due:
  assumes ok: "handler_ok H"
  shows "due k (l_handle st) \<Longrightarrow> read_loop os H key max_batch read_cap bytes_read st = (Ok x, st') \<Longrightarrow> due k (l_handle st')"
proof (induction "max_batch - bytes_read" arbitrary: bytes_read st rule: less_induct)
  case less
  note d = less.prems(1) and run = less.prems(2)
  show ?case
  proof (cases "max_batch \<le> bytes_read")
    case True
    with d run show ?thesis by (simp add: read_loop.simps)
  next
    case False
    note unf = read_loop.simps [of os H key max_batch read_cap bytes_read st]
    obtain len capacity where prep: "prepare_scratch os read_cap (l_scratch st) = Some (len, capacity)"
      using run False by (cases "prepare_scratch os read_cap (l_scratch st)") (auto simp: unf)
    obtain c where c: "slab_get (l_connections st) key = Some c"
      using run False prep by (cases "slab_get (l_connections st) key") (auto simp: unf)
    obtain sk where sk: "c_socket c = Some sk" using run False prep c by (cases "c_socket c") (auto simp: unf)
    obtain y w' where rd: "socket_read os (l_world st) sk len = (y, w')" by fastforce
    show ?thesis
    proof (cases "\<exists>data. y = Inr data \<and> data \<noteq> []")
      case F: False
      with False run prep c sk rd d show ?thesis by (cases y) (auto simp: unf Let_def split: if_splits)
    next
      case True
      then obtain data where data: "y = Inr data" "data \<noteq> []" by blast
      let ?st1 = "st\<lparr>l_world := w', l_scratch := (len - length data, capacity - length data),
        l_connections := slab_insert key (c\<lparr>c_io_buffer := Some data\<rparr>) (l_connections st)\<rparr>"
      obtain z st2 where cb: "callback key (on_traffic H) ?st1 = (z, st2)" by fastforce
      have fits: "length data \<le> len" using run False prep c sk rd data by (auto simp: unf Let_def split: if_splits)
      then obtain b where z: "z = Ok b" using cb c by (auto simp: callback_def split: prod.splits)
      have d2: "due k (l_handle st2)"
        by (rule waitsD [OF waits_callback [OF handler_okD(2) [OF ok]] _ cb [unfolded z]]) (simp add: d)
      show ?thesis
      proof (cases b)
        case ActNone
        obtain c2 where c2: "slab_get (l_connections st2) key = Some c2"
          using run False prep c sk rd data fits cb z ActNone by (cases "slab_get (l_connections st2) key") (auto simp: unf Let_def)
        let ?st2 = "st2\<lparr>l_connections := slab_insert key (merge_io c2) (l_connections st2)\<rparr>"
        have "read_loop os H key max_batch read_cap (bytes_read + length data) ?st2 = (Ok x, st')"
          using run False prep c sk rd data fits cb z ActNone c2 by (simp add: unf Let_def)
        from less.hyps [OF _ _ this] d2 data(2) False show ?thesis by (cases data) auto
      qed (use run False prep c sk rd data fits cb z d2 in \<open>auto simp: unf Let_def\<close>)
    qed
  qed
qed

lemma waits_read_socket:
  assumes ok: "handler_ok H"
  shows "waits k (read_socket os H key)"
proof -
  have "waits k (process_read os H key)"
    by (rule waitsI) (auto simp: process_read_def split: option.splits if_splits intro: read_loop_due [OF ok])
  moreover have "waits k (case status of
        IoClosed graceful \<Rightarrow> close_connection os H key graceful | IoYield \<Rightarrow> discard_result (loop_trigger os High (Read key))
      | IoCompleted \<Rightarrow> ret () | IoShutdown \<Rightarrow> shutdown_and_stop os H)" for status
    by (cases status) (simp_all add: waiting waits_close [OF ok] shutdown_and_stop_def)
  ultimately show ?thesis unfolding read_socket_def by (rule waits_bind)
qed

subsection \<open>Commands\<close>

lemma waits_async_write:
  assumes ok: "handler_ok H"
  shows "waits k (async_write os H g data)"
proof (rule waitsI)
  fix st st' x assume d: "due k (l_handle st)" and run: "async_write os H g data st = (Ok x, st')"
  obtain r st1 where w: "on_conn (slab_index g) (conn_write os data) st = (r, st1)" by fastforce
  from d on_conn_handle [OF w] have d1: "due k (l_handle st1)" by simp
  show "due k (l_handle st')"
  proof (cases "event_loop_index g = unat (l_id st) \<and> (\<exists>c. slab_get (l_connections st) (slab_index g) = Some c \<and> c_gfd c = g)")
    case False
    with run d show ?thesis by (auto simp: async_write_def Let_def split: option.splits if_splits)
  next
    case True
    then have "(case r of Ok _ \<Rightarrow> reregister os (slab_index g) st1 | Err _ \<Rightarrow> close_connection os H (slab_index g) False st1
       | Panic \<Rightarrow> (Panic, st1) | Diverge \<Rightarrow> (Diverge, st1)) = (Ok x, st')"
      using run w by (auto simp: async_write_def Let_def split: outcome.splits)
    then show ?thesis
      by (cases r) (simp_all add: waitsD [OF waits_reregister d1] waitsD [OF waits_close [OF ok] d1])
  qed
qed

lemma waits_command:
  assumes ok: "handler_ok H"
  shows "waits k (run_command os dbg H cmd)"
  by (cases cmd)
     (simp_all add: waiting waits_async_write [OF ok] waits_register [OF ok] waits_close [OF ok] waits_read_socket [OF ok]
       waits_write_socket [OF ok] waits_on_handle(1) wake_handle_ext shutdown_and_stop_def)

lemma shutdown_never_returns: "run_command os dbg H Shutdown st \<noteq> (Ok x, st')"
  by (auto simp: shutdown_and_stop_def bind_io_def raise_def split: prod.splits outcome.splits)

lemma waits_commands:
  assumes ok: "handler_ok H"
  shows "waits k (process_commands os dbg H n)"
proof (induction n arbitrary: k)
  case 0
  then show ?case by (simp add: waits_def)
next
  case (Suc n)
  show ?case
  proof (rule waitsI)
    fix st st' x assume d: "due k (l_handle st)" and run: "process_commands os dbg H (Suc n) st = (Ok x, st')"
    obtain c h' where nc: "next_command (l_handle st) = (c, h')" by fastforce
    from due_next [OF d nc] obtain cmd where c: "c = Some cmd" by (cases c) simp_all
    with run nc have r: "bind_io (run_command os dbg H cmd) (\<lambda>_. process_commands os dbg H n) (st\<lparr>l_handle := h'\<rparr>) = (Ok x, st')" by simp
    then obtain u st1 where "run_command os dbg H cmd (st\<lparr>l_handle := h'\<rparr>) = (Ok u, st1)" by (rule bind_io_OkE)
    with shutdown_never_returns have "cmd \<noteq> Shutdown" by blast
    with due_next [OF d nc] c have d': "due (k - 1) (l_handle (st\<lparr>l_handle := h'\<rparr>))" by simp
    have "waits (k - 1) (bind_io (run_command os dbg H cmd) (\<lambda>_. process_commands os dbg H n))"
      by (rule waits_bind [OF waits_command [OF ok] Suc.IH])
    from waitsD [OF this d' r] show "due k (l_handle st')" by (rule due_mono) simp
  qed
qed

subsection \<open>Events\<close>

lemma accept_loop_due:
  assumes ret: "accept_loop os dbg H l st = Some (Ok x, st')" and ok: "handler_ok H" and d: "due k (l_handle st)"
  shows "due k (l_handle st')"
proof -
  have "handler_ok H \<longrightarrow> due k (l_handle st) \<longrightarrow> fst res = Ok () \<longrightarrow> due k (l_handle (snd res))"
    if "accept_loop os dbg H l st = Some res" for os dbg and H :: "('a, 'b) handler" and l st res
  proof (rule accept_loop.raw_induct [where P = "\<lambda>os dbg H l st res. handler_ok H \<longrightarrow> due k (l_handle st) \<longrightarrow>
      fst res = Ok () \<longrightarrow> due k (l_handle (snd res))", OF _ that], intro impI)
    fix f :: "'a os \<Rightarrow> bool \<Rightarrow> ('a, 'b) handler \<Rightarrow> listener \<Rightarrow> ('a, 'b) eloop \<Rightarrow> (unit outcome \<times> ('a, 'b) eloop) option"
      and os :: "'a os" and dbg and H :: "('a, 'b) handler" and l and st :: "('a, 'b) eloop" and res
    assume IH: "\<And>os dbg H l st res. f os dbg H l st = Some res \<Longrightarrow> handler_ok H \<longrightarrow> due k (l_handle st) \<longrightarrow>
        fst res = Ok () \<longrightarrow> due k (l_handle (snd res))"
      and body: "(case listener_accept os (l_world st) l of
        (Inl e, w') \<Rightarrow> Some (Ok (), st\<lparr>l_world := w'\<rparr>)
      | (Inr (sk, peer_addr), w') \<Rightarrow>
          (case listener_local_addr l of
             Inl e \<Rightarrow> Some (Err e, st\<lparr>l_world := drop_stream os w' sk\<rparr>)
           | Inr local_addr \<Rightarrow>
               (case register_conn os dbg H sk local_addr peer_addr (st\<lparr>l_world := w'\<rparr>) of
                  (Ok _, st') \<Rightarrow> f os dbg H l st'
                | (Err e, st') \<Rightarrow> Some (Err e, st')
                | (Panic, st') \<Rightarrow> Some (Panic, st')
                | (Diverge, st') \<Rightarrow> Some (Diverge, st')))) = Some res"
      and ok: "handler_ok H" and d: "due k (l_handle st)" and r: "fst res = Ok ()"
    obtain x w' where acc: "listener_accept os (l_world st) l = (x, w')" by fastforce
    show "due k (l_handle (snd res))"
    proof (cases x)
      case (Inl e)
      with body acc d show ?thesis by auto
    next
      case (Inr p)
      obtain sk peer where p: "p = (sk, peer)" by fastforce
      show ?thesis
      proof (cases "listener_local_addr l")
        case Inl2: (Inl e)
        with body acc Inr p r show ?thesis by auto
      next
        case la: (Inr la)
        obtain y st1 where reg: "register_conn os dbg H sk la peer (st\<lparr>l_world := w'\<rparr>) = (y, st1)" by fastforce
        then obtain u where y: "y = Ok u" using body acc Inr p la r by (cases y) (auto simp: eq_commute [of "(_, st1)"])
        have "due k (l_handle st1)" by (rule waitsD [OF waits_register [OF ok] _ reg [unfolded y]]) (simp add: d)
        with IH [of os dbg H l st1 res] body acc Inr p la reg y ok r show ?thesis by simp
      qed
    qed
  qed
  from this [OF ret] ok d show ?thesis by simp
qed

lemma waits_accept:
  assumes ok: "handler_ok H"
  shows "waits k (accept_process os dbg H idx)"
proof (rule waitsI)
  fix st st' x assume d: "due k (l_handle st)" and run: "accept_process os dbg H idx st = (Ok x, st')"
  show "due k (l_handle st')"
  proof (cases "\<exists>ls. l_listeners st = Some ls \<and> idx < length ls")
    case False
    with run d show ?thesis by (auto simp: accept_process_def split: option.splits)
  next
    case True
    then obtain ls st1 where "l_listeners st = Some ls"
      and acc: "accept_loop os dbg H (ls ! idx) (st\<lparr>l_listeners := None\<rparr>) = Some (Ok x, st1)" "st' = st1\<lparr>l_listeners := Some ls\<rparr>"
      using run by (auto simp: accept_process_def split: option.splits prod.splits)
    from accept_loop_due [OF acc(1) ok] d acc(2) show ?thesis by simp
  qed
qed

lemma waits_event:
  assumes ok: "handler_ok H"
  shows "waits k (dispatch_event os dbg H ev)"
proof -
  have "waits k (process_io os H ev)" unfolding process_io_def Let_def
    by (intro waiting waits_close [OF ok] waits_write_socket [OF ok] waits_read_socket [OF ok])
  moreover have "waits k (on_handle (\<lambda>(h, w). (Ok (), (h\<lparr>h_waker := reset_waker (h_waker h)\<rparr>, w))))"
    by (auto simp: waits_def on_handle_def due_def)
  ultimately show ?thesis unfolding dispatch_event_def process_command_def
    by (auto intro: waits_bind waits_commands [OF ok] waits_accept [OF ok] split: option.split)
qed

lemma waits_tick:
  assumes ok: "handler_ok H"
  shows "waits k (tick_due rx os H next_tick)"
proof -
  have c: "waits k (clock rx)" by (auto simp: waits_def clock_def split: prod.splits)
  have t: "waits k (call_tick H)"
    by (rule waitsI) (auto simp: call_tick_def split: prod.splits dest: due_ext [OF _ handler_okD(4) [OF ok]])
  have "waits k (instant_add now delay)" for now delay by (auto simp: waits_def instant_add_def)
  then have s: "waits k (schedule rx delay)" for delay unfolding schedule_def by (intro waiting c)
  have a: "waits k (case x of (delay, a) \<Rightarrow> if a = ActShutdown then shutdown_and_stop os H else schedule rx delay)" for x
    by (cases x) (simp add: s shutdown_and_stop_def waits_stop)
  have "waits k (bind_io (clock rx) (\<lambda>now.
      if tick \<le> now then bind_io (call_tick H) (\<lambda>(delay, a). if a = ActShutdown then shutdown_and_stop os H else schedule rx delay)
      else ret (Some tick)))" for tick
    by (intro waits_bind c waits_if waits_ret t a)
  then show ?thesis by (cases next_tick) (simp_all add: tick_due_def waits_ret)
qed

end
