(* ===== verification/EngineStop.thy ===== *)
theory EngineStop
  imports System ShutdownDue
begin

text \<open>
  How an engine stops: after \<open>EngineHandler::shutdown\<close> every loop ends after a bounded number of its own
  commands, whatever all other threads do meanwhile, the acceptor ends with its next turn, and when all
  loops have ended no connection is open, so that the joins at the end of \<open>Engine::run\<close> return.
\<close>

subsection \<open>What a step does to a handle\<close>

lemma after_running:
  assumes "ended r" and "h_connected (l_handle (after os (r, st)))"
  shows "\<exists>x. r = Ok x \<and> after os (r, st) = st"
  using assms by (cases r) (auto simp: after_def end_loop_def)

lemma put_loop_running:
  "running (put_loop j st s) i \<longleftrightarrow> i < length (s_loops s) \<and> (if i = j then h_connected (l_handle st) else running s i)"
  by (auto simp: running_def put_loop_def)

lemma put_loop_handle:
  "i < length (s_loops s) \<Longrightarrow> l_handle (s_loops (put_loop j st s) ! i) = (if i = j then l_handle st else l_handle (s_loops s ! i))"
  by (simp add: put_loop_def nth_list_update)

text \<open>A step of loop \<open>j\<close>, seen from loop \<open>i\<close>.\<close>

lemma loop_step_due:
  assumes w: "waits k m" and run: "m st = (r, st')" and e: "ended r" and j: "running s j"
    and st: "due k (l_handle (s_loops s ! j)) \<Longrightarrow> due k (l_handle st)"
    and i: "running (put_loop j (after os (r, st')) s) i"
  shows "running s i \<and> (due k (l_handle (s_loops s ! i)) \<longrightarrow> due k (l_handle (s_loops (put_loop j (after os (r, st')) s) ! i)))"
proof (cases "i = j")
  case False
  with i show ?thesis by (simp add: put_loop_running put_loop_handle)
next
  case True
  with i have "h_connected (l_handle (after os (r, st')))" by (simp add: put_loop_running)
  from after_running [OF e this] obtain x where "r = Ok x" "after os (r, st') = st'" by blast
  with True j run waitsD [OF w st] show ?thesis by (simp add: put_loop_handle running_def)
qed

text \<open>A command of loop \<open>i\<close> that leaves it running brings the \<open>Shutdown\<close> one place nearer.\<close>

lemma command_step_due:
  assumes app: "handler_ok H" and j: "running s j" and nc: "next_command (l_handle (loop_of s j)) = (Some cmd, h)"
    and run: "run_command os dbg H cmd ((loop_of s j)\<lparr>l_handle := h\<rparr>) = (r, st)" and e: "ended r"
    and still: "running (put_loop j (after os (r, st)) s) j" and d: "due k (l_handle (s_loops s ! j))"
  shows "0 < k \<and> due (k - 1) (l_handle (s_loops (put_loop j (after os (r, st)) s) ! j))"
proof -
  from still have "h_connected (l_handle (after os (r, st)))" by (simp add: put_loop_running)
  from after_running [OF e this] obtain x where r: "r = Ok x" "after os (r, st) = st" by blast
  with run shutdown_never_returns have "cmd \<noteq> Shutdown" by blast
  with due_next [OF _ nc, of k] d have k: "0 < k" "due (k - 1) h" by simp_all
  have "due (k - 1) (l_handle st)" by (rule waitsD [OF waits_command [OF app] _ run [unfolded r(1)]]) (use k in simp)
  with k r j show ?thesis by (simp add: put_loop_handle running_def)
qed

lemma accept_one_ext:
  assumes "accept_one os l la ac = (b, ac')"
  shows "length (a_workers ac') = length (a_workers ac) \<and> (\<forall>i < length (a_workers ac). handle_ext (a_workers ac ! i) (a_workers ac' ! i))"
proof -
  have d: "length (a_workers (dispatch_conn os la sk pa ac)) = length (a_workers ac)
      \<and> (\<forall>i < length (a_workers ac). handle_ext (a_workers ac ! i) (a_workers (dispatch_conn os la sk pa ac) ! i))"
    for sk pa and ac :: "'a acceptor"
  proof -
    obtain idx bal where sel: "balancer_select (a_balancer ac) (a_workers ac) = (idx, bal)" by fastforce
    obtain sent h' where snd: "send_urgent (Register sk la pa) (a_workers ac ! idx) = (sent, h')" by fastforce
    obtain r h'' w' where wk: "discard_result (wake_handle os) (h', a_world ac) = (r, (h'', w'))" by (metis surj_pair)
    have "handle_ext (a_workers ac ! idx) h'" using snd by (auto simp: send_urgent_def handle_ext_def split: if_splits)
    moreover have "handle_ext h' h''"
      using wk wake_handle_ext [of h' os "a_world ac"] by (auto simp: discard_result_def split: prod.splits outcome.splits)
    ultimately have "handle_ext (a_workers ac ! idx) h''" by (rule handle_ext_trans)
    with sel snd wk show ?thesis by (auto simp: dispatch_conn_def nth_list_update split: bool.split)
  qed
  from assms show ?thesis
    by (cases "listener_accept os (a_world ac) l") (auto simp: accept_one_def d [of _ _ "ac\<lparr>a_world := _\<rparr>", simplified] split: sum.splits)
qed

lemma handles_running:
  assumes "length hs = length (s_loops s)" and "\<And>i. i < length (s_loops s) \<Longrightarrow> handle_ext (l_handle (s_loops s ! i)) (hs ! i)"
    and "s_loops s' = map2 (\<lambda>st h. st\<lparr>l_handle := h\<rparr>) (s_loops s) hs" and "running s' i"
  shows "running s i \<and> (due k (l_handle (s_loops s ! i)) \<longrightarrow> due k (l_handle (s_loops s' ! i)))"
  using assms(2) [of i] assms(1,3,4) due_ext [of k "l_handle (s_loops s ! i)" "hs ! i"] by (auto simp: running_def handle_ext_def)

lemma sys_step_due:
  assumes ok: "books_ok os held obs" and app: "handler_ok H" and step: "sys_step rx os dbg H held s s'" and i: "running s' i"
  shows "running s i \<and> (due k (l_handle (s_loops s ! i)) \<longrightarrow> due k (l_handle (s_loops s' ! i)))"
  using step
proof cases
  case (event j ev r st)
  with loop_step_due [where k = k and i = i, OF waits_event [OF app] event(3,4,2)] i show ?thesis by simp
next
  case (tick j next_tick r st)
  with loop_step_due [where k = k and i = i, OF waits_tick [OF app] tick(3,4,2)] i show ?thesis by simp
next
  case (accept ac l la b ac')
  from accept_one_ext [OF accept(5)] have "length (a_workers ac') = length (s_loops s)"
    "\<And>i. i < length (s_loops s) \<Longrightarrow> handle_ext (l_handle (s_loops s ! i)) (a_workers ac' ! i)" by (simp_all add: acceptor_of_def)
  note workers = this
  have "s_loops s' = map2 (\<lambda>st h. st\<lparr>l_handle := h\<rparr>) (s_loops s) (a_workers ac')" using accept(1) by (simp add: put_acceptor_def)
  from handles_running [OF workers this i] show ?thesis .
next
  case (send j cmd p r hw)
  obtain h w where hw: "hw = (h, w)" by fastforce
  with send trigger_ext [of "l_handle (s_loops s ! j)" os p cmd "s_world s"] have "handle_ext (l_handle (s_loops s ! j)) h" by simp
  with i send(1,2) hw due_ext [of k "l_handle (s_loops s ! j)" h] show ?thesis
    by (auto simp: running_def put_handle_def nth_list_update handle_ext_def split: if_splits)
next
  case (stop r eh w)
  from engine_shutdown_view [OF ok stop(2)] obtain hs where hs: "e_loops eh = Some hs" "length hs = length (s_loops s)"
    "\<And>i. i < length (s_loops s) \<Longrightarrow> handle_ext (l_handle (s_loops s ! i)) (hs ! i)" by blast
  have "s_loops s' = map2 (\<lambda>st h. st\<lparr>l_handle := h\<rparr>) (s_loops s) hs" using stop(1) hs(1) by (simp add: put_engine_def)
  from handles_running [OF hs(2,3) this i] show ?thesis .
next
  case (network w)
  with i show ?thesis by (simp add: running_def)
next
  case (command j cmd h r st)
  show ?thesis
  proof (cases "i = j")
    case True
    with command_step_due [OF app command(2-5), of k] i command(1,2) due_mono [of "k - 1" _ k] show ?thesis by auto
  next
    case False
    with i command(1) show ?thesis by (simp add: put_loop_running put_loop_handle)
  qed
qed

subsection \<open>Any number of steps\<close>

text \<open>
  The runs in which loop \<open>i\<close> takes at least \<open>n\<close> commands, one at a time, while everything else goes on.
\<close>

inductive takes ::
  "'w reactor \<Rightarrow> 'w os \<Rightarrow> bool \<Rightarrow> ('w, 'k) handler \<Rightarrow> ('w \<Rightarrow> socket \<Rightarrow> bool) \<Rightarrow> nat \<Rightarrow> ('w, 'k) system \<Rightarrow> nat \<Rightarrow> ('w, 'k) system \<Rightarrow> bool"
  for rx :: "'w reactor" and os :: "'w os" and dbg :: bool and H :: "('w, 'k) handler" and held :: "'w \<Rightarrow> socket \<Rightarrow> bool"
    and i :: nat and start :: "('w, 'k) system" where
    takes_none: "takes rx os dbg H held i start 0 start"
  | takes_one: "takes rx os dbg H held i start n s \<Longrightarrow> running s i \<Longrightarrow> next_command (l_handle (loop_of s i)) = (Some cmd, h) \<Longrightarrow>
      run_command os dbg H cmd ((loop_of s i)\<lparr>l_handle := h\<rparr>) = (r, st) \<Longrightarrow> ended r \<Longrightarrow>
      takes rx os dbg H held i start (Suc n) (put_loop i (after os (r, st)) s)"
  | takes_other: "takes rx os dbg H held i start n s \<Longrightarrow> sys_step rx os dbg H held s s' \<Longrightarrow> takes rx os dbg H held i start n s'"

lemma takes_reaches: "takes rx os dbg H held i start n s \<Longrightarrow> sys_reaches rx os dbg H held start s"
proof (induction rule: takes.induct)
  case (takes_one n s cmd h r st)
  from sys_reaches.goes_on [OF takes_one.IH sys_step.command [OF takes_one.hyps(2-5)]] show ?case .
qed (auto intro: sys_reaches.intros)

lemma sys_reaches_trans:
  "sys_reaches rx os dbg H held s s' \<Longrightarrow> sys_reaches rx os dbg H held start s \<Longrightarrow> sys_reaches rx os dbg H held start s'"
  by (induction rule: sys_reaches.induct) (auto intro: sys_reaches.intros)

lemma takes_due:
  assumes "takes rx os dbg H held i start n s" and ok: "books_ok os held obs" and app: "handler_ok H" and d: "due k (l_handle (s_loops start ! i))"
  shows "(running s i \<longrightarrow> n \<le> k \<and> due (k - n) (l_handle (s_loops s ! i))) \<and> n \<le> Suc k"
  using assms(1)
proof induction
  case takes_none
  with d show ?case by simp
next
  case (takes_one n s cmd h r st)
  then have n: "n \<le> k" "due (k - n) (l_handle (s_loops s ! i))" by simp_all
  let ?s = "put_loop i (after os (r, st)) s"
  have "Suc n \<le> k \<and> due (k - Suc n) (l_handle (s_loops ?s ! i))" if "running ?s i"
    using command_step_due [OF app takes_one.hyps(2-5) that n(2)] by simp
  with n(1) show ?case by simp
next
  case (takes_other n s s')
  from takes_other.IH sys_step_due [OF ok app takes_other.hyps(2), of i "k - n"] show ?case by blast
qed

subsection \<open>Properties\<close>

text \<open>
  C5: an engine that is told to stop stops. Let \<open>EngineHandler::shutdown\<close> be called in any reachable state
  of the running program. It returns; the acceptor's waker is set and its next turn ends its thread. Every
  loop that was running ends after at most one command more than were urgent at that moment, however
  callbacks, other threads, the acceptor and the network go on; until then its next command is there and
  does not panic (in a debug build, as long as fewer than \<open>2 ^ 24\<close> connections are open in the loop). When
  all loops have ended, no connection is open any more.
\<close>

theorem engine_stops:
  fixes v :: "('w, 't) engine_env" and H :: "('w, 'k) handler"
  assumes env: "sys_env rx os dbg wire H held obs"
    and run: "engine_run rx os dbg mono_seq available en v = (Ok t, v')"
    and new: "e_loops (v_handle v) = None" "e_acceptor (v_handle v) = None" "global_senders (v_pool v) = None"
    and none: "\<And>sk. \<not> held (v_world v') sk"
    and reach: "sys_reaches rx os dbg H held (system_of t v') s"
    and stop: "engine_shutdown os (engine_view s, s_world s) = (r, (eh, w))"
    and i: "running s i" and later: "takes rx os dbg H held i (put_engine eh w s) n s'"
  shows "r = Ok ()
    \<and> (\<forall>ac wait. s_acceptor (put_engine eh w s) = Some ac \<longrightarrow> awoken (a_waker ac) \<and> acceptor_turn os wait ac = (Ok True, ac))
    \<and> n \<le> Suc (length (h_urgent (l_handle (s_loops s ! i))))
    \<and> (running s' i \<longrightarrow> n \<le> length (h_urgent (l_handle (s_loops s ! i)))
        \<and> (\<exists>cmd h. next_command (l_handle (loop_of s' i)) = (Some cmd, h)
             \<and> (fst (run_command os dbg H cmd ((loop_of s' i)\<lparr>l_handle := h\<rparr>)) = Panic \<longrightarrow>
                  crowded dbg (snd (run_command os dbg H cmd ((loop_of s' i)\<lparr>l_handle := h\<rparr>))))))
    \<and> ((\<forall>j. \<not> running s' j) \<longrightarrow> (\<forall>sk. \<not> held (s_world s') sk))"
proof -
  let ?u = "h_urgent (l_handle (s_loops s ! i))"
  have e: "env_ok dbg os wire H" and ok: "books_ok os held obs" and app: "handler_ok H" using env by (auto simp: sys_env_def env_ok_def)
  from engine_shutdown_view [OF ok stop] obtain hs where r: "r = Ok ()" and hs: "e_loops eh = Some hs" "length hs = length (s_loops s)"
    and each: "\<forall>i < length (s_loops s). handle_ext (l_handle (s_loops s ! i)) (hs ! i)
         \<and> queued (hs ! i) = queued (l_handle (s_loops s ! i))
         \<and> h_urgent (hs ! i) = h_urgent (l_handle (s_loops s ! i)) @ (if h_connected (l_handle (s_loops s ! i)) then [Shutdown] else [])
         \<and> (h_connected (l_handle (s_loops s ! i)) \<longrightarrow> awoken (h_waker (hs ! i)))"
    and acc: "s_acceptor s \<noteq> None \<longrightarrow> (\<exists>a. e_acceptor eh = Some a \<and> \<not> ah_running a \<and> awoken (ah_waker a))" by (elim exE conjE)
  have u: "h_urgent (hs ! i) = ?u @ [Shutdown]" using each i by (simp add: running_def)
  have "s_loops (put_engine eh w s) ! i = (s_loops s ! i)\<lparr>l_handle := hs ! i\<rparr>"
    using i hs by (simp add: put_engine_def running_def)
  with u have "due (length ?u) (l_handle (s_loops (put_engine eh w s) ! i))" unfolding due_def by auto
  note d = takes_due [OF later ok app this]
  have inv: "sys_inv held s'"
    using sys_reaches_inv [OF _ env engine_start_inv [where held = held, OF run new none]]
      sys_reaches_trans [OF takes_reaches [OF later] sys_reaches.goes_on [OF reach sys_step.stop [OF stop]]] by blast
  have next_one: "\<exists>cmd h. next_command (l_handle (loop_of s' i)) = (Some cmd, h)
      \<and> (fst (run_command os dbg H cmd ((loop_of s' i)\<lparr>l_handle := h\<rparr>)) = Panic \<longrightarrow>
          crowded dbg (snd (run_command os dbg H cmd ((loop_of s' i)\<lparr>l_handle := h\<rparr>))))" if run': "running s' i"
  proof -
    obtain x h where nc: "next_command (l_handle (loop_of s' i)) = (x, h)" by fastforce
    from d run' due_next [OF _ nc, of "length ?u - n"] obtain cmd where x: "x = Some cmd" by auto
    have "loop_inv ((loop_of s' i)\<lparr>l_handle := h\<rparr>)"
      using sys_invD(1) [OF inv run'] next_command_fields [OF nc] by (simp add: loop_inv_def)
    from keeps_butD(1) [OF keeps_run_command [OF e] this] nc x show ?thesis by blast
  qed
  have "\<not> held (s_world s') sk" if "\<forall>j. \<not> running s' j" for sk
  proof -
    have "hands (s_loops s' ! j) = {#}" if "j < length (s_loops s')" for j
      using inv that \<open>\<forall>j. \<not> running s' j\<close> by (auto simp: sys_inv_def running_def)
    then have "sk \<notin># all_hands s'" using in_sum [of sk hands "s_loops s'"] by (auto simp: all_hands_def)
    then have "count (all_hands s') sk = 0" by (simp add: count_eq_zero_iff)
    moreover have "count (all_hands s') sk = (if held (s_world s') sk then 1 else 0)" using inv by (simp add: sys_inv_def books_def)
    ultimately show ?thesis by (cases "held (s_world s') sk") simp_all
  qed
  moreover have "awoken (a_waker ac) \<and> acceptor_turn os wait ac = (Ok True, ac)" if "s_acceptor (put_engine eh w s) = Some ac" for ac wait
    using that acc by (cases "s_acceptor s"; cases "e_acceptor eh") (auto simp: put_engine_def acceptor_turn_def)
  ultimately show ?thesis using r d next_one by blast
qed

text \<open>The demonstration goes on: the engine is stopped, and the first loop takes its command.\<close>

definition demo_stop :: "(sim, unit) system \<Rightarrow> (sim, unit) system" where
  "demo_stop s = (case engine_shutdown port_os (engine_view s, s_world s) of (r, (eh, w)) \<Rightarrow> put_engine eh w s)"

definition demo_end :: "(sim, unit) system \<Rightarrow> (sim, unit) system option" where
  "demo_end s =
     (case next_command (l_handle (loop_of s 0)) of
        (Some cmd, h) \<Rightarrow>
          (case run_command port_os False default_handler cmd ((loop_of s 0)\<lparr>l_handle := h\<rparr>) of
             (Err e, st) \<Rightarrow> Some (put_loop 0 (after port_os (Err e :: unit outcome, st)) s)
           | _ \<Rightarrow> None)
      | _ \<Rightarrow> None)"

lemma engine_stops_witness:
  "\<exists>s s'. demo_system = Some s \<and> running s 0 \<and> running s 1 \<and> demo_end (demo_stop s) = Some s' \<and> \<not> running s' 0 \<and> running s' 1
    \<and> port_held (s_world s) (Tcp 5) \<and> \<not> port_held (s_world s') (Tcp 5)"
proof -
  have start: "map_option (\<lambda>(t, v'). sim_held (v_world v')) demo_started = Some {}" by code_simp
  have facts: "map_option (\<lambda>s. (running s 0, running s 1, h_urgent (l_handle (s_loops s ! 0)), port_held (s_world s) (Tcp 5))) demo_system
    = Some (True, True, [], True)" by code_simp
  have ends: "map_option (\<lambda>s'. (running s' 1, port_held (s_world s') (Tcp 5))) (Option.bind demo_system (\<lambda>s. demo_end (demo_stop s)))
    = Some (True, False)" by code_simp
  from facts obtain s where s: "demo_system = Some s" by (cases demo_system) simp_all
  have u: "running s 0" "running s 1" "h_urgent (l_handle (s_loops s ! 0)) = []" "port_held (s_world s) (Tcp 5)"
    using facts unfolding s by simp_all
  obtain s' where s': "demo_end (demo_stop s) = Some s'" using ends unfolding s by (cases "demo_end (demo_stop s)") simp_all
  have v: "running s' 1" "\<not> port_held (s_world s') (Tcp 5)" using ends s' unfolding s by simp_all
  obtain r eh w where stop: "engine_shutdown port_os (engine_view s, s_world s) = (r, (eh, w))" by (metis surj_pair)
  have still: "running (put_engine eh w s) 0"
  proof -
    have "map_option (\<lambda>s. running (demo_stop s) 0) demo_system = Some True" by code_simp
    with stop show ?thesis unfolding s by (simp add: demo_stop_def)
  qed
  obtain t v' where run: "engine_run sim_reactor2 port_os False 0 (Some [0, 1]) port_engine port_env = (Ok t, v')"
    and reach: "sys_reaches sim_reactor2 port_os False default_handler port_held (system_of t v') s"
    using demo_system_reached [OF s, of sim_reactor2 port_held] .
  have new: "e_loops (v_handle port_env) = None" "e_acceptor (v_handle port_env) = None" "global_senders (v_pool port_env) = None"
    by (simp_all add: port_env_def demo_env_def engine_handler_new_def no_pool_def)
  have none: "\<not> port_held (v_world v') sk" for sk using start run by (simp add: demo_started_def port_held_def)
  have "takes sim_reactor2 port_os False default_handler port_held 0 (put_engine eh w s) 1 s'"
  proof -
    from s' stop obtain cmd h e st where c: "next_command (l_handle (loop_of (put_engine eh w s) 0)) = (Some cmd, h)"
      "run_command port_os False default_handler cmd ((loop_of (put_engine eh w s) 0)\<lparr>l_handle := h\<rparr>) = (Err e, st)"
      "s' = put_loop 0 (after port_os (Err e :: unit outcome, st)) (put_engine eh w s)"
      by (auto simp: demo_stop_def demo_end_def split: prod.splits option.splits outcome.splits)
    from takes_one [OF takes_none still c(1,2)] c(3) show ?thesis by simp
  qed
  from engine_stops [OF port_env_ok run new none reach stop u(1) this] u(3) have "\<not> running s' 0" by simp
  with s s' u v show ?thesis by blast
qed

end
