(* ===== verification/SystemStreams.thy ===== *)
theory SystemStreams
  imports System EchoRuns JsonRuns
begin

text \<open>
  Stream servers in the running program. A connection belongs to one loop (theory \<open>System\<close>); what its loop
  does keeps it good (theory \<open>LoopStreams\<close>), and what everybody else does leaves it alone, because nobody
  else owns its socket. So the promise of one callback becomes a promise of the whole program.
\<close>

subsection \<open>A socket and its loop\<close>

lemma offers_count: "count (queued h) sk = offers sk h"
proof -
  have c: "count (cmd_sock cmd) sk = (if registers sk cmd then 1 else 0)" for cmd by (cases cmd) auto
  have "count (sum_list (map cmd_sock cmds)) sk = length (filter (registers sk) cmds)" for cmds by (induction cmds) (simp_all add: c)
  then show ?thesis by (simp add: queued_def offers_def)
qed

lemma owners_in: "sk \<in># slab_socks (l_connections st) \<longleftrightarrow> owners sk st \<noteq> {}"
proof
  assume "sk \<in># slab_socks (l_connections st)"
  then obtain k where k: "k < length (l_connections st)" "sk \<in># slot_sock (l_connections st ! k)"
    unfolding slab_socks_def in_sum by blast
  then obtain c where "l_connections st ! k = Some c" "c_socket c = Some sk" by (cases "l_connections st ! k") (auto split: option.splits)
  with k(1) show "owners sk st \<noteq> {}" by (auto simp: owners_def slab_get_def)
next
  assume "owners sk st \<noteq> {}"
  then show "sk \<in># slab_socks (l_connections st)" by (auto simp: owners_def intro: in_slab)
qed

lemma in_hands: "sk \<in># hands st \<longleftrightarrow> owners sk st \<noteq> {} \<or> 0 < offers sk (l_handle st)"
  using owners_in [of sk st] offers_count [of "l_handle st" sk] by (auto simp: hands_def simp flip: count_greater_zero_iff)

lemma tracked_absent:
  assumes "sk \<notin># hands st"
  shows "tracked gh good sk X st \<longleftrightarrow> no_async (l_handle st)"
proof -
  have o: "owners sk st = {}" "offers sk (l_handle st) = 0" using assms in_hands [of sk st] by auto
  then have "c_socket c \<noteq> Some sk" if "slab_get (l_connections st) k = Some c" for k c using that by (auto simp: owners_def)
  with o show ?thesis by (auto simp: tracked_def)
qed

lemma tracked_offered:
  assumes "owners sk st = {}" and "offers sk (l_handle st) \<le> 1" and "view gh (l_world st) sk = ([], [], True)" and "no_async (l_handle st)"
  shows "tracked gh good sk X st"
proof -
  from assms(1) have "c_socket c \<noteq> Some sk" if "slab_get (l_connections st) k = Some c" for k c using that by (auto simp: owners_def)
  with assms show ?thesis by (auto simp: tracked_def)
qed

text \<open>Handles may change as long as no registration of the socket comes or goes.\<close>

lemma tracked_handle:
  assumes t: "tracked gh good sk X st" and c: "l_connections st' = l_connections st" and q: "no_async (l_handle st')"
    and n: "offers sk (l_handle st') = offers sk (l_handle st)"
    and v: "sk \<in># hands st \<Longrightarrow> view gh (l_world st') sk = view gh (l_world st) sk"
  shows "tracked gh good sk X st'"
proof -
  have o: "owners sk st' = owners sk st" using c by (simp add: owners_def)
  show ?thesis
  proof (cases "sk \<in># hands st")
    case True
    note v = v [OF True]
    then have "g_held gh (l_world st') sk = g_held gh (l_world st) sk" by (simp add: view_def)
    with t q n v show ?thesis unfolding tracked_def o c n good_at_view [OF v] by simp
  next
    case False
    then have "sk \<notin># hands st'" using o n in_hands by metis
    with q show ?thesis by (simp add: tracked_absent)
  qed
qed

subsection \<open>All loops\<close>

definition followed :: "'w ghost \<Rightarrow> 'k goodness \<Rightarrow> socket \<Rightarrow> ('w, 'k) system \<Rightarrow> bool" where
  "followed gh good sk s \<longleftrightarrow> (\<forall>i. running s i \<longrightarrow> tracked gh good sk {} (loop_of s i))"

definition no_asyncs :: "('w, 'k) system \<Rightarrow> bool" where
  "no_asyncs s \<longleftrightarrow> (\<forall>i. running s i \<longrightarrow> no_async (l_handle (s_loops s ! i)))"

lemma in_others:
  assumes "i \<noteq> j" and "i < length (s_loops s)" and "sk \<in># hands (s_loops s ! i)"
  shows "sk \<in># others s j"
proof (cases "i < j")
  case True
  with assms(2) have "take j (s_loops s) ! i = s_loops s ! i" "i < length (take j (s_loops s))" by simp_all
  with assms(3) have "sk \<in># sum_list (map hands (take j (s_loops s)))" unfolding in_sum by metis
  then show ?thesis by (simp add: others_def)
next
  case False
  with assms(1,2) have "drop (Suc j) (s_loops s) ! (i - Suc j) = s_loops s ! i" "i - Suc j < length (drop (Suc j) (s_loops s))"
    by simp_all
  with assms(3) have "sk \<in># sum_list (map hands (drop (Suc j) (s_loops s)))" unfolding in_sum by metis
  then show ?thesis by (simp add: others_def)
qed

text \<open>A step of loop \<open>j\<close>: its own lemma says what becomes of loop \<open>j\<close>, the others see nothing.\<close>

lemma loop_step_followed:
  assumes t: "followed gh good sk s" and j: "running s j" and e: "ended r"
    and own: "\<And>x. r = Ok x \<Longrightarrow> tracked gh good sk {} st"
    and frame: "\<forall>sk \<in># others s j. view gh (s_world (put_loop j (after os (r, st)) s)) sk = view gh (s_world s) sk"
  shows "followed gh good sk (put_loop j (after os (r, st)) s)"
  unfolding followed_def
proof (intro allI impI)
  let ?s = "put_loop j (after os (r, st)) s"
  fix i assume run: "running ?s i"
  show "tracked gh good sk {} (loop_of ?s i)"
  proof (cases "i = j")
    case True
    with run have "h_connected (l_handle (after os (r, st)))" by (auto simp: running_def put_loop_def)
    then obtain x where r: "r = Ok x" using e by (cases r) (auto simp: after_def end_loop_def)
    have "loop_of ?s i = st" using r True j by (simp add: loop_of_def put_loop_def after_def running_def)
    with own [OF r] show ?thesis by simp
  next
    case False
    with run have i: "running s i" and same: "s_loops ?s ! i = s_loops s ! i" by (simp_all add: running_def put_loop_def)
    from t i have ti: "tracked gh good sk {} (loop_of s i)" by (simp add: followed_def)
    show ?thesis
    proof (rule tracked_handle [OF ti])
      assume "sk \<in># hands (loop_of s i)"
      with in_others [OF False, of s sk] i have "sk \<in># others s j" by (simp add: running_def)
      with frame show "view gh (l_world (loop_of ?s i)) sk = view gh (l_world (loop_of s i)) sk" by simp
    next
      show "no_async (l_handle (loop_of ?s i))" using ti same by (simp add: tracked_def)
    qed (simp_all add: same loop_of_def)
  qed
qed

text \<open>A step on the handles only.\<close>

lemma handle_step_followed:
  assumes t: "followed gh good sk s" and q: "no_asyncs s'"
    and each: "\<And>i. running s' i \<Longrightarrow> running s i \<and> l_connections (s_loops s' ! i) = l_connections (s_loops s ! i)
      \<and> offers sk (l_handle (s_loops s' ! i)) = offers sk (l_handle (s_loops s ! i))"
    and v: "sk \<in># all_hands s \<Longrightarrow> view gh (s_world s') sk = view gh (s_world s) sk"
  shows "followed gh good sk s'"
  unfolding followed_def
proof (intro allI impI)
  fix i assume run: "running s' i"
  note i = each [OF run]
  from t i have "tracked gh good sk {} (loop_of s i)" by (simp add: followed_def)
  then show "tracked gh good sk {} (loop_of s' i)"
  proof (rule tracked_handle)
    assume "sk \<in># hands (loop_of s i)"
    then have "sk \<in># all_hands s" using i by (auto simp: all_hands_def in_sum running_def)
    then show "view gh (l_world (loop_of s' i)) sk = view gh (l_world (loop_of s i)) sk" by (simp add: v)
  qed (use i q run in \<open>simp_all add: no_asyncs_def\<close>)
qed

subsection \<open>Steps\<close>

text \<open>What \<open>streams_ok\<close> says of sockets is what the books need, once a dropped stream is closed.\<close>

definition drop_closes :: "'w os \<Rightarrow> ('w \<Rightarrow> socket \<Rightarrow> bool) \<Rightarrow> bool" where
  "drop_closes os held \<longleftrightarrow> (\<forall>w sk. \<not> held (drop_stream os w sk) sk)"

lemma streams_books:
  assumes ok: "streams_ok os gh" and drop: "drop_closes os (g_held gh)"
  shows "books_ok os (g_held gh) (view gh)"
proof -
  note iso = streams_okD(3) [OF ok]
  have held: "g_held gh w' sk = g_held gh w sk" if "view gh w' sk = view gh w sk" for w w' sk using that by (simp add: view_def)
  have all: "g_held gh w' = g_held gh w" if "view gh w' = view gh w" for w w'
  proof
    fix sk show "g_held gh w' sk = g_held gh w sk" by (rule held) (simp add: that)
  qed
  have acc: "case r of Inl e \<Rightarrow> g_held gh w' = g_held gh w \<and> view gh w' = view gh w
      | Inr (sk, peer) \<Rightarrow> \<not> g_held gh w sk \<and> g_held gh w' = (g_held gh w)(sk := True) \<and> (\<forall>sk'. sk' \<noteq> sk \<longrightarrow> view gh w' sk' = view gh w sk')"
    if "listener_accept os w l = (r, w')" for w l r w'
  proof -
    have a: "case r of Inl e \<Rightarrow> view gh w' = view gh w
         | Inr (sk, peer) \<Rightarrow> \<not> g_held gh w sk \<and> view gh w' = (view gh w)(sk := ([], [], True))"
      using streams_okD(6) [OF ok] that unfolding accepts_fresh_def by blast
    show ?thesis
    proof (cases r)
      case (Inl e)
      with a all [of w' w] show ?thesis by simp
    next
      case (Inr p)
      obtain sk peer where p: "p = (sk, peer)" by fastforce
      with a Inr have v: "\<not> g_held gh w sk" "view gh w' = (view gh w)(sk := ([], [], True))" by simp_all
      have "g_held gh w' = (g_held gh w)(sk := True)"
      proof
        fix sk' show "g_held gh w' sk' = ((g_held gh w)(sk := True)) sk'"
          using fun_cong [OF v(2), of sk'] by (simp add: view_def split: if_splits)
      qed
      moreover have "\<forall>sk'. sk' \<noteq> sk \<longrightarrow> view gh w' sk' = view gh w sk'" unfolding v(2) by simp
      ultimately show ?thesis using v(1) unfolding Inr p by simp
    qed
  qed
  have one: "g_held gh w' = (g_held gh w)(sk := b)" if "\<And>sk'. sk' \<noteq> sk \<Longrightarrow> view gh w' sk' = view gh w sk'" "g_held gh w' sk = b" for w w' sk b
  proof
    fix sk' show "g_held gh w' sk' = ((g_held gh w)(sk := b)) sk'" using held [OF that(1), of sk'] that(2) by simp
  qed
  have own: "g_held gh (snd (socket_read os w sk len)) sk = g_held gh w sk" for w sk len
    using ok by (simp add: streams_ok_def)
  have read: "g_held gh (snd (socket_read os w sk len)) = g_held gh w" for w sk len
  proof
    fix sk' show "g_held gh (snd (socket_read os w sk len)) sk' = g_held gh w sk'"
    proof (cases "sk' = sk")
      case False
      show ?thesis by (rule held, rule isolatedD(1) [OF iso False prod.collapse [symmetric]])
    qed (simp add: own)
  qed
  have drop: "g_held gh (drop_stream os w sk) = (g_held gh w)(sk := False)" for w sk
    by (rule one, rule isolatedD(5) [OF iso], assumption) (use drop in \<open>simp add: drop_closes_def\<close>)
  have writes: "g_held gh (snd (socket_write os w sk buf)) = g_held gh w" "g_held gh (snd (socket_write_vectored os w sk bufs)) = g_held gh w"
    "g_held gh (snd (socket_flush os w sk)) = g_held gh w" for w sk buf bufs
    using streams_okD(5) [OF ok] ok by (simp_all add: writes_keep_def streams_ok_def)
  have rest: "g_held gh (snd (set_nodelay os w sk b)) = g_held gh w" "g_held gh (snd (registry_register os w src token i)) = g_held gh w"
    "g_held gh (snd (registry_reregister os w src token i)) = g_held gh w" "g_held gh (snd (registry_deregister os w src)) = g_held gh w"
    "g_held gh (snd (waker_wake os w n)) = g_held gh w" for w sk b src token i n
    by (rule all, rule isolatedD(6-10) [OF iso])+
  show ?thesis
    unfolding books_ok_def by (intro conjI allI impI; (rule acc, assumption | simp add: drop read writes rest iso))
qed

text \<open>A socket that nobody owns is handed to one loop.\<close>

lemma hand_over_followed:
  assumes t: "followed gh good sk s" and q: "no_asyncs s'" and i: "running s i" and absent: "sk1 \<notin># all_hands s"
    and lp: "s_loops s' = (s_loops s)[i := (s_loops s ! i)\<lparr>l_handle := h2\<rparr>]" and v: "view gh (s_world s') = (view gh (s_world s))(sk1 := ([], [], True))"
    and con: "h_connected h2" and off: "offers sk h2 = offers sk (l_handle (s_loops s ! i)) + (if sk1 = sk then 1 else 0)"
  shows "followed gh good sk s'"
proof -
  have run: "running s j" if "running s' j" for j using that i lp by (cases "j = i") (auto simp: running_def)
  show ?thesis
  proof (cases "sk1 = sk")
    case False
    have "l_connections (s_loops s' ! j) = l_connections (s_loops s ! j)
        \<and> offers sk (l_handle (s_loops s' ! j)) = offers sk (l_handle (s_loops s ! j))" for j
      using lp i off False by (cases "j = i") (simp_all add: running_def)
    with run v False show ?thesis by (intro handle_step_followed [OF t q]) simp_all
  next
    case True
    have none: "sk \<notin># hands (s_loops s ! j)" if "j < length (s_loops s)" for j
      using absent that True by (auto simp: all_hands_def in_sum)
    show ?thesis
      unfolding followed_def
    proof (intro allI impI)
      fix j assume rj: "running s' j"
      with q have qj: "no_async (l_handle (s_loops s' ! j))" by (simp add: no_asyncs_def)
      have j: "j < length (s_loops s)" using run [OF rj] by (simp add: running_def)
      show "tracked gh good sk {} (loop_of s' j)"
      proof (cases "j = i")
        case False
        then have "sk \<notin># hands (loop_of s' j)" using none [OF j] lp by simp
        then show ?thesis using qj by (simp add: tracked_absent)
      next
        case eq: True
        have "owners sk (s_loops s ! i) = {}" "offers sk (l_handle (s_loops s ! i)) = 0"
          using none [of i] eq j in_hands [of sk "s_loops s ! i"] by auto
        with qj off True eq j lp v show ?thesis by (intro tracked_offered) (simp_all add: owners_def)
      qed
    qed
  qed
qed

text \<open>A connection that the acceptor takes is new to everybody, and goes to one loop.\<close>

lemma accept_step_followed:
  assumes ok: "streams_ok os gh" and inv: "sys_inv (g_held gh) s" and t: "followed gh good sk s"
    and q: "no_asyncs (put_acceptor ac' s)" and run: "accept_one os l la (acceptor_of s ac) = (b, ac')"
  shows "followed gh good sk (put_acceptor ac' s)"
proof -
  obtain x w1 where acc: "listener_accept os (s_world s) l = (x, w1)" by fastforce
  note out = accept_one_outcomes [OF run acc]
  have fresh: "case x of Inl e \<Rightarrow> view gh w1 = view gh (s_world s)
       | Inr (sk, peer) \<Rightarrow> \<not> g_held gh (s_world s) sk \<and> view gh w1 = (view gh (s_world s))(sk := ([], [], True))"
    using streams_okD(6) [OF ok] acc unfolding accepts_fresh_def by blast
  show ?thesis
  proof (cases x)
    case (Inl e)
    with out have put: "put_acceptor ac' s = s\<lparr>s_acceptor := Some ac', s_world := w1\<rparr>" by simp
    show ?thesis by (rule handle_step_followed [OF t q]) (use put fresh Inl in \<open>simp_all add: running_def\<close>)
  next
    case (Inr p)
    obtain sk1 peer where p: "p = (sk1, peer)" by fastforce
    from fresh Inr p have new: "\<not> g_held gh (s_world s) sk1" "view gh w1 = (view gh (s_world s))(sk1 := ([], [], True))" by simp_all
    have "count (all_hands s) sk1 = 0" using inv new(1) by (simp add: sys_inv_def books_def)
    then have absent: "sk1 \<notin># all_hands s" by (simp add: count_eq_zero_iff)
    from out [unfolded Inr p] show ?thesis
    proof (simp only: sum.case prod.case, elim disjE exE conjE)
      assume put: "put_acceptor ac' s = s\<lparr>s_acceptor := Some ac', s_world := drop_stream os w1 sk1\<rparr>"
      have "view gh (drop_stream os w1 sk1) sk = view gh (s_world s) sk" if "sk \<in># all_hands s"
      proof -
        have "sk \<noteq> sk1" using that absent by auto
        with isolatedD(5) [OF streams_okD(3) [OF ok] this, of w1] new(2) show ?thesis by simp
      qed
      then show ?thesis by (intro handle_step_followed [OF t q]) (use put in \<open>simp_all add: running_def\<close>)
    next
      fix i h1 r h2 w2
      assume i: "running s i" and h1: "h1 = (l_handle (s_loops s ! i))\<lparr>h_urgent := h_urgent (l_handle (s_loops s ! i)) @ [Register sk1 la peer]\<rparr>"
        and wk: "wake_handle os (h1, w1) = (r, (h2, w2))" and put: "put_acceptor ac' s = (put_handle i (h2, w2) s)\<lparr>s_acceptor := Some ac'\<rparr>"
      note v = wake_handle_view [OF ok wk]
      have "h_connected h2 = h_connected h1" using wk by (auto simp: wake_handle_def split: prod.splits)
      then show ?thesis
        using put v new(2) i h1
        by (intro hand_over_followed [OF t q i absent, where ?h2.0 = h2]) (simp_all add: put_handle_def running_def offers_def pending_def)
    qed
  qed
qed

context stream_server
begin

lemma tick_due_tracked:
  assumes clk: "\<And>w. view gh (snd (clock_now rx w)) = view gh w"
  shows "onward (tracked gh good sk {}) (tick_due rx os (server os) next_tick) (\<lambda>_. tracked gh good sk {})"
proof -
  have c: "onward (tracked gh good sk {}) (clock rx) (\<lambda>_. tracked gh good sk {})"
  proof (rule onwardI)
    fix st x st' assume t: "tracked gh good sk {} st" and run: "clock rx st = (Ok x, st')"
    with clk [of "l_world st"] show "tracked gh good sk {} st'"
      by (cases "clock_now rx (l_world st)") (auto simp: clock_def intro: tracked_world)
  qed
  have tick: "onward (tracked gh good sk {}) (call_tick (server os)) (\<lambda>r st. r = (0, ActNone) \<and> tracked gh good sk {} st)"
    by (rule onwardI) (auto simp: call_tick_def tick_quiet)
  show ?thesis
    unfolding tick_due_def
    by (auto intro!: onward_ret onward_bind [OF c] onward_bind [OF tick] split: option.split)
       (auto simp: onward_def schedule_def ret_def clk)
qed

lemma server_app_ok:
  assumes ok: "books_ok os held v"
  shows "app_ok held v (server os)"
proof -
  have "no_sockets held v (on_traffic (server os))"
    unfolding no_sockets_def
  proof (intro allI impI)
    fix c h w a c' h' w'
    assume t: "on_traffic (server os) c (h, w) = (a, c', h', w')" and "c_socket c \<noteq> None"
    then obtain sk where sk: "c_socket c = Some sk" by blast
    from traffic_sends [OF sk t] have s: "h' = h" "c_socket c' = Some sk" "sends os sk w w'" by simp_all
    show "c_socket c' = c_socket c \<and> queued h' = queued h \<and> h_connected h' = h_connected h \<and> held w' = held w
        \<and> (\<forall>sk. c_socket c \<noteq> Some sk \<longrightarrow> v w' sk = v w sk)"
      using s sk sends_held [OF ok s(3)] sends_others [OF books_okD(13) [OF ok] _ s(3)] by auto
  qed
  moreover have "no_sockets held v (on_open (server os))" "no_sockets held v (on_close (server os))"
    by (auto simp: no_sockets_def open_quiet close_quiet opened_same)
  ultimately show ?thesis by (auto simp: app_ok_def tick_quiet)
qed

lemma step_followed:
  assumes ok: "streams_ok os gh" and soft: "soft_writes os sk"
    and env: "sys_env rx os dbg wire (server os) (g_held gh) (view gh)" and inv: "sys_inv (g_held gh) s"
    and step: "sys_step rx os dbg (server os) (view gh) s s'" and q: "no_asyncs s'" and t: "followed gh good sk s"
  shows "followed gh good sk s'"
  using step
proof cases
  {
    case (command i cmd h r st)
    note out = command_step_inv [OF env inv command(2-5), THEN conjunct2]
    have ti: "tracked gh good sk {} (loop_of s i)" using t command(2) by (simp add: followed_def)
    note taken = take_command_tracked [OF ti command(3)]
    have "tracked gh good sk {} st" if r: "r = Ok x" for x
      by (rule onwardD [OF run_command_tracked [OF ok soft] _ command(4) [unfolded r]]) (use taken in simp_all)
    then show ?thesis unfolding command(1) by (rule loop_step_followed [OF t command(2,5) _ out])
  next
    case (event i ev r st)
    note out = event_step_inv [OF env inv event(2-4), THEN conjunct2]
    have ti: "tracked gh good sk {} (loop_of s i)" using t event(2) by (simp add: followed_def)
    have "tracked gh good sk {} st" if r: "r = Ok x" for x
      by (rule onwardD [OF dispatch_tracked [OF ok soft] ti event(3) [unfolded r]])
    then show ?thesis unfolding event(1) by (rule loop_step_followed [OF t event(2,4) _ out])
  next
    case (tick i next_tick r st)
    note out = tick_step_inv [OF env inv tick(2-4), THEN conjunct2]
    have ti: "tracked gh good sk {} (loop_of s i)" using t tick(2) by (simp add: followed_def)
    have clk: "view gh (snd (clock_now rx w)) = view gh w" for w using env by (simp add: sys_env_def)
    have "tracked gh good sk {} st" if r: "r = Ok x" for x
      by (rule onwardD [OF tick_due_tracked [OF clk] ti tick(3) [unfolded r]])
    then show ?thesis unfolding tick(1) by (rule loop_step_followed [OF t tick(2,4) _ out])
  next
    case (accept ac l la b ac')
    show ?thesis unfolding accept(1) by (rule accept_step_followed [OF ok inv t q [unfolded accept(1)] accept(5)])
  next
    case (send i cmd p r hw)
    obtain h w where hw: "hw = (h, w)" by fastforce
    have bk: "books_ok os (g_held gh) (view gh)" using env by (simp add: sys_env_def)
    note tr = trigger_held [OF bk send(4) [unfolded hw]]
    have "offers sk h = offers sk (l_handle (s_loops s ! i))" using tr send(3) by (simp flip: offers_count)
    then show ?thesis
      using send(2) tr
      by (intro handle_step_followed [OF t q]) (auto simp: send(1) hw put_handle_def running_def nth_list_update split: if_splits)
  next
    case (stop r eh w)
    have bk: "books_ok os (g_held gh) (view gh)" using env by (simp add: sys_env_def)
    from engine_shutdown_view [OF bk stop(2)] obtain hs where
      hs: "e_loops eh = Some hs" "length hs = length (s_loops s)" "view gh w = view gh (s_world s)"
      and each: "\<And>i. i < length (s_loops s) \<Longrightarrow> handle_ext (l_handle (s_loops s ! i)) (hs ! i) \<and> queued (hs ! i) = queued (l_handle (s_loops s ! i))"
      by blast
    have "offers sk (hs ! i) = offers sk (l_handle (s_loops s ! i))" if "i < length (s_loops s)" for i
      using each [OF that] by (simp flip: offers_count)
    with each show ?thesis
      using hs by (intro handle_step_followed [OF t q]) (auto simp: stop(1) put_engine_def running_def handle_ext_def)
  next
    case (network w)
    with t q show ?thesis by (intro handle_step_followed [OF t q]) (simp_all add: running_def)
  }
qed

end

subsection \<open>Runs of the whole program\<close>

text \<open>Everything interleaves, but nobody sends an \<open>AsyncWrite\<close>: what is answered comes from the callbacks alone.\<close>

inductive calm_reaches ::
  "'w reactor \<Rightarrow> 'w os \<Rightarrow> bool \<Rightarrow> ('w, 'k) handler \<Rightarrow> ('w \<Rightarrow> 'x) \<Rightarrow> ('w, 'k) system \<Rightarrow> ('w, 'k) system \<Rightarrow> bool"
  for rx :: "'w reactor" and os :: "'w os" and dbg :: bool and H :: "('w, 'k) handler" and seen :: "'w \<Rightarrow> 'x"
    and start :: "('w, 'k) system" where
    calm_start: "calm_reaches rx os dbg H seen start start"
  | calm_step: "calm_reaches rx os dbg H seen start s \<Longrightarrow> sys_step rx os dbg H seen s s' \<Longrightarrow> no_asyncs s' \<Longrightarrow>
      calm_reaches rx os dbg H seen start s'"

text \<open>What a stream server relies on.\<close>

definition streams_env :: "'w reactor \<Rightarrow> 'w os \<Rightarrow> bool \<Rightarrow> 'w ghost \<Rightarrow> bool" where
  "streams_env rx os dbg gh \<longleftrightarrow>
     streams_ok os gh \<and> drop_closes os (g_held gh) \<and> read_ok os \<and> vacant_ok dbg os \<and> reserve_ok os
     \<and> (\<forall>w. view gh (snd (clock_now rx w)) = view gh w)"

lemma view_held: "view gh w' = view gh w \<Longrightarrow> g_held gh w' = g_held gh w"
  by (simp add: view_def fun_eq_iff)

context stream_server
begin

lemma server_sys_env:
  assumes env: "streams_env rx os dbg gh" and H: "handler_ok (server os)"
  shows "sys_env rx os dbg (g_wire gh) (server os) (g_held gh) (view gh)"
proof -
  have ok: "streams_ok os gh" "drop_closes os (g_held gh)" using env by (simp_all add: streams_env_def)
  note bk = streams_books [OF ok]
  show ?thesis
    using env H streams_okD(1) [OF ok(1)] bk server_app_ok [OF bk]
    by (auto simp: sys_env_def env_ok_def streams_env_def intro: view_held)
qed

lemma calm_good:
  fixes v :: "('w, 't) engine_env"
  assumes env: "streams_env rx os dbg gh" and soft: "soft_writes os sk" and H: "handler_ok (server os)"
    and run: "engine_run rx os dbg mono_seq available en v = (Ok t, v')"
    and new: "e_loops (v_handle v) = None" "e_acceptor (v_handle v) = None" "global_senders (v_pool v) = None"
    and none: "\<And>sk. \<not> g_held gh (v_world v') sk"
    and reach: "calm_reaches rx os dbg (server os) (view gh) (system_of t v') s"
    and c: "running s i" "slab_get (l_connections (s_loops s ! i)) key = Some c" "c_socket c = Some sk"
  shows "good c (g_got gh (s_world s) sk) (outstream (g_wire gh) sk (c, s_world s))"
proof -
  have ok: "streams_ok os gh" using env by (simp add: streams_env_def)
  note se = server_sys_env [OF env H]
  have "sys_inv (g_held gh) s \<and> followed gh good sk s"
    using reach
  proof induction
    case calm_start
    have "tracked gh good sk {} (loop_of (system_of t v') j)" if "j < length (s_loops (system_of t v'))" for j
      using engine_start_fresh [OF run new] that
      by (auto simp: fresh_loop_def tracked_def owners_def offers_def no_async_def slab_get_def)
    moreover have "sys_inv (g_held gh) (system_of t v')" by (rule engine_start_inv [where held = "g_held gh", OF run new none])
    ultimately show ?case by (simp add: followed_def running_def)
  next
    case (calm_step s s')
    then have inv: "sys_inv (g_held gh) s" and f: "followed gh good sk s" by simp_all
    from sys_step_inv [OF se calm_step(2) inv view_held] step_followed [OF ok soft se inv calm_step(2,3) f] show ?case by simp
  qed
  then have "tracked gh good sk {} (loop_of s i)" using c(1) by (simp add: followed_def)
  with c(2,3) show ?thesis by (simp add: tracked_def good_at_def)
qed

end

subsection \<open>Properties\<close>

text \<open>
  C4: an echo server answers every byte, in order, on the right connection, in the whole program. Start any
  engine, in either balancing mode, with the handler of either echo example, and let its loops, its
  acceptor, other threads and the network interleave in any way: connections come (accepted by a loop
  or by the acceptor), go, and are recycled; events are true or spurious; bytes arrive in any pieces;
  other threads send any commands but \<open>AsyncWrite\<close>, and may stop the engine. Then at any moment, for every
  open connection of a running loop whose peer is still there: nothing is left unread, and the bytes accepted for the peer
  followed by the bytes queued for it are exactly the bytes received from it, so with an empty queue
  the peer has been sent all of them back.
\<close>

theorem echo_whole_program:
  fixes v :: "('w, 't) engine_env" and H :: "('w, 'k) handler"
  assumes H: "H = echo_handler os \<or> H = unix_echo_handler os"
    and env: "streams_env rx os dbg gh" and soft: "soft_writes os sk"
    and run: "engine_run rx os dbg mono_seq available en v = (Ok t, v')"
    and new: "e_loops (v_handle v) = None" "e_acceptor (v_handle v) = None" "global_senders (v_pool v) = None"
    and none: "\<And>sk. \<not> g_held gh (v_world v') sk"
    and reach: "calm_reaches rx os dbg H (view gh) (system_of t v') s"
    and c: "running s i" "slab_get (l_connections (s_loops s ! i)) key = Some c" "c_socket c = Some sk"
  shows "avail c = []
    \<and> g_wire gh (s_world s) sk @ concat (opt_list (c_out_buffer c)) = concat (g_got gh (s_world s) sk)
    \<and> (opt_list (c_out_buffer c) = [] \<longrightarrow> g_wire gh (s_world s) sk = concat (g_got gh (s_world s) sk))"
proof -
  have "echo_good c (g_got gh (s_world s) sk) (outstream (g_wire gh) sk (c, s_world s))"
    using H
  proof
    assume "H = echo_handler os"
    with reach have r: "calm_reaches rx os dbg (default_handler\<lparr>on_traffic := as_callback (echo_traffic os)\<rparr>) (view gh) (system_of t v') s"
      by (simp add: echo_handler_def)
    show ?thesis by (rule echo.run.calm_good [OF env soft echo.handler_ok_reply run new none r c])
  next
    assume "H = unix_echo_handler os"
    with reach have r: "calm_reaches rx os dbg (default_handler\<lparr>on_traffic := as_callback (unix_echo_traffic os)\<rparr>) (view gh) (system_of t v') s"
      by (simp add: unix_echo_handler_def)
    show ?thesis by (rule unix_echo.run.calm_good [OF env soft unix_echo.handler_ok_reply run new none r c])
  qed
  then show ?thesis by (auto simp: echo_good_def outstream_def)
qed

text \<open>
  An engine with two loops starts; a connection is accepted and registered by the first; four bytes arrive in
  two pieces, and the loop is told; the peer takes a byte at once.
\<close>

definition demo_arrives :: "bytes list \<Rightarrow> (sim, unit) system \<Rightarrow> (sim, unit) system" where
  "demo_arrives reads s = s\<lparr>s_world := (s_world s)\<lparr>sim_reads := map Inr reads\<rparr>\<rparr>"

definition demo_event :: "(sim, unit) handler \<Rightarrow> (sim, unit) system \<Rightarrow> (sim, unit) system option" where
  "demo_event H s =
     (case dispatch_event port_os False H (port_event 0) (loop_of s 0) of
        (Ok x, st) \<Rightarrow> if running s 0 then Some (put_loop 0 (after port_os (Ok x, st)) s) else None
      | _ \<Rightarrow> None)"

definition calm :: "('w, 'k) system \<Rightarrow> bool" where
  "calm s \<longleftrightarrow> list_all (\<lambda>st. list_all (\<lambda>cmd. \<not> is_async cmd) (pending (l_handle st))) (s_loops s)"

fun calm_steps :: "(('w, 'k) system \<Rightarrow> ('w, 'k) system option) list \<Rightarrow> ('w, 'k) system \<Rightarrow> ('w, 'k) system option" where
  "calm_steps [] s = Some s"
| "calm_steps (f # fs) s = (case f s of None \<Rightarrow> None | Some s' \<Rightarrow> if calm s' then calm_steps fs s' else None)"

definition demo_run :: "(sim, unit) handler \<Rightarrow> bytes list \<Rightarrow> (sim, unit) system option" where
  "demo_run H reads = (case demo_started of None \<Rightarrow> None
     | Some (t, v') \<Rightarrow> calm_steps [demo_accept, demo_command H, \<lambda>s. Some (demo_arrives reads s), demo_event H] (system_of t v'))"

lemma calm_no_asyncs: "calm s \<Longrightarrow> no_asyncs s"
  by (auto simp: calm_def no_asyncs_def no_async_def list_all_iff running_def)

lemma calm_steps_reach:
  assumes "calm_steps fs s = Some s'" and "calm_reaches rx os dbg H seen start s"
    and "\<forall>f \<in> set fs. \<forall>s s'. f s = Some s' \<longrightarrow> sys_step rx os dbg H seen s s'"
  shows "calm_reaches rx os dbg H seen start s'"
  using assms
proof (induction fs arbitrary: s)
  case (Cons f fs)
  then obtain s1 where s1: "f s = Some s1" "calm s1" "calm_steps fs s1 = Some s'" by (auto split: option.splits if_splits)
  with Cons.prems(3) have "sys_step rx os dbg H seen s s1" by simp
  from calm_step [OF Cons.prems(2) this calm_no_asyncs [OF s1(2)]] have "calm_reaches rx os dbg H seen start s1" .
  from Cons.IH [OF s1(3) this] Cons.prems(3) show ?case by simp
qed simp

lemma demo_run_reached:
  assumes "demo_run H reads = Some s"
  obtains t v' where "engine_run sim_reactor2 port_os False 0 (Some [0, 1]) port_engine port_env = (Ok t, v')"
    and "calm_reaches rx port_os False H (view port_ghost) (system_of t v') s" and "demo_started = Some (t, v')"
proof -
  from assms obtain t v' where d: "demo_started = Some (t, v')"
    and s: "calm_steps [demo_accept, demo_command H, \<lambda>s. Some (demo_arrives reads s), demo_event H] (system_of t v') = Some s"
    by (auto simp: demo_run_def simp del: calm_steps.simps split: option.splits)
  have "sys_step rx port_os False H (view port_ghost) s (demo_arrives reads s)" for s
    unfolding demo_arrives_def by (rule network) (simp add: view_def port_ghost_def fun_eq_iff)
  moreover have "demo_event H s = Some s' \<Longrightarrow> sys_step rx port_os False H (view port_ghost) s s'" for s s'
    by (auto simp: demo_event_def split: outcome.splits prod.splits if_splits intro!: event)
  ultimately have "calm_reaches rx port_os False H (view port_ghost) (system_of t v') s"
    by (intro calm_steps_reach [OF s calm_start]) (auto intro: demo_accept_step demo_command_step)
  moreover have "engine_run sim_reactor2 port_os False 0 (Some [0, 1]) port_engine port_env = (Ok t, v')"
    using d by (auto simp: demo_started_def split: outcome.splits prod.splits)
  ultimately show thesis using d that by blast
qed

lemma port_streams_env: "streams_env sim_reactor2 port_os False port_ghost"
proof -
  have "env_ok False port_os sim_sent (default_handler :: (sim, unit) handler)"
    using port_env_ok [where 'a = unit] by (simp add: sys_env_def)
  then show ?thesis
    using port_streams(1) by (simp add: streams_env_def env_ok_def drop_closes_def port_calls port_ghost_def sim_reactor2_def)
qed

lemma port_new: "e_loops (v_handle port_env) = None" "e_acceptor (v_handle port_env) = None" "global_senders (v_pool port_env) = None"
  by (simp_all add: port_env_def demo_env_def engine_handler_new_def no_pool_def)

lemma port_none:
  assumes "demo_started = Some (t, v')"
  shows "\<not> g_held port_ghost (v_world v') sk"
proof -
  have "map_option (\<lambda>(t, v'). sim_held (v_world v')) demo_started = Some {}" by code_simp
  then have "sim_held (v_world v') = {}" unfolding assms by simp
  then show ?thesis by (simp add: port_ghost_def)
qed

lemma echo_whole_program_witness:
  "\<exists>s c. demo_run (echo_handler port_os) [[1, 2, 3], [4]] = Some s
    \<and> slab_get (l_connections (s_loops s ! 0)) 0 = Some c \<and> c_socket c = Some (Tcp 5)
    \<and> sim_pieces (s_world s) (Tcp 5) = [[1, 2, 3], [4]] \<and> avail c = []
    \<and> sim_sent (s_world s) (Tcp 5) @ concat (opt_list (c_out_buffer c)) = [1, 2, 3, 4]"
proof -
  let ?run = "demo_run (echo_handler port_os) [[1, 2, 3], [4]]"
  have facts: "map_option (\<lambda>s. (running s 0, map_option c_socket (slab_get (l_connections (s_loops s ! 0)) 0), sim_pieces (s_world s) (Tcp 5))) ?run
    = Some (True, Some (Some (Tcp 5)), [[1, 2, 3], [4]])" by code_simp
  then obtain s where s: "?run = Some s" by (cases ?run) simp_all
  with facts have ok: "running s 0" "sim_pieces (s_world s) (Tcp 5) = [[1, 2, 3], [4]]"
    and "map_option c_socket (slab_get (l_connections (s_loops s ! 0)) 0) = Some (Some (Tcp 5))" by simp_all
  then obtain c where c: "slab_get (l_connections (s_loops s ! 0)) 0 = Some c" "c_socket c = Some (Tcp 5)" by auto
  obtain t v' where run: "engine_run sim_reactor2 port_os False 0 (Some [0, 1]) port_engine port_env = (Ok t, v')"
    and reach: "calm_reaches sim_reactor2 port_os False (echo_handler port_os) (view port_ghost) (system_of t v') s"
    and d: "demo_started = Some (t, v')" using demo_run_reached [OF s, of sim_reactor2] .
  from echo_whole_program [OF _ port_streams_env port_streams(2) run port_new port_none [OF d] reach ok(1) c] s ok c
  show ?thesis by (simp add: port_ghost_def)
qed



end
