(* ===== verification/Spec2Isabelle.thy ===== *)
theory Spec2Isabelle
  imports LoopIO Engine Codec OptionsBuilder Worker Wakeup Bind EngineRun ChatRoom Address Echo Mains
    LoopStreams EchoRuns JsonRuns Delivery UnitTests EngineStart Ownership System
    ShutdownDue EngineStop SystemStreams
begin

text \<open>
  Verification development for rnet, an event-driven network library: a number of event loops, each
  with its own poller and its own connections, run the callbacks of an application; an acceptor
  hands new connections to them, or every loop accepts on its own; other threads reach a loop by
  commands and a wake-up; a pool of workers runs closures off the loops. Paths below are relative
  to \<open>src/src/\<close> of the repository, those of examples to \<open>src/examples/\<close>.

  \<^bold>\<open>How the parts interact.\<close> \<open>Engine::run\<close> (\<open>engine.rs\<close>) asks the options for cores, binds the listeners
  and creates one \<open>EventLoop\<close> per core, the acceptor when the balancing is done in user space, and
  the worker pool; it publishes the handles of loops and acceptor in the \<open>EngineHandler\<close> that the
  application was given. The acceptor takes connections off the listeners, asks its \<open>Balancer\<close> for
  a loop, sends it a \<open>Register\<close> command and wakes it. A loop sleeps in \<open>poll\<close>; it takes commands from
  an urgent and a common channel, accepts, reads and writes. Reading hands fresh bytes to the
  application in \<open>io_buffer\<close> and keeps what it left in \<open>in_buffer\<close>; writing tries the socket first and
  queues the rest in \<open>out_buffer\<close>, which later events drain. A descriptor (\<open>Gfd\<close>) names loop, slot
  and use of a slot, so that a command from another thread can be recognised as late.

  \<^bold>\<open>Conventions.\<close> A Rust function is a HOL function of the same name where HOL allows it. Its result
  is an \<open>outcome\<close>: a value, an \<open>io::Error\<close>, a panic, or divergence (theory \<open>Prelude\<close>); a function that
  changes state takes the state and answers it changed (type \<open>prog\<close>). Structs are records, enums
  datatypes; machine integers are words of their width (\<open>usize\<close> has 64 bits), lengths and slab keys
  natural numbers; bytes are 8-bit words, strings lists of characters. A channel is the list of its
  messages. Loops are structural recursion, \<open>function\<close> with a measure, or, where the kernel decides
  whether they end, \<open>partial_function (option)\<close>, in which not returning is \<open>None\<close>; that they return is
  then a theorem with the hypothesis it needs. No fuel is used.

  \<^bold>\<open>The outside world.\<close> System calls, mio, socket2, the slab crate, core_affinity and the clock are
  not in the repository. They are operations of the records \<open>os\<close> (theory \<open>Socket\<close>) and \<open>reactor\<close> (theory
  \<open>RunLoop\<close>) over an arbitrary type of worlds, and parameters of the definitions that use them. What
  the code relies on are named hypotheses: \<open>transport_ok\<close> (a write that answers \<open>n\<close> has accepted the
  first \<open>n\<close> bytes, a failed one none), \<open>read_ok\<close>, \<open>vacant_ok\<close> (the slab's next key is that of a vacant slot,
  and beyond \<open>2 ^ 24\<close> only when so many are taken, which matters to debug builds), \<open>reserve_ok\<close>, \<open>reactor_ok\<close>, \<open>handler_ok\<close> (a
  callback leaves the private fields of a connection alone), \<open>eintr_bounded\<close> (no endless run of
  \<open>Interrupted\<close>), \<open>delays_fit\<close> (the delays of \<open>on_tick\<close>, added to the clock, stay below \<open>INSTANT_END\<close>, where
  \<open>Instant\<close> ends and its addition panics), \<open>keeps_time\<close> (the clock does not go back, and a poll without
  events has used up its timeout). For statements about several sockets: \<open>streams_ok\<close> and \<open>isolated\<close> (a call on one socket
  leaves what the others have sent and received alone), \<open>accepts_fresh\<close> (an accepted socket is not in
  use), \<open>soft_writes\<close> (the peer is still there), \<open>others_respect\<close> (waiting changes no open stream),
  \<open>books_ok\<close> (only accepting opens a socket, only dropping closes it, and what is observed of one changes
  by calls on it alone), \<open>app_ok\<close> (callbacks open and close none and leave those of other connections
  alone), collected in \<open>sys_env\<close>, for servers of streams in \<open>streams_env\<close>; for the start of an engine \<open>grants\<close> (sockets, registrations, pollers
  and wakers are granted). The few others are introduced where they are used. Theory \<open>SimKernel\<close> is a scripted
  kernel that meets them; the witnesses apply every theorem in it.

  \<^bold>\<open>Theories.\<close>

  \<^item> \<open>Prelude\<close>: outcomes, programs, their sequencing, partial and total triples (\<open>keeps\<close>, with a panic
    allowed in named states \<open>keeps_but\<close>, and \<open>triple\<close>), byte buffers. \<open>Text\<close>: printing and parsing of
    numbers, \<open>trim\<close>, \<open>split_once\<close>, and what is printed of a path that may not be UTF-8.

  \<^item> \<open>Gfd\<close> (\<open>gfd.rs\<close>): packing and unpacking, uniqueness of issued descriptors.

  \<^item> \<open>Socket\<close> (\<open>socket.rs\<close>), \<open>Poller\<close> (\<open>poller.rs\<close>): the socket wrapper, registration, tokens, the wake flag.

  \<^item> \<open>Command\<close> (\<open>command.rs\<close>, \<open>EventLoopHandle\<close> in \<open>event_loop.rs\<close>): priorities, the two channels, \<open>trigger\<close>.
    Accepted commands are received, urgent ones first.

  \<^item> \<open>Connection\<close>, \<open>Inbound\<close>, \<open>Outbound\<close> (\<open>connection.rs\<close>): \<open>Inbound\<close> refines \<open>next_contiguous\<close>, \<open>next_vectored\<close>,
    \<open>peek\<close>, \<open>discard\<close> and \<open>read\<close> to one stream of unread bytes (locale \<open>readable_stream\<close>); \<open>Outbound\<close> shows that
    the four writing methods (locale \<open>byte_sink\<close>) and \<open>flush\<close> keep accepted plus queued bytes equal to
    what was written, and when \<open>flush\<close> returns and delivers.

  \<^item> \<open>Slab\<close>, \<open>Handler\<close> (\<open>handler.rs\<close>), \<open>Listener\<close> and \<open>Bind\<close> (\<open>listener.rs\<close>): slots as a list of options, the
    callbacks, listeners as sources, and what binding asks of the kernel.

  \<^item> \<open>EventLoop\<close> (registration, closing, shutdown, reading, writing, commands, accepting, events of
    \<open>event_loop.rs\<close>), \<open>RunLoop\<close> (construction, ticker, one turn, \<open>run\<close>). \<open>LoopInv\<close> states the invariant of
    a loop (\<open>loop_inv\<close>: slots and descriptors agree, the connection count is the number of open
    slots, recycled connections have no socket, the scratch buffer is within its capacity);
    \<open>LoopSafety\<close> proves that every step keeps it and that no command and no event panics, but in a debug
    build whose loop has \<open>2 ^ 24\<close> connections open (\<open>crowded\<close>); \<open>RunLoop\<close> adds the ticker, which panics when
    the next tick is past the last instant (\<open>may_panic\<close>). \<open>LoopTheorems\<close> and \<open>LoopIO\<close> draw the
    consequences: safety of all reachable states, closing, registering, addressing by descriptor,
    shutdown, ticks, in-order delivery with a true reason for stopping, write batches, registered interest.

  \<^item> \<open>Wakeup\<close>: the wake-up protocol between \<open>trigger\<close> and \<open>poll\<close>, cut into atomic steps and interleaved
    freely; its invariant says that a raised flag has a cause still on its way.

  \<^item> \<open>Balancer\<close> (\<open>balancer.rs\<close>), \<open>Acceptor\<close> (\<open>acceptor.rs\<close>): fairness of round robin, least connections;
    dispatching hands every waiting connection to the worker that the balancer chose.

  \<^item> \<open>Worker\<close> (\<open>worker.rs\<close>): submitters, bounded channels and worker threads as a labelled step relation;
    each shard is a queue that is drained on shutdown.

  \<^item> \<open>Options\<close>, \<open>OptionsBuilder\<close> (\<open>options.rs\<close>), \<open>SocketAddr\<close>, \<open>Address\<close> (\<open>socket_addr.rs\<close>): rounding of sizes,
    choice of cores, parsing and printing of addresses (a Unix path comes back when it is UTF-8).

  \<^item> \<open>Engine\<close>, \<open>EngineRun\<close> (\<open>engine.rs\<close>): builder, handle, routing of commands, shutdown, start-up.

  \<^item> \<open>Framing\<close>, \<open>Codec\<close> (\<open>codec.rs\<close>, \<open>json-codec.rs\<close>): a locale for self-delimiting frames, interpreted on the
    length-prefixed codec and on the lines of the chat room; the server built on it.

  \<^item> \<open>ChatRoom\<close> (\<open>chat-room.rs\<close>), \<open>Echo\<close> (\<open>echo-rnet.rs\<close>, \<open>unix-echo.rs\<close>, \<open>async-echo-rnet.rs\<close>, \<open>submit.rs\<close>),
    \<open>Mains\<close> (the \<open>main\<close> functions): applications that run through the layers above. \<open>Echo\<close> composes the
    read loop, the receive buffers and the send queue: what the peer gets is what it sent.

  \<^item> \<open>LoopStreams\<close>: a locale for applications that answer a stream with a stream, and its consequence for
    whole runs of a loop, over any connections, commands and spurious events. \<open>EchoRuns\<close> and \<open>JsonRuns\<close>
    interpret it on the echo servers and on the JSON server. \<open>Delivery\<close> follows a line of the chat room
    and an asynchronous echo from the callback through pool and commands to the other streams.

  \<^item> \<open>UnitTests\<close>, \<open>EngineStart\<close>: the repository's own tests as definitions, and proofs that they pass (or
    that they panic), with what each needs of the machine; when \<open>Engine::run\<close> reaches its joins.

  \<^item> \<open>Ownership\<close>, \<open>System\<close>: the multiset of sockets that a loop owns, in slots and in pending commands, and
    what each operation does to it; then all loops, the acceptor, other threads and the network as one
    step relation, in whose reachable states every open connection has exactly one owner.

  \<^item> \<open>ShutdownDue\<close>, \<open>EngineStop\<close>: no operation of a loop overtakes or loses a pending \<open>Shutdown\<close>; hence an
    engine that is told to stop stops, with a bound on what each loop still does.

  \<^item> \<open>SystemStreams\<close>: the contract of \<open>LoopStreams\<close> carried to the running program. A connection has one owner,
    so the promise that a callback makes of one read becomes a promise for every connection of every
    loop, however the threads interleave; the echo servers and the JSON server are followed from
    \<open>Engine::run\<close> to the bytes that their peers get.

  \<^bold>\<open>Found while modelling.\<close> Beside the theorems that hold, some state where the code falls short:
  commands that name only a slot reach whoever reuses it (\<open>stale_close_kills_stranger\<close>, and the chat
  room provokes it, \<open>chat_close_queues_close\<close>); an interrupted read closes the connection; an empty
  write behind queued output makes the next flush fail; a reply to a \<open>Read\<close> command waits for
  unrelated input; a complete message waits for the next read; a failed wake-up strands a loop; the
  token of listener 1024 is the waker's; loop 256 is misaddressed; tasks submitted before the pool
  exists are dropped; a pool without workers makes \<open>submit\<close> panic; sizes above \<open>2 ^ 63\<close> overflow; a delay
  of \<open>on_tick\<close> past the last instant panics the loop (\<open>ticker_on_time\<close>); a debug build panics at \<open>2 ^ 24\<close>
  connections in a loop; a Unix path that is not UTF-8 is not read back (\<open>address_roundtrip\<close>).

  \<^bold>\<open>Not modelled.\<close> The slab crate (a list of options stands for it, and its choice of a slot is an
  operation of the world); \<open>Poller::new\<close>, \<open>Waker::new\<close>, the events buffer and polling (operations of the
  reactor); printed messages; \<open>clap\<close> and \<open>serde_json\<close>; the branch of
  \<open>get_core_ids\<close> for systems other than Linux; \<open>lib.rs\<close>, which only names modules;
  the test of the memory layout of \<open>Gfd\<close>. Memory orderings
  weaker than interleaving do not arise: the flag is accessed with \<open>SeqCst\<close>. \<open>MONO_SEQ\<close>, shared by all
  loops, is in a loop's state: a loop sees the values it draws, and two loops' descriptors differ in
  the number of the loop.

  In \<open>System\<close> the loops share one copy of each handle, as \<open>Arc\<close> and the channels do, and the worker
  threads appear by the commands they send; their own queues are the subject of \<open>Worker\<close>. A loop is cut
  between commands, events and ticks; what other threads do to a channel or a wake flag while such a
  step is under way is not modelled there, but in \<open>Wakeup\<close>, whose steps are single atomic accesses.
\<close>

end
